(* ===== verification/Prelude.thy ===== *)
theory Prelude
  imports Main "HOL-Library.Word"
begin

text \<open>
  Shared vocabulary of the development: the machine-integer types of the kernel
  (\<^verbatim>\<open>kernel/types.h\<close>), the outcome type of a C function, sequencing of outcomes, and
  the facts on words, byte regions and finite counts that the components use.

  A C function is a HOL function on an explicit state. It either returns a value or
  ends in a \<open>fault\<close>:
  \<^item> \<open>Panic m\<close>: the code calls \<^verbatim>\<open>panic(m)\<close>;
  \<^item> \<open>Wild\<close>: the code dereferences a null pointer or indexes an array out of its
    bounds, so the C program has no defined behaviour from there on;
  \<^item> \<open>Spin\<close>: the code waits for a lock or an event that only another thread can
    provide;
  \<^item> \<open>Fuel\<close>: a recursion bound of the model is exhausted (only for functions whose C
    recursion has no bound of its own; the text at their definition says which bound is enough).
\<close>

unbundle bit_operations_syntax

type_synonym u8 = "8 word"
type_synonym u16 = "16 word"
type_synonym u32 = "32 word"
type_synonym u64 = "64 word"

datatype fault = Panic string | Wild | Spin | Fuel

type_synonym 'a res = "fault + 'a"

named_theorems wordarith \<open>conversions of word terms to natural numbers\<close>
named_theorems frame \<open>what an operation leaves unchanged\<close>


section \<open>Sequencing outcomes\<close>

definition ebind :: "'a res \<Rightarrow> ('a \<Rightarrow> 'b res) \<Rightarrow> 'b res" where
  "ebind x f = (case x of Inl e \<Rightarrow> Inl e | Inr a \<Rightarrow> f a)"

lemma ebind_simps [simp]:
  "ebind (Inl e) f = Inl e"
  "ebind (Inr a) f = f a"
  by (simp_all add: ebind_def)

lemma ebind_cong [fundef_cong]:
  "x = x' \<Longrightarrow> (\<And>a. x' = Inr a \<Longrightarrow> f a = g a) \<Longrightarrow> ebind x f = ebind x' g"
  by (cases x') (auto simp: ebind_def)

lemma ebind_eq_Inr: "ebind x f = Inr y \<longleftrightarrow> (\<exists>a. x = Inr a \<and> f a = Inr y)"
  by (cases x) auto

lemma ebind_eq_Inl: "ebind x f = Inl e \<longleftrightarrow> x = Inl e \<or> (\<exists>a. x = Inr a \<and> f a = Inl e)"
  by (cases x) auto

lemma ebind_assoc: "ebind (ebind x f) g = ebind x (\<lambda>a. ebind (f a) g)"
  by (cases x) auto

text \<open>
  An access to element \<open>i\<close> of a C array of \<open>n\<close> elements: the C index is a signed
  integer, and an index outside the array has no defined behaviour.
\<close>

definition arrayix :: "nat \<Rightarrow> int \<Rightarrow> nat res" where
  "arrayix n i = (if 0 \<le> i \<and> i < int n then Inr (nat i) else Inl Wild)"

lemma arrayix_ok [simp]: "i < n \<Longrightarrow> arrayix n (int i) = Inr i"
  by (simp add: arrayix_def)

lemma arrayix_Inr_iff: "arrayix n i = Inr k \<longleftrightarrow> k < n \<and> i = int k"
  by (auto simp: arrayix_def)


section \<open>Words\<close>

lemma and_not_mask_push: "(a :: 'a::len word) AND NOT (mask n) = push_bit n (drop_bit n a)"
  by (rule bit_word_eqI) (auto simp: bit_simps)

lemma unat_push_drop:
  "unat (push_bit n (drop_bit n (a :: 'a::len word))) = unat a div 2 ^ n * 2 ^ n"
proof -
  have le: "unat a div 2 ^ n * 2 ^ n \<le> unat a" by simp
  have lt: "unat a < 2 ^ LENGTH('a)" by (rule unsigned_less)
  have "unat (push_bit n (drop_bit n a)) = take_bit LENGTH('a) (unat a div 2 ^ n * 2 ^ n)"
    unfolding unsigned_push_bit_eq unat_drop_bit_eq by (simp only: push_bit_eq_mult drop_bit_eq_div)
  also have "\<dots> = unat a div 2 ^ n * 2 ^ n"
    using le_less_trans [OF le lt] by (simp add: take_bit_nat_eq_self)
  finally show ?thesis .
qed

lemma unat_and_not_mask:
  "unat ((a :: 'a::len word) AND NOT (mask n)) = unat a div 2 ^ n * 2 ^ n"
  by (simp only: and_not_mask_push unat_push_drop)

lemma unat_u64_less [simp]: "unat (a :: u64) < 18446744073709551616"
  using unsigned_less [of a] by simp

lemma unat_u8_less [simp]: "unat (a :: u8) < 256"
  using unsigned_less [of a] by simp

lemma unat_u64_add [wordarith]:
  "unat (a + b :: u64) = (unat a + unat b) mod 18446744073709551616"
  by (simp add: unat_word_ariths)

lemma unat_u64_add_nowrap:
  "unat a + unat b < 18446744073709551616 \<Longrightarrow> unat (a + b :: u64) = unat a + unat b"
  by (simp add: unat_u64_add)

lemma unat_of_nat_u64 [simp]: "n < 18446744073709551616 \<Longrightarrow> unat (of_nat n :: u64) = n"
  by (simp add: unat_of_nat)

lemma u64_eq_iff: "a = b \<longleftrightarrow> unat (a :: u64) = unat b"
  by (simp add: word_unat_eq_iff)

lemma of_nat_unat_u64 [simp]: "of_nat (unat a) = (a :: u64)"
  by simp

text \<open>
  The region of \<open>n\<close> bytes at \<open>p\<close>: an address is in it iff its distance from \<open>p\<close>,
  as the machine subtracts, is below \<open>n\<close>.
\<close>

definition region :: "u64 \<Rightarrow> nat \<Rightarrow> u64 set" where
  "region p n = {a. unat (a - p) < n}"

lemma region_iff [simp]: "a \<in> region p n \<longleftrightarrow> unat (a - p) < n"
  by (simp add: region_def)

lemma region_nat:
  fixes a p :: u64
  assumes "unat p + n \<le> 18446744073709551616"
  shows "unat (a - p) < n \<longleftrightarrow> unat p \<le> unat a \<and> unat a < unat p + n"
  using assms unat_u64_less [of a] unat_u64_less [of p]
  by (auto simp: unat_sub_if')

lemma region_disjoint:
  assumes "unat p + n \<le> unat q" "unat q + m \<le> 18446744073709551616"
  shows "region p n \<inter> region q m = {}"
proof -
  have "unat p + n \<le> 18446744073709551616" using assms by linarith
  then show ?thesis using assms by (auto simp: region_nat)
qed


section \<open>Finite counts\<close>

lemma card_Collect_less_le: "card {i. i < n \<and> P i} \<le> (n :: nat)"
proof -
  have "card {i. i < n \<and> P i} \<le> card {..<n}" by (rule card_mono) auto
  then show ?thesis by simp
qed

lemma finite_Collect_less: "finite {i. i < (n :: nat) \<and> P i}"
  by (rule finite_subset [of _ "{..<n}"]) auto

lemma card_flip_in:
  fixes n :: nat
  assumes "i < n" "\<not> P i" "Q = P(i := True)"
  shows "card {k. k < n \<and> Q k} = Suc (card {k. k < n \<and> P k})"
proof -
  let ?A = "{k. k < n \<and> P k}"
  have eq: "{k. k < n \<and> Q k} = insert i ?A" using assms by auto
  have "finite ?A" by (rule finite_Collect_less)
  moreover have "i \<notin> ?A" using assms by simp
  ultimately show ?thesis unfolding eq by (rule card_insert_disjoint)
qed

lemma card_flip_out:
  fixes n :: nat
  assumes "i < n" "P i" "Q = P(i := False)"
  shows "card {k. k < n \<and> P k} = Suc (card {k. k < n \<and> Q k})"
proof (rule card_flip_in)
  show "P = Q(i := True)" using assms by (auto simp: fun_eq_iff)
qed (use assms in simp_all)

section \<open>Ring buffers with counters that wrap around\<close>

lemma unat_ring_index:
  fixes a :: "'a::len word"
  assumes "m dvd 2 ^ LENGTH('a)" "0 < m" "m < 2 ^ LENGTH('a)"
  shows "unat ((a + of_nat i) mod of_nat m) = (unat a + i) mod m"
proof -
  have "unat (of_nat m :: 'a word) = m" using assms(3) by (simp add: unat_of_nat)
  then have "unat ((a + of_nat i) mod of_nat m) = (unat a + i) mod 2 ^ LENGTH('a) mod m"
    by (simp add: unat_mod_distrib unat_word_ariths unat_of_nat mod_add_right_eq)
  also have "\<dots> = (unat a + i) mod m" by (rule mod_mod_cancel) (rule assms(1))
  finally show ?thesis .
qed

lemma ring_index_inj:
  assumes "i < m" "j < m" "(n + i) mod m = (n + j) mod (m :: nat)"
  shows "i = j"
proof -
  have "i mod m = j mod m" using assms(3) by (simp add: mod_add_left_eq nat_mod_eq_iff)
  then show ?thesis using assms(1,2) by simp
qed

end
