(* ===== verification/Riscv.thy ===== *)
theory Riscv
  imports Prelude
begin

text \<open>
  The hardware vocabulary of the kernel: the constants and macros of
  \<^verbatim>\<open>kernel/riscv.h\<close>, \<^verbatim>\<open>kernel/memlayout.h\<close>, \<^verbatim>\<open>kernel/param.h\<close>,
  \<^verbatim>\<open>kernel/fcntl.h\<close> and \<^verbatim>\<open>kernel/types.h\<close> that the components use, over 64-bit words.  The lemmas
  turn the bit tricks (rounding, page-table indices, packing a physical address into a
  page-table entry) into arithmetic, and show that packing loses nothing.
\<close>

section \<open>Constants\<close>

definition PGSIZE :: u64 where PGSIZE_def [simp]: "PGSIZE = 4096"
definition HUGEPGSIZE :: u64 where HUGEPGSIZE_def [simp]: "HUGEPGSIZE = 2097152"

definition PTE_V :: u64 where PTE_V_def [simp]: "PTE_V = 1"
definition PTE_R :: u64 where PTE_R_def [simp]: "PTE_R = 2"
definition PTE_W :: u64 where PTE_W_def [simp]: "PTE_W = 4"
definition PTE_X :: u64 where PTE_X_def [simp]: "PTE_X = 8"
definition PTE_U :: u64 where PTE_U_def [simp]: "PTE_U = 16"
definition PTE_CoW :: u64 where PTE_CoW_def [simp]: "PTE_CoW = 0x300"

definition MAXVA :: u64 where MAXVA_def [simp]: "MAXVA = 0x4000000000"

definition FLAG_MASK :: u64 where FLAG_MASK_def [simp]: "FLAG_MASK = 0xF0"
definition PROT_MASK :: u64 where PROT_MASK_def [simp]: "PROT_MASK = 0x0F"
definition HUGE_MASK :: u64 where HUGE_MASK_def [simp]: "HUGE_MASK = 0x100"

definition KERNBASE :: u64 where KERNBASE_def [simp]: "KERNBASE = 0x80000000"
definition PHYSTOP :: u64 where PHYSTOP_def [simp]: "PHYSTOP = KERNBASE + 128 * 1024 * 1024"
definition TRAMPOLINE :: u64 where TRAMPOLINE_def [simp]: "TRAMPOLINE = MAXVA - PGSIZE"
definition TRAPFRAME :: u64 where TRAPFRAME_def [simp]: "TRAPFRAME = TRAMPOLINE - PGSIZE"
definition KSTACK :: "u64 \<Rightarrow> u64" where "KSTACK p = TRAMPOLINE - (p + 1) * 2 * PGSIZE"

definition UART0 :: u64 where UART0_def [simp]: "UART0 = 0x10000000"
definition VIRTIO0 :: u64 where VIRTIO0_def [simp]: "VIRTIO0 = 0x10001000"
definition PLIC :: u64 where PLIC_def [simp]: "PLIC = 0x0c000000"

definition NPROC :: nat where NPROC_def [simp]: "NPROC = 64"
definition NCPU :: nat where NCPU_def [simp]: "NCPU = 8"
definition NOFILE :: nat where NOFILE_def [simp]: "NOFILE = 16"
definition NFILE :: nat where NFILE_def [simp]: "NFILE = 100"
definition NINODE :: nat where NINODE_def [simp]: "NINODE = 50"

definition PROT_READ :: u64 where PROT_READ_def [simp]: "PROT_READ = 0x0001"
definition PROT_WRITE :: u64 where PROT_WRITE_def [simp]: "PROT_WRITE = 0x0002"
definition MAP_PRIVATE :: u64 where MAP_PRIVATE_def [simp]: "MAP_PRIVATE = 0x0010"
definition MAP_SHARED :: u64 where MAP_SHARED_def [simp]: "MAP_SHARED = 0x0020"
definition MAP_HUGEPAGE :: u64 where MAP_HUGEPAGE_def [simp]: "MAP_HUGEPAGE = 0x0100"

definition O_RDONLY :: u32 where "O_RDONLY = 0"
definition O_WRONLY :: u32 where "O_WRONLY = 1"
definition O_RDWR :: u32 where "O_RDWR = 2"
definition O_CREATE :: u32 where "O_CREATE = 0x200"
definition O_TRUNC :: u32 where "O_TRUNC = 0x400"


section \<open>Macros\<close>

definition PGROUNDUP :: "u64 \<Rightarrow> u64" where
  "PGROUNDUP sz = (sz + PGSIZE - 1) AND NOT (PGSIZE - 1)"

definition PGROUNDDOWN :: "u64 \<Rightarrow> u64" where
  "PGROUNDDOWN a = a AND NOT (PGSIZE - 1)"

definition HUGEPGROUNDUP :: "u64 \<Rightarrow> u64" where
  "HUGEPGROUNDUP sz = (sz + HUGEPGSIZE - 1) AND NOT (HUGEPGSIZE - 1)"

definition HUGEPGROUNDDOWN :: "u64 \<Rightarrow> u64" where
  "HUGEPGROUNDDOWN a = a AND NOT (HUGEPGSIZE - 1)"

definition PA2PTE :: "u64 \<Rightarrow> u64" where
  "PA2PTE pa = push_bit 10 (drop_bit 12 pa)"

definition PTE2PA :: "u64 \<Rightarrow> u64" where
  "PTE2PA pte = push_bit 12 (drop_bit 10 pte)"

definition PTE_FLAGS :: "u64 \<Rightarrow> u64" where
  "PTE_FLAGS pte = pte AND 0x3FF"

definition PXSHIFT :: "nat \<Rightarrow> nat" where
  "PXSHIFT level = 12 + 9 * level"

definition PX :: "nat \<Rightarrow> u64 \<Rightarrow> u64" where
  "PX level va = drop_bit (PXSHIFT level) va AND 0x1FF"


section \<open>Rounding\<close>

lemma mask12: "(PGSIZE - 1 :: u64) = mask 12"
  by (simp add: mask_eq_exp_minus_1)

lemma mask21: "(HUGEPGSIZE - 1 :: u64) = mask 21"
  by (simp add: mask_eq_exp_minus_1)

lemma unat_PGROUNDDOWN [wordarith]: "unat (PGROUNDDOWN a) = unat a div 4096 * 4096"
  unfolding PGROUNDDOWN_def mask12 unat_and_not_mask by simp

lemma unat_HUGEPGROUNDDOWN [wordarith]: "unat (HUGEPGROUNDDOWN a) = unat a div 2097152 * 2097152"
  unfolding HUGEPGROUNDDOWN_def mask21 unat_and_not_mask by simp

lemma unat_PGROUNDUP [wordarith]:
  assumes "unat sz + 4095 < 18446744073709551616"
  shows "unat (PGROUNDUP sz) = (unat sz + 4095) div 4096 * 4096"
proof -
  have "unat (sz + PGSIZE - 1) = unat (sz + 4095)" by (simp add: add_diff_eq [symmetric])
  also have "\<dots> = unat sz + 4095" using assms by (subst unat_u64_add_nowrap) auto
  finally show ?thesis unfolding PGROUNDUP_def mask12 unat_and_not_mask by simp
qed

lemma unat_HUGEPGROUNDUP [wordarith]:
  assumes "unat sz + 2097151 < 18446744073709551616"
  shows "unat (HUGEPGROUNDUP sz) = (unat sz + 2097151) div 2097152 * 2097152"
proof -
  have "unat (sz + HUGEPGSIZE - 1) = unat (sz + 2097151)" by (simp add: add_diff_eq [symmetric])
  also have "\<dots> = unat sz + 2097151" using assms by (subst unat_u64_add_nowrap) auto
  finally show ?thesis unfolding HUGEPGROUNDUP_def mask21 unat_and_not_mask by simp
qed

text \<open>Page-aligned addresses, as the code tests them (\<^verbatim>\<open>a % PGSIZE == 0\<close>).\<close>

definition paligned :: "u64 \<Rightarrow> bool" where
  "paligned a \<longleftrightarrow> a mod PGSIZE = 0"

definition haligned :: "u64 \<Rightarrow> bool" where
  "haligned a \<longleftrightarrow> a mod HUGEPGSIZE = 0"

lemma paligned_nat [wordarith]: "paligned a \<longleftrightarrow> unat a mod 4096 = 0"
  by (simp add: paligned_def u64_eq_iff unat_mod_distrib)

lemma haligned_nat [wordarith]: "haligned a \<longleftrightarrow> unat a mod 2097152 = 0"
  by (simp add: haligned_def u64_eq_iff unat_mod_distrib)

lemma haligned_paligned: "haligned a \<Longrightarrow> paligned a"
proof -
  assume "haligned a"
  then have "2097152 dvd unat a" by (simp add: haligned_nat mod_eq_0_iff_dvd)
  moreover have "(4096 :: nat) dvd 2097152" by simp
  ultimately show ?thesis by (simp add: paligned_nat mod_eq_0_iff_dvd) (erule dvd_trans [rotated], simp)
qed

lemma paligned_PGROUNDDOWN [simp]: "paligned (PGROUNDDOWN a)"
  by (simp add: wordarith)

lemma haligned_HUGEPGROUNDDOWN [simp]: "haligned (HUGEPGROUNDDOWN a)"
  by (simp add: wordarith)

lemma PGROUNDDOWN_aligned: "paligned a \<Longrightarrow> PGROUNDDOWN a = a"
  by (simp add: u64_eq_iff wordarith) (metis dvd_div_mult_self mod_0_imp_dvd)

lemma PGROUNDDOWN_bounds:
  "unat (PGROUNDDOWN a) \<le> unat a" "unat a < unat (PGROUNDDOWN a) + 4096"
  by (simp_all add: wordarith dividend_less_div_times)


section \<open>Page-table entries\<close>

lemma unat_drop_mask9: "unat (drop_bit n (a :: u64) AND 0x1FF) = unat a div 2 ^ n mod 512"
proof -
  have "(0x1FF :: u64) = mask 9" by (simp add: mask_eq_exp_minus_1)
  then have eq: "drop_bit n a AND 0x1FF = take_bit 9 (drop_bit n a)"
    by (simp only: take_bit_eq_mask)
  show ?thesis
    unfolding eq unsigned_take_bit_eq unat_drop_bit_eq
    by (simp only: take_bit_eq_mod drop_bit_eq_div) simp
qed

lemma unat_PX [wordarith]: "unat (PX l va) = unat va div 2 ^ (12 + 9 * l) mod 512"
  unfolding PX_def PXSHIFT_def by (rule unat_drop_mask9)

lemma PX_less [simp]: "unat (PX l va) < 512"
  by (simp add: unat_PX)

text \<open>
  Below \<open>MAXVA\<close> the three indices determine the page: two addresses with the same
  indices lie in the same page.
\<close>

lemma PX_page_eq:
  assumes "va < MAXVA" "va' < MAXVA"
  shows "PX 2 va = PX 2 va' \<and> PX 1 va = PX 1 va' \<and> PX 0 va = PX 0 va'
    \<longleftrightarrow> PGROUNDDOWN va = PGROUNDDOWN va'"
proof -
  have b: "unat va < 274877906944" "unat va' < 274877906944"
    using assms by (simp_all add: word_less_nat_alt)
  have split: "n div 4096 = (n div 1073741824 mod 512) * 262144 + (n div 2097152 mod 512) * 512
      + n div 4096 mod 512" if "n < 274877906944" for n :: nat
  proof -
    have "n div 4096 = n div 4096 div 512 * 512 + n div 4096 mod 512" by simp
    moreover have "n div 4096 div 512 = n div 2097152" by (simp add: div_mult2_eq [symmetric])
    moreover have "n div 2097152 = n div 2097152 div 512 * 512 + n div 2097152 mod 512" by simp
    moreover have "n div 2097152 div 512 = n div 1073741824" by (simp add: div_mult2_eq [symmetric])
    moreover have "n div 1073741824 mod 512 = n div 1073741824" using that by simp
    ultimately show ?thesis by linarith
  qed
  have low: "n div 2 ^ (12 + 9 * 2) mod 512 = n div 1073741824 mod 512"
       "n div 2 ^ (12 + 9 * 1) mod 512 = n div 2097152 mod 512"
       "n div 2 ^ (12 + 9 * 0) mod 512 = n div 4096 mod 512" for n :: nat
    by simp_all
  have eq: "(n div 1073741824 mod 512 = m div 1073741824 mod 512
      \<and> n div 2097152 mod 512 = m div 2097152 mod 512
      \<and> n div 4096 mod 512 = m div 4096 mod 512) \<longleftrightarrow> n div 4096 = m div 4096"
    if "n < 274877906944" "m < 274877906944" for n m :: nat
  proof
    assume "n div 1073741824 mod 512 = m div 1073741824 mod 512
      \<and> n div 2097152 mod 512 = m div 2097152 mod 512
      \<and> n div 4096 mod 512 = m div 4096 mod 512"
    then show "n div 4096 = m div 4096" using split [OF that(1)] split [OF that(2)] by metis
  next
    assume *: "n div 4096 = m div 4096"
    have "k div 1073741824 = k div 4096 div 262144" "k div 2097152 = k div 4096 div 512"
      for k :: nat by (simp_all add: div_mult2_eq [symmetric])
    with * show "n div 1073741824 mod 512 = m div 1073741824 mod 512
      \<and> n div 2097152 mod 512 = m div 2097152 mod 512
      \<and> n div 4096 mod 512 = m div 4096 mod 512" by simp
  qed
  show ?thesis
    unfolding u64_eq_iff unat_PX unat_PGROUNDDOWN low using eq [OF b] by simp
qed

lemma take_bit_of_less: "w < 1024 \<Longrightarrow> take_bit 10 (w :: u64) = w"
proof -
  assume "w < 1024"
  then have "unat w < 2 ^ 10" by (simp add: word_less_nat_alt)
  then show ?thesis by (simp add: u64_eq_iff unsigned_take_bit_eq take_bit_nat_eq_self)
qed

lemma bit_flags: "w < 1024 \<Longrightarrow> bit (w :: u64) n \<Longrightarrow> n < 10"
  by (metis bit_take_bit_iff take_bit_of_less)

text \<open>
  Packing a page-aligned address and ten flag bits into an entry and unpacking them
  gives both back.
\<close>

lemma paligned_bit: "paligned pa \<Longrightarrow> bit pa n \<Longrightarrow> 12 \<le> n"
proof -
  assume a: "paligned pa" and b: "bit pa n"
  have "take_bit 12 pa = 0"
    using a by (simp add: paligned_def take_bit_eq_mod)
  then have "\<not> bit (take_bit 12 pa) n" by simp
  then show ?thesis using b by (simp add: bit_take_bit_iff)
qed

lemma PTE2PA_PA2PTE:
  assumes "paligned pa" "fl < 1024"
  shows "PTE2PA (PA2PTE pa OR fl) = pa"
proof (rule bit_word_eqI)
  fix n assume n: "n < LENGTH(64)"
  have f: "\<not> bit fl (n - 12 + 10)" if "12 \<le> n"
    using bit_flags [OF assms(2)] by fastforce
  have "bit (PTE2PA (PA2PTE pa OR fl)) n \<longleftrightarrow> 12 \<le> n \<and> bit pa n"
    using n f by (auto simp: PTE2PA_def PA2PTE_def bit_simps)
  also have "\<dots> \<longleftrightarrow> bit pa n" using paligned_bit [OF assms(1)] by blast
  finally show "bit (PTE2PA (PA2PTE pa OR fl)) n = bit pa n" .
qed

lemma PTE_FLAGS_PA2PTE:
  assumes "fl < 1024"
  shows "PTE_FLAGS (PA2PTE pa OR fl) = fl"
proof -
  have m: "(0x3FF :: u64) = mask 10" by (simp add: mask_eq_exp_minus_1)
  have "take_bit 10 (PA2PTE pa OR fl) = take_bit 10 fl"
    by (rule bit_word_eqI) (auto simp: PA2PTE_def bit_simps)
  then show ?thesis
    unfolding PTE_FLAGS_def m by (simp only: take_bit_eq_mask [symmetric] take_bit_of_less [OF assms])
qed

lemma paligned_PTE2PA [simp]: "paligned (PTE2PA pte)"
proof -
  have "take_bit 12 (PTE2PA pte) = 0"
    by (rule bit_word_eqI) (auto simp: PTE2PA_def bit_simps)
  then show ?thesis by (simp add: paligned_def take_bit_eq_mod)
qed

end
