(* ===== verification/Spinlock.thy ===== *)
theory Spinlock
  imports Riscv
begin

text \<open>
  \<^verbatim>\<open>kernel/spinlock.c\<close> and the per-CPU part of \<^verbatim>\<open>kernel/proc.h\<close>: spin locks,
  nested disabling of interrupts, and mutual exclusion between harts.

  The spin locks of the kernel are global objects or fields of global tables; a
  \<open>lockid\<close> names the object.  The state holds every lock, the \<^verbatim>\<open>struct cpu\<close> of every
  hart and the hart that is executing (register \<^verbatim>\<open>tp\<close>).  The field \<open>sie\<close> is the
  hart's \<^verbatim>\<open>SSTATUS_SIE\<close> bit, which \<^verbatim>\<open>intr_on\<close>, \<^verbatim>\<open>intr_off\<close> and \<^verbatim>\<open>intr_get\<close> of
  \<^verbatim>\<open>riscv.h\<close> set, clear and read.  The saved \<^verbatim>\<open>context\<close> of a \<^verbatim>\<open>struct cpu\<close> is used
  by the assembly routine \<^verbatim>\<open>swtch\<close> only and is not modelled.

  Later components extend the record \<open>hw\<close>, so these operations apply to their states
  unchanged.
\<close>

datatype lockid =
    Lk_kmem | Lk_pid | Lk_wait | Lk_mmap | Lk_ticks | Lk_ftable | Lk_itable | Lk_bcache
  | Lk_log | Lk_cons | Lk_uart | Lk_vdisk | Lk_pr
  | Lk_proc nat     \<comment> \<open>\<^verbatim>\<open>proc[i].lock\<close>\<close>
  | Lk_pipe u64     \<comment> \<open>the lock of the \<^verbatim>\<open>struct pipe\<close> at this address\<close>
  | Lk_sleep nat    \<comment> \<open>the spin lock inside a sleep lock\<close>

record spinlock =
  sl_locked :: bool
  sl_name :: string
  sl_cpu :: "nat option"

record cpu =
  cpu_proc :: "nat option"
  noff :: nat
  intena :: bool
  sie :: bool

record hw =
  locks :: "lockid \<Rightarrow> spinlock"
  cpus :: "nat \<Rightarrow> cpu"
  hartid :: nat


section \<open>Interrupts and nesting\<close>

definition mycpu :: "'a hw_scheme \<Rightarrow> cpu" where
  "mycpu s = cpus s (hartid s)"

definition set_mycpu :: "cpu \<Rightarrow> 'a hw_scheme \<Rightarrow> 'a hw_scheme" where
  "set_mycpu c s = s\<lparr>cpus := (cpus s)(hartid s := c)\<rparr>"

definition intr_get :: "'a hw_scheme \<Rightarrow> bool" where
  "intr_get s = sie (mycpu s)"

definition intr_off :: "'a hw_scheme \<Rightarrow> 'a hw_scheme" where
  "intr_off s = set_mycpu ((mycpu s)\<lparr>sie := False\<rparr>) s"

definition intr_on :: "'a hw_scheme \<Rightarrow> 'a hw_scheme" where
  "intr_on s = set_mycpu ((mycpu s)\<lparr>sie := True\<rparr>) s"

definition push_off :: "'a hw_scheme \<Rightarrow> 'a hw_scheme" where
  "push_off s =
     (let old = intr_get s;
          s = intr_off s;
          s = (if noff (mycpu s) = 0 then set_mycpu ((mycpu s)\<lparr>intena := old\<rparr>) s else s)
      in set_mycpu ((mycpu s)\<lparr>noff := noff (mycpu s) + 1\<rparr>) s)"

definition pop_off :: "'a hw_scheme \<Rightarrow> 'a hw_scheme res" where
  "pop_off s =
     (if intr_get s then Inl (Panic ''pop_off - interruptible'')
      else if noff (mycpu s) < 1 then Inl (Panic ''pop_off'')
      else let s = set_mycpu ((mycpu s)\<lparr>noff := noff (mycpu s) - 1\<rparr>) s
           in Inr (if noff (mycpu s) = 0 \<and> intena (mycpu s) then intr_on s else s))"


section \<open>Acquire and release\<close>

definition initlock :: "lockid \<Rightarrow> string \<Rightarrow> 'a hw_scheme \<Rightarrow> 'a hw_scheme" where
  "initlock l nm s = s\<lparr>locks := (locks s)(l := \<lparr>sl_locked = False, sl_name = nm, sl_cpu = None\<rparr>)\<rparr>"

definition holding :: "lockid \<Rightarrow> 'a hw_scheme \<Rightarrow> bool" where
  "holding l s \<longleftrightarrow> sl_locked (locks s l) \<and> sl_cpu (locks s l) = Some (hartid s)"

text \<open>
  The atomic steps inside \<^verbatim>\<open>acquire\<close> and \<^verbatim>\<open>release\<close>: the test-and-set of the lock
  word, recording and clearing the holder, and clearing the lock word.  Other harts may
  run between them.
\<close>

definition test_and_set :: "lockid \<Rightarrow> 'a hw_scheme \<Rightarrow> bool \<times> 'a hw_scheme" where
  "test_and_set l s =
     (sl_locked (locks s l), s\<lparr>locks := (locks s)(l := (locks s l)\<lparr>sl_locked := True\<rparr>)\<rparr>)"

definition record_holder :: "lockid \<Rightarrow> 'a hw_scheme \<Rightarrow> 'a hw_scheme" where
  "record_holder l s = s\<lparr>locks := (locks s)(l := (locks s l)\<lparr>sl_cpu := Some (hartid s)\<rparr>)\<rparr>"

definition clear_holder :: "lockid \<Rightarrow> 'a hw_scheme \<Rightarrow> 'a hw_scheme" where
  "clear_holder l s = s\<lparr>locks := (locks s)(l := (locks s l)\<lparr>sl_cpu := None\<rparr>)\<rparr>"

definition clear_locked :: "lockid \<Rightarrow> 'a hw_scheme \<Rightarrow> 'a hw_scheme" where
  "clear_locked l s = s\<lparr>locks := (locks s)(l := (locks s l)\<lparr>sl_locked := False\<rparr>)\<rparr>"

definition acquire :: "lockid \<Rightarrow> 'a hw_scheme \<Rightarrow> 'a hw_scheme res" where
  "acquire l s =
     (let s = push_off s
      in if holding l s then Inl (Panic ''acquire'')
         else let (old, s) = test_and_set l s
              in if old then Inl Spin else Inr (record_holder l s))"

definition release :: "lockid \<Rightarrow> 'a hw_scheme \<Rightarrow> 'a hw_scheme res" where
  "release l s =
     (if \<not> holding l s then Inl (Panic ''release'')
      else pop_off (clear_locked l (clear_holder l s)))"

text \<open>
  A function that takes a lock first and gives it back on every path to its return:
  \<open>acquire\<close>, the body, \<open>release\<close>.
\<close>

definition critical ::
  "lockid \<Rightarrow> ('a hw_scheme \<Rightarrow> ('r \<times> 'a hw_scheme) res) \<Rightarrow> 'a hw_scheme \<Rightarrow> ('r \<times> 'a hw_scheme) res"
where
  "critical l body s =
     ebind (acquire l s) (\<lambda>s.
     ebind (body s) (\<lambda>(r, s).
     ebind (release l s) (\<lambda>s. Inr (r, s))))"

definition critical0 ::
  "lockid \<Rightarrow> ('a hw_scheme \<Rightarrow> 'a hw_scheme res) \<Rightarrow> 'a hw_scheme \<Rightarrow> 'a hw_scheme res"
where
  "critical0 l body s = ebind (acquire l s) (\<lambda>s. ebind (body s) (release l))"


section \<open>Interrupt nesting: lemmas\<close>

definition push_cpu :: "cpu \<Rightarrow> cpu" where
  "push_cpu c = c\<lparr>noff := noff c + 1, sie := False, intena := (if noff c = 0 then sie c else intena c)\<rparr>"

definition pop_cpu :: "cpu \<Rightarrow> cpu" where
  "pop_cpu c = c\<lparr>noff := noff c - 1, sie := (noff c = 1 \<and> intena c)\<rparr>"

lemma push_off_eq: "push_off s = set_mycpu (push_cpu (mycpu s)) s"
  by (cases "cpus s (hartid s)")
    (simp add: push_off_def push_cpu_def set_mycpu_def mycpu_def intr_get_def intr_off_def Let_def)

lemma pop_off_eq:
  "\<not> sie (mycpu s) \<Longrightarrow> 0 < noff (mycpu s) \<Longrightarrow> pop_off s = Inr (set_mycpu (pop_cpu (mycpu s)) s)"
  by (cases "cpus s (hartid s)")
    (auto simp: pop_off_def pop_cpu_def set_mycpu_def mycpu_def intr_get_def intr_on_def Let_def)

lemma mycpu_set_mycpu [simp]: "mycpu (set_mycpu c s) = c"
  by (simp add: mycpu_def set_mycpu_def)

lemma set_mycpu_set_mycpu [simp]: "set_mycpu c (set_mycpu d s) = set_mycpu c s"
  by (simp add: set_mycpu_def)

lemma hw_set_mycpu [simp]:
  "hartid (set_mycpu c s) = hartid s" "locks (set_mycpu c s) = locks s"
  by (simp_all add: set_mycpu_def)

fun pops :: "nat \<Rightarrow> 'a hw_scheme \<Rightarrow> 'a hw_scheme res" where
  "pops 0 s = Inr s"
| "pops (Suc k) s = ebind (pop_off s) (pops k)"

lemma push_cpu_iter:
  "noff ((push_cpu ^^ n) c) = noff c + n"
  "0 < n \<Longrightarrow> \<not> sie ((push_cpu ^^ n) c)"
  "0 < n \<Longrightarrow> noff c = 0 \<Longrightarrow> intena ((push_cpu ^^ n) c) = sie c"
  by (induction n) (auto simp: push_cpu_def)

lemma push_off_iter: "(push_off ^^ n) s = set_mycpu ((push_cpu ^^ n) (mycpu s)) s"
proof (induction n)
  case 0
  show ?case by (simp add: set_mycpu_def mycpu_def)
qed (simp add: push_off_eq)

lemma pops_nested:
  "\<not> sie (mycpu s) \<Longrightarrow> k \<le> noff (mycpu s) \<Longrightarrow> pops k s = Inr (set_mycpu ((pop_cpu ^^ k) (mycpu s)) s)"
proof (induction k arbitrary: s)
  case 0
  show ?case by (simp add: set_mycpu_def mycpu_def)
next
  case (Suc k)
  let ?t = "set_mycpu (pop_cpu (mycpu s)) s"
  have p: "pop_off s = Inr ?t" using Suc.prems by (simp add: pop_off_eq)
  show ?case
  proof (cases "k = 0")
    case True
    then show ?thesis using p by simp
  next
    case False
    then have "\<not> sie (mycpu ?t)" "k \<le> noff (mycpu ?t)"
      using Suc.prems by (auto simp: pop_cpu_def)
    then have "pops k ?t = Inr (set_mycpu ((pop_cpu ^^ k) (mycpu ?t)) ?t)" by (rule Suc.IH)
    then show ?thesis using p by (simp add: funpow_swap1)
  qed
qed

lemma pop_cpu_iter:
  "noff ((pop_cpu ^^ k) c) = noff c - k"
  "intena ((pop_cpu ^^ k) c) = intena c"
  "0 < k \<Longrightarrow> k \<le> noff c \<Longrightarrow> sie ((pop_cpu ^^ k) c) = (k = noff c \<and> intena c)"
  by (induction k) (auto simp: pop_cpu_def)


section \<open>Critical sections: lemmas\<close>

definition lock_free :: "lockid \<Rightarrow> 'a hw_scheme \<Rightarrow> bool" where
  "lock_free l s \<longleftrightarrow> \<not> sl_locked (locks s l) \<and> sl_cpu (locks s l) = None"

definition settle :: "cpu \<Rightarrow> cpu" where
  "settle c = pop_cpu (push_cpu c)"

definition settled :: "'a hw_scheme \<Rightarrow> 'a hw_scheme" where
  "settled s = set_mycpu (settle (mycpu s)) s"

text \<open>The state in which the body of a critical section runs.\<close>

definition entered :: "lockid \<Rightarrow> 'a hw_scheme \<Rightarrow> 'a hw_scheme" where
  "entered l s = s\<lparr>cpus := (cpus s)(hartid s := push_cpu (mycpu s)),
     locks := (locks s)(l := (locks s l)\<lparr>sl_locked := True, sl_cpu := Some (hartid s)\<rparr>)\<rparr>"

lemma settle_simps [simp]:
  "noff (settle c) = noff c" "cpu_proc (settle c) = cpu_proc c"
  "noff c = 0 \<Longrightarrow> sie (settle c) = sie c" "settle (settle c) = settle c"
  by (auto simp: settle_def pop_cpu_def push_cpu_def)

lemma hartid_entered [simp]: "hartid (entered l s) = hartid s"
  by (simp add: entered_def)

lemma acquire_free: "lock_free l s \<Longrightarrow> acquire l s = Inr (entered l s)"
  by (simp add: acquire_def lock_free_def holding_def test_and_set_def record_holder_def entered_def
      push_off_eq set_mycpu_def Let_def)

lemma acquire_held: "holding l s \<Longrightarrow> acquire l s = Inl (Panic ''acquire'')"
  by (simp add: acquire_def holding_def push_off_eq)

lemma release_entered:
  assumes "lock_free l s" "locks t = locks (entered l s)" "cpus t = cpus (entered l s)"
    "hartid t = hartid s"
  shows "release l t = Inr (t\<lparr>locks := locks s, cpus := cpus (settled s)\<rparr>)"
proof -
  have h: "holding l t" using assms by (simp add: holding_def entered_def)
  let ?u = "clear_locked l (clear_holder l t)"
  have c: "mycpu ?u = push_cpu (mycpu s)"
    using assms by (simp add: mycpu_def clear_locked_def clear_holder_def entered_def)
  have "pop_off ?u = Inr (set_mycpu (pop_cpu (mycpu ?u)) ?u)"
    by (rule pop_off_eq) (simp_all add: c push_cpu_def)
  moreover have "(locks s)(l := (locks s l)\<lparr>sl_cpu := None, sl_locked := False\<rparr>) = locks s"
    using assms(1) by (auto simp: lock_free_def)
  ultimately show ?thesis
    using h c assms
    by (simp add: release_def set_mycpu_def settled_def settle_def clear_locked_def
        clear_holder_def entered_def)
qed

lemma critical_leaf:
  assumes "lock_free l s" "body (entered l s) = Inr (r, t)"
    "locks t = locks (entered l s)" "cpus t = cpus (entered l s)" "hartid t = hartid s"
  shows "critical l body s = Inr (r, t\<lparr>locks := locks s, cpus := cpus (settled s)\<rparr>)"
  using assms by (simp add: critical_def acquire_free release_entered)

lemma critical0_leaf:
  assumes "lock_free l s" "body (entered l s) = Inr t"
    "locks t = locks (entered l s)" "cpus t = cpus (entered l s)" "hartid t = hartid s"
  shows "critical0 l body s = Inr (t\<lparr>locks := locks s, cpus := cpus (settled s)\<rparr>)"
  using assms by (simp add: critical0_def acquire_free release_entered)

lemma critical0_fault:
  "lock_free l s \<Longrightarrow> body (entered l s) = Inl e \<Longrightarrow> critical0 l body s = Inl e"
  by (simp add: critical0_def acquire_free)

lemma critical_fault:
  "lock_free l s \<Longrightarrow> body (entered l s) = Inl e \<Longrightarrow> critical l body s = Inl e"
  by (simp add: critical_def acquire_free)

text \<open>push_off and pop_off nest: after n calls of push_off on a hart with interrupts not yet
  nested, k calls of pop_off succeed for every k up to n; interrupts stay off until the
  last of the n, which restores the interrupt-enable bit the hart had before.\<close>

theorem push_pop_nest:
  assumes "noff (mycpu s) = 0" "0 < n" "k \<le> n"
  shows "\<exists>t. pops k ((push_off ^^ n) s) = Inr t \<and> noff (mycpu t) = n - k
    \<and> sie (mycpu t) = (k = n \<and> sie (mycpu s))"
proof -
  let ?u = "(push_off ^^ n) s"
  have u: "\<not> sie (mycpu ?u)" "noff (mycpu ?u) = n" "intena (mycpu ?u) = sie (mycpu s)"
    using assms push_cpu_iter [where n = n and c = "mycpu s"] by (simp_all add: push_off_iter)
  then have "pops k ?u = Inr (set_mycpu ((pop_cpu ^^ k) (mycpu ?u)) ?u)"
    using assms by (intro pops_nested) simp_all
  then show ?thesis
    using assms u pop_cpu_iter [where k = k and c = "mycpu ?u"] by (cases "k = 0") auto
qed

theorem push_pop_nest_witness:
  "\<exists>t. pops 2 ((push_off ^^ 3)
       \<lparr>locks = (\<lambda>_. \<lparr>sl_locked = False, sl_name = [], sl_cpu = None\<rparr>),
        cpus = (\<lambda>_. \<lparr>cpu_proc = None, noff = 0, intena = False, sie = True\<rparr>), hartid = 0\<rparr>) = Inr t
     \<and> noff (mycpu t) = 1 \<and> \<not> sie (mycpu t)"
  using push_pop_nest [of "\<lparr>locks = (\<lambda>_. \<lparr>sl_locked = False, sl_name = [], sl_cpu = None\<rparr>),
        cpus = (\<lambda>_. \<lparr>cpu_proc = None, noff = 0, intena = False, sie = True\<rparr>), hartid = 0\<rparr>" 3 2]
  by (simp add: mycpu_def)


section \<open>Mutual exclusion between harts\<close>

text \<open>
  Harts contend for one lock.  A hart is \<open>Outside\<close>, or at one of the points inside
  \<^verbatim>\<open>acquire\<close> and \<^verbatim>\<open>release\<close>: \<open>Spinning\<close> on the test-and-set, \<open>Won\<close> it but not yet
  recorded as the holder, \<open>Inside\<close> the critical section, \<open>Leaving\<close> with the holder
  cleared but the lock word still set.  Each step is one of the atomic actions above, run
  by an arbitrary hart.
\<close>

datatype lockpc = Outside | Spinning | Won | Inside | Leaving

record lsys =
  lhw :: hw
  lpc :: "nat \<Rightarrow> lockpc"

abbreviation on_hart :: "nat \<Rightarrow> lsys \<Rightarrow> hw" where
  "on_hart h s \<equiv> (lhw s)\<lparr>hartid := h\<rparr>"

inductive lstep :: "lockid \<Rightarrow> lsys \<Rightarrow> lsys \<Rightarrow> bool" for l where
  enter: "lpc s h = Outside \<Longrightarrow> \<not> holding l (push_off (on_hart h s)) \<Longrightarrow>
     lstep l s (s\<lparr>lhw := push_off (on_hart h s), lpc := (lpc s)(h := Spinning)\<rparr>)"
| spin: "lpc s h = Spinning \<Longrightarrow> test_and_set l (on_hart h s) = (True, w) \<Longrightarrow>
     lstep l s (s\<lparr>lhw := w\<rparr>)"
| win: "lpc s h = Spinning \<Longrightarrow> test_and_set l (on_hart h s) = (False, w) \<Longrightarrow>
     lstep l s (s\<lparr>lhw := w, lpc := (lpc s)(h := Won)\<rparr>)"
| hold: "lpc s h = Won \<Longrightarrow>
     lstep l s (s\<lparr>lhw := record_holder l (on_hart h s), lpc := (lpc s)(h := Inside)\<rparr>)"
| unhold: "lpc s h = Inside \<Longrightarrow> holding l (on_hart h s) \<Longrightarrow>
     lstep l s (s\<lparr>lhw := clear_holder l (on_hart h s), lpc := (lpc s)(h := Leaving)\<rparr>)"
| leave: "lpc s h = Leaving \<Longrightarrow> pop_off (clear_locked l (on_hart h s)) = Inr w \<Longrightarrow>
     lstep l s (s\<lparr>lhw := w, lpc := (lpc s)(h := Outside)\<rparr>)"
| irq_on: "lpc s h = Outside \<Longrightarrow> lstep l s (s\<lparr>lhw := intr_on (on_hart h s)\<rparr>)"
| irq_off: "lpc s h = Outside \<Longrightarrow> lstep l s (s\<lparr>lhw := intr_off (on_hart h s)\<rparr>)"

definition linit :: "lockid \<Rightarrow> lsys \<Rightarrow> bool" where
  "linit l s \<longleftrightarrow> lock_free l (lhw s) \<and> (\<forall>h. lpc s h = Outside \<and> noff (cpus (lhw s) h) = 0)"

inductive lreach :: "lockid \<Rightarrow> lsys \<Rightarrow> bool" for l where
  init: "linit l s \<Longrightarrow> lreach l s"
| step: "lreach l s \<Longrightarrow> lstep l s t \<Longrightarrow> lreach l t"

definition owned :: "lockid \<Rightarrow> lsys \<Rightarrow> nat option \<Rightarrow> bool" where
  "owned l s ow \<longleftrightarrow>
     (\<forall>h. lpc s h \<in> {Won, Inside, Leaving} \<longleftrightarrow> ow = Some h)
   \<and> (sl_locked (locks (lhw s) l) \<longleftrightarrow> ow \<noteq> None)
   \<and> (\<forall>h. sl_cpu (locks (lhw s) l) = Some h \<longleftrightarrow> lpc s h = Inside)"

definition irq_inv :: "lsys \<Rightarrow> bool" where
  "irq_inv s \<longleftrightarrow>
     (\<forall>h. noff (cpus (lhw s) h) = (if lpc s h = Outside then 0 else 1)
        \<and> (lpc s h \<noteq> Outside \<longrightarrow> \<not> sie (cpus (lhw s) h)))"

lemmas lock_action_defs = test_and_set_def record_holder_def clear_holder_def clear_locked_def
  push_off_eq push_cpu_def set_mycpu_def mycpu_def intr_on_def intr_off_def

lemma linit_inv: "linit l s \<Longrightarrow> owned l s None \<and> irq_inv s"
  by (simp add: linit_def owned_def irq_inv_def lock_free_def)

lemma ownedD:
  assumes "owned l s ow"
  shows "lpc s h \<in> {Won, Inside, Leaving} \<Longrightarrow> ow = Some h"
    and "ow = Some h \<Longrightarrow> lpc s h \<in> {Won, Inside, Leaving}"
    and "sl_locked (locks (lhw s) l) \<longleftrightarrow> ow \<noteq> None"
    and "sl_cpu (locks (lhw s) l) = Some h \<longleftrightarrow> lpc s h = Inside"
  using assms unfolding owned_def by blast+

lemma leave_state:
  assumes "irq_inv s" "lpc s h = Leaving" "pop_off (clear_locked l (on_hart h s)) = Inr w"
  shows "w = set_mycpu (pop_cpu (cpus (lhw s) h)) (clear_locked l (on_hart h s))"
    and "noff (cpus (lhw s) h) = 1"
proof -
  let ?u = "clear_locked l (on_hart h s)"
  have c: "mycpu ?u = cpus (lhw s) h" by (simp add: clear_locked_def mycpu_def)
  have i: "noff (cpus (lhw s) h) = 1 \<and> \<not> sie (cpus (lhw s) h)"
    using assms(1,2) unfolding irq_inv_def by (metis lockpc.distinct(7))
  then have "pop_off ?u = Inr (set_mycpu (pop_cpu (mycpu ?u)) ?u)"
    unfolding c by (subst pop_off_eq) (simp_all add: c)
  then show "w = set_mycpu (pop_cpu (cpus (lhw s) h)) ?u" using assms(3) c by simp
  show "noff (cpus (lhw s) h) = 1" using i by simp
qed

lemma lstep_irq: "lstep l s t \<Longrightarrow> irq_inv s \<Longrightarrow> irq_inv t"
proof (induction rule: lstep.induct)
  case (leave s h w)
  note w = leave_state [OF leave.prems leave.hyps]
  show ?case using leave.prems w(2) unfolding w(1) irq_inv_def
    by (simp add: clear_locked_def set_mycpu_def pop_cpu_def)
qed (auto simp: irq_inv_def lock_action_defs)

lemma lstep_owned:
  assumes "lstep l s t" "irq_inv s" "owned l s ow"
  shows "\<exists>ow'. owned l t ow'"
  using assms
proof (induction rule: lstep.induct)
  case (enter s h)
  have "ow \<noteq> Some h" using ownedD(2) [OF enter.prems(2), of h] enter.hyps(1) by auto
  then have "owned l (s\<lparr>lhw := push_off (on_hart h s), lpc := (lpc s)(h := Spinning)\<rparr>) ow"
    using enter.prems(2) enter.hyps(1) unfolding owned_def by (simp add: push_off_eq)
  then show ?case ..
next
  case (spin s h w)
  have "owned l (s\<lparr>lhw := w\<rparr>) ow"
    using spin.prems(2) spin.hyps(2) unfolding owned_def by (auto simp: test_and_set_def)
  then show ?case ..
next
  case (win s h w)
  have "ow = None" using ownedD(3) [OF win.prems(2)] win.hyps(2) by (simp add: test_and_set_def)
  then have "owned l (s\<lparr>lhw := w, lpc := (lpc s)(h := Won)\<rparr>) (Some h)"
    using win.prems(2) win.hyps unfolding owned_def by (auto simp: test_and_set_def)
  then show ?case ..
next
  case (hold s h)
  have "ow = Some h" using ownedD(1) [OF hold.prems(2), of h] hold.hyps by simp
  then have "owned l (s\<lparr>lhw := record_holder l (on_hart h s), lpc := (lpc s)(h := Inside)\<rparr>) (Some h)"
    using hold.prems(2) unfolding owned_def by (simp add: record_holder_def) metis
  then show ?case ..
next
  case (unhold s h)
  have "ow = Some h" using ownedD(1) [OF unhold.prems(2), of h] unhold.hyps by simp
  then have "owned l (s\<lparr>lhw := clear_holder l (on_hart h s), lpc := (lpc s)(h := Leaving)\<rparr>) (Some h)"
    using unhold.prems(2) unfolding owned_def by (simp add: clear_holder_def) metis
  then show ?case ..
next
  case (leave s h w)
  note w = leave_state [OF leave.prems(1) leave.hyps]
  have "ow = Some h" using ownedD(1) [OF leave.prems(2), of h] leave.hyps by simp
  then have "owned l (s\<lparr>lhw := w, lpc := (lpc s)(h := Outside)\<rparr>) None"
    using leave.prems(2) leave.hyps(1) unfolding owned_def w(1) by (simp add: clear_locked_def) metis
  then show ?case ..
next
  case (irq_on s h)
  then have "owned l (s\<lparr>lhw := intr_on (on_hart h s)\<rparr>) ow" by (simp add: owned_def intr_on_def)
  then show ?case ..
next
  case (irq_off s h)
  then have "owned l (s\<lparr>lhw := intr_off (on_hart h s)\<rparr>) ow" by (simp add: owned_def intr_off_def)
  then show ?case ..
qed

lemma lreach_inv: "lreach l s \<Longrightarrow> (\<exists>ow. owned l s ow) \<and> irq_inv s"
  by (induction rule: lreach.induct) (auto dest: linit_inv lstep_owned lstep_irq)

definition hw0 :: hw where
  "hw0 = \<lparr>locks = (\<lambda>_. \<lparr>sl_locked = False, sl_name = [], sl_cpu = None\<rparr>),
     cpus = (\<lambda>_. \<lparr>cpu_proc = None, noff = 0, intena = False, sie = True\<rparr>), hartid = 0\<rparr>"

lemma hw0_lock_free [simp]: "lock_free l hw0"
  by (simp add: hw0_def lock_free_def)

lemma lreach_inside: "\<exists>s. lreach l s \<and> lpc s h = Inside"
proof -
  let ?s0 = "\<lparr>lhw = hw0, lpc = (\<lambda>_. Outside)\<rparr>"
  let ?w1 = "push_off (on_hart h ?s0)"
  let ?s1 = "?s0\<lparr>lhw := ?w1, lpc := (lpc ?s0)(h := Spinning)\<rparr>"
  let ?w2 = "snd (test_and_set l (on_hart h ?s1))"
  let ?s2 = "?s1\<lparr>lhw := ?w2, lpc := (lpc ?s1)(h := Won)\<rparr>"
  let ?s3 = "?s2\<lparr>lhw := record_holder l (on_hart h ?s2), lpc := (lpc ?s2)(h := Inside)\<rparr>"
  have "lreach l ?s0" by (rule lreach.init) (simp add: linit_def hw0_def lock_free_def)
  moreover have "lstep l ?s0 ?s1"
    by (rule lstep.enter) (simp_all add: hw0_def holding_def push_off_eq)
  moreover have "lstep l ?s1 ?s2"
    by (rule lstep.win) (simp_all add: hw0_def test_and_set_def push_off_eq)
  moreover have "lstep l ?s2 ?s3" by (rule lstep.hold) simp
  ultimately have "lreach l ?s3" by (meson lreach.step)
  then show ?thesis by (intro exI [of _ ?s3]) simp
qed

text \<open>
  The steps are those of the code: a hart that is not interrupted goes through \<^verbatim>\<open>acquire\<close> and
  \<^verbatim>\<open>release\<close> step by step and ends in the state that these compute.
\<close>

lemma hartid_push_off: "hartid (push_off s) = hartid s"
  by (simp add: push_off_eq set_mycpu_def)

lemma acquire_lsteps:
  assumes "lpc s h = Outside" "acquire l (on_hart h s) = Inr w"
  shows "rtranclp (lstep l) s (s\<lparr>lhw := w, lpc := (lpc s)(h := Inside)\<rparr>)"
proof -
  let ?p = "push_off (on_hart h s)"
  let ?t = "?p\<lparr>locks := (locks ?p)(l := (locks ?p l)\<lparr>sl_locked := True\<rparr>)\<rparr>"
  let ?s1 = "s\<lparr>lhw := ?p, lpc := (lpc s)(h := Spinning)\<rparr>"
  let ?s2 = "?s1\<lparr>lhw := ?t, lpc := (lpc ?s1)(h := Won)\<rparr>"
  have a: "\<not> holding l ?p" "\<not> sl_locked (locks ?p l)" "w = record_holder l ?t"
    using assms(2) by (auto simp: acquire_def test_and_set_def Let_def split: if_splits)
  have o: "on_hart h ?s1 = ?p" "on_hart h ?s2 = ?t"
    using hartid_push_off [of "on_hart h s"] by (cases ?p, simp)+
  have "lstep l s ?s1" by (rule lstep.enter [OF assms(1) a(1)])
  moreover have "lstep l ?s1 ?s2" by (rule lstep.win) (use a(2) o(1) in \<open>simp_all add: test_and_set_def\<close>)
  moreover have "lstep l ?s2 (?s2\<lparr>lhw := record_holder l (on_hart h ?s2), lpc := (lpc ?s2)(h := Inside)\<rparr>)"
    by (rule lstep.hold) simp
  ultimately have "rtranclp (lstep l) s (?s2\<lparr>lhw := record_holder l (on_hart h ?s2), lpc := (lpc ?s2)(h := Inside)\<rparr>)"
    by (meson rtranclp.rtrancl_refl rtranclp.rtrancl_into_rtrancl)
  then show ?thesis unfolding o(2) a(3) [symmetric] by simp
qed

lemma release_lsteps:
  assumes "lpc s h = Inside" "release l (on_hart h s) = Inr w"
  shows "rtranclp (lstep l) s (s\<lparr>lhw := w, lpc := (lpc s)(h := Outside)\<rparr>)"
proof -
  let ?s1 = "s\<lparr>lhw := clear_holder l (on_hart h s), lpc := (lpc s)(h := Leaving)\<rparr>"
  have a: "holding l (on_hart h s)" "pop_off (clear_locked l (clear_holder l (on_hart h s))) = Inr w"
    using assms(2) by (simp_all add: release_def split: if_splits)
  have o: "on_hart h ?s1 = clear_holder l (on_hart h s)" by (simp add: clear_holder_def)
  have "lstep l s ?s1" by (rule lstep.unhold [OF assms(1) a(1)])
  moreover have "lstep l ?s1 (?s1\<lparr>lhw := w, lpc := (lpc ?s1)(h := Outside)\<rparr>)"
    by (rule lstep.leave) (use a(2) o in simp_all)
  ultimately have "rtranclp (lstep l) s (?s1\<lparr>lhw := w, lpc := (lpc ?s1)(h := Outside)\<rparr>)"
    by (meson rtranclp.rtrancl_refl rtranclp.rtrancl_into_rtrancl)
  then show ?thesis by simp
qed

text \<open>C25: Mutual exclusion: in every state that any number of harts can reach by interleaving the
  atomic actions of acquire and release on a lock, at most one hart is between winning the
  test-and-set and clearing the lock word, and that hart has interrupts disabled.\<close>

theorem mutual_exclusion:
  assumes "lreach l s" "lpc s h \<in> {Won, Inside, Leaving}" "lpc s h' \<in> {Won, Inside, Leaving}"
  shows "h = h' \<and> sl_locked (locks (lhw s) l) \<and> \<not> sie (cpus (lhw s) h)"
proof -
  obtain ow where o: "owned l s ow" and i: "irq_inv s" using lreach_inv [OF assms(1)] by blast
  have "ow = Some h" "ow = Some h'" using ownedD(1) [OF o] assms(2,3) by blast+
  moreover have "\<not> sie (cpus (lhw s) h)" using i assms(2) unfolding irq_inv_def by fastforce
  ultimately show ?thesis using ownedD(3) [OF o] by simp
qed

theorem mutual_exclusion_witness:
  "\<exists>s. lreach Lk_kmem s \<and> lpc s 1 = Inside \<and> sl_locked (locks (lhw s) Lk_kmem)
     \<and> \<not> sie (cpus (lhw s) 1)"
proof -
  obtain s where s: "lreach Lk_kmem s" "lpc s 1 = Inside" using lreach_inside by blast
  then have "lpc s 1 \<in> {Won, Inside, Leaving}" by simp
  from mutual_exclusion [OF s(1) this this] s show ?thesis by blast
qed

end
