(* ===== verification/Cstring.thy ===== *)
theory Cstring
  imports Riscv
begin

text \<open>
  \<^verbatim>\<open>kernel/string.c\<close> over a byte-addressed memory, and the 64-bit loads and stores
  the compiler emits for \<^verbatim>\<open>uint64\<close> objects such as page-table entries (little
  endian).  Each loop of the C code is a recursion on the number of bytes still to go.
  The lemmas give closed forms: what is in each byte afterwards.
\<close>

type_synonym memory = "u64 \<Rightarrow> u8"


section \<open>Blocks of bytes\<close>

primrec memset :: "memory \<Rightarrow> u64 \<Rightarrow> u8 \<Rightarrow> nat \<Rightarrow> memory" where
  "memset m dst c 0 = m"
| "memset m dst c (Suc n) = (memset m dst c n)(dst + of_nat n := c)"

primrec memcmp :: "memory \<Rightarrow> u64 \<Rightarrow> u64 \<Rightarrow> nat \<Rightarrow> int" where
  "memcmp m s1 s2 0 = 0"
| "memcmp m s1 s2 (Suc n) =
     (if m s1 \<noteq> m s2 then uint (m s1) - uint (m s2) else memcmp m (s1 + 1) (s2 + 1) n)"

primrec copy_up :: "memory \<Rightarrow> u64 \<Rightarrow> u64 \<Rightarrow> nat \<Rightarrow> memory" where
  "copy_up m d s 0 = m"
| "copy_up m d s (Suc n) = copy_up (m(d := m s)) (d + 1) (s + 1) n"

primrec copy_down :: "memory \<Rightarrow> u64 \<Rightarrow> u64 \<Rightarrow> nat \<Rightarrow> memory" where
  "copy_down m d s 0 = m"
| "copy_down m d s (Suc n) = copy_down (m(d + of_nat n := m (s + of_nat n))) d s n"

definition memmove :: "memory \<Rightarrow> u64 \<Rightarrow> u64 \<Rightarrow> nat \<Rightarrow> memory" where
  "memmove m dst src n =
     (if n = 0 then m
      else if src < dst \<and> dst < src + of_nat n then copy_down m dst src n
      else copy_up m dst src n)"


section \<open>Strings\<close>

primrec strncmp :: "memory \<Rightarrow> u64 \<Rightarrow> u64 \<Rightarrow> nat \<Rightarrow> int" where
  "strncmp m p q 0 = 0"
| "strncmp m p q (Suc n) =
     (if m p \<noteq> 0 \<and> m p = m q then strncmp m (p + 1) (q + 1) n
      else uint (m p) - uint (m q))"

primrec strncpy :: "memory \<Rightarrow> u64 \<Rightarrow> u64 \<Rightarrow> nat \<Rightarrow> memory" where
  "strncpy m s t 0 = m"
| "strncpy m s t (Suc n) =
     (if m t \<noteq> 0 then strncpy (m(s := m t)) (s + 1) (t + 1) n
      else memset (m(s := m t)) (s + 1) 0 n)"

primrec safestrcpy_loop :: "memory \<Rightarrow> u64 \<Rightarrow> u64 \<Rightarrow> nat \<Rightarrow> memory" where
  "safestrcpy_loop m s t 0 = m(s := 0)"
| "safestrcpy_loop m s t (Suc n) =
     (if m t \<noteq> 0 then safestrcpy_loop (m(s := m t)) (s + 1) (t + 1) n
      else m(s := m t, s + 1 := 0))"

definition safestrcpy :: "memory \<Rightarrow> u64 \<Rightarrow> u64 \<Rightarrow> nat \<Rightarrow> memory" where
  "safestrcpy m s t n = (if n = 0 then m else safestrcpy_loop m s t (n - 1))"

partial_function (option) strlen_from :: "memory \<Rightarrow> u64 \<Rightarrow> nat \<Rightarrow> nat option" where
  "strlen_from m s n = (if m (s + of_nat n) \<noteq> 0 then strlen_from m s (n + 1) else Some n)"

definition strlen :: "memory \<Rightarrow> u64 \<Rightarrow> nat option" where
  "strlen m s = strlen_from m s 0"


section \<open>64-bit loads and stores\<close>

definition ld64 :: "memory \<Rightarrow> u64 \<Rightarrow> u64" where
  "ld64 m a = ucast (m a) OR push_bit 8 (ucast (m (a + 1))) OR push_bit 16 (ucast (m (a + 2)))
     OR push_bit 24 (ucast (m (a + 3))) OR push_bit 32 (ucast (m (a + 4)))
     OR push_bit 40 (ucast (m (a + 5))) OR push_bit 48 (ucast (m (a + 6)))
     OR push_bit 56 (ucast (m (a + 7)))"

definition st64 :: "memory \<Rightarrow> u64 \<Rightarrow> u64 \<Rightarrow> memory" where
  "st64 m a v = (\<lambda>x. if unat (x - a) < 8 then ucast (drop_bit (8 * unat (x - a)) v) else m x)"


section \<open>Closed forms\<close>

lemma dist_zero: "unat (a - d :: u64) = 0 \<longleftrightarrow> a = d"
  using unat_eq_zero [of "a - d"] by (simp only: right_minus_eq)

lemma unat_Suc_dist: "a \<noteq> d \<Longrightarrow> unat (a - (d + 1) :: u64) = unat (a - d) - 1"
  using unat_minus_one [of "a - d"] by (simp add: diff_diff_eq)

lemma unat_minus_1_u64: "unat (- 1 :: u64) = 18446744073709551615"
  by (simp add: unsigned_minus_1_eq_mask mask_eq_exp_minus_1)

lemma dist_eq_iff:
  "i < 18446744073709551616 \<Longrightarrow> unat (a - d :: u64) = i \<longleftrightarrow> a = d + of_nat i"
proof
  assume "unat (a - d) = i"
  then have "a - d = of_nat i" by auto
  then show "a = d + of_nat i" by (simp add: algebra_simps)
qed simp

lemma memset_eq:
  "n \<le> 18446744073709551616 \<Longrightarrow> memset m dst c n = (\<lambda>a. if unat (a - dst) < n then c else m a)"
proof (induction n)
  case (Suc n)
  then show ?case
    by (auto simp: fun_eq_iff less_Suc_eq dist_eq_iff)
qed simp

lemma copy_down_eq:
  assumes "n \<le> 18446744073709551616"
    and "\<And>i j. j < i \<Longrightarrow> i < n \<Longrightarrow> d + of_nat i \<noteq> s + of_nat j"
  shows "copy_down m d s n = (\<lambda>a. if unat (a - d) < n then m (s + (a - d)) else m a)"
  using assms
proof (induction n arbitrary: m)
  case (Suc n)
  let ?m = "m(d + of_nat n := m (s + of_nat n))"
  have IH: "copy_down ?m d s n = (\<lambda>a. if unat (a - d) < n then ?m (s + (a - d)) else ?m a)"
    using Suc.prems by (intro Suc.IH) simp_all
  have ne: "s + (a - d) \<noteq> d + of_nat n" if "unat (a - d) < n" for a
    using Suc.prems(2) [of "unat (a - d)" n] that by auto
  show ?case
  proof (rule ext)
    fix a
    consider "unat (a - d) < n" | "unat (a - d) = n" | "n < unat (a - d)" by linarith
    then show "copy_down m d s (Suc n) a = (if unat (a - d) < Suc n then m (s + (a - d)) else m a)"
    proof cases
      case 1
      then show ?thesis using ne by (simp add: IH)
    next
      case 2
      then have a: "a = d + of_nat n" using Suc.prems(1) by (subst (asm) dist_eq_iff) auto
      then show ?thesis using Suc.prems(1) by (simp add: IH)
    next
      case 3
      then have "a \<noteq> d + of_nat n" using Suc.prems(1) by auto
      then show ?thesis using 3 by (simp add: IH)
    qed
  qed
qed simp

lemma copy_up_eq:
  assumes "n \<le> 18446744073709551616"
    and "\<And>i j. j < i \<Longrightarrow> i < n \<Longrightarrow> s + of_nat i \<noteq> d + of_nat j"
  shows "copy_up m d s n = (\<lambda>a. if unat (a - d) < n then m (s + (a - d)) else m a)"
  using assms
proof (induction n arbitrary: m d s)
  case (Suc n)
  let ?m = "m(d := m s)"
  have IH: "copy_up ?m (d + 1) (s + 1) n =
      (\<lambda>a. if unat (a - (d + 1)) < n then ?m (s + 1 + (a - (d + 1))) else ?m a)"
  proof (rule Suc.IH)
    fix i j :: nat assume "j < i" "i < n"
    then show "s + 1 + of_nat i \<noteq> d + 1 + of_nat j"
      using Suc.prems(2) [of "Suc j" "Suc i"] by (simp add: algebra_simps)
  qed (use Suc.prems in simp)
  have ne: "s + (a - d) \<noteq> d" if "unat (a - d) < Suc n" "a \<noteq> d" for a
    using Suc.prems(2) [of 0 "unat (a - d)"] that by (simp add: unat_gt_0)
  show ?case
  proof (rule ext)
    fix a
    show "copy_up m d s (Suc n) a = (if unat (a - d) < Suc n then m (s + (a - d)) else m a)"
    proof (cases "a = d")
      case True
      have "\<not> unat (d - (d + 1)) < n" using Suc.prems(1) by (simp add: unat_minus_1_u64)
      then show ?thesis using True by (simp add: IH)
    next
      case False
      then have "unat (a - (d + 1)) = unat (a - d) - 1" "unat (a - d) \<noteq> 0"
        by (simp_all add: unat_Suc_dist dist_zero del: unat_eq_zero)
      moreover have "s + 1 + (a - (d + 1)) = s + (a - d)" by simp
      ultimately show ?thesis using False ne [of a] by (simp add: IH) linarith
    qed
  qed
qed simp

lemma memmove_eq:
  assumes "unat src + n < 18446744073709551616" "unat dst + n \<le> 18446744073709551616"
  shows "memmove m dst src n = (\<lambda>a. if unat (a - dst) < n then m (src + (a - dst)) else m a)"
proof (cases "n = 0")
  case False
  have nat: "unat (src + of_nat i) = unat src + i" if "i \<le> n" for i
    using assms that by (subst unat_u64_add_nowrap) auto
  have natd: "unat (dst + of_nat i) = unat dst + i" if "i < n" for i
    using assms that by (subst unat_u64_add_nowrap) auto
  show ?thesis
  proof (cases "src < dst \<and> dst < src + of_nat n")
    case True
    have "copy_down m dst src n = (\<lambda>a. if unat (a - dst) < n then m (src + (a - dst)) else m a)"
    proof (rule copy_down_eq)
      fix i j assume "j < i" "i < n"
      then have "unat (src + of_nat j) < unat (dst + of_nat i)"
        using True nat [of j] natd [of i] by (simp add: word_less_nat_alt)
      then show "dst + of_nat i \<noteq> src + of_nat j" by auto
    qed (use assms in simp)
    then show ?thesis using False True by (simp add: memmove_def)
  next
    case dir: False
    have "copy_up m dst src n = (\<lambda>a. if unat (a - dst) < n then m (src + (a - dst)) else m a)"
    proof (rule copy_up_eq)
      fix i j assume ij: "j < i" "i < n"
      have "unat dst \<le> unat src \<or> unat src + n \<le> unat dst"
        using dir nat [of n] by (auto simp: word_less_nat_alt)
      then have "unat (src + of_nat i) \<noteq> unat (dst + of_nat j)"
        using ij nat [of i] natd [of j] by auto
      then show "src + of_nat i \<noteq> dst + of_nat j" by auto
    qed (use assms in simp)
    then show ?thesis using False dir by (auto simp: memmove_def)
  qed
qed (simp add: memmove_def)

text \<open>memmove copies correctly whatever the overlap: if neither block runs past the end of the
  address space, each destination byte holds the source byte as it was before the call and
  no other byte changes.\<close>

theorem memmove_correct:
  assumes "unat src + n < 18446744073709551616" "unat dst + n \<le> 18446744073709551616"
  shows "memmove m dst src n = (\<lambda>a. if unat (a - dst) < n then m (src + (a - dst)) else m a)"
  using assms by (rule memmove_eq)

theorem memmove_correct_witness:
  "memmove (\<lambda>a. ucast a) 0x1001 0x1000 8 =
     (\<lambda>a. if unat (a - 0x1001) < 8 then ucast (0x1000 + (a - 0x1001)) else ucast a)"
  using memmove_correct [of "0x1000" 8 "0x1001" "\<lambda>a. ucast a"] by simp


section \<open>Loads and stores\<close>

lemma less8_cases: "(n :: nat) < 8 \<Longrightarrow> n = 0 \<or> n = 1 \<or> n = 2 \<or> n = 3 \<or> n = 4 \<or> n = 5 \<or> n = 6 \<or> n = 7"
  by linarith

lemma bit_byte_out: "8 \<le> k \<Longrightarrow> \<not> bit (w :: u8) k"
  using bit_imp_le_length [of w k] by auto

lemma bit_ld64: "bit (ld64 m a) n \<longleftrightarrow> n < 64 \<and> bit (m (a + of_nat (n div 8))) (n mod 8)"
proof (cases "n < 64")
  case True
  define k r where "k = n div 8" and "r = n mod 8"
  have n: "n = 8 * k + r" and r: "r < 8" and k: "k < 8" using True by (simp_all add: k_def r_def)
  have "bit (ld64 m a) (8 * k + r) \<longleftrightarrow> bit (m (a + of_nat k)) r"
    using less8_cases [OF k] r
    by (elim disjE; simp only:; simp add: ld64_def bit_simps bit_byte_out)
  then show ?thesis using True n r by simp
next
  case False
  then show ?thesis using bit_imp_le_length [of "ld64 m a" n] by auto
qed

lemma ld64_cong: "(\<And>i. i < 8 \<Longrightarrow> m (a + of_nat i) = m' (a + of_nat i)) \<Longrightarrow> ld64 m a = ld64 m' a"
  by (rule bit_word_eqI) (simp add: bit_ld64)

lemma ld64_st64_same [simp]: "ld64 (st64 m a v) a = v"
proof (rule bit_word_eqI)
  fix n assume "n < LENGTH(64)"
  then have n: "n < 64" "n div 8 < 8" by simp_all
  have "unat (of_nat (n div 8) :: u64) = n div 8" using n by simp
  then show "bit (ld64 (st64 m a v) a) n = bit v n"
    using n by (simp add: bit_ld64 st64_def bit_simps)
qed

text \<open>Doublewords at distinct 8-byte aligned addresses do not overlap.\<close>

definition aligned8 :: "u64 \<Rightarrow> bool" where
  "aligned8 a \<longleftrightarrow> unat a mod 8 = 0"

lemma ld64_st64_other:
  assumes "aligned8 a" "aligned8 b" "a \<noteq> b"
  shows "ld64 (st64 m a v) b = ld64 m b"
proof (rule ld64_cong)
  fix i :: nat assume i: "i < 8"
  obtain k where k: "unat a = 8 * k" using assms(1) by (auto simp: aligned8_def mod_eq_0_iff_dvd)
  obtain l where l: "unat b = 8 * l" using assms(2) by (auto simp: aligned8_def mod_eq_0_iff_dvd)
  have "k \<noteq> l" using assms(3) k l by (auto simp: u64_eq_iff)
  then consider "k < l" | "l < k" by linarith
  then have far: "8 * k + 8 \<le> 8 * l \<or> 8 * l + 8 \<le> 8 * k" by cases auto
  have bi: "unat (b + of_nat i) = 8 * l + i"
    using l i unat_u64_less [of b] by (subst unat_u64_add_nowrap) auto
  have aa: "unat a + 8 \<le> 18446744073709551616"
  proof -
    have "k < 2305843009213693952" using k unat_u64_less [of a] by linarith
    then show ?thesis using k by linarith
  qed
  have "\<not> unat (b + of_nat i - a) < 8"
    unfolding region_nat [OF aa] bi k using far i by linarith
  then show "st64 m a v (b + of_nat i) = m (b + of_nat i)" by (simp add: st64_def)
qed

lemma st64_frame: "\<not> unat (x - a) < 8 \<Longrightarrow> st64 m a v x = m x"
  by (simp add: st64_def)

lemma ld64_zero:
  "(\<And>i. i < 8 \<Longrightarrow> m (a + of_nat i) = 0) \<Longrightarrow> ld64 m a = 0"
  by (rule bit_word_eqI) (simp add: bit_ld64)

end
