(* ===== verification/Kalloc.thy ===== *)
theory Kalloc
  imports Spinlock Cstring
begin

text \<open>
  \<^verbatim>\<open>kernel/kalloc.c\<close>: the physical page allocator.  Memory from \<open>page_start\<close> to
  \<open>PHYSTOP\<close> is 63 huge frames of 2 MiB, each of 512 base frames of 4 KiB.  A huge frame
  is either handed out whole (\<open>hugepagelist\<close> is -1) or serves base frames
  (\<open>hugepagelist\<close> counts those in use).  Both kinds are reference counted, because a
  forked process shares the frames of its parent's mappings.

  The record \<open>kst\<close> holds the physical memory, the linker symbol \<^verbatim>\<open>end\<close> (\<open>kend\<close>),
  the fields of \<^verbatim>\<open>struct kmem\<close> and the counters of the file.  The C arrays have a fixed
  size; they are functions here and every access goes through \<open>arrayix\<close>, which faults
  outside that size.  \<^verbatim>\<open>char\<close> is unsigned on RISC-V, so the reference counts are 8-bit
  words that wrap.  The \<^verbatim>\<open>printf\<close> calls of \<^verbatim>\<open>kinit\<close> only write to the console and are
  left out.
\<close>

record kst = hw +
  mem :: memory
  kend :: u64
  page_start :: u64
  hugepagelist :: "nat \<Rightarrow> int"
  pagelist :: "nat \<Rightarrow> u8"
  pa_referenced :: "nat \<Rightarrow> u8"
  huge_pa_referenced :: "nat \<Rightarrow> u8"
  freemem :: int
  used4k :: int
  used2m :: int

definition NHUGE :: nat where NHUGE_def [simp]: "NHUGE = 63"
definition NPAGE :: nat where NPAGE_def [simp]: "NPAGE = 32256"


section \<open>Operations\<close>

definition get_page_i :: "u64 \<Rightarrow> 'a kst_scheme \<Rightarrow> int" where
  "get_page_i pa s = sint (ucast ((pa - page_start s) div PGSIZE) :: u32)"

definition get_hugepage_i :: "u64 \<Rightarrow> 'a kst_scheme \<Rightarrow> int" where
  "get_hugepage_i pa s = sint (ucast ((pa - page_start s) div HUGEPGSIZE) :: u32)"

definition pageindex_to_pa :: "nat \<Rightarrow> 'a kst_scheme \<Rightarrow> u64" where
  "pageindex_to_pa i s = page_start s + PGSIZE * of_nat i"

definition incr_huge_pa_ref :: "u64 \<Rightarrow> 'a kst_scheme \<Rightarrow> 'a kst_scheme res" where
  "incr_huge_pa_ref pa s =
     (if pa mod HUGEPGSIZE \<noteq> 0 \<or> pa < kend s \<or> PHYSTOP \<le> pa then Inl (Panic ''incr_pa_ref'')
      else critical0 Lk_kmem (\<lambda>s.
        ebind (arrayix NHUGE (get_hugepage_i pa s)) (\<lambda>i.
        Inr (s\<lparr>huge_pa_referenced :=
          (huge_pa_referenced s)(i := huge_pa_referenced s i + 1)\<rparr>))) s)"

definition incr_pa_ref :: "u64 \<Rightarrow> 'a kst_scheme \<Rightarrow> 'a kst_scheme res" where
  "incr_pa_ref pa s =
     (if pa mod PGSIZE \<noteq> 0 \<or> pa < kend s \<or> PHYSTOP \<le> pa then Inl (Panic ''incr_pa_ref'')
      else critical0 Lk_kmem (\<lambda>s.
        ebind (arrayix NPAGE (get_page_i pa s)) (\<lambda>i.
        Inr (s\<lparr>pa_referenced := (pa_referenced s)(i := pa_referenced s i + 1)\<rparr>))) s)"

definition reduce_pa_ref :: "u64 \<Rightarrow> 'a kst_scheme \<Rightarrow> 'a kst_scheme res" where
  "reduce_pa_ref pa s =
     (if pa mod PGSIZE \<noteq> 0 \<or> pa < kend s \<or> PHYSTOP \<le> pa then Inl (Panic ''reduce_pa_ref'')
      else critical0 Lk_kmem (\<lambda>s.
        ebind (arrayix NPAGE (get_page_i pa s)) (\<lambda>i.
        if pa_referenced s i = 0 then Inl (Panic ''reduce ref should not have been called'')
        else Inr (s\<lparr>pa_referenced := (pa_referenced s)(i := pa_referenced s i - 1)\<rparr>))) s)"

definition kfree_body :: "u64 \<Rightarrow> int \<Rightarrow> int \<Rightarrow> 'a kst_scheme \<Rightarrow> 'a kst_scheme res" where
  "kfree_body pa page_i huge_page_i s =
     ebind (arrayix NPAGE page_i) (\<lambda>i.
     if pagelist s i \<noteq> 0 then Inl (Panic ''double kfree'')
     else
       let s = (if pa_referenced s i > 0
                then s\<lparr>pa_referenced := (pa_referenced s)(i := pa_referenced s i - 1)\<rparr> else s)
       in if pa_referenced s i = 0
          then ebind (arrayix NHUGE huge_page_i) (\<lambda>h.
            Inr (s\<lparr>mem := memset (mem s) pa 0 4096,
                   pagelist := (pagelist s)(i := 1),
                   hugepagelist := (hugepagelist s)(h := hugepagelist s h - 1),
                   freemem := freemem s + 1,
                   used4k := used4k s - 1\<rparr>))
          else Inr s)"

definition kfree :: "u64 \<Rightarrow> 'a kst_scheme \<Rightarrow> 'a kst_scheme res" where
  "kfree pa s =
     (if pa mod PGSIZE \<noteq> 0 \<or> pa < kend s \<or> PHYSTOP \<le> pa then Inl (Panic ''kfree'')
      else critical0 Lk_kmem (kfree_body pa (get_page_i pa s) (get_hugepage_i pa s)) s)"

text \<open>
  A loop that stops at the first index with a property is \<open>find\<close> over the indices in
  the order the loop visits them.
\<close>

definition kalloc_section :: "'a kst_scheme \<Rightarrow> nat option" where
  "kalloc_section s =
     (case find (\<lambda>i. 0 < hugepagelist s i \<and> hugepagelist s i < 512) [0..<NHUGE] of
        Some i \<Rightarrow> Some i
      | None \<Rightarrow> find (\<lambda>i. hugepagelist s i = 0) [0..<NHUGE])"

definition kalloc_body :: "'a kst_scheme \<Rightarrow> (u64 \<times> 'a kst_scheme) res" where
  "kalloc_body s =
     (case kalloc_section s of
        None \<Rightarrow> Inr (0, s)
      | Some huge_page_i \<Rightarrow>
          let page_end = huge_page_i * 512 + 512;
              page_i = (case find (\<lambda>i. pagelist s i \<noteq> 0) [huge_page_i * 512..<page_end] of
                          Some i \<Rightarrow> i | None \<Rightarrow> page_end);
              pa = pageindex_to_pa page_i s
          in ebind (arrayix NPAGE (int page_i)) (\<lambda>i.
             let s = s\<lparr>pa_referenced := (pa_referenced s)(i := pa_referenced s i + 1)\<rparr>
             in if pa_referenced s i = 1
                then Inr (pa, s\<lparr>mem := memset (mem s) pa 0 4096,
                       pagelist := (pagelist s)(i := 0),
                       hugepagelist := (hugepagelist s)(huge_page_i := hugepagelist s huge_page_i + 1),
                       freemem := freemem s - 1,
                       used4k := used4k s + 1\<rparr>)
                else Inr (pa, s)))"

definition kalloc :: "'a kst_scheme \<Rightarrow> (u64 \<times> 'a kst_scheme) res" where
  "kalloc = critical Lk_kmem kalloc_body"

definition kalloc_huge_body :: "'a kst_scheme \<Rightarrow> (u64 \<times> 'a kst_scheme) res" where
  "kalloc_huge_body s =
     (case find (\<lambda>i. hugepagelist s i = 0) [0..<NHUGE] of
        None \<Rightarrow> Inr (0, s)
      | Some i \<Rightarrow>
          let pa = page_start s + HUGEPGSIZE * of_nat i
          in Inr (pa, s\<lparr>hugepagelist := (hugepagelist s)(i := -1),
                 huge_pa_referenced := (huge_pa_referenced s)(i := huge_pa_referenced s i + 1),
                 mem := memset (mem s) pa 0 2097152,
                 freemem := freemem s - 512,
                 used2m := used2m s + 1\<rparr>))"

definition kalloc_huge :: "'a kst_scheme \<Rightarrow> (u64 \<times> 'a kst_scheme) res" where
  "kalloc_huge = critical Lk_kmem kalloc_huge_body"

definition kfree_huge_body :: "u64 \<Rightarrow> 'a kst_scheme \<Rightarrow> 'a kst_scheme res" where
  "kfree_huge_body pa s =
     ebind (arrayix NHUGE (get_hugepage_i pa s)) (\<lambda>i.
     if hugepagelist s i \<noteq> -1 then Inl (Panic ''kfree_huge'')
     else
       let s = (if huge_pa_referenced s i > 0
                then s\<lparr>huge_pa_referenced := (huge_pa_referenced s)(i := huge_pa_referenced s i - 1)\<rparr>
                else s)
       in if huge_pa_referenced s i = 0
          then Inr (s\<lparr>mem := memset (mem s) pa 0 2097152,
                      hugepagelist := (hugepagelist s)(i := 0),
                      freemem := freemem s + 512,
                      used2m := used2m s - 1\<rparr>)
          else Inr s)"

definition kfree_huge :: "u64 \<Rightarrow> 'a kst_scheme \<Rightarrow> 'a kst_scheme res" where
  "kfree_huge pa s =
     (if pa mod HUGEPGSIZE \<noteq> 0 \<or> pa < kend s \<or> PHYSTOP \<le> pa then Inl (Panic ''kfree_huge'')
      else critical0 Lk_kmem (kfree_huge_body pa) s)"

lemma kfree_below: "kfree pa s = Inr t \<Longrightarrow> unat pa < unat PHYSTOP"
  by (auto simp: kfree_def word_less_nat_alt word_le_nat_alt split: if_splits)

function free_loop :: "u64 \<Rightarrow> u64 \<Rightarrow> 'a kst_scheme \<Rightarrow> 'a kst_scheme res" where
  "free_loop p pa_end s =
     (if p + PGSIZE \<le> pa_end then ebind (kfree p s) (free_loop (p + PGSIZE) pa_end) else Inr s)"
  by pat_completeness auto
termination
  by (relation "measure (\<lambda>(p, e, s). unat PHYSTOP - unat p)")
    (auto dest!: kfree_below simp: unat_u64_add)

declare free_loop.simps [simp del]

definition freerange :: "u64 \<Rightarrow> u64 \<Rightarrow> 'a kst_scheme \<Rightarrow> 'a kst_scheme res" where
  "freerange pa_start pa_end s =
     ebind (critical0 Lk_kmem (\<lambda>s.
       Inr (s\<lparr>hugepagelist := (\<lambda>i. if i < NHUGE then 512 else hugepagelist s i)\<rparr>)) s)
     (free_loop (HUGEPGROUNDUP pa_start) pa_end)"

definition kinit :: "'a kst_scheme \<Rightarrow> 'a kst_scheme res" where
  "kinit s =
     ebind (critical0 Lk_kmem (\<lambda>s. Inr (s\<lparr>page_start := HUGEPGROUNDUP (kend s)\<rparr>))
              (initlock Lk_kmem ''kmem'' s)) (\<lambda>s.
     ebind (freerange (kend s) PHYSTOP s) (\<lambda>s.
     Inr (s\<lparr>used4k := 0, freemem := freemem s + 512\<rparr>)))"


section \<open>Frames and their addresses\<close>

definition page_addr :: "nat \<Rightarrow> u64" where
  "page_addr i = 0x80200000 + 4096 * of_nat i"

definition huge_addr :: "nat \<Rightarrow> u64" where
  "huge_addr h = 0x80200000 + 2097152 * of_nat h"

lemma unat_page_addr [wordarith]: "i \<le> NPAGE \<Longrightarrow> unat (page_addr i) = 2149580800 + 4096 * i"
proof -
  assume i: "i \<le> NPAGE"
  have m: "unat (4096 * of_nat i :: u64) = 4096 * i"
    using i by (subst unat_mult_lem [THEN iffD1]) simp_all
  show ?thesis unfolding page_addr_def using i m by (subst unat_u64_add_nowrap) simp_all
qed

lemma unat_huge_addr [wordarith]: "h \<le> NHUGE \<Longrightarrow> unat (huge_addr h) = 2149580800 + 2097152 * h"
proof -
  assume h: "h \<le> NHUGE"
  have m: "unat (2097152 * of_nat h :: u64) = 2097152 * h"
    using h by (subst unat_mult_lem [THEN iffD1]) simp_all
  show ?thesis unfolding huge_addr_def using h m by (subst unat_u64_add_nowrap) simp_all
qed

lemma page_addr_inj: "i \<le> NPAGE \<Longrightarrow> j \<le> NPAGE \<Longrightarrow> page_addr i = page_addr j \<longleftrightarrow> i = j"
  by (auto simp: u64_eq_iff unat_page_addr simp del: NPAGE_def)

lemma page_addr_nonnull [simp]: "i \<le> NPAGE \<Longrightarrow> page_addr i \<noteq> 0"
  using unat_page_addr [of i] by (metis add_is_0 unsigned_0 zero_neq_numeral)

lemma huge_addr_nonnull [simp]: "h \<le> NHUGE \<Longrightarrow> huge_addr h \<noteq> 0"
  using unat_huge_addr [of h] by (metis add_is_0 unsigned_0 zero_neq_numeral)

lemma paligned_page_addr [simp]: "i \<le> NPAGE \<Longrightarrow> paligned (page_addr i)"
proof -
  assume "i \<le> NPAGE"
  then have "unat (page_addr i) = 4096 * (524800 + i)" by (simp add: unat_page_addr)
  then show ?thesis by (simp add: paligned_nat)
qed

lemma haligned_huge_addr [simp]: "h \<le> NHUGE \<Longrightarrow> haligned (huge_addr h)"
proof -
  assume "h \<le> NHUGE"
  then have "unat (huge_addr h) = 2097152 * (1025 + h)" by (simp add: unat_huge_addr)
  then show ?thesis by (simp add: haligned_nat)
qed

lemma sint_small: "n < 2147483648 \<Longrightarrow> sint (ucast (w :: u64) :: u32) = int n" if "unat w = n" for n
proof -
  assume n: "n < 2147483648"
  have u: "uint w = int n" using that by (simp add: uint_nat)
  have "sint (ucast w :: u32) = signed_take_bit 31 (uint w)"
    by (simp add: signed_ucast_eq)
  also have "\<dots> = uint w" using n u by (intro signed_take_bit_int_eq_self) simp_all
  finally show ?thesis using u by simp
qed

definition kmem_at :: "'a kst_scheme \<Rightarrow> bool" where
  "kmem_at s \<longleftrightarrow> page_start s = 0x80200000 \<and> KERNBASE \<le> kend s \<and> kend s \<le> page_start s"

lemma get_page_i_addr:
  assumes "kmem_at s" "i < NPAGE"
  shows "get_page_i (page_addr i) s = int i"
proof -
  have "unat ((page_addr i - page_start s) div PGSIZE) = i"
    using assms by (simp add: kmem_at_def page_addr_def unat_div_distrib unat_word_ariths(2))
  then show ?thesis unfolding get_page_i_def by (rule sint_small) (use assms in simp)
qed

lemma get_hugepage_i_addr:
  assumes "kmem_at s" "i < NPAGE"
  shows "get_hugepage_i (page_addr i) s = int (i div 512)"
proof -
  have "unat ((page_addr i - page_start s) div HUGEPGSIZE) = 4096 * i div 2097152"
    using assms by (simp add: kmem_at_def page_addr_def unat_div_distrib unat_word_ariths(2))
  also have "\<dots> = i div 512" using div_mult_mult1 [of 4096 i 512] by simp
  finally show ?thesis unfolding get_hugepage_i_def by (rule sint_small) (use assms in simp)
qed

lemma get_hugepage_i_huge:
  assumes "kmem_at s" "h < NHUGE"
  shows "get_hugepage_i (huge_addr h) s = int h"
proof -
  have "unat ((huge_addr h - page_start s) div HUGEPGSIZE) = h"
    using assms by (simp add: kmem_at_def huge_addr_def unat_div_distrib unat_word_ariths(2))
  then show ?thesis unfolding get_hugepage_i_def by (rule sint_small) (use assms in simp)
qed

text \<open>The guards at the head of the operations accept the address of every frame.\<close>

lemma page_addr_guard:
  assumes "kmem_at s" "i < NPAGE"
  shows "page_addr i mod PGSIZE = 0" "\<not> page_addr i < kend s" "\<not> PHYSTOP \<le> page_addr i"
proof -
  have u: "unat (page_addr i) = 2149580800 + 4096 * i" using assms by (simp add: unat_page_addr)
  have k: "unat (kend s) \<le> 2149580800" using assms by (auto simp: kmem_at_def word_le_nat_alt)
  show "page_addr i mod PGSIZE = 0"
    using paligned_page_addr [of i] assms(2) by (simp add: paligned_def)
  show "\<not> page_addr i < kend s" using u k by (simp add: word_less_nat_alt)
  show "\<not> PHYSTOP \<le> page_addr i" using u assms(2) by (simp add: word_le_nat_alt)
qed

lemma huge_addr_guard:
  assumes "kmem_at s" "h < NHUGE"
  shows "huge_addr h mod HUGEPGSIZE = 0" "\<not> huge_addr h < kend s" "\<not> PHYSTOP \<le> huge_addr h"
proof -
  have u: "unat (huge_addr h) = 2149580800 + 2097152 * h" using assms by (simp add: unat_huge_addr)
  have k: "unat (kend s) \<le> 2149580800" using assms by (auto simp: kmem_at_def word_le_nat_alt)
  show "huge_addr h mod HUGEPGSIZE = 0"
    using haligned_huge_addr [of h] assms(2) by (simp add: haligned_def)
  show "\<not> huge_addr h < kend s" using u k by (simp add: word_less_nat_alt)
  show "\<not> PHYSTOP \<le> huge_addr h" using u assms(2) by (simp add: word_le_nat_alt)
qed

text \<open>Conversely, every aligned address of the managed range is the address of a frame.\<close>

lemma page_addr_surj:
  assumes "paligned pa" "0x80200000 \<le> pa" "pa < PHYSTOP"
  shows "\<exists>i < NPAGE. pa = page_addr i"
proof -
  obtain k where k: "unat pa = 4096 * k" using assms(1) by (auto simp: paligned_nat mod_eq_0_iff_dvd)
  have "524800 \<le> k" "k < 557056" using assms(2,3) k by (simp_all add: word_le_nat_alt word_less_nat_alt)
  then obtain i where i: "k = 524800 + i" "i < NPAGE" by (auto simp: le_iff_add)
  then have "unat pa = unat (page_addr i)" using k by (simp add: unat_page_addr)
  then have "pa = page_addr i" by (simp only: u64_eq_iff)
  then show ?thesis using i by blast
qed

lemma huge_addr_surj:
  assumes "haligned pa" "0x80200000 \<le> pa" "pa < PHYSTOP"
  shows "\<exists>h < NHUGE. pa = huge_addr h"
proof -
  obtain k where k: "unat pa = 2097152 * k" using assms(1) by (auto simp: haligned_nat mod_eq_0_iff_dvd)
  have "1025 \<le> k" "k < 1088" using assms(2,3) k by (simp_all add: word_le_nat_alt word_less_nat_alt)
  then obtain h where h: "k = 1025 + h" "h < NHUGE" by (auto simp: le_iff_add)
  then have "unat pa = unat (huge_addr h)" using k by (simp add: unat_huge_addr)
  then have "pa = huge_addr h" by (simp only: u64_eq_iff)
  then show ?thesis using h by blast
qed


section \<open>The allocator invariant\<close>

definition pages_used :: "'a kst_scheme \<Rightarrow> nat \<Rightarrow> nat" where
  "pages_used s h = card {i. i < NPAGE \<and> i div 512 = h \<and> pagelist s i = 0}"

definition section_inv :: "'a kst_scheme \<Rightarrow> nat \<Rightarrow> bool" where
  "section_inv s h \<longleftrightarrow>
     (if hugepagelist s h = -1
      then 0 < huge_pa_referenced s h \<and> pages_used s h = 0
      else huge_pa_referenced s h = 0 \<and> hugepagelist s h = int (pages_used s h))"

definition counters_inv :: "'a kst_scheme \<Rightarrow> bool" where
  "counters_inv s \<longleftrightarrow>
     used4k s = int (card {i. i < NPAGE \<and> pagelist s i = 0})
   \<and> used2m s = int (card {h. h < NHUGE \<and> hugepagelist s h = -1})
   \<and> freemem s + used4k s + 512 * used2m s = 32768"

definition kmem_core :: "'a kst_scheme \<Rightarrow> bool" where
  "kmem_core s \<longleftrightarrow>
     kmem_at s
   \<and> (\<forall>h < NHUGE. section_inv s h)
   \<and> (\<forall>i < NPAGE. pagelist s i = (if pa_referenced s i = 0 then 1 else 0))
   \<and> counters_inv s"

definition kmem_inv :: "'a kst_scheme \<Rightarrow> bool" where
  "kmem_inv s \<longleftrightarrow> lock_free Lk_kmem s \<and> kmem_core s"

lemma pages_used_le: "pages_used s h \<le> 512"
proof -
  have "{i. i < NPAGE \<and> i div 512 = h \<and> pagelist s i = 0} \<subseteq> {h * 512..<h * 512 + 512}"
    by auto
  then have "pages_used s h \<le> card {h * 512..<h * 512 + 512}"
    unfolding pages_used_def by (intro card_mono) simp_all
  then show ?thesis by simp
qed

lemma section_range:
  "section_inv s h \<Longrightarrow> hugepagelist s h = -1 \<or> 0 \<le> hugepagelist s h \<and> hugepagelist s h \<le> 512"
  using pages_used_le [of s h] by (auto simp: section_inv_def split: if_splits)

lemmas kmem_defs = kmem_core_def kmem_at_def section_inv_def counters_inv_def pages_used_def

lemma kmem_at_hw [simp]: "kmem_at (entered l s) = kmem_at s" "kmem_at (settled s) = kmem_at s"
  by (simp_all add: kmem_at_def entered_def settled_def set_mycpu_def)

lemma kmem_core_hw [simp]:
  "kmem_core (entered l s) = kmem_core s" "kmem_core (settled s) = kmem_core s"
  by (simp_all add: kmem_defs entered_def settled_def set_mycpu_def)

lemma kmem_core_mem [simp]: "kmem_core (s\<lparr>mem := m\<rparr>) = kmem_core s"
  by (simp add: kmem_defs)

lemma kmem_inv_mem [simp]: "kmem_inv (s\<lparr>mem := m\<rparr>) = kmem_inv s"
  by (simp add: kmem_inv_def lock_free_def)

lemma kst_entered [simp]:
  "mem (entered l s) = mem s" "kend (entered l s) = kend s" "page_start (entered l s) = page_start s"
  "hugepagelist (entered l s) = hugepagelist s" "pagelist (entered l s) = pagelist s"
  "pa_referenced (entered l s) = pa_referenced s"
  "huge_pa_referenced (entered l s) = huge_pa_referenced s"
  by (simp_all add: entered_def)

lemma kst_settled [simp]:
  "mem (settled s) = mem s" "kend (settled s) = kend s" "page_start (settled s) = page_start s"
  "hugepagelist (settled s) = hugepagelist s" "pagelist (settled s) = pagelist s"
  "pa_referenced (settled s) = pa_referenced s"
  "huge_pa_referenced (settled s) = huge_pa_referenced s"
  by (simp_all add: settled_def set_mycpu_def)

text \<open>A free base page in a huge frame that is not handed out whole.\<close>

definition page_avail :: "'a kst_scheme \<Rightarrow> nat \<Rightarrow> bool" where
  "page_avail s i \<longleftrightarrow> i < NPAGE \<and> pa_referenced s i = 0 \<and> hugepagelist s (i div 512) \<noteq> -1"

text \<open>The state changes the operations make, once their guards have passed.\<close>

definition take_page :: "nat \<Rightarrow> 'a kst_scheme \<Rightarrow> 'a kst_scheme" where
  "take_page i s = s\<lparr>mem := memset (mem s) (page_addr i) 0 4096,
     pa_referenced := (pa_referenced s)(i := 1),
     pagelist := (pagelist s)(i := 0),
     hugepagelist := (hugepagelist s)(i div 512 := hugepagelist s (i div 512) + 1),
     freemem := freemem s - 1, used4k := used4k s + 1\<rparr>"

definition free_page :: "nat \<Rightarrow> 'a kst_scheme \<Rightarrow> 'a kst_scheme" where
  "free_page i s = s\<lparr>mem := memset (mem s) (page_addr i) 0 4096,
     pa_referenced := (pa_referenced s)(i := 0),
     pagelist := (pagelist s)(i := 1),
     hugepagelist := (hugepagelist s)(i div 512 := hugepagelist s (i div 512) - 1),
     freemem := freemem s + 1, used4k := used4k s - 1\<rparr>"

definition set_ref :: "nat \<Rightarrow> u8 \<Rightarrow> 'a kst_scheme \<Rightarrow> 'a kst_scheme" where
  "set_ref i r s = s\<lparr>pa_referenced := (pa_referenced s)(i := r)\<rparr>"

definition take_huge :: "nat \<Rightarrow> 'a kst_scheme \<Rightarrow> 'a kst_scheme" where
  "take_huge h s = s\<lparr>mem := memset (mem s) (huge_addr h) 0 2097152,
     hugepagelist := (hugepagelist s)(h := -1),
     huge_pa_referenced := (huge_pa_referenced s)(h := 1),
     freemem := freemem s - 512, used2m := used2m s + 1\<rparr>"

definition free_huge :: "nat \<Rightarrow> 'a kst_scheme \<Rightarrow> 'a kst_scheme" where
  "free_huge h s = s\<lparr>mem := memset (mem s) (huge_addr h) 0 2097152,
     hugepagelist := (hugepagelist s)(h := 0),
     huge_pa_referenced := (huge_pa_referenced s)(h := 0),
     freemem := freemem s + 512, used2m := used2m s - 1\<rparr>"

definition set_huge_ref :: "nat \<Rightarrow> u8 \<Rightarrow> 'a kst_scheme \<Rightarrow> 'a kst_scheme" where
  "set_huge_ref h r s = s\<lparr>huge_pa_referenced := (huge_pa_referenced s)(h := r)\<rparr>"

lemmas kchange_defs = take_page_def free_page_def set_ref_def take_huge_def free_huge_def set_huge_ref_def

lemma page_section: "i < NPAGE \<Longrightarrow> i div 512 < NHUGE"
  by simp

lemma pages_used_take:
  assumes "i < NPAGE" "pagelist s i \<noteq> 0"
  shows "pages_used (take_page i s) h = (if h = i div 512 then Suc (pages_used s h) else pages_used s h)"
proof (cases "h = i div 512")
  case True
  then show ?thesis
    unfolding pages_used_def using assms
    by (simp del: NPAGE_def, intro card_flip_in) (auto simp: take_page_def)
next
  case False
  then show ?thesis unfolding pages_used_def
    by (auto simp: take_page_def intro!: arg_cong [where f = card])
qed

lemma pages_used_free:
  assumes "i < NPAGE" "pagelist s i = 0"
  shows "pages_used s h = (if h = i div 512 then Suc (pages_used (free_page i s) h) else pages_used (free_page i s) h)"
proof (cases "h = i div 512")
  case True
  then show ?thesis
    unfolding pages_used_def using assms
    by (simp del: NPAGE_def, intro card_flip_out) (auto simp: free_page_def)
next
  case False
  then show ?thesis unfolding pages_used_def
    by (auto simp: free_page_def intro!: arg_cong [where f = card])
qed

lemma take_page_core:
  assumes "kmem_core s" "page_avail s i"
  shows "kmem_core (take_page i s)"
proof -
  have i: "i < NPAGE" "pa_referenced s i = 0" "hugepagelist s (i div 512) \<noteq> -1"
    using assms(2) by (auto simp: page_avail_def)
  have p: "pagelist s i = 1" using assms(1) i by (simp add: kmem_core_def)
  have u: "card {k. k < NPAGE \<and> pagelist (take_page i s) k = 0} = Suc (card {k. k < NPAGE \<and> pagelist s k = 0})"
    using i p by (intro card_flip_in) (auto simp: take_page_def)
  have h: "{h. h < NHUGE \<and> hugepagelist (take_page i s) h = -1} = {h. h < NHUGE \<and> hugepagelist s h = -1}"
    using assms(1) page_section [OF i(1)] section_range [of s "i div 512"] i
    by (auto simp: take_page_def kmem_core_def)
  have sec: "section_inv (take_page i s) h" if "h < NHUGE" for h
    using assms(1) that i p pages_used_take [of i s h]
    by (auto simp: kmem_core_def section_inv_def split: if_splits) (auto simp: take_page_def)
  show ?thesis using assms(1) i p u h sec unfolding kmem_core_def counters_inv_def
    by (auto simp: take_page_def kmem_at_def)
qed

lemma used_section:
  assumes "kmem_core s" "i < NPAGE" "pagelist s i = 0"
  shows "0 < pages_used s (i div 512)" "hugepagelist s (i div 512) \<noteq> -1"
proof -
  show u: "0 < pages_used s (i div 512)"
    using assms(2,3) pages_used_free [of i s "i div 512"] by simp
  show "hugepagelist s (i div 512) \<noteq> -1"
    using assms(1) page_section [OF assms(2)] u by (auto simp: kmem_core_def section_inv_def)
qed

lemma free_page_core:
  assumes "kmem_core s" "i < NPAGE" "pa_referenced s i \<noteq> 0"
  shows "kmem_core (free_page i s)"
proof -
  have p: "pagelist s i = 0" using assms by (simp add: kmem_core_def)
  note v = used_section [OF assms(1,2) p]
  have u: "card {k. k < NPAGE \<and> pagelist s k = 0} = Suc (card {k. k < NPAGE \<and> pagelist (free_page i s) k = 0})"
    using assms(2) p by (intro card_flip_out) (auto simp: free_page_def)
  have g: "hugepagelist s (i div 512) = int (pages_used s (i div 512))"
    using assms(1) page_section [OF assms(2)] v by (simp add: kmem_core_def section_inv_def)
  have h: "{h. h < NHUGE \<and> hugepagelist (free_page i s) h = -1} = {h. h < NHUGE \<and> hugepagelist s h = -1}"
    using g v by (auto simp: free_page_def)
  have sec: "section_inv (free_page i s) h" if "h < NHUGE" for h
    using assms(1) that p g v pages_used_free [OF assms(2) p, of h]
    by (auto simp: kmem_core_def section_inv_def split: if_splits) (auto simp: free_page_def)
  show ?thesis using assms(1) p u h sec unfolding kmem_core_def counters_inv_def
    by (auto simp: free_page_def kmem_at_def)
qed

lemma pages_used_set_ref [simp]: "pages_used (set_ref i r s) = pages_used s"
  by (auto simp: pages_used_def set_ref_def fun_eq_iff)

lemma set_ref_core:
  assumes "kmem_core s" "i < NPAGE" "pa_referenced s i \<noteq> 0" "r \<noteq> 0"
  shows "kmem_core (set_ref i r s)"
proof -
  have "section_inv (set_ref i r s) h = section_inv s h" for h
    by (simp add: section_inv_def) (simp add: set_ref_def)
  then show ?thesis
    using assms
    by (auto simp: kmem_core_def) (auto simp: set_ref_def kmem_at_def counters_inv_def split: if_splits)
qed

lemma pages_used_huge [simp]:
  "pages_used (take_huge h s) = pages_used s" "pages_used (free_huge h s) = pages_used s"
  "pages_used (set_huge_ref h r s) = pages_used s"
  by (auto simp: pages_used_def kchange_defs fun_eq_iff)

lemma take_huge_core:
  assumes "kmem_core s" "h < NHUGE" "hugepagelist s h = 0"
  shows "kmem_core (take_huge h s)"
proof -
  have c: "card {k. k < NHUGE \<and> hugepagelist (take_huge h s) k = -1} = Suc (card {k. k < NHUGE \<and> hugepagelist s k = -1})"
    using assms(2,3) by (intro card_flip_in) (auto simp: take_huge_def)
  have "section_inv (take_huge h s) k" if "k < NHUGE" for k
    using assms that by (auto simp: kmem_core_def section_inv_def) (auto simp: take_huge_def split: if_splits)
  then show ?thesis using assms(1) c unfolding kmem_core_def counters_inv_def
    by (auto simp: take_huge_def kmem_at_def)
qed

lemma free_huge_core:
  assumes "kmem_core s" "h < NHUGE" "hugepagelist s h = -1"
  shows "kmem_core (free_huge h s)"
proof -
  have c: "card {k. k < NHUGE \<and> hugepagelist s k = -1} = Suc (card {k. k < NHUGE \<and> hugepagelist (free_huge h s) k = -1})"
    using assms(2,3) by (intro card_flip_out) (auto simp: free_huge_def)
  have "section_inv (free_huge h s) k" if "k < NHUGE" for k
    using assms that by (auto simp: kmem_core_def section_inv_def) (auto simp: free_huge_def split: if_splits)
  then show ?thesis using assms(1) c unfolding kmem_core_def counters_inv_def
    by (auto simp: free_huge_def kmem_at_def)
qed

lemma set_huge_ref_core:
  assumes "kmem_core s" "h < NHUGE" "hugepagelist s h = -1" "r \<noteq> 0"
  shows "kmem_core (set_huge_ref h r s)"
  using assms by (auto simp: kmem_core_def section_inv_def counters_inv_def word_gt_0 kmem_at_def)
    (auto simp: set_huge_ref_def word_gt_0 split: if_splits)


section \<open>The operations under the invariant\<close>

lemma find_upt_Some:
  "find P [m..<n] = Some i \<longleftrightarrow> m \<le> i \<and> i < n \<and> P i \<and> (\<forall>j. m \<le> j \<and> j < i \<longrightarrow> \<not> P j)"
proof
  assume "find P [m..<n] = Some i"
  then obtain k where k: "k < n - m" "P (m + k)" "i = m + k" "\<forall>j<k. \<not> P (m + j)"
    by (auto simp: find_Some_iff)
  then show "m \<le> i \<and> i < n \<and> P i \<and> (\<forall>j. m \<le> j \<and> j < i \<longrightarrow> \<not> P j)"
    by (auto simp: le_iff_add)
next
  assume "m \<le> i \<and> i < n \<and> P i \<and> (\<forall>j. m \<le> j \<and> j < i \<longrightarrow> \<not> P j)"
  then show "find P [m..<n] = Some i"
    unfolding find_Some_iff by (intro exI [of _ "i - m"]) auto
qed

lemma find_upt_None: "find P [m..<n] = None \<longleftrightarrow> (\<forall>i. m \<le> i \<and> i < n \<longrightarrow> \<not> P i)"
  by (auto simp: find_None_iff)

text \<open>A huge frame that is not full and not handed out whole has a free base page.\<close>

lemma section_has_free:
  assumes "kmem_core s" "h < NHUGE" "0 \<le> hugepagelist s h" "hugepagelist s h < 512"
  shows "\<exists>i. h * 512 \<le> i \<and> i < h * 512 + 512 \<and> pagelist s i \<noteq> 0"
proof (rule ccontr)
  assume "\<not> ?thesis"
  then have "{i. i < NPAGE \<and> i div 512 = h \<and> pagelist s i = 0} = {h * 512..<h * 512 + 512}"
    using assms(2) by (auto simp: div_nat_eqI)
  then have "pages_used s h = 512" by (simp add: pages_used_def)
  moreover have "hugepagelist s h = int (pages_used s h)"
    using assms by (auto simp: kmem_core_def section_inv_def split: if_splits)
  ultimately show False using assms(4) by simp
qed

lemma kalloc_section_Some:
  "kalloc_section s = Some h \<Longrightarrow> h < NHUGE \<and> 0 \<le> hugepagelist s h \<and> hugepagelist s h < 512"
  by (auto simp: kalloc_section_def find_upt_Some find_upt_None split: option.splits
      simp del: NHUGE_def upt_conv_Cons)

lemma kalloc_section_None:
  assumes "kmem_core s"
  shows "kalloc_section s = None \<longleftrightarrow> (\<forall>h < NHUGE. hugepagelist s h = -1 \<or> hugepagelist s h = 512)"
proof
  assume "kalloc_section s = None"
  then have "\<forall>h < NHUGE. \<not> (0 \<le> hugepagelist s h \<and> hugepagelist s h < 512)"
    by (auto simp: kalloc_section_def find_upt_None split: option.splits simp del: NHUGE_def)
  then show "\<forall>h < NHUGE. hugepagelist s h = -1 \<or> hugepagelist s h = 512"
    using assms section_range [of s] unfolding kmem_core_def by force
next
  assume a: "\<forall>h < NHUGE. hugepagelist s h = -1 \<or> hugepagelist s h = 512"
  show "kalloc_section s = None"
    using a kalloc_section_Some [of s] by (cases "kalloc_section s") force+
qed

lemma kalloc_body_ok:
  assumes "kmem_core s" "kalloc_section s = Some h"
  shows "\<exists>i. page_avail s i \<and> i div 512 = h \<and> kalloc_body s = Inr (page_addr i, take_page i s)"
proof -
  note h = kalloc_section_Some [OF assms(2)]
  obtain i where i: "find (\<lambda>i. pagelist s i \<noteq> 0) [h * 512..<h * 512 + 512] = Some i"
    using section_has_free [of s h] assms(1) h by (cases "find (\<lambda>i. pagelist s i \<noteq> 0) [h * 512..<h * 512 + 512]")
      (auto simp: find_upt_None)
  then have r: "h * 512 \<le> i" "i < h * 512 + 512" "pagelist s i \<noteq> 0" by (simp_all add: find_upt_Some)
  have n: "i < NPAGE" "i div 512 = h" using r h by (simp_all add: div_nat_eqI)
  have z: "pa_referenced s i = 0" using assms(1) n r by (auto simp: kmem_core_def split: if_splits)
  have pa: "pageindex_to_pa i s = page_addr i"
    using assms(1) by (simp add: pageindex_to_pa_def page_addr_def kmem_core_def kmem_at_def)
  have "kalloc_body s = Inr (page_addr i, take_page i s)"
    using assms(2) i n z pa by (simp add: kalloc_body_def take_page_def Let_def)
  then show ?thesis using n z h by (auto simp: page_avail_def)
qed

lemma kalloc_body_None: "kalloc_section s = None \<Longrightarrow> kalloc_body s = Inr (0, s)"
  by (simp add: kalloc_body_def)

lemma kalloc_section_hw [simp]: "kalloc_section (entered l s) = kalloc_section s"
  by (simp only: kalloc_section_def kst_entered)

lemma page_avail_hw [simp]:
  "page_avail (entered l s) i = page_avail s i" "page_avail (settled s) i = page_avail s i"
  by (simp_all add: page_avail_def)

lemma kchange_hw [simp]:
  "locks (take_page i s) = locks s" "cpus (take_page i s) = cpus s" "hartid (take_page i s) = hartid s"
  "locks (free_page i s) = locks s" "cpus (free_page i s) = cpus s" "hartid (free_page i s) = hartid s"
  "locks (set_ref i r s) = locks s" "cpus (set_ref i r s) = cpus s" "hartid (set_ref i r s) = hartid s"
  "locks (take_huge i s) = locks s" "cpus (take_huge i s) = cpus s" "hartid (take_huge i s) = hartid s"
  "locks (free_huge i s) = locks s" "cpus (free_huge i s) = cpus s" "hartid (free_huge i s) = hartid s"
  "locks (set_huge_ref i r s) = locks s" "cpus (set_huge_ref i r s) = cpus s"
  "hartid (set_huge_ref i r s) = hartid s"
  by (simp_all add: kchange_defs)

text \<open>Leaving the critical section: the change applies to the state outside it.\<close>

lemma kchange_leave:
  "(take_page i (entered l s))\<lparr>locks := locks s, cpus := cpus (settled s)\<rparr> = take_page i (settled s)"
  "(free_page i (entered l s))\<lparr>locks := locks s, cpus := cpus (settled s)\<rparr> = free_page i (settled s)"
  "(set_ref i r (entered l s))\<lparr>locks := locks s, cpus := cpus (settled s)\<rparr> = set_ref i r (settled s)"
  "(take_huge i (entered l s))\<lparr>locks := locks s, cpus := cpus (settled s)\<rparr> = take_huge i (settled s)"
  "(free_huge i (entered l s))\<lparr>locks := locks s, cpus := cpus (settled s)\<rparr> = free_huge i (settled s)"
  "(set_huge_ref i r (entered l s))\<lparr>locks := locks s, cpus := cpus (settled s)\<rparr> = set_huge_ref i r (settled s)"
  "(entered l s)\<lparr>locks := locks s, cpus := cpus (settled s)\<rparr> = settled s"
  by (cases s, simp add: kchange_defs entered_def settled_def set_mycpu_def)+

lemma lock_free_change [simp]:
  "lock_free l (take_page i s) = lock_free l s" "lock_free l (free_page i s) = lock_free l s"
  "lock_free l (set_ref i r s) = lock_free l s" "lock_free l (take_huge i s) = lock_free l s"
  "lock_free l (free_huge i s) = lock_free l s" "lock_free l (set_huge_ref i r s) = lock_free l s"
  "lock_free l (settled s) = lock_free l s"
  by (simp_all add: lock_free_def settled_def)

lemma kmem_inv_settled [simp]: "kmem_inv (settled s) = kmem_inv s"
  by (simp add: kmem_inv_def)

lemma kalloc_ok:
  assumes "kmem_inv s" "kalloc_section s = Some h"
  shows "\<exists>i. page_avail s i \<and> i div 512 = h \<and> kalloc s = Inr (page_addr i, take_page i (settled s))"
proof -
  have k: "lock_free Lk_kmem s" "kmem_core (entered Lk_kmem s)" using assms(1) by (simp_all add: kmem_inv_def)
  obtain i where i: "page_avail (entered Lk_kmem s) i" "i div 512 = h"
    "kalloc_body (entered Lk_kmem s) = Inr (page_addr i, take_page i (entered Lk_kmem s))"
    using kalloc_body_ok [OF k(2)] assms(2) by auto
  have "kalloc s = Inr (page_addr i, (take_page i (entered Lk_kmem s))\<lparr>locks := locks s, cpus := cpus (settled s)\<rparr>)"
    unfolding kalloc_def by (rule critical_leaf) (simp_all add: k i)
  then show ?thesis using i by (auto simp: kchange_leave)
qed

lemma kalloc_null:
  assumes "kmem_inv s" "kalloc_section s = None"
  shows "kalloc s = Inr (0, settled s)"
proof -
  have k: "lock_free Lk_kmem s" using assms(1) by (simp add: kmem_inv_def)
  have "kalloc s = Inr (0, (entered Lk_kmem s)\<lparr>locks := locks s, cpus := cpus (settled s)\<rparr>)"
    unfolding kalloc_def
    by (rule critical_leaf) (simp_all add: k kalloc_body_None assms)
  then show ?thesis by (simp add: kchange_leave)
qed

lemma kfree_dead:
  assumes "kmem_inv s" "i < NPAGE" "pa_referenced s i = 0"
  shows "kfree (page_addr i) s = Inl (Panic ''double kfree'')"
proof -
  have k: "lock_free Lk_kmem s" "kmem_at s" "pagelist s i = 1"
    using assms by (simp_all add: kmem_inv_def kmem_core_def)
  have "kfree_body (page_addr i) (int i) (int (i div 512)) (entered Lk_kmem s)
    = Inl (Panic ''double kfree'')"
    using assms(2) k by (simp add: kfree_body_def)
  then show ?thesis
    using page_addr_guard [OF k(2) assms(2)] get_page_i_addr [OF k(2) assms(2)]
      get_hugepage_i_addr [OF k(2) assms(2)] critical0_fault [OF k(1)]
    by (simp add: kfree_def del: PGSIZE_def PHYSTOP_def NPAGE_def)
qed

lemma kfree_live:
  assumes "kmem_inv s" "i < NPAGE" "pa_referenced s i \<noteq> 0"
  shows "kfree (page_addr i) s =
    Inr (if pa_referenced s i = 1 then free_page i (settled s)
         else set_ref i (pa_referenced s i - 1) (settled s))"
    (is "_ = Inr ?t")
proof -
  have k: "lock_free Lk_kmem s" "kmem_at s" "pagelist s i = 0"
    using assms by (simp_all add: kmem_inv_def kmem_core_def)
  let ?e = "entered Lk_kmem s"
  let ?u = "if pa_referenced s i = 1 then free_page i ?e else set_ref i (pa_referenced s i - 1) ?e"
  have "kfree_body (page_addr i) (int i) (int (i div 512)) ?e = Inr ?u"
    using assms(2,3) k page_section [OF assms(2)]
    by (simp add: kfree_body_def word_gt_0 Let_def)
      (simp add: free_page_def set_ref_def)
  then have "critical0 Lk_kmem (kfree_body (page_addr i) (int i) (int (i div 512))) s
    = Inr (?u\<lparr>locks := locks s, cpus := cpus (settled s)\<rparr>)"
    by (intro critical0_leaf) (simp_all add: k)
  moreover have "?u\<lparr>locks := locks s, cpus := cpus (settled s)\<rparr> = ?t"
    by (simp add: kchange_leave)
  ultimately show ?thesis
    using page_addr_guard [OF k(2) assms(2)] get_page_i_addr [OF k(2) assms(2)]
      get_hugepage_i_addr [OF k(2) assms(2)]
    by (simp add: kfree_def del: PGSIZE_def PHYSTOP_def NPAGE_def)
qed

lemma incr_pa_ref_eq:
  assumes "kmem_inv s" "i < NPAGE"
  shows "incr_pa_ref (page_addr i) s = Inr (set_ref i (pa_referenced s i + 1) (settled s))"
proof -
  have k: "lock_free Lk_kmem s" "kmem_at s" "kmem_at (entered Lk_kmem s)"
    using assms by (simp_all add: kmem_inv_def kmem_core_def)
  have "critical0 Lk_kmem (\<lambda>s. ebind (arrayix NPAGE (get_page_i (page_addr i) s)) (\<lambda>i.
      Inr (s\<lparr>pa_referenced := (pa_referenced s)(i := pa_referenced s i + 1)\<rparr>))) s
    = Inr ((set_ref i (pa_referenced s i + 1) (entered Lk_kmem s))\<lparr>locks := locks s, cpus := cpus (settled s)\<rparr>)"
    by (rule critical0_leaf) (use k assms(2) get_page_i_addr [OF k(3) assms(2)] in
      \<open>simp_all add: set_ref_def del: NPAGE_def\<close>)
  then show ?thesis
    using page_addr_guard [OF k(2) assms(2)]
    by (simp add: incr_pa_ref_def kchange_leave del: PGSIZE_def PHYSTOP_def NPAGE_def)
qed

lemma reduce_pa_ref_eq:
  assumes "kmem_inv s" "i < NPAGE" "pa_referenced s i \<noteq> 0"
  shows "reduce_pa_ref (page_addr i) s = Inr (set_ref i (pa_referenced s i - 1) (settled s))"
proof -
  have k: "lock_free Lk_kmem s" "kmem_at s" "kmem_at (entered Lk_kmem s)"
    using assms by (simp_all add: kmem_inv_def kmem_core_def)
  have "critical0 Lk_kmem (\<lambda>s. ebind (arrayix NPAGE (get_page_i (page_addr i) s)) (\<lambda>i.
      if pa_referenced s i = 0 then Inl (Panic ''reduce ref should not have been called'')
      else Inr (s\<lparr>pa_referenced := (pa_referenced s)(i := pa_referenced s i - 1)\<rparr>))) s
    = Inr ((set_ref i (pa_referenced s i - 1) (entered Lk_kmem s))\<lparr>locks := locks s, cpus := cpus (settled s)\<rparr>)"
    by (rule critical0_leaf) (use k assms(2,3) get_page_i_addr [OF k(3) assms(2)] in
      \<open>simp_all add: set_ref_def del: NPAGE_def\<close>)
  then show ?thesis
    using page_addr_guard [OF k(2) assms(2)]
    by (simp add: reduce_pa_ref_def kchange_leave del: PGSIZE_def PHYSTOP_def NPAGE_def)
qed

lemma find_huge:
  "find (\<lambda>i. hugepagelist s i = 0) [0..<NHUGE] = None \<longleftrightarrow> (\<forall>h < NHUGE. hugepagelist s h \<noteq> 0)"
  "find (\<lambda>i. hugepagelist s i = 0) [0..<NHUGE] = Some h \<Longrightarrow> h < NHUGE \<and> hugepagelist s h = 0"
  by (auto simp: find_upt_None find_upt_Some simp del: NHUGE_def)

lemma kalloc_huge_ok:
  assumes "kmem_inv s" "\<exists>h < NHUGE. hugepagelist s h = 0"
  shows "\<exists>h < NHUGE. hugepagelist s h = 0 \<and> kalloc_huge s = Inr (huge_addr h, take_huge h (settled s))"
proof -
  obtain h where f: "find (\<lambda>i. hugepagelist s i = 0) [0..<NHUGE] = Some h"
    using find_huge(1) [of s] assms(2)
    by (cases "find (\<lambda>i. hugepagelist s i = 0) [0..<NHUGE]") (auto simp del: NHUGE_def)
  note h = find_huge(2) [OF f]
  have k: "lock_free Lk_kmem s" "page_start s = 0x80200000" "huge_pa_referenced s h = 0"
    using assms(1) h by (auto simp: kmem_inv_def kmem_core_def kmem_at_def section_inv_def split: if_splits)
  have "kalloc_huge_body (entered Lk_kmem s) = Inr (huge_addr h, take_huge h (entered Lk_kmem s))"
    using f k by (simp add: kalloc_huge_body_def take_huge_def huge_addr_def Let_def
        del: NHUGE_def upt_conv_Cons)
  then have "kalloc_huge s
    = Inr (huge_addr h, (take_huge h (entered Lk_kmem s))\<lparr>locks := locks s, cpus := cpus (settled s)\<rparr>)"
    unfolding kalloc_huge_def by (intro critical_leaf) (simp_all add: k)
  then show ?thesis using h by (auto simp: kchange_leave)
qed

lemma kalloc_huge_null:
  assumes "kmem_inv s" "\<forall>h < NHUGE. hugepagelist s h \<noteq> 0"
  shows "kalloc_huge s = Inr (0, settled s)"
proof -
  have k: "lock_free Lk_kmem s" using assms(1) by (simp add: kmem_inv_def)
  have "find (\<lambda>i. hugepagelist s i = 0) [0..<NHUGE] = None" using assms(2) by (simp only: find_huge)
  then have "kalloc_huge_body (entered Lk_kmem s) = Inr (0, entered Lk_kmem s)"
    by (simp add: kalloc_huge_body_def del: NHUGE_def upt_conv_Cons)
  then have "kalloc_huge s = Inr (0, (entered Lk_kmem s)\<lparr>locks := locks s, cpus := cpus (settled s)\<rparr>)"
    unfolding kalloc_huge_def by (intro critical_leaf) (simp_all add: k)
  then show ?thesis by (simp add: kchange_leave)
qed

lemma kfree_huge_dead:
  assumes "kmem_inv s" "h < NHUGE" "huge_pa_referenced s h = 0"
  shows "kfree_huge (huge_addr h) s = Inl (Panic ''kfree_huge'')"
proof -
  have k: "lock_free Lk_kmem s" "kmem_at s" "hugepagelist s h \<noteq> -1"
    using assms by (auto simp: kmem_inv_def kmem_core_def section_inv_def)
  have "kfree_huge_body (huge_addr h) (entered Lk_kmem s) = Inl (Panic ''kfree_huge'')"
    using assms(2) k get_hugepage_i_huge [of "entered Lk_kmem s" h]
    by (simp add: kfree_huge_body_def)
  then show ?thesis
    using huge_addr_guard [OF k(2) assms(2)] critical0_fault [OF k(1)]
    by (simp add: kfree_huge_def del: HUGEPGSIZE_def PHYSTOP_def)
qed

lemma huge_live:
  "kmem_inv s \<Longrightarrow> h < NHUGE \<Longrightarrow> huge_pa_referenced s h \<noteq> 0 \<longleftrightarrow> hugepagelist s h = -1"
  by (auto simp: kmem_inv_def kmem_core_def section_inv_def split: if_splits)

lemma kfree_huge_live:
  assumes "kmem_inv s" "h < NHUGE" "huge_pa_referenced s h \<noteq> 0"
  shows "kfree_huge (huge_addr h) s =
    Inr (if huge_pa_referenced s h = 1 then free_huge h (settled s)
         else set_huge_ref h (huge_pa_referenced s h - 1) (settled s))"
    (is "_ = Inr ?t")
proof -
  have k: "lock_free Lk_kmem s" "kmem_at s" "hugepagelist s h = -1"
    using assms huge_live [of s h] by (auto simp: kmem_inv_def kmem_core_def)
  let ?e = "entered Lk_kmem s"
  let ?u = "if huge_pa_referenced s h = 1 then free_huge h ?e
            else set_huge_ref h (huge_pa_referenced s h - 1) ?e"
  have "kfree_huge_body (huge_addr h) ?e = Inr ?u"
    using assms(2,3) k get_hugepage_i_huge [of ?e h]
    by (simp add: kfree_huge_body_def word_gt_0 Let_def) (simp add: free_huge_def set_huge_ref_def)
  then have "critical0 Lk_kmem (kfree_huge_body (huge_addr h)) s
    = Inr (?u\<lparr>locks := locks s, cpus := cpus (settled s)\<rparr>)"
    by (intro critical0_leaf) (simp_all add: k)
  moreover have "?u\<lparr>locks := locks s, cpus := cpus (settled s)\<rparr> = ?t"
    by (simp add: kchange_leave)
  ultimately show ?thesis
    using huge_addr_guard [OF k(2) assms(2)]
    by (simp add: kfree_huge_def del: HUGEPGSIZE_def PHYSTOP_def)
qed

lemma incr_huge_pa_ref_eq:
  assumes "kmem_inv s" "h < NHUGE"
  shows "incr_huge_pa_ref (huge_addr h) s = Inr (set_huge_ref h (huge_pa_referenced s h + 1) (settled s))"
proof -
  have k: "lock_free Lk_kmem s" "kmem_at s" "kmem_at (entered Lk_kmem s)"
    using assms by (simp_all add: kmem_inv_def kmem_core_def)
  have "critical0 Lk_kmem (\<lambda>s. ebind (arrayix NHUGE (get_hugepage_i (huge_addr h) s)) (\<lambda>i.
      Inr (s\<lparr>huge_pa_referenced := (huge_pa_referenced s)(i := huge_pa_referenced s i + 1)\<rparr>))) s
    = Inr ((set_huge_ref h (huge_pa_referenced s h + 1) (entered Lk_kmem s))
        \<lparr>locks := locks s, cpus := cpus (settled s)\<rparr>)"
    by (rule critical0_leaf) (use k assms(2) get_hugepage_i_huge [OF k(3) assms(2)] in
      \<open>simp_all add: set_huge_ref_def del: NHUGE_def\<close>)
  then show ?thesis
    using huge_addr_guard [OF k(2) assms(2)]
    by (simp add: incr_huge_pa_ref_def kchange_leave del: HUGEPGSIZE_def PHYSTOP_def NHUGE_def)
qed

end
