(* ===== verification/Frames.thy ===== *)
theory Frames
  imports Kalloc "HOL-Library.Multiset"
begin

text \<open>
  The contract of a reference-counted frame allocator, as a locale, and the two allocators
  of \<^verbatim>\<open>kernel/kalloc.c\<close> that meet it: base frames (\<^verbatim>\<open>kalloc\<close>, \<^verbatim>\<open>kfree\<close>,
  \<^verbatim>\<open>incr_pa_ref\<close>) and huge frames (\<^verbatim>\<open>kalloc_huge\<close>, \<^verbatim>\<open>kfree_huge\<close>,
  \<^verbatim>\<open>incr_huge_pa_ref\<close>).  The client lemma of the locale replays a history of calls, of a
  client that keeps to the references it has and to the 255 a count can hold, against a
  multiset of references.  The theory also proves what \<^verbatim>\<open>kinit\<close> establishes, what
  \<^verbatim>\<open>kfree\<close> does on every address, what the 256th reference does, and that the counters
  of free and used frames stay exact over any mix of the calls of the two allocators.
\<close>

section \<open>Contract\<close>

text \<open>
  A client's call: get a frame, put back a reference it has, duplicate a reference it has.
\<close>

datatype fop = Get | Put u64 | Dup u64

text \<open>
  The history of a client: its calls are made in order, whatever they name, and its references
  are recorded in a multiset.
\<close>

fun fops :: "('s \<Rightarrow> (u64 \<times> 's) res) \<Rightarrow> (u64 \<Rightarrow> 's \<Rightarrow> 's res) \<Rightarrow> (u64 \<Rightarrow> 's \<Rightarrow> 's res) \<Rightarrow>
    fop list \<Rightarrow> 's \<Rightarrow> u64 multiset \<Rightarrow> ('s \<times> u64 multiset) res" where
  "fops al fr sh [] s H = Inr (s, H)"
| "fops al fr sh (Get # os) s H =
     ebind (al s) (\<lambda>(pa, s). fops al fr sh os s (if pa = 0 then H else add_mset pa H))"
| "fops al fr sh (Put pa # os) s H = ebind (fr pa s) (\<lambda>s. fops al fr sh os s (H - {#pa#}))"
| "fops al fr sh (Dup pa # os) s H = ebind (sh pa s) (\<lambda>s. fops al fr sh os s (add_mset pa H))"

text \<open>
  What a client owes the allocator along its history: it puts or duplicates only a reference it
  has at that point, and it never duplicates a frame it has 255 references to, since the
  counts of the code are 8 bits wide and the code does not check them.
\<close>

fun entitled :: "('s \<Rightarrow> (u64 \<times> 's) res) \<Rightarrow> (u64 \<Rightarrow> 's \<Rightarrow> 's res) \<Rightarrow> (u64 \<Rightarrow> 's \<Rightarrow> 's res) \<Rightarrow>
    fop list \<Rightarrow> 's \<Rightarrow> u64 multiset \<Rightarrow> bool" where
  "entitled al fr sh [] s H \<longleftrightarrow> True"
| "entitled al fr sh (Get # os) s H \<longleftrightarrow> (case al s of Inl _ \<Rightarrow> True
     | Inr (pa, s) \<Rightarrow> entitled al fr sh os s (if pa = 0 then H else add_mset pa H))"
| "entitled al fr sh (Put pa # os) s H \<longleftrightarrow> pa \<in># H \<and> (case fr pa s of Inl _ \<Rightarrow> True
     | Inr s \<Rightarrow> entitled al fr sh os s (H - {#pa#}))"
| "entitled al fr sh (Dup pa # os) s H \<longleftrightarrow> pa \<in># H \<and> count H pa < 255 \<and> (case sh pa s of Inl _ \<Rightarrow> True
     | Inr s \<Rightarrow> entitled al fr sh os s (add_mset pa H))"

definition zero_filled :: "memory \<Rightarrow> memory \<Rightarrow> u64 \<Rightarrow> nat \<Rightarrow> bool" where
  "zero_filled m m' pa n \<longleftrightarrow> (\<forall>a. m' a = (if a \<in> region pa n then 0 else m a))"

locale frame_allocator =
  fixes inv :: "'s \<Rightarrow> bool" and refs :: "'s \<Rightarrow> nat \<Rightarrow> nat" and addr :: "nat \<Rightarrow> u64"
    and n :: nat and bytes :: nat and phys :: "'s \<Rightarrow> memory" and keep :: "'s \<Rightarrow> 'k"
    and al :: "'s \<Rightarrow> (u64 \<times> 's) res" and fr :: "u64 \<Rightarrow> 's \<Rightarrow> 's res" and sh :: "u64 \<Rightarrow> 's \<Rightarrow> 's res"
  assumes addr_inj: "i < n \<Longrightarrow> j < n \<Longrightarrow> addr i = addr j \<longleftrightarrow> i = j"
    and addr_nonnull: "i < n \<Longrightarrow> addr i \<noteq> 0"
    and al_ok: "inv s \<Longrightarrow> \<exists>pa t. al s = Inr (pa, t) \<and> inv t \<and> keep t = keep s \<and>
      (pa = 0 \<and> refs t = refs s \<and> phys t = phys s \<or>
       (\<exists>i < n. pa = addr i \<and> refs s i = 0 \<and> refs t = (refs s)(i := 1)
          \<and> zero_filled (phys s) (phys t) pa bytes))"
    and fr_last: "inv s \<Longrightarrow> i < n \<Longrightarrow> refs s i = 1 \<Longrightarrow> \<exists>t. fr (addr i) s = Inr t \<and> inv t \<and> keep t = keep s
      \<and> refs t = (refs s)(i := 0) \<and> zero_filled (phys s) (phys t) (addr i) bytes"
    and fr_shared: "inv s \<Longrightarrow> i < n \<Longrightarrow> 1 < refs s i \<Longrightarrow> \<exists>t. fr (addr i) s = Inr t \<and> inv t \<and> keep t = keep s
      \<and> refs t = (refs s)(i := refs s i - 1) \<and> phys t = phys s"
    and fr_dead: "inv s \<Longrightarrow> i < n \<Longrightarrow> refs s i = 0 \<Longrightarrow> \<exists>m. fr (addr i) s = Inl (Panic m)"
    and sh_ok: "inv s \<Longrightarrow> i < n \<Longrightarrow> 0 < refs s i \<Longrightarrow> refs s i < 255 \<Longrightarrow>
      \<exists>t. sh (addr i) s = Inr t \<and> inv t \<and> keep t = keep s \<and> refs t = (refs s)(i := refs s i + 1) \<and> phys t = phys s"
begin

definition tallies :: "'s \<Rightarrow> u64 multiset \<Rightarrow> bool" where
  "tallies s H \<longleftrightarrow> set_mset H \<subseteq> addr ` {..<n} \<and> (\<forall>i < n. refs s i = count H (addr i))"

lemma tallies_add:
  assumes "tallies s H" "i < n" "\<forall>j. refs t j = (if j = i then refs s i + 1 else refs s j)"
  shows "tallies t (add_mset (addr i) H)"
  using assms unfolding tallies_def by (auto simp: addr_inj)

lemma tallies_del:
  assumes "tallies s H" "i < n" "\<forall>j. refs t j = (if j = i then refs s i - 1 else refs s j)"
  shows "tallies t (H - {#addr i#})"
  using assms unfolding tallies_def by (auto simp: addr_inj dest: in_diffD)

lemma fr_ok:
  assumes "inv s" "tallies s H" "pa \<in># H"
  shows "\<exists>t. fr pa s = Inr t \<and> inv t \<and> keep t = keep s \<and> tallies t (H - {#pa#})"
proof -
  obtain i where i: "i < n" "pa = addr i" "refs s i > 0"
    using assms(2,3) unfolding tallies_def by auto
  then consider "refs s i = 1" | "1 < refs s i" by linarith
  then show ?thesis
  proof cases
    case 1
    then show ?thesis using fr_last [OF assms(1) i(1)] tallies_del [OF assms(2) i(1)] i by fastforce
  next
    case 2
    then show ?thesis using fr_shared [OF assms(1) i(1)] tallies_del [OF assms(2) i(1)] i by fastforce
  qed
qed

lemma sh_held:
  assumes "inv s" "tallies s H" "pa \<in># H" "count H pa < 255"
  shows "\<exists>t. sh pa s = Inr t \<and> inv t \<and> keep t = keep s \<and> tallies t (add_mset pa H)"
proof -
  obtain i where i: "i < n" "pa = addr i" "refs s i > 0" "refs s i < 255"
    using assms(2-) unfolding tallies_def by auto
  then show ?thesis using sh_ok [OF assms(1) i(1)] tallies_add [OF assms(2) i(1)] by fastforce
qed

lemma al_held:
  assumes "inv s" "tallies s H"
  shows "\<exists>pa t. al s = Inr (pa, t) \<and> inv t \<and> keep t = keep s \<and> tallies t (if pa = 0 then H else add_mset pa H)"
proof -
  obtain pa t where a: "al s = Inr (pa, t)" "inv t" "keep t = keep s"
    and c: "pa = 0 \<and> refs t = refs s \<or> (\<exists>i < n. pa = addr i \<and> refs s i = 0 \<and> refs t = (refs s)(i := 1))"
    using al_ok [OF assms(1)] by blast
  from c have "tallies t (if pa = 0 then H else add_mset pa H)"
  proof
    assume "pa = 0 \<and> refs t = refs s"
    then show ?thesis using assms(2) by (simp add: tallies_def)
  next
    assume "\<exists>i < n. pa = addr i \<and> refs s i = 0 \<and> refs t = (refs s)(i := 1)"
    then show ?thesis using tallies_add [OF assms(2)] addr_nonnull by fastforce
  qed
  then show ?thesis using a by blast
qed

lemma one_call:
  assumes "inv s" "tallies s H" "entitled al fr sh (op # os) s H"
  shows "\<exists>t G. fops al fr sh [op] s H = Inr (t, G) \<and> inv t \<and> keep t = keep s \<and> tallies t G
    \<and> entitled al fr sh os t G \<and> fops al fr sh (op # os) s H = fops al fr sh os t G"
proof (cases op)
  case Get
  then show ?thesis using al_held [OF assms(1,2)] assms(3) by force
next
  case (Put pa)
  then show ?thesis using fr_ok [OF assms(1,2), of pa] assms(3) by force
next
  case (Dup pa)
  then show ?thesis using sh_held [OF assms(1,2), of pa] assms(3) by force
qed

lemma history:
  "inv s \<Longrightarrow> tallies s H \<Longrightarrow> entitled al fr sh os s H \<Longrightarrow>
    \<exists>t H'. fops al fr sh os s H = Inr (t, H') \<and> inv t \<and> keep t = keep s \<and> tallies t H'"
proof (induction os arbitrary: s H)
  case (Cons op os)
  obtain t G where t: "inv t" "keep t = keep s" "tallies t G" "entitled al fr sh os t G"
    "fops al fr sh (op # os) s H = fops al fr sh os t G"
    using one_call [OF Cons.prems] by blast
  show ?case using Cons.IH [OF t(1,3,4)] t(2) unfolding t(5) by simp
qed simp

end


section \<open>Base frames and huge frames meet the contract\<close>

definition page_refs :: "'a kst_scheme \<Rightarrow> nat \<Rightarrow> nat" where
  "page_refs s i = unat (pa_referenced s i)"

definition huge_refs :: "'a kst_scheme \<Rightarrow> nat \<Rightarrow> nat" where
  "huge_refs s h = unat (huge_pa_referenced s h)"

lemma zero_filled_memset [simp]:
  "k \<le> 18446744073709551616 \<Longrightarrow> zero_filled m (memset m pa 0 k) pa k"
  by (simp add: zero_filled_def memset_eq)

lemma page_refs_change [simp]:
  "page_refs (settled s) = page_refs s"
  "page_refs (take_page i s) = (page_refs s)(i := 1)"
  "page_refs (free_page i s) = (page_refs s)(i := 0)"
  "page_refs (set_ref i r s) = (page_refs s)(i := unat r)"
  "page_refs (take_huge h s) = page_refs s"
  "page_refs (free_huge h s) = page_refs s"
  "page_refs (set_huge_ref h r s) = page_refs s"
  by (auto simp: page_refs_def kchange_defs fun_eq_iff)

lemma huge_refs_change [simp]:
  "huge_refs (settled s) = huge_refs s"
  "huge_refs (take_huge i s) = (huge_refs s)(i := 1)"
  "huge_refs (free_huge i s) = (huge_refs s)(i := 0)"
  "huge_refs (set_huge_ref i r s) = (huge_refs s)(i := unat r)"
  "huge_refs (take_page h s) = huge_refs s"
  "huge_refs (free_page h s) = huge_refs s"
  "huge_refs (set_ref h r s) = huge_refs s"
  by (auto simp: huge_refs_def kchange_defs fun_eq_iff)

lemma mem_change [simp]:
  "mem (take_page i s) = memset (mem s) (page_addr i) 0 4096"
  "mem (free_page i s) = memset (mem s) (page_addr i) 0 4096"
  "mem (set_ref i r s) = mem s"
  "mem (take_huge i s) = memset (mem s) (huge_addr i) 0 2097152"
  "mem (free_huge i s) = memset (mem s) (huge_addr i) 0 2097152"
  "mem (set_huge_ref i r s) = mem s"
  by (simp_all add: kchange_defs)

lemma unat_u8_pred: "r \<noteq> 0 \<Longrightarrow> unat (r - 1 :: u8) = unat r - 1"
  by (rule unat_minus_one)

lemma unat_u8_suc: "unat r < 255 \<Longrightarrow> unat (r + 1 :: u8) = unat r + 1"
  by (simp add: unat_word_ariths)

lemma u8_suc_nonzero: "unat r < 255 \<Longrightarrow> (r + 1 :: u8) \<noteq> 0"
  using unat_u8_suc [of r] by (metis Suc_eq_plus1 nat.distinct(1) unsigned_0)

lemma kmem_inv_change:
  "kmem_inv s \<Longrightarrow> page_avail s i \<Longrightarrow> kmem_inv (take_page i (settled s))"
  "kmem_inv s \<Longrightarrow> i < NPAGE \<Longrightarrow> pa_referenced s i \<noteq> 0 \<Longrightarrow> kmem_inv (free_page i (settled s))"
  "kmem_inv s \<Longrightarrow> i < NPAGE \<Longrightarrow> pa_referenced s i \<noteq> 0 \<Longrightarrow> r \<noteq> 0 \<Longrightarrow> kmem_inv (set_ref i r (settled s))"
  "kmem_inv s \<Longrightarrow> h < NHUGE \<Longrightarrow> hugepagelist s h = 0 \<Longrightarrow> kmem_inv (take_huge h (settled s))"
  "kmem_inv s \<Longrightarrow> h < NHUGE \<Longrightarrow> huge_pa_referenced s h \<noteq> 0 \<Longrightarrow> kmem_inv (free_huge h (settled s))"
  "kmem_inv s \<Longrightarrow> h < NHUGE \<Longrightarrow> huge_pa_referenced s h \<noteq> 0 \<Longrightarrow> r \<noteq> 0 \<Longrightarrow> kmem_inv (set_huge_ref h r (settled s))"
  using huge_live [of s h]
  by (simp_all add: kmem_inv_def take_page_core free_page_core set_ref_core take_huge_core
      free_huge_core set_huge_ref_core del: NPAGE_def NHUGE_def)

interpretation base: frame_allocator kmem_inv page_refs page_addr NPAGE 4096 mem huge_refs
  kalloc kfree incr_pa_ref
proof unfold_locales
  fix i j :: nat assume "i < NPAGE" "j < NPAGE"
  then show "page_addr i = page_addr j \<longleftrightarrow> i = j" by (simp add: page_addr_inj)
next
  fix i :: nat assume "i < NPAGE"
  then show "page_addr i \<noteq> 0" by simp
next
  fix s :: "'a kst_scheme" assume s: "kmem_inv s"
  show "\<exists>pa t. kalloc s = Inr (pa, t) \<and> kmem_inv t \<and> huge_refs t = huge_refs s \<and>
      (pa = 0 \<and> page_refs t = page_refs s \<and> mem t = mem s \<or>
       (\<exists>i < NPAGE. pa = page_addr i \<and> page_refs s i = 0 \<and> page_refs t = (page_refs s)(i := 1)
          \<and> zero_filled (mem s) (mem t) pa 4096))"
  proof (cases "kalloc_section s")
    case None
    then show ?thesis using s by (simp add: kalloc_null)
  next
    case (Some h)
    then obtain i where i: "page_avail s i" "kalloc s = Inr (page_addr i, take_page i (settled s))"
      using kalloc_ok [OF s] by blast
    then have "i < NPAGE" "page_refs s i = 0" by (simp_all add: page_avail_def page_refs_def)
    then show ?thesis using i kmem_inv_change(1) [OF s i(1)] by auto
  qed
next
  fix s :: "'a kst_scheme" and i assume s: "kmem_inv s" "i < NPAGE" "page_refs s i = 1"
  then have "pa_referenced s i = 1" by (simp add: page_refs_def word_unat_eq_iff)
  then show "\<exists>t. kfree (page_addr i) s = Inr t \<and> kmem_inv t \<and> huge_refs t = huge_refs s \<and> page_refs t = (page_refs s)(i := 0)
      \<and> zero_filled (mem s) (mem t) (page_addr i) 4096"
    using s kfree_live [OF s(1,2)] kmem_inv_change(2) [OF s(1,2)] by simp
next
  fix s :: "'a kst_scheme" and i assume s: "kmem_inv s" "i < NPAGE" "1 < page_refs s i"
  then have "pa_referenced s i \<noteq> 1" "pa_referenced s i \<noteq> 0" by (auto simp: page_refs_def)
  then show "\<exists>t. kfree (page_addr i) s = Inr t \<and> kmem_inv t \<and> huge_refs t = huge_refs s
      \<and> page_refs t = (page_refs s)(i := page_refs s i - 1) \<and> mem t = mem s"
    using s kfree_live [OF s(1,2)] kmem_inv_change(3) [OF s(1,2)]
    by (simp add: unat_u8_pred) (simp add: page_refs_def)
next
  fix s :: "'a kst_scheme" and i assume s: "kmem_inv s" "i < NPAGE" "page_refs s i = 0"
  then show "\<exists>m. kfree (page_addr i) s = Inl (Panic m)"
    using kfree_dead [OF s(1,2)] by (simp add: page_refs_def unat_eq_0)
next
  fix s :: "'a kst_scheme" and i
  assume s: "kmem_inv s" "i < NPAGE" "0 < page_refs s i" "page_refs s i < 255"
  then have "pa_referenced s i \<noteq> 0" "unat (pa_referenced s i + 1) = page_refs s i + 1"
    "pa_referenced s i + 1 \<noteq> 0"
    by (auto simp: page_refs_def unat_u8_suc u8_suc_nonzero)
  then show "\<exists>t. incr_pa_ref (page_addr i) s = Inr t \<and> kmem_inv t \<and> huge_refs t = huge_refs s
      \<and> page_refs t = (page_refs s)(i := page_refs s i + 1) \<and> mem t = mem s"
    using s incr_pa_ref_eq [OF s(1,2)] kmem_inv_change(3) [OF s(1,2), of "pa_referenced s i + 1"]
    by auto
qed

interpretation huge: frame_allocator kmem_inv huge_refs huge_addr NHUGE 2097152 mem page_refs
  kalloc_huge kfree_huge incr_huge_pa_ref
proof unfold_locales
  fix i j :: nat assume "i < NHUGE" "j < NHUGE"
  then show "huge_addr i = huge_addr j \<longleftrightarrow> i = j"
    by (auto simp: u64_eq_iff unat_huge_addr simp del: NHUGE_def)
next
  fix i :: nat assume "i < NHUGE"
  then show "huge_addr i \<noteq> 0" by simp
next
  fix s :: "'a kst_scheme" assume s: "kmem_inv s"
  show "\<exists>pa t. kalloc_huge s = Inr (pa, t) \<and> kmem_inv t \<and> page_refs t = page_refs s \<and>
      (pa = 0 \<and> huge_refs t = huge_refs s \<and> mem t = mem s \<or>
       (\<exists>i < NHUGE. pa = huge_addr i \<and> huge_refs s i = 0 \<and> huge_refs t = (huge_refs s)(i := 1)
          \<and> zero_filled (mem s) (mem t) pa 2097152))"
  proof (cases "\<forall>h < NHUGE. hugepagelist s h \<noteq> 0")
    case True
    then show ?thesis using kalloc_huge_null [OF s] s by simp
  next
    case False
    then obtain h where h: "h < NHUGE" "hugepagelist s h = 0"
      "kalloc_huge s = Inr (huge_addr h, take_huge h (settled s))"
      using kalloc_huge_ok [OF s] by blast
    then have "huge_refs s h = 0" using huge_live [OF s h(1)] by (simp add: huge_refs_def)
    then show ?thesis using h kmem_inv_change(4) [OF s h(1,2)] by auto
  qed
next
  fix s :: "'a kst_scheme" and i assume s: "kmem_inv s" "i < NHUGE" "huge_refs s i = 1"
  then have "huge_pa_referenced s i = 1" by (simp add: huge_refs_def word_unat_eq_iff)
  then show "\<exists>t. kfree_huge (huge_addr i) s = Inr t \<and> kmem_inv t \<and> page_refs t = page_refs s \<and> huge_refs t = (huge_refs s)(i := 0)
      \<and> zero_filled (mem s) (mem t) (huge_addr i) 2097152"
    using s kfree_huge_live [OF s(1,2)] kmem_inv_change(5) [OF s(1,2)] by simp
next
  fix s :: "'a kst_scheme" and i assume s: "kmem_inv s" "i < NHUGE" "1 < huge_refs s i"
  then have "huge_pa_referenced s i \<noteq> 1" "huge_pa_referenced s i \<noteq> 0" by (auto simp: huge_refs_def)
  then show "\<exists>t. kfree_huge (huge_addr i) s = Inr t \<and> kmem_inv t \<and> page_refs t = page_refs s
      \<and> huge_refs t = (huge_refs s)(i := huge_refs s i - 1) \<and> mem t = mem s"
    using s kfree_huge_live [OF s(1,2)] kmem_inv_change(6) [OF s(1,2)]
    by (simp add: unat_u8_pred) (simp add: huge_refs_def)
next
  fix s :: "'a kst_scheme" and i assume s: "kmem_inv s" "i < NHUGE" "huge_refs s i = 0"
  then show "\<exists>m. kfree_huge (huge_addr i) s = Inl (Panic m)"
    using kfree_huge_dead [OF s(1,2)] by (simp add: huge_refs_def unat_eq_0)
next
  fix s :: "'a kst_scheme" and i
  assume s: "kmem_inv s" "i < NHUGE" "0 < huge_refs s i" "huge_refs s i < 255"
  then have "huge_pa_referenced s i \<noteq> 0" "unat (huge_pa_referenced s i + 1) = huge_refs s i + 1"
    "huge_pa_referenced s i + 1 \<noteq> 0"
    by (auto simp: huge_refs_def unat_u8_suc u8_suc_nonzero)
  then show "\<exists>t. incr_huge_pa_ref (huge_addr i) s = Inr t \<and> kmem_inv t \<and> page_refs t = page_refs s
      \<and> huge_refs t = (huge_refs s)(i := huge_refs s i + 1) \<and> mem t = mem s"
    using s incr_huge_pa_ref_eq [OF s(1,2)]
      kmem_inv_change(6) [OF s(1,2), of "huge_pa_referenced s i + 1"] by auto
qed


section \<open>Boot\<close>

text \<open>
  At boot the counters and tables are zero (the kernel's zero-initialised data) and the
  kernel image ends above its load address and at most at 0x80200000.
\<close>

definition kboot :: "'a kst_scheme \<Rightarrow> bool" where
  "kboot s \<longleftrightarrow> KERNBASE < kend s \<and> kend s \<le> 0x80200000
   \<and> (\<forall>i < NPAGE. pagelist s i = 0 \<and> pa_referenced s i = 0)
   \<and> (\<forall>h < NHUGE. huge_pa_referenced s h = 0)
   \<and> freemem s = 0 \<and> used4k s = 0 \<and> used2m s = 0"

text \<open>The state of the loop of \<^verbatim>\<open>freerange\<close> after \<open>i\<close> pages.\<close>

definition boot_at :: "nat \<Rightarrow> 'a kst_scheme \<Rightarrow> bool" where
  "boot_at i s \<longleftrightarrow> lock_free Lk_kmem s \<and> kmem_at s
   \<and> (\<forall>j < NPAGE. pagelist s j = (if j < i then 1 else 0) \<and> pa_referenced s j = 0)
   \<and> (\<forall>h < NHUGE. huge_pa_referenced s h = 0 \<and> hugepagelist s h = 512 - int (min 512 (i - 512 * h)))
   \<and> freemem s = int i \<and> used2m s = 0"

lemma HUGEPGROUNDUP_kend:
  "KERNBASE < a \<Longrightarrow> a \<le> 0x80200000 \<Longrightarrow> HUGEPGROUNDUP a = 0x80200000"
proof -
  assume a: "KERNBASE < a" "a \<le> 0x80200000"
  then have "2147483648 < unat a" "unat a \<le> 2149580800"
    by (simp_all add: word_less_nat_alt word_le_nat_alt)
  then obtain d where d: "unat a = 2147483649 + d" "d < 2097152"
    using le_Suc_ex [of 2147483649 "unat a"] by auto
  have "unat (HUGEPGROUNDUP a) = 2149580800"
    using d by (subst unat_HUGEPGROUNDUP) auto
  then show ?thesis by (simp add: u64_eq_iff)
qed

lemma min_step:
  "(if h = i div 512 then 512 - int (min 512 (i - 512 * h)) - 1 else 512 - int (min 512 (i - 512 * h)))
   = 512 - int (min 512 (Suc i - 512 * h))"
proof (cases "h = i div 512")
  case True
  have "512 * (i div 512) \<le> i" "i < 512 * (i div 512) + 512"
    using div_mult_mod_eq [of i 512] mod_less_divisor [of 512 i] by linarith+
  then show ?thesis using True by simp
next
  case False
  then have "Suc i \<le> 512 * h \<or> 512 * h + 512 \<le> i"
    using div_mult_mod_eq [of i 512] mod_less_divisor [of 512 i] by linarith
  then show ?thesis using False by auto
qed

lemma kfree_boot:
  assumes "lock_free Lk_kmem s" "kmem_at s" "i < NPAGE" "pagelist s i = 0" "pa_referenced s i = 0"
  shows "kfree (page_addr i) s = Inr (free_page i (settled s))"
proof -
  have "kfree_body (page_addr i) (int i) (int (i div 512)) (entered Lk_kmem s)
    = Inr (free_page i (entered Lk_kmem s))"
    using assms page_section [OF assms(3)]
    by (simp add: kfree_body_def free_page_def Let_def fun_upd_idem)
  then have "critical0 Lk_kmem (kfree_body (page_addr i) (int i) (int (i div 512))) s
    = Inr ((free_page i (entered Lk_kmem s))\<lparr>locks := locks s, cpus := cpus (settled s)\<rparr>)"
    by (intro critical0_leaf) (simp_all add: assms)
  then show ?thesis
    using page_addr_guard [OF assms(2,3)] get_page_i_addr [OF assms(2,3)]
      get_hugepage_i_addr [OF assms(2,3)]
    by (simp add: kfree_def kchange_leave del: PGSIZE_def PHYSTOP_def NPAGE_def)
qed

lemma boot_step:
  assumes "boot_at i s" "i < NPAGE"
  shows "\<exists>t. kfree (page_addr i) s = Inr t \<and> boot_at (Suc i) t"
proof -
  have h: "hugepagelist (free_page i (settled s)) h = 512 - int (min 512 (Suc i - 512 * h))" if "h < NHUGE" for h
    using assms that min_step [of h i] by (auto simp: boot_at_def free_page_def)
  have "boot_at (Suc i) (free_page i (settled s))"
    using assms h unfolding boot_at_def
    by (auto simp: free_page_def kmem_at_def settled_def set_mycpu_def lock_free_def)
  moreover have "kfree (page_addr i) s = Inr (free_page i (settled s))"
    using assms by (intro kfree_boot) (auto simp: boot_at_def)
  ultimately show ?thesis by blast
qed

lemma page_addr_Suc: "page_addr i + PGSIZE = page_addr (Suc i)"
  by (simp add: page_addr_def)

lemma boot_loop:
  "boot_at i s \<Longrightarrow> i \<le> NPAGE \<Longrightarrow> \<exists>t. free_loop (page_addr i) PHYSTOP s = Inr t \<and> boot_at NPAGE t"
proof (induction "NPAGE - i" arbitrary: i s)
  case 0
  then have i: "i = NPAGE" by simp
  have "\<not> page_addr NPAGE + PGSIZE \<le> PHYSTOP"
    by (simp add: page_addr_def)
  then show ?case using 0 i by (subst free_loop.simps) simp
next
  case (Suc k)
  then have i: "i < NPAGE" by linarith
  have le: "page_addr i + PGSIZE \<le> PHYSTOP"
    using i by (simp add: page_addr_Suc word_le_nat_alt unat_page_addr del: PGSIZE_def)
  obtain t where t: "kfree (page_addr i) s = Inr t" "boot_at (Suc i) t"
    using boot_step [OF Suc.prems(1) i] by blast
  have "\<exists>u. free_loop (page_addr (Suc i)) PHYSTOP t = Inr u \<and> boot_at NPAGE u"
    using Suc.hyps(1) [of "Suc i" t] Suc.hyps(2) t(2) i by (simp del: PHYSTOP_def)
  then show ?case using t le by (subst free_loop.simps) (simp add: page_addr_Suc del: PGSIZE_def PHYSTOP_def)
qed

lemma boot_done:
  assumes "boot_at NPAGE s"
  shows "kmem_inv (s\<lparr>used4k := 0, freemem := freemem s + 512\<rparr>)"
proof -
  let ?t = "s\<lparr>used4k := 0, freemem := freemem s + 512\<rparr>"
  have h: "hugepagelist s h = 0" if "h < NHUGE" for h
    using assms that by (simp add: boot_at_def)
  have e: "{i. i < NPAGE \<and> pagelist s i = 0} = {}" "{h. h < NHUGE \<and> hugepagelist s h = -1} = {}"
    using assms h by (auto simp: boot_at_def)
  have u: "pages_used ?t h = 0" for h
    using e(1) by (auto simp: pages_used_def)
  have "section_inv ?t h" if "h < NHUGE" for h
    using assms h [OF that] u [of h] that by (simp add: section_inv_def boot_at_def)
  moreover have "counters_inv ?t"
    using assms e unfolding counters_inv_def by (simp add: boot_at_def)
  ultimately show ?thesis
    using assms unfolding kmem_inv_def kmem_core_def
    by (auto simp: boot_at_def kmem_at_def lock_free_def)
qed

lemma kinit_ok:
  assumes "kboot s"
  shows "\<exists>t. kinit s = Inr t \<and> kmem_inv t \<and> (\<forall>h < NHUGE. hugepagelist t h = 0 \<and> huge_refs t h = 0)
    \<and> (\<forall>i < NPAGE. page_avail t i \<and> page_refs t i = 0)"
proof -
  let ?s = "initlock Lk_kmem ''kmem'' s"
  have l: "lock_free Lk_kmem ?s" by (simp add: lock_free_def initlock_def)
  have r: "HUGEPGROUNDUP (kend s) = 0x80200000" using assms by (simp add: kboot_def HUGEPGROUNDUP_kend)
  let ?e = "entered Lk_kmem ?s"
  let ?s1 = "(?e\<lparr>page_start := HUGEPGROUNDUP (kend ?e)\<rparr>)\<lparr>locks := locks ?s, cpus := cpus (settled ?s)\<rparr>"
  have 1: "critical0 Lk_kmem (\<lambda>s. Inr (s\<lparr>page_start := HUGEPGROUNDUP (kend s)\<rparr>)) ?s = Inr ?s1"
    by (rule critical0_leaf) (simp_all add: l)
  have l1: "lock_free Lk_kmem ?s1" using l by (simp add: lock_free_def)
  let ?e2 = "entered Lk_kmem ?s1"
  let ?s2 = "(?e2\<lparr>hugepagelist := (\<lambda>i. if i < NHUGE then 512 else hugepagelist ?e2 i)\<rparr>)
    \<lparr>locks := locks ?s1, cpus := cpus (settled ?s1)\<rparr>"
  have 2: "critical0 Lk_kmem (\<lambda>s. Inr (s\<lparr>hugepagelist := (\<lambda>i. if i < NHUGE then 512 else hugepagelist s i)\<rparr>)) ?s1
    = Inr ?s2"
    by (rule critical0_leaf [OF l1]) simp_all
  have "boot_at 0 ?s2"
    using assms l r unfolding boot_at_def kboot_def
    by (auto simp: lock_free_def entered_def initlock_def kmem_at_def)
  then obtain u where u: "free_loop (page_addr 0) PHYSTOP ?s2 = Inr u" "boot_at NPAGE u"
    using boot_loop by blast
  have p0: "page_addr 0 = 0x80200000" by (simp add: page_addr_def)
  have k: "kend ?s1 = kend s" by (simp add: initlock_def)
  have "freerange (kend ?s1) PHYSTOP ?s1 = Inr u"
    unfolding freerange_def 2 k r using u(1) p0 by (simp del: PHYSTOP_def)
  then have "kinit s = Inr (u\<lparr>used4k := 0, freemem := freemem u + 512\<rparr>)"
    unfolding kinit_def 1 by (simp del: PHYSTOP_def)
  then show ?thesis using boot_done [OF u(2)] u(2)
    by (auto simp: boot_at_def page_avail_def page_refs_def huge_refs_def)
qed

text \<open>C24: kinit establishes the allocator invariant: run on the kernel's zero-initialised data it
  returns (no panic, no double free, the loop of freerange ends), every one of the 63 huge
  frames and 32256 base frames is free afterwards, and the invariant of the two allocators
  holds.\<close>

theorem kinit_establishes:
  assumes "kboot s"
  shows "\<exists>t. kinit s = Inr t \<and> kmem_inv t \<and> (\<forall>h. h < NHUGE \<longrightarrow> hugepagelist t h = 0)
    \<and> (\<forall>i. i < NPAGE \<longrightarrow> page_avail t i)"
  using kinit_ok [OF assms] by auto

text \<open>A concrete boot state and a concrete state with every frame free.\<close>

definition kboot0 :: kst where
  "kboot0 = hw.extend hw0 \<lparr>mem = (\<lambda>_. 7), kend = 0x800344d0, page_start = 0,
     hugepagelist = (\<lambda>_. 0), pagelist = (\<lambda>_. 0), pa_referenced = (\<lambda>_. 0),
     huge_pa_referenced = (\<lambda>_. 0), freemem = 0, used4k = 0, used2m = 0\<rparr>"

definition kfresh :: kst where
  "kfresh = kboot0\<lparr>page_start := 0x80200000, pagelist := (\<lambda>_. 1), freemem := 32768\<rparr>"

lemma kfresh_inv: "kmem_inv kfresh"
  by (simp add: kmem_inv_def kmem_core_def kmem_at_def section_inv_def counters_inv_def pages_used_def
      kfresh_def kboot0_def hw.defs hw0_def lock_free_def)

theorem kinit_establishes_witness:
  "kboot kboot0 \<and> (\<exists>t. kinit kboot0 = Inr t \<and> kmem_inv t \<and> page_avail t 5)"
proof -
  have "kboot kboot0" by (simp add: kboot_def kboot0_def hw.defs)
  then show ?thesis using kinit_establishes [of kboot0] by auto
qed


section \<open>What the allocators promise\<close>

lemma no_refs_tallies:
  "(\<And>i. i < NPAGE \<Longrightarrow> page_refs s i = 0) \<Longrightarrow> base.tallies s {#}"
  "(\<And>h. h < NHUGE \<Longrightarrow> huge_refs s h = 0) \<Longrightarrow> huge.tallies s {#}"
  unfolding base.tallies_def huge.tallies_def by simp_all

text \<open>The frame \<^verbatim>\<open>kalloc\<close> and \<^verbatim>\<open>kalloc_huge\<close> hand out first.\<close>

lemma kfresh_refs [simp]: "page_refs kfresh i = 0" "huge_refs kfresh h = 0"
  by (simp_all add: page_refs_def huge_refs_def kfresh_def kboot0_def hw.defs)

lemma kfresh_section: "kalloc_section kfresh = Some 0"
proof -
  have "hugepagelist kfresh i = 0" for i by (simp add: kfresh_def kboot0_def hw.defs)
  then show ?thesis
    by (simp add: kalloc_section_def find_upt_None upt_conv_Cons split: option.split)
qed

lemma kfresh_kalloc: "kalloc kfresh = Inr (page_addr 0, take_page 0 (settled kfresh))"
proof -
  have p: "pagelist kfresh i = 1" for i by (simp add: kfresh_def kboot0_def hw.defs)
  have f: "arrayix NPAGE 0 = Inr 0" "find (\<lambda>i. pagelist kfresh i \<noteq> 0) [0..<512] = Some 0"
    using p by (simp_all add: arrayix_def find_upt_Some del: upt_conv_Cons)
  have k: "lock_free Lk_kmem kfresh" "kmem_core kfresh" "kmem_core (entered Lk_kmem kfresh)"
    using kfresh_inv by (simp_all add: kmem_inv_def)
  have "kalloc_body (entered Lk_kmem kfresh) = Inr (page_addr 0, take_page 0 (entered Lk_kmem kfresh))"
    using k(3) kfresh_refs(1) [of 0] f(1)
    by (simp add: kalloc_body_def kfresh_section f(2) pageindex_to_pa_def page_addr_def Let_def
      take_page_def kmem_core_def kmem_at_def page_refs_def unat_eq_0 del: upt_conv_Cons NPAGE_def)
  then have "kalloc kfresh = Inr (page_addr 0, (take_page 0 (entered Lk_kmem kfresh))
      \<lparr>locks := locks kfresh, cpus := cpus (settled kfresh)\<rparr>)"
    unfolding kalloc_def by (intro critical_leaf) (simp_all add: k)
  then show ?thesis by (simp add: kchange_leave)
qed

lemma kfresh_kalloc_huge: "kalloc_huge kfresh = Inr (huge_addr 0, take_huge 0 (settled kfresh))"
proof -
  have f: "find (\<lambda>i. hugepagelist kfresh i = 0) [0..<NHUGE] = Some 0"
    by (simp add: find_upt_Some kfresh_def kboot0_def hw.defs del: upt_conv_Cons)
  have k: "lock_free Lk_kmem kfresh" "page_start kfresh = 0x80200000" "huge_refs kfresh 0 = 0"
    using kfresh_inv by (simp_all add: kmem_inv_def kmem_core_def kmem_at_def)
  have "kalloc_huge_body (entered Lk_kmem kfresh) = Inr (huge_addr 0, take_huge 0 (entered Lk_kmem kfresh))"
    using k by (simp add: kalloc_huge_body_def f huge_addr_def take_huge_def huge_refs_def unat_eq_0
      del: upt_conv_Cons NHUGE_def)
  then have "kalloc_huge kfresh = Inr (huge_addr 0, (take_huge 0 (entered Lk_kmem kfresh))
      \<lparr>locks := locks kfresh, cpus := cpus (settled kfresh)\<rparr>)"
    unfolding kalloc_huge_def by (intro critical_leaf) (simp_all add: k)
  then show ?thesis by (simp add: kchange_leave)
qed

text \<open>C1: Reference counting of base frames: take any history of kalloc, kfree and incr_pa_ref calls,
  starting with every frame free, in which the client only frees or shares a frame it has a
  reference to and never shares one it already has 255 references to.  It runs without a
  panic, keeps the allocator invariant, and ends with the reference count of every frame equal
  to the number of references the client still has.  The bound of 255 is the width of the
  count, which the code does not check.\<close>

theorem base_frames_refcounted:
  assumes "kmem_inv s" "\<And>i. i < NPAGE \<Longrightarrow> page_refs s i = 0"
    "entitled kalloc kfree incr_pa_ref os s {#}"
  shows "\<exists>t H. fops kalloc kfree incr_pa_ref os s {#} = Inr (t, H) \<and> kmem_inv t
    \<and> set_mset H \<subseteq> page_addr ` {..<NPAGE} \<and> (\<forall>i. i < NPAGE \<longrightarrow> page_refs t i = count H (page_addr i))"
  using base.history [OF assms(1) no_refs_tallies(1) [OF assms(2)] assms(3)]
  unfolding base.tallies_def by blast

theorem base_frames_refcounted_witness:
  "\<exists>t H. fops kalloc kfree incr_pa_ref [Get, Dup 0x80200000, Put 0x80200000] kfresh {#} = Inr (t, H)
     \<and> kmem_inv t \<and> page_refs t 0 = count H 0x80200000"
proof -
  have a: "0x80200000 = page_addr 0" by (simp add: page_addr_def)
  have i: "kmem_inv (take_page 0 (settled kfresh))"
    using kmem_inv_change(1) [OF kfresh_inv, of 0] by (simp add: page_avail_def kfresh_def kboot0_def hw.defs)
  have "entitled kalloc kfree incr_pa_ref [Get, Dup (page_addr 0), Put (page_addr 0)] kfresh {#}"
    by (simp add: kfresh_kalloc incr_pa_ref_eq [OF i] split: sum.split)
  from base_frames_refcounted [OF kfresh_inv _ this] show ?thesis unfolding a by auto
qed

text \<open>C23: Reference counting of huge frames: the same, with the same bound of 255 references, for
  kalloc_huge, kfree_huge and incr_huge_pa_ref.\<close>

theorem huge_frames_refcounted:
  assumes "kmem_inv s" "\<And>h. h < NHUGE \<Longrightarrow> huge_refs s h = 0"
    "entitled kalloc_huge kfree_huge incr_huge_pa_ref os s {#}"
  shows "\<exists>t H. fops kalloc_huge kfree_huge incr_huge_pa_ref os s {#} = Inr (t, H) \<and> kmem_inv t
    \<and> set_mset H \<subseteq> huge_addr ` {..<NHUGE} \<and> (\<forall>h. h < NHUGE \<longrightarrow> huge_refs t h = count H (huge_addr h))"
  using huge.history [OF assms(1) no_refs_tallies(2) [OF assms(2)] assms(3)]
  unfolding huge.tallies_def by blast

theorem huge_frames_refcounted_witness:
  "\<exists>t H. fops kalloc_huge kfree_huge incr_huge_pa_ref [Get, Dup 0x80200000, Put 0x80200000] kfresh {#} = Inr (t, H)
     \<and> kmem_inv t \<and> huge_refs t 0 = count H 0x80200000"
proof -
  have a: "0x80200000 = huge_addr 0" by (simp add: huge_addr_def)
  have i: "kmem_inv (take_huge 0 (settled kfresh))"
    using kmem_inv_change(4) [OF kfresh_inv, of 0] by (simp add: kfresh_def kboot0_def hw.defs)
  have "entitled kalloc_huge kfree_huge incr_huge_pa_ref [Get, Dup (huge_addr 0), Put (huge_addr 0)] kfresh {#}"
    by (simp add: kfresh_kalloc_huge incr_huge_pa_ref_eq [OF i] split: sum.split)
  from huge_frames_refcounted [OF kfresh_inv _ this] show ?thesis unfolding a by auto
qed

lemma kalloc_section_partial:
  assumes "kalloc_section s = Some h" "k < NHUGE" "0 < hugepagelist s k" "hugepagelist s k < 512"
  shows "0 < hugepagelist s h"
proof (rule ccontr)
  assume n: "\<not> 0 < hugepagelist s h"
  show False
  proof (cases "find (\<lambda>i. 0 < hugepagelist s i \<and> hugepagelist s i < 512) [0..<NHUGE]")
    case None
    then show False using assms(2-) by (auto simp: find_upt_None simp del: NHUGE_def)
  next
    case (Some j)
    then have "0 < hugepagelist s j" by (auto simp: find_upt_Some simp del: NHUGE_def)
    then show False using n assms(1) Some by (simp add: kalloc_section_def del: NHUGE_def upt_conv_Cons)
  qed
qed

lemma avail_section:
  assumes "kmem_inv s" "page_avail s i"
  shows "kalloc_section s \<noteq> None"
proof
  assume "kalloc_section s = None"
  then have "hugepagelist s (i div 512) = 512"
    using assms kalloc_section_None [of s] page_section [of i]
    by (auto simp: kmem_inv_def page_avail_def simp del: NHUGE_def NPAGE_def)
  moreover have c: "kmem_core s" and i: "i < NPAGE" "pagelist s i = 1"
    using assms by (auto simp: kmem_inv_def kmem_core_def page_avail_def)
  moreover have "pages_used (take_page i s) (i div 512) = Suc (pages_used s (i div 512))"
    using i pages_used_take [of i s "i div 512"] by simp
  moreover have "hugepagelist s (i div 512) = int (pages_used s (i div 512))"
    using c page_section [OF i(1)] assms(2)
    by (auto simp: kmem_core_def section_inv_def page_avail_def)
  ultimately show False using pages_used_le [of "take_page i s" "i div 512"] by simp
qed

text \<open>C26: kalloc: it never faults; it returns null exactly when no base frame is available, and then
  changes nothing but the interrupt bookkeeping of its hart; otherwise it returns a frame that was
  available, zero-filled, with one reference, no other byte or count changed, and it takes the
  frame from a huge frame already broken into base frames whenever one of those has room.\<close>

theorem kalloc_spec:
  assumes "kmem_inv s"
  shows "\<exists>pa t. kalloc s = Inr (pa, t) \<and> kmem_inv t \<and>
    (if \<forall>i. \<not> page_avail s i then pa = 0 \<and> t = settled s
     else \<exists>i. page_avail s i \<and> pa = page_addr i \<and> pa \<noteq> 0 \<and> page_refs t = (page_refs s)(i := 1)
        \<and> huge_refs t = huge_refs s \<and> zero_filled (mem s) (mem t) pa 4096
        \<and> (\<forall>k. k < NHUGE \<and> 0 < hugepagelist s k \<and> hugepagelist s k < 512 \<longrightarrow> 0 < hugepagelist s (i div 512)))"
proof (cases "kalloc_section s")
  case None
  then show ?thesis using assms avail_section [OF assms] by (auto simp: kalloc_null)
next
  case (Some h)
  then obtain i where i: "page_avail s i" "i div 512 = h" "kalloc s = Inr (page_addr i, take_page i (settled s))"
    using kalloc_ok [OF assms] by blast
  have "huge_refs (take_page i (settled s)) = huge_refs s"
    by (simp add: huge_refs_def fun_eq_iff take_page_def)
  moreover have "page_addr i \<noteq> 0" using i(1) by (simp add: page_avail_def)
  ultimately show ?thesis
    using i kmem_inv_change(1) [OF assms i(1)] kalloc_section_partial [OF Some] by auto
qed

theorem kalloc_spec_witness:
  "\<exists>pa t. kalloc kfresh = Inr (pa, t) \<and> kmem_inv t \<and> pa \<noteq> 0"
proof -
  have "page_avail kfresh 0" by (simp add: page_avail_def kfresh_def kboot0_def hw.defs)
  then have "\<not> (\<forall>i. \<not> page_avail kfresh i)" by blast
  with kalloc_spec [OF kfresh_inv] show ?thesis by (simp only: if_False) blast
qed

lemma free_page_avail:
  assumes "kmem_inv s" "i < NPAGE" "pa_referenced s i \<noteq> 0"
  shows "page_avail (free_page i (settled s)) i"
proof -
  have c: "pagelist s i = 0" "kmem_core s" using assms by (simp_all add: kmem_inv_def kmem_core_def)
  then have "hugepagelist s (i div 512) = int (pages_used s (i div 512))" "0 < pages_used s (i div 512)"
    using used_section [of s i] page_section [OF assms(2)] assms(2)
    by (auto simp: kmem_core_def section_inv_def)
  then show ?thesis using assms(2) by (simp add: page_avail_def free_page_def)
qed

text \<open>
  Below the managed range and above the end of the kernel image the guard of \<^verbatim>\<open>kfree\<close>
  lets an address through, and the index it computes is negative.
\<close>

lemma get_page_i_below:
  assumes "kmem_at s" "paligned pa" "kend s \<le> pa" "pa < page_start s"
  shows "get_page_i pa s < 0"
proof -
  obtain k where k: "unat pa = 4096 * k" using assms(2) by (auto simp: paligned_nat mod_eq_0_iff_dvd)
  have "2147483648 \<le> unat pa" "unat pa < 2149580800"
    using assms(1,3,4) by (auto simp: kmem_at_def word_le_nat_alt word_less_nat_alt)
  then obtain e where e: "k + e = 524800" "0 < e" "e \<le> 512"
    using k le_Suc_ex [of k 524800] by auto
  have "uint pa = 4096 * (524800 - int e)" using k e(1) by (simp flip: of_nat_mult add: uint_nat)
  then have "uint (pa - page_start s) = (- 4096 * int e) mod 2 ^ 64"
    using assms(1) by (simp add: kmem_at_def uint_word_ariths)
  also have "\<dots> = 2 ^ 64 - 4096 * int e"
    using e by (simp add: zmod_zminus1_eq_if)
  finally have "uint ((pa - page_start s) div PGSIZE) = 2 ^ 52 - int e"
    using e by (simp add: uint_div_distrib)
  then have "uint (ucast ((pa - page_start s) div PGSIZE) :: u32) = (2 ^ 52 - int e) mod 2 ^ 32"
    by (simp add: unsigned_ucast_eq take_bit_eq_mod)
  also have "\<dots> = (- int e) mod 2 ^ 32" by (simp add: mod_diff_eq [symmetric] mod_minus_eq)
  finally have "ucast ((pa - page_start s) div PGSIZE) = (of_int (- int e) :: u32)"
    by (simp add: word_uint_eq_iff uint_word_of_int del: of_int_minus of_int_of_nat_eq)
  then have "get_page_i pa s = signed_take_bit 31 (- int e)"
    unfolding get_page_i_def by (simp add: signed_of_int del: of_int_minus of_int_of_nat_eq)
  also have "\<dots> = - int e" by (rule signed_take_bit_int_eq_self) (use e in simp_all)
  finally show ?thesis using e(2) by simp
qed

lemma kfree_below_range:
  assumes "kmem_inv s" "paligned pa" "kend s \<le> pa" "pa < page_start s"
  shows "kfree pa s = Inl Wild"
proof -
  have k: "lock_free Lk_kmem s" "kmem_at s" using assms(1) by (simp_all add: kmem_inv_def kmem_core_def)
  have "kfree_body pa (get_page_i pa s) (get_hugepage_i pa s) (entered Lk_kmem s) = Inl Wild"
    using get_page_i_below [OF k(2) assms(2-4)] by (simp add: kfree_body_def arrayix_def)
  moreover have "pa < PHYSTOP" using assms(4) k(2) by (auto simp: kmem_at_def word_less_nat_alt)
  ultimately show ?thesis
    using assms(2,3) critical0_fault [OF k(1)] by (simp add: kfree_def paligned_def not_less not_le)
qed

lemma kfree_frame:
  assumes "kmem_inv s" "i < NPAGE" "0 < page_refs s i"
  shows "\<exists>t. kfree (page_addr i) s = Inr t \<and> kmem_inv t \<and> huge_refs t = huge_refs s
    \<and> page_refs t = (page_refs s)(i := page_refs s i - 1)
    \<and> (if page_refs s i = 1 then page_avail t i \<and> zero_filled (mem s) (mem t) (page_addr i) 4096
        else mem t = mem s)"
proof (cases "page_refs s i = 1")
  case True
  then have one: "pa_referenced s i = 1" by (simp add: page_refs_def word_unat_eq_iff)
  then have "kfree (page_addr i) s = Inr (free_page i (settled s))"
    using kfree_live [OF assms(1,2)] by simp
  moreover have "page_avail (free_page i (settled s)) i"
    using free_page_avail [OF assms(1,2)] one by simp
  ultimately show ?thesis using True base.fr_last [OF assms(1,2) True] by fastforce
next
  case False
  then have "1 < page_refs s i" using assms(3) by simp
  then show ?thesis using False base.fr_shared [OF assms(1,2)] by fastforce
qed

text \<open>C27: kfree on every address: the guard panics on an address that is not page aligned, is below
  the end of the kernel image or is at or past PHYSTOP.  An aligned address between the end of
  the image and page_start passes the guard and indexes pagelist out of bounds.  Every
  other address is a base frame: freeing it with no reference panics; freeing one of several
  references only decrements the count; freeing the last one zero-fills the frame and makes it
  available; every case that returns keeps the invariant and the counts of the other frames.\<close>

theorem kfree_spec:
  assumes "kmem_inv s"
  shows "if pa mod PGSIZE \<noteq> 0 \<or> pa < kend s \<or> PHYSTOP \<le> pa then kfree pa s = Inl (Panic ''kfree'')
    else if pa < page_start s then kfree pa s = Inl Wild
    else \<exists>i. i < NPAGE \<and> pa = page_addr i \<and>
      (if page_refs s i = 0 then kfree pa s = Inl (Panic ''double kfree'')
       else \<exists>t. kfree pa s = Inr t \<and> kmem_inv t \<and> huge_refs t = huge_refs s
         \<and> page_refs t = (page_refs s)(i := page_refs s i - 1)
         \<and> (if page_refs s i = 1 then page_avail t i \<and> zero_filled (mem s) (mem t) pa 4096
             else mem t = mem s))"
proof -
  consider (guard) "pa mod PGSIZE \<noteq> 0 \<or> pa < kend s \<or> PHYSTOP \<le> pa"
    | (below) "paligned pa" "kend s \<le> pa" "pa < PHYSTOP" "pa < page_start s"
    | (frame) "paligned pa" "kend s \<le> pa" "pa < PHYSTOP" "page_start s \<le> pa"
    unfolding paligned_def by (meson not_less)
  then show ?thesis
  proof cases
    case guard
    then show ?thesis by (simp only: kfree_def if_True)
  next
    case below
    then show ?thesis using kfree_below_range [OF assms below(1,2,4)] by (simp add: paligned_def not_less not_le)
  next
    case frame
    have "page_start s = 0x80200000" using assms by (simp add: kmem_inv_def kmem_core_def kmem_at_def)
    with frame obtain i where i: "i < NPAGE" "pa = page_addr i" using page_addr_surj [of pa] by auto
    have "if page_refs s i = 0 then kfree (page_addr i) s = Inl (Panic ''double kfree'')
       else \<exists>t. kfree (page_addr i) s = Inr t \<and> kmem_inv t \<and> huge_refs t = huge_refs s
         \<and> page_refs t = (page_refs s)(i := page_refs s i - 1)
         \<and> (if page_refs s i = 1 then page_avail t i \<and> zero_filled (mem s) (mem t) (page_addr i) 4096
             else mem t = mem s)"
    proof (cases "page_refs s i = 0")
      case True
      then show ?thesis using kfree_dead [OF assms i(1)] by (simp add: page_refs_def unat_eq_0)
    next
      case False
      then have "0 < page_refs s i" by simp
      then show ?thesis unfolding if_not_P [OF False] by (rule kfree_frame [OF assms i(1)])
    qed
    moreover have "\<not> (pa mod PGSIZE \<noteq> 0 \<or> pa < kend s \<or> PHYSTOP \<le> pa)" "\<not> pa < page_start s"
      using frame by (auto simp: paligned_def not_less not_le)
    ultimately show ?thesis unfolding i(2) using i(1) by (simp only: if_False) blast
  qed
qed

theorem kfree_spec_witness:
  "kfree 0x80201001 kfresh = Inl (Panic ''kfree'') \<and> kfree 0x80100000 kfresh = Inl Wild
   \<and> kfree 0x80201000 kfresh = Inl (Panic ''double kfree'')"
proof -
  have k: "kend kfresh = 0x800344d0" "page_start kfresh = 0x80200000"
    by (simp_all add: kfresh_def kboot0_def hw.defs)
  show ?thesis
    using kfree_spec [OF kfresh_inv, of "0x80201001"] kfree_spec [OF kfresh_inv, of "0x80100000"]
      kfree_spec [OF kfresh_inv, of "0x80201000"]
    by (auto simp: k)
qed

text \<open>The counts are not checked for overflow: sharing a frame that has 255 references brings its
  8-bit count to 0 while its 256 users still have it, and the next kfree, which gives up one of
  the 256 references, erases the frame and makes it available to kalloc.\<close>

theorem incr_pa_ref_wraps:
  assumes "kmem_inv s" "i < NPAGE" "page_refs s i = 255"
  shows "\<exists>t u. incr_pa_ref (page_addr i) s = Inr t \<and> page_refs t i = 0
    \<and> kfree (page_addr i) t = Inr u \<and> page_avail u i \<and> zero_filled (mem s) (mem u) (page_addr i) 4096"
proof -
  have r: "pa_referenced s i = 255" using assms(3) by (simp add: page_refs_def word_unat_eq_iff)
  have w: "pa_referenced s i + 1 = 0" unfolding r by (simp add: word_unat_eq_iff)
  have k: "lock_free Lk_kmem s" "kmem_at s" "pagelist s i = 0" "hugepagelist s (i div 512) \<noteq> -1"
    using assms r used_section(2) [of s i] by (auto simp: kmem_inv_def kmem_core_def)
  have c: "kmem_core s" using assms(1) by (simp add: kmem_inv_def)
  have "section_inv s (i div 512)" using c page_section [OF assms(2)] by (simp add: kmem_core_def)
  then have n: "hugepagelist s (i div 512) \<noteq> 0"
    using used_section(1) [OF c assms(2) k(3)] by (auto simp: section_inv_def)
  let ?t = "set_ref i 0 (settled s)"
  have t: "lock_free Lk_kmem ?t" "kmem_at ?t" "pagelist ?t i = 0" "pa_referenced ?t i = 0"
    using k by (auto simp: lock_free_def set_ref_def kmem_at_def settled_def set_mycpu_def)
  have "kfree (page_addr i) ?t = Inr (free_page i (settled ?t))"
    by (rule kfree_boot) (use t assms(2) in simp_all)
  moreover have "page_avail (free_page i (settled ?t)) i"
    using assms(2) k(4) n by (simp add: page_avail_def free_page_def set_ref_def)
  ultimately show ?thesis
    using incr_pa_ref_eq [OF assms(1,2)] w by auto
qed

text \<open>A state in which the first frame has 255 references.\<close>

definition kshared :: kst where
  "kshared = set_ref 0 255 (settled (take_page 0 (settled kfresh)))"

theorem incr_pa_ref_wraps_witness:
  "\<exists>t u. incr_pa_ref 0x80200000 kshared = Inr t \<and> page_refs t 0 = 0
     \<and> kfree 0x80200000 t = Inr u \<and> page_avail u 0"
proof -
  have a: "0x80200000 = page_addr 0" by (simp add: page_addr_def)
  have "kmem_inv (take_page 0 (settled kfresh))"
    using kmem_inv_change(1) [OF kfresh_inv, of 0] by (simp add: page_avail_def kfresh_def kboot0_def hw.defs)
  then have "kmem_inv kshared" unfolding kshared_def
    by (rule kmem_inv_change(3)) (simp_all add: take_page_def)
  from incr_pa_ref_wraps [OF this, of 0] show ?thesis unfolding a by (auto simp: kshared_def)
qed

lemma page_region:
  assumes "i < NPAGE"
  shows "a \<in> region (page_addr i) 4096 \<longleftrightarrow>
    2149580800 + 4096 * i \<le> unat a \<and> unat a < 2149580800 + 4096 * i + 4096"
  using assms by (simp add: region_nat unat_page_addr)

lemma huge_region:
  assumes "h < NHUGE"
  shows "a \<in> region (huge_addr h) 2097152 \<longleftrightarrow>
    2149580800 + 2097152 * h \<le> unat a \<and> unat a < 2149580800 + 2097152 * h + 2097152"
  using assms by (simp add: region_nat unat_huge_addr)

lemma page_in_huge:
  assumes "i < NPAGE" "h < NHUGE" "a \<in> region (page_addr i) 4096" "a \<in> region (huge_addr h) 2097152"
  shows "i div 512 = h"
proof -
  have "2149580800 + 4096 * i < 2149580800 + 2097152 * h + 2097152"
    "2149580800 + 2097152 * h < 2149580800 + 4096 * i + 4096"
    using assms(3,4) unfolding page_region [OF assms(1)] huge_region [OF assms(2)] by linarith+
  then have "i < 512 * h + 512" "512 * h \<le> i" by linarith+
  then show ?thesis by (simp add: div_nat_eqI)
qed

text \<open>Frames in use never overlap: under the invariant, two different base frames with
  references share no byte, two different huge frames with references share no byte, and a
  base frame with references shares no byte with a huge frame with references.\<close>

theorem live_frames_disjoint:
  assumes "kmem_inv s" "i < NPAGE" "j < NPAGE" "g < NHUGE" "h < NHUGE"
    "0 < page_refs s i" "0 < page_refs s j" "0 < huge_refs s g" "0 < huge_refs s h"
  shows "(i \<noteq> j \<longrightarrow> region (page_addr i) 4096 \<inter> region (page_addr j) 4096 = {})
    \<and> (g \<noteq> h \<longrightarrow> region (huge_addr g) 2097152 \<inter> region (huge_addr h) 2097152 = {})
    \<and> region (page_addr i) 4096 \<inter> region (huge_addr h) 2097152 = {}"
proof (intro conjI impI)
  show "region (page_addr i) 4096 \<inter> region (page_addr j) 4096 = {}" if "i \<noteq> j"
  proof (rule equals0I)
    fix a assume "a \<in> region (page_addr i) 4096 \<inter> region (page_addr j) 4096"
    then have "4096 * i < 4096 * j + 4096" "4096 * j < 4096 * i + 4096"
      unfolding Int_iff page_region [OF assms(2)] page_region [OF assms(3)] by linarith+
    then show False using that by linarith
  qed
  show "region (huge_addr g) 2097152 \<inter> region (huge_addr h) 2097152 = {}" if "g \<noteq> h"
  proof (rule equals0I)
    fix a assume "a \<in> region (huge_addr g) 2097152 \<inter> region (huge_addr h) 2097152"
    then have "2097152 * g < 2097152 * h + 2097152" "2097152 * h < 2097152 * g + 2097152"
      unfolding Int_iff huge_region [OF assms(4)] huge_region [OF assms(5)] by linarith+
    then show False using that by linarith
  qed
  have c: "kmem_core s" and r: "pa_referenced s i \<noteq> 0" "huge_pa_referenced s h \<noteq> 0"
    using assms(1,6,9) by (auto simp: kmem_inv_def page_refs_def huge_refs_def)
  have "pagelist s i = 0" using c r(1) assms(2) by (simp add: kmem_core_def)
  then have "hugepagelist s (i div 512) \<noteq> -1" using used_section(2) [OF c assms(2)] by blast
  moreover have "hugepagelist s h = -1" using huge_live [OF assms(1,5)] r(2) by blast
  ultimately have "i div 512 \<noteq> h" by auto
  then show "region (page_addr i) 4096 \<inter> region (huge_addr h) 2097152 = {}"
    using page_in_huge [OF assms(2,5)] by blast
qed

definition kbusy :: kst where
  "kbusy = take_huge 2 (settled (take_huge 1 (settled
     (take_page 1 (settled (take_page 0 (settled kfresh)))))))"

lemma kbusy_fields:
  "pa_referenced kbusy = (\<lambda>_. 0)(0 := 1, 1 := 1)"
  "huge_pa_referenced kbusy = (\<lambda>_. 0)(1 := 1, 2 := 1)"
  by (simp_all add: kbusy_def kchange_defs kfresh_def kboot0_def hw.defs)

lemma kbusy_inv: "kmem_inv kbusy"
proof -
  have a: "kmem_inv (take_page 0 (settled kfresh))"
    by (rule kmem_inv_change(1) [OF kfresh_inv]) (simp add: page_avail_def kfresh_def kboot0_def hw.defs)
  have b: "kmem_inv (take_page 1 (settled (take_page 0 (settled kfresh))))"
    by (rule kmem_inv_change(1) [OF a])
      (simp add: page_avail_def take_page_def kfresh_def kboot0_def hw.defs)
  have c: "kmem_inv (take_huge 1 (settled (take_page 1 (settled (take_page 0 (settled kfresh))))))"
    by (rule kmem_inv_change(4) [OF b]) (simp_all add: take_page_def kfresh_def kboot0_def hw.defs)
  show ?thesis unfolding kbusy_def
    by (rule kmem_inv_change(4) [OF c])
      (simp_all add: take_page_def take_huge_def kfresh_def kboot0_def hw.defs)
qed

theorem live_frames_disjoint_witness:
  "region (page_addr 0) 4096 \<inter> region (page_addr 1) 4096 = {}
   \<and> region (huge_addr 1) 2097152 \<inter> region (huge_addr 2) 2097152 = {}
   \<and> region (page_addr 0) 4096 \<inter> region (huge_addr 2) 2097152 = {}"
  using live_frames_disjoint [OF kbusy_inv, of 0 1 1 2]
  by (simp add: page_refs_def huge_refs_def kbusy_fields)

lemma settled_settled [simp]: "settled (settled s) = settled s"
  by (simp add: settled_def)

lemma take_free_page:
  assumes "page_avail s i" "pagelist s i = 1"
  shows "free_page i (settled (take_page i (settled s)))
    = (settled s)\<lparr>mem := memset (memset (mem s) (page_addr i) 0 4096) (page_addr i) 0 4096\<rparr>"
proof -
  have "settled (take_page i (settled s)) = take_page i (settled (settled s))"
    by (cases s) (simp add: take_page_def settled_def set_mycpu_def mycpu_def)
  moreover have "free_page i (take_page i s)
    = s\<lparr>mem := memset (memset (mem s) (page_addr i) 0 4096) (page_addr i) 0 4096\<rparr>"
    if "page_avail s i" "pagelist s i = 1" for s :: "'a kst_scheme"
    using that by (intro kst.equality) (auto simp: free_page_def take_page_def page_avail_def fun_eq_iff)
  ultimately show ?thesis using assms by simp
qed

text \<open>kalloc and kfree round trip: freeing the frame kalloc just returned succeeds and gives back
  the state before kalloc in every table and counter; only the bytes of that frame differ, and
  they are zero.\<close>

theorem kalloc_kfree:
  assumes "kmem_inv s" "kalloc s = Inr (pa, t)" "pa \<noteq> 0"
  shows "\<exists>u. kfree pa t = Inr u \<and> u = (settled s)\<lparr>mem := mem u\<rparr> \<and> zero_filled (mem s) (mem u) pa 4096"
proof -
  obtain h where "kalloc_section s = Some h"
    using assms kalloc_null [OF assms(1)] by (cases "kalloc_section s") auto
  then obtain i where i: "page_avail s i" "pa = page_addr i" "t = take_page i (settled s)"
    using kalloc_ok [OF assms(1)] assms(2) by auto
  have n: "i < NPAGE" "pa_referenced t i = 1" "pagelist s i = 1"
    using i assms(1) by (auto simp: page_avail_def take_page_def kmem_inv_def kmem_core_def)
  have "kmem_inv t" using kmem_inv_change(1) [OF assms(1) i(1)] i(3) by simp
  from kfree_live [OF this n(1)] n(2) have "kfree pa t = Inr (free_page i (settled t))" using i(2) by simp
  then show ?thesis
    using take_free_page [OF i(1) n(3)] i by (auto simp: zero_filled_def memset_eq)
qed

theorem kalloc_kfree_witness:
  "\<exists>pa t u. kalloc kfresh = Inr (pa, t) \<and> kfree pa t = Inr u \<and> pagelist u = pagelist kfresh"
proof -
  have "kalloc_section kfresh \<noteq> None"
    by (rule avail_section [OF kfresh_inv, of 0]) (simp add: page_avail_def kfresh_def kboot0_def hw.defs)
  then obtain i where i: "page_avail kfresh i" "kalloc kfresh = Inr (page_addr i, take_page i (settled kfresh))"
    using kalloc_ok [OF kfresh_inv] by blast
  then have "page_addr i \<noteq> 0" by (simp add: page_avail_def)
  from kalloc_kfree [OF kfresh_inv i(2) this] obtain u where u: "kfree (page_addr i) (take_page i (settled kfresh)) = Inr u"
    "u = (settled kfresh)\<lparr>mem := mem u\<rparr>" by blast
  have "pagelist u = pagelist (settled kfresh)" using arg_cong [OF u(2), of pagelist] by simp
  then show ?thesis using i u by auto
qed


section \<open>Accounting\<close>

lemma card_base_of_huge:
  assumes "A \<subseteq> {..<NHUGE}"
  shows "card {i. i < NPAGE \<and> i div 512 \<in> A} = 512 * card A"
proof -
  have f: "finite A" using assms finite_subset by blast
  have "{i. i < NPAGE \<and> i div 512 \<in> A} = (\<Union>h\<in>A. {512 * h..<512 * h + 512})"
    using assms by (auto simp: div_nat_eqI)
  moreover have "card (\<Union>h\<in>A. {512 * h..<512 * h + 512}) = (\<Sum>h\<in>A. card {512 * h..<512 * h + 512})"
    by (intro card_UN_disjoint) (use f in auto)
  moreover have "(\<Sum>h\<in>A. card {512 * h..<512 * h + 512}) = 512 * card A" by simp
  ultimately show ?thesis by (simp only:)
qed

text \<open>Under the invariant the counters are exact.\<close>

lemma counters_exact:
  assumes "kmem_inv s"
  shows "freemem s = int (card {i. page_avail s i}) + 512"
    "used4k s = int (card {i. i < NPAGE \<and> 0 < page_refs s i})"
    "used2m s = int (card {h. h < NHUGE \<and> 0 < huge_refs s h})"
proof -
  let ?U = "{i. i < NPAGE \<and> pagelist s i = 0}" and ?H = "{h. h < NHUGE \<and> hugepagelist s h = -1}"
  let ?W = "{i. i < NPAGE \<and> i div 512 \<in> ?H}" and ?A = "{i. page_avail s i}"
  have c: "kmem_core s" using assms by (simp add: kmem_inv_def)
  then have u: "pagelist s i = 0 \<longleftrightarrow> 0 < page_refs s i" if "i < NPAGE" for i
    using that by (simp add: kmem_core_def page_refs_def unat_gt_0)
  have U: "?U = {i. i < NPAGE \<and> 0 < page_refs s i}" using u by blast
  have H: "?H = {h. h < NHUGE \<and> 0 < huge_refs s h}"
    using huge_live [OF assms] by (auto simp: huge_refs_def unat_gt_0)
  have fin: "finite ?U" "finite ?W" "finite ?A"
    by (auto simp: page_avail_def intro: finite_subset [of _ "{..<NPAGE}"])
  have av: "page_avail s i \<longleftrightarrow> i < NPAGE \<and> \<not> 0 < page_refs s i \<and> hugepagelist s (i div 512) \<noteq> -1" for i
    by (auto simp: page_avail_def page_refs_def unat_gt_0)
  have all: "?A \<union> ?U \<union> ?W = {..<NPAGE}" using u page_section by (auto simp: av)
  have dis: "?A \<inter> ?U = {}" "(?A \<union> ?U) \<inter> ?W = {}"
    using u used_section(2) [OF c] by (auto simp: av)
  have "card (?A \<union> ?U \<union> ?W) = card ?A + card ?U + card ?W"
    using fin dis by (simp only: card_Un_disjoint finite_Un simp_thms)
  then have "card ?A + card ?U + card ?W = NPAGE" unfolding all by simp
  moreover have "card ?W = 512 * card ?H" by (rule card_base_of_huge) auto
  moreover have "used4k s = int (card ?U)" "used2m s = int (card ?H)"
    "freemem s + used4k s + 512 * used2m s = 32768"
    using c by (auto simp: kmem_core_def counters_inv_def)
  ultimately show "freemem s = int (card ?A) + 512"
    "used4k s = int (card {i. i < NPAGE \<and> 0 < page_refs s i})"
    "used2m s = int (card {h. h < NHUGE \<and> 0 < huge_refs s h})"
    unfolding U [symmetric] H [symmetric] by simp_all
qed

text \<open>
  A history that mixes the two allocators, with the references to base frames and to huge
  frames the clients have.
\<close>

datatype kop = Base fop | Huge fop

fun kops :: "kop list \<Rightarrow> 'a kst_scheme \<Rightarrow> u64 multiset \<Rightarrow> u64 multiset \<Rightarrow>
    ('a kst_scheme \<times> u64 multiset \<times> u64 multiset) res" where
  "kops [] s H G = Inr (s, H, G)"
| "kops (Base op # os) s H G =
     ebind (fops kalloc kfree incr_pa_ref [op] s H) (\<lambda>(s, H). kops os s H G)"
| "kops (Huge op # os) s H G =
     ebind (fops kalloc_huge kfree_huge incr_huge_pa_ref [op] s G) (\<lambda>(s, G). kops os s H G)"

fun kentitled :: "kop list \<Rightarrow> 'a kst_scheme \<Rightarrow> u64 multiset \<Rightarrow> u64 multiset \<Rightarrow> bool" where
  "kentitled [] s H G \<longleftrightarrow> True"
| "kentitled (Base op # os) s H G \<longleftrightarrow> entitled kalloc kfree incr_pa_ref [op] s H
     \<and> (case fops kalloc kfree incr_pa_ref [op] s H of Inl _ \<Rightarrow> True
        | Inr (s, H) \<Rightarrow> kentitled os s H G)"
| "kentitled (Huge op # os) s H G \<longleftrightarrow> entitled kalloc_huge kfree_huge incr_huge_pa_ref [op] s G
     \<and> (case fops kalloc_huge kfree_huge incr_huge_pa_ref [op] s G of Inl _ \<Rightarrow> True
        | Inr (s, G) \<Rightarrow> kentitled os s H G)"

lemma kops_history:
  "kmem_inv s \<Longrightarrow> base.tallies s H \<Longrightarrow> huge.tallies s G \<Longrightarrow> kentitled os s H G \<Longrightarrow>
    \<exists>t H' G'. kops os s H G = Inr (t, H', G') \<and> kmem_inv t \<and> base.tallies t H' \<and> huge.tallies t G'"
proof (induction os arbitrary: s H G)
  case (Cons k os)
  show ?case
  proof (cases k)
    case (Base op)
    then obtain t H' where t: "fops kalloc kfree incr_pa_ref [op] s H = Inr (t, H')" "kmem_inv t"
      "huge_refs t = huge_refs s" "base.tallies t H'"
      using base.history [OF Cons.prems(1,2), of "[op]"] Cons.prems(4) by auto
    then have "huge.tallies t G" "kentitled os t H' G"
      using Cons.prems(3,4) Base by (simp_all add: huge.tallies_def del: NHUGE_def)
    then show ?thesis using Cons.IH [OF t(2,4)] t(1) Base by simp
  next
    case (Huge op)
    then obtain t G' where t: "fops kalloc_huge kfree_huge incr_huge_pa_ref [op] s G = Inr (t, G')" "kmem_inv t"
      "page_refs t = page_refs s" "huge.tallies t G'"
      using huge.history [OF Cons.prems(1,3), of "[op]"] Cons.prems(4) by auto
    then have "base.tallies t H" "kentitled os t H G'"
      using Cons.prems(2,4) Huge by (simp_all add: base.tallies_def del: NPAGE_def)
    then show ?thesis using Cons.IH [OF t(2) _ t(4)] t(1) Huge by simp
  qed
qed simp

lemma tallied_card:
  assumes "inj_on addr {..<n}" "set_mset H \<subseteq> addr ` {..<n}" "\<forall>i < n. refs i = count H (addr i)"
  shows "card {i. i < n \<and> 0 < refs i} = card (set_mset H)"
proof -
  have "set_mset H = addr ` {i. i < n \<and> 0 < refs i}"
    using assms(2,3) by (auto simp: count_greater_zero_iff)
  moreover have "inj_on addr {i. i < n \<and> 0 < refs i}" by (rule inj_on_subset [OF assms(1)]) auto
  ultimately show ?thesis by (simp add: card_image)
qed

text \<open>C39: The counters stay exact from boot on: kinit and then any history of calls of both
  allocators (kalloc, kfree, incr_pa_ref, kalloc_huge, kfree_huge, incr_huge_pa_ref, in any
  order) whose clients free and share only what they have, below the limit of 255 references,
  ends with used4k and used2m the numbers of distinct base and huge frames the clients have, and
  freemem the number of base frames kalloc could still hand out plus the 512 that kinit adds at
  its end.\<close>

theorem freemem_exact:
  assumes "kboot s" "kinit s = Inr t" "kentitled os t {#} {#}"
  shows "\<exists>u H G. kops os t {#} {#} = Inr (u, H, G) \<and> freemem u = int (card {i. page_avail u i}) + 512
    \<and> used4k u = int (card (set_mset H)) \<and> used2m u = int (card (set_mset G))"
proof -
  have t: "kmem_inv t" "base.tallies t {#}" "huge.tallies t {#}"
    using kinit_ok [OF assms(1)] assms(2)
    by (auto intro!: no_refs_tallies simp del: NPAGE_def NHUGE_def)
  obtain u H G where u: "kops os t {#} {#} = Inr (u, H, G)" "kmem_inv u" "base.tallies u H" "huge.tallies u G"
    using kops_history [OF t assms(3)] by blast
  have "card {i. i < NPAGE \<and> 0 < page_refs u i} = card (set_mset H)"
    by (rule tallied_card [of page_addr]) (use u(3) in \<open>auto simp: base.tallies_def base.addr_inj inj_on_def simp del: NPAGE_def\<close>)
  moreover have "card {h. h < NHUGE \<and> 0 < huge_refs u h} = card (set_mset G)"
    by (rule tallied_card [of huge_addr]) (use u(4) in \<open>auto simp: huge.tallies_def huge.addr_inj inj_on_def simp del: NHUGE_def\<close>)
  ultimately show ?thesis using u(1) counters_exact [OF u(2)] by auto
qed

theorem freemem_exact_witness:
  "\<exists>t u H G. kinit kboot0 = Inr t \<and> kops [Base Get, Huge Get, Base Get] t {#} {#} = Inr (u, H, G)
     \<and> freemem u = int (card {i. page_avail u i}) + 512 \<and> used4k u = int (card (set_mset H))"
proof -
  have b: "kboot kboot0" by (simp add: kboot_def kboot0_def hw.defs)
  then obtain t where t: "kinit kboot0 = Inr t" using kinit_ok by blast
  have "kentitled [Base Get, Huge Get, Base Get] t {#} {#}" by (simp split: sum.split)
  from freemem_exact [OF b t this] t show ?thesis by blast
qed

end
