(* ===== verification/Vm.thy ===== *)
theory Vm
  imports Frames
begin

text \<open>
  \<^verbatim>\<open>kernel/vm.c\<close>: Sv39 page tables in physical memory, with 4 KiB leaves at level 0 and
  2 MiB leaves at level 1, and the copies between kernel and user memory.

  A \<^verbatim>\<open>pagetable_t\<close> is the physical address of a table of 512 entries, a \<^verbatim>\<open>pte_t *\<close> the
  address of an entry; the null pointer is 0.  A write through a null pointer is the fault
  \<open>Wild\<close>.  The kernel side of \<^verbatim>\<open>copyin\<close>, \<^verbatim>\<open>copyout\<close> and \<^verbatim>\<open>copyinstr\<close> is a list of
  bytes: the bytes to be written, or the bytes fetched so far, also when the call ends in
  an error half way.  The debug output of \<^verbatim>\<open>freewalk\<close> is left out.
\<close>

record vmst = kst +
  kernel_pagetable :: u64
  etext :: u64
  trampoline :: u64
  satp :: "nat \<Rightarrow> u64"

section \<open>Sequences and null pointers\<close>

text \<open>A counting \<^verbatim>\<open>for\<close> loop whose body may fault.\<close>

primrec efold :: "('i \<Rightarrow> 's \<Rightarrow> 's res) \<Rightarrow> 'i list \<Rightarrow> 's \<Rightarrow> 's res" where
  "efold f [] s = Inr s"
| "efold f (i # is) s = ebind (f i s) (efold f is)"

definition memset_ptr :: "u64 \<Rightarrow> u8 \<Rightarrow> nat \<Rightarrow> 'a kst_scheme \<Rightarrow> 'a kst_scheme res" where
  "memset_ptr p c n s = (if p = 0 then Inl Wild else Inr (s\<lparr>mem := memset (mem s) p c n\<rparr>))"

primrec put_bytes :: "memory \<Rightarrow> u64 \<Rightarrow> u8 list \<Rightarrow> memory" where
  "put_bytes m a [] = m"
| "put_bytes m a (b # bs) = put_bytes (m(a := b)) (a + 1) bs"

definition get_bytes :: "memory \<Rightarrow> u64 \<Rightarrow> nat \<Rightarrow> u8 list" where
  "get_bytes m a n = map (\<lambda>i. m (a + of_nat i)) [0..<n]"

section \<open>Walking a page table\<close>

definition slot :: "u64 \<Rightarrow> u64 \<Rightarrow> u64" where
  "slot pagetable i = pagetable + 8 * i"

text \<open>
  One round of the loop of \<^verbatim>\<open>walk\<close>: the table of the next level, or \<open>None\<close> where the
  function returns 0.
\<close>

definition walk_step ::
  "u64 \<Rightarrow> u64 \<Rightarrow> bool \<Rightarrow> nat \<Rightarrow> 'a kst_scheme \<Rightarrow> (u64 option \<times> 'a kst_scheme) res"
where
  "walk_step pagetable va alloc level s =
     (let pte = slot pagetable (PX level va)
      in if ld64 (mem s) pte AND PTE_V \<noteq> 0 then Inr (Some (PTE2PA (ld64 (mem s) pte)), s)
         else if \<not> alloc then Inr (None, s)
         else ebind (kalloc s) (\<lambda>(pagetable, s).
              if pagetable = 0 then Inr (None, s)
              else Inr (Some pagetable,
                s\<lparr>mem := st64 (memset (mem s) pagetable 0 4096) pte (PA2PTE pagetable OR PTE_V)\<rparr>)))"

definition walk :: "u64 \<Rightarrow> u64 \<Rightarrow> bool \<Rightarrow> 'a kst_scheme \<Rightarrow> (u64 \<times> 'a kst_scheme) res" where
  "walk pagetable va alloc s =
     (if MAXVA \<le> va then Inl (Panic ''walk'')
      else ebind (walk_step pagetable va alloc 2 s) (\<lambda>(p, s).
        case p of None \<Rightarrow> Inr (0, s)
        | Some pagetable \<Rightarrow> ebind (walk_step pagetable va alloc 1 s) (\<lambda>(p, s).
        case p of None \<Rightarrow> Inr (0, s)
        | Some pagetable \<Rightarrow> Inr (slot pagetable (PX 0 va), s))))"

definition walk_huge :: "u64 \<Rightarrow> u64 \<Rightarrow> bool \<Rightarrow> 'a kst_scheme \<Rightarrow> (u64 \<times> 'a kst_scheme) res" where
  "walk_huge pagetable va alloc s =
     (if MAXVA \<le> va then Inl (Panic ''walk'')
      else ebind (walk_step pagetable va alloc 2 s) (\<lambda>(p, s).
        case p of None \<Rightarrow> Inr (0, s)
        | Some pagetable \<Rightarrow>
            let pte = slot pagetable (PX 1 va); e = ld64 (mem s) pte
            in if e AND PTE_V \<noteq> 0 \<and> e AND (PTE_R OR PTE_W OR PTE_X) = 0
               then ebind (kfree (PTE2PA e) s) (\<lambda>s.
                 Inr (pte, s\<lparr>mem := st64 (mem s) pte (ld64 (mem s) pte - 1)\<rparr>))
               else Inr (pte, s)))"

definition walkaddr :: "u64 \<Rightarrow> u64 \<Rightarrow> 'a kst_scheme \<Rightarrow> (u64 \<times> 'a kst_scheme) res" where
  "walkaddr pagetable va s =
     (if MAXVA \<le> va then Inr (0, s)
      else ebind (walk pagetable va False s) (\<lambda>(pte, s).
        if pte = 0 then Inr (0, s)
        else if ld64 (mem s) pte AND PTE_V = 0 then Inr (0, s)
        else if ld64 (mem s) pte AND PTE_U = 0 then Inr (0, s)
        else Inr (PTE2PA (ld64 (mem s) pte), s)))"

lemma walk_below: "walk pt va alloc s = Inr (p, t) \<Longrightarrow> unat va < 274877906944"
  by (auto simp: walk_def word_le_nat_alt split: if_splits)

lemma walk_huge_below: "walk_huge pt va alloc s = Inr (p, t) \<Longrightarrow> unat va < 274877906944"
  by (auto simp: walk_huge_def word_le_nat_alt split: if_splits)

section \<open>Mapping and unmapping\<close>

function mappages_loop ::
  "u64 \<Rightarrow> u64 \<Rightarrow> u64 \<Rightarrow> u64 \<Rightarrow> u64 \<Rightarrow> 'a kst_scheme \<Rightarrow> (int \<times> 'a kst_scheme) res"
where
  "mappages_loop pagetable a lst pa perm s =
     ebind (walk pagetable a True s) (\<lambda>(pte, s).
     if pte = 0 then Inr (-1, s)
     else if ld64 (mem s) pte AND PTE_V \<noteq> 0 then Inl (Panic ''mappages: remap'')
     else let s = s\<lparr>mem := st64 (mem s) pte (PA2PTE pa OR perm OR PTE_V)\<rparr>
          in if a = lst then Inr (0, s)
             else mappages_loop pagetable (a + PGSIZE) lst (pa + PGSIZE) perm s)"
  by pat_completeness auto
termination
  by (relation "measure (\<lambda>(pt, a, l, pa, pe, s). 274877906944 - unat a)")
    (auto dest!: walk_below simp: unat_u64_add)

declare mappages_loop.simps [simp del]

definition mappages ::
  "u64 \<Rightarrow> u64 \<Rightarrow> u64 \<Rightarrow> u64 \<Rightarrow> u64 \<Rightarrow> 'a kst_scheme \<Rightarrow> (int \<times> 'a kst_scheme) res"
where
  "mappages pagetable va sz pa perm s =
     (if sz = 0 then Inl (Panic ''mappages: size'')
      else mappages_loop pagetable (PGROUNDDOWN va) (PGROUNDDOWN (va + sz - 1)) pa perm s)"

definition kvmmap :: "u64 \<Rightarrow> u64 \<Rightarrow> u64 \<Rightarrow> u64 \<Rightarrow> u64 \<Rightarrow> 'a kst_scheme \<Rightarrow> 'a kst_scheme res" where
  "kvmmap kpgtbl va pa sz perm s =
     ebind (mappages kpgtbl va sz pa perm s) (\<lambda>(r, s).
     if r \<noteq> 0 then Inl (Panic ''kvmmap'') else Inr s)"

function uvmunmap_loop ::
  "u64 \<Rightarrow> u64 \<Rightarrow> u64 \<Rightarrow> bool \<Rightarrow> 'a kst_scheme \<Rightarrow> 'a kst_scheme res"
where
  "uvmunmap_loop pagetable a stop do_free s =
     (if a < stop
      then ebind (walk pagetable a False s) (\<lambda>(pte, s).
        if pte = 0 then Inl (Panic ''uvmunmap: walk'')
        else if ld64 (mem s) pte AND PTE_V = 0 then Inl (Panic ''uvmunmap: not mapped'')
        else if PTE_FLAGS (ld64 (mem s) pte) = PTE_V then Inl (Panic ''uvmunmap: not a leaf'')
        else ebind (if do_free then kfree (PTE2PA (ld64 (mem s) pte)) s else Inr s) (\<lambda>s.
          uvmunmap_loop pagetable (a + PGSIZE) stop do_free (s\<lparr>mem := st64 (mem s) pte 0\<rparr>)))
      else Inr s)"
  by pat_completeness auto
termination
  by (relation "measure (\<lambda>(pt, a, l, f, s). 274877906944 - unat a)")
    (auto dest!: walk_below simp: unat_u64_add)

declare uvmunmap_loop.simps [simp del]

definition uvmunmap :: "u64 \<Rightarrow> u64 \<Rightarrow> u64 \<Rightarrow> bool \<Rightarrow> 'a kst_scheme \<Rightarrow> 'a kst_scheme res" where
  "uvmunmap pagetable va npages do_free s =
     (if va mod PGSIZE \<noteq> 0 then Inl (Panic ''uvmunmap: not aligned'')
      else uvmunmap_loop pagetable va (va + npages * PGSIZE) do_free s)"

function uvmunmap_huge_loop ::
  "u64 \<Rightarrow> u64 \<Rightarrow> u64 \<Rightarrow> bool \<Rightarrow> 'a kst_scheme \<Rightarrow> 'a kst_scheme res"
where
  "uvmunmap_huge_loop pagetable a stop do_free s =
     (if a < stop
      then ebind (walk_huge pagetable a False s) (\<lambda>(pte, s).
        if pte = 0 then uvmunmap_huge_loop pagetable (a + HUGEPGSIZE) stop do_free s
        else if ld64 (mem s) pte AND PTE_V = 0
        then uvmunmap_huge_loop pagetable (a + HUGEPGSIZE) stop do_free s
        else if PTE_FLAGS (ld64 (mem s) pte) = PTE_V then Inl (Panic ''uvmunmap(huge): not a leaf'')
        else ebind (if do_free then kfree_huge (PTE2PA (ld64 (mem s) pte)) s else Inr s) (\<lambda>s.
          uvmunmap_huge_loop pagetable (a + HUGEPGSIZE) stop do_free (s\<lparr>mem := st64 (mem s) pte 0\<rparr>)))
      else Inr s)"
  by pat_completeness auto
termination
  by (relation "measure (\<lambda>(pt, a, l, f, s). 274877906944 - unat a)")
    (auto dest!: walk_huge_below simp: unat_u64_add)

declare uvmunmap_huge_loop.simps [simp del]

definition uvmunmap_huge :: "u64 \<Rightarrow> u64 \<Rightarrow> u64 \<Rightarrow> bool \<Rightarrow> 'a kst_scheme \<Rightarrow> 'a kst_scheme res" where
  "uvmunmap_huge pagetable va npages do_free s =
     (if va mod HUGEPGSIZE \<noteq> 0 then Inl (Panic ''uvmunmap(huge): not aligned'')
      else uvmunmap_huge_loop pagetable va (va + npages * HUGEPGSIZE) do_free s)"


section \<open>The kernel page table\<close>

definition proc_mapstack :: "u64 \<Rightarrow> nat \<Rightarrow> 'a kst_scheme \<Rightarrow> 'a kst_scheme res" where
  "proc_mapstack kpgtbl i s =
     ebind (kalloc s) (\<lambda>(pa, s).
     if pa = 0 then Inl (Panic ''kalloc'')
     else kvmmap kpgtbl (KSTACK (of_nat i)) pa PGSIZE (PTE_R OR PTE_W) s)"

definition proc_mapstacks :: "u64 \<Rightarrow> 'a kst_scheme \<Rightarrow> 'a kst_scheme res" where
  "proc_mapstacks kpgtbl = efold (proc_mapstack kpgtbl) [0..<NPROC]"

definition kvmmake :: "'a vmst_scheme \<Rightarrow> (u64 \<times> 'a vmst_scheme) res" where
  "kvmmake s =
     ebind (kalloc s) (\<lambda>(kpgtbl, s).
     ebind (memset_ptr kpgtbl 0 4096 s) (\<lambda>s.
     ebind (kvmmap kpgtbl UART0 UART0 PGSIZE (PTE_R OR PTE_W) s) (\<lambda>s.
     ebind (kvmmap kpgtbl VIRTIO0 VIRTIO0 PGSIZE (PTE_R OR PTE_W) s) (\<lambda>s.
     ebind (kvmmap kpgtbl PLIC PLIC 0x400000 (PTE_R OR PTE_W) s) (\<lambda>s.
     ebind (kvmmap kpgtbl KERNBASE KERNBASE (etext s - KERNBASE) (PTE_R OR PTE_X) s) (\<lambda>s.
     ebind (kvmmap kpgtbl (etext s) (etext s) (PHYSTOP - etext s) (PTE_R OR PTE_W) s) (\<lambda>s.
     ebind (kvmmap kpgtbl TRAMPOLINE (trampoline s) PGSIZE (PTE_R OR PTE_X) s) (\<lambda>s.
     ebind (proc_mapstacks kpgtbl s) (\<lambda>s.
     Inr (kpgtbl, s))))))))))"

definition kvminit :: "'a vmst_scheme \<Rightarrow> 'a vmst_scheme res" where
  "kvminit s = ebind (kvmmake s) (\<lambda>(pt, s). Inr (s\<lparr>kernel_pagetable := pt\<rparr>))"

definition MAKE_SATP :: "u64 \<Rightarrow> u64" where
  "MAKE_SATP pagetable = push_bit 60 8 OR drop_bit 12 pagetable"

definition kvminithart :: "'a vmst_scheme \<Rightarrow> 'a vmst_scheme" where
  "kvminithart s = s\<lparr>satp := (satp s)(hartid s := MAKE_SATP (kernel_pagetable s))\<rparr>"


section \<open>User page tables\<close>

definition uvmcreate :: "'a kst_scheme \<Rightarrow> (u64 \<times> 'a kst_scheme) res" where
  "uvmcreate s =
     ebind (kalloc s) (\<lambda>(pagetable, s).
     if pagetable = 0 then Inr (0, s)
     else Inr (pagetable, s\<lparr>mem := memset (mem s) pagetable 0 4096\<rparr>))"

definition uvmfirst :: "u64 \<Rightarrow> u8 list \<Rightarrow> 'a kst_scheme \<Rightarrow> 'a kst_scheme res" where
  "uvmfirst pagetable src s =
     (if 4096 \<le> length src then Inl (Panic ''uvmfirst: more than a page'')
      else ebind (kalloc s) (\<lambda>(p, s).
        ebind (memset_ptr p 0 4096 s) (\<lambda>s.
        ebind (mappages pagetable 0 PGSIZE p (PTE_W OR PTE_R OR PTE_X OR PTE_U) s) (\<lambda>(_, s).
        Inr (s\<lparr>mem := put_bytes (mem s) p src\<rparr>)))))"

definition uvmdealloc :: "u64 \<Rightarrow> u64 \<Rightarrow> u64 \<Rightarrow> 'a kst_scheme \<Rightarrow> (u64 \<times> 'a kst_scheme) res" where
  "uvmdealloc pagetable oldsz newsz s =
     (if oldsz \<le> newsz then Inr (oldsz, s)
      else if PGROUNDUP newsz < PGROUNDUP oldsz
      then let npages = scast (ucast ((PGROUNDUP oldsz - PGROUNDUP newsz) div PGSIZE) :: u32)
           in ebind (uvmunmap pagetable (PGROUNDUP newsz) npages True s) (\<lambda>s. Inr (newsz, s))
      else Inr (newsz, s))"

lemma mappages_loop_below: "mappages_loop pt a l pa pe s = Inr (r, t) \<Longrightarrow> unat a < 274877906944"
  by (subst (asm) mappages_loop.simps) (auto simp: ebind_eq_Inr dest: walk_below)

lemma mappages_below: "mappages pt va sz pa pe s = Inr (r, t) \<Longrightarrow> unat va < 274877906944"
proof -
  assume "mappages pt va sz pa pe s = Inr (r, t)"
  then have "unat (PGROUNDDOWN va) < 274877906944"
    by (auto simp: mappages_def dest: mappages_loop_below split: if_splits)
  then have "unat va div 4096 < 67108864" by (simp add: unat_PGROUNDDOWN)
  then show ?thesis by linarith
qed

function uvmalloc_loop ::
  "u64 \<Rightarrow> u64 \<Rightarrow> u64 \<Rightarrow> u64 \<Rightarrow> u64 \<Rightarrow> 'a kst_scheme \<Rightarrow> (u64 \<times> 'a kst_scheme) res"
where
  "uvmalloc_loop pagetable a oldsz newsz xperm s =
     (if a < newsz
      then ebind (kalloc s) (\<lambda>(p, s).
        if p = 0 then ebind (uvmdealloc pagetable a oldsz s) (\<lambda>(_, s). Inr (0, s))
        else ebind (mappages pagetable a PGSIZE p (PTE_R OR PTE_U OR xperm)
                      (s\<lparr>mem := memset (mem s) p 0 4096\<rparr>)) (\<lambda>(r, s).
          if r \<noteq> 0
          then ebind (kfree p s) (\<lambda>s.
               ebind (uvmdealloc pagetable a oldsz s) (\<lambda>(_, s). Inr (0, s)))
          else uvmalloc_loop pagetable (a + PGSIZE) oldsz newsz xperm s))
      else Inr (newsz, s))"
  by pat_completeness auto
termination
  by (relation "measure (\<lambda>(pt, a, os, ns, xp, s). 274877906944 - unat a)")
    (auto dest!: mappages_below simp: unat_u64_add)

declare uvmalloc_loop.simps [simp del]

definition uvmalloc :: "u64 \<Rightarrow> u64 \<Rightarrow> u64 \<Rightarrow> u64 \<Rightarrow> 'a kst_scheme \<Rightarrow> (u64 \<times> 'a kst_scheme) res" where
  "uvmalloc pagetable oldsz newsz xperm s =
     (if newsz < oldsz then Inr (oldsz, s)
      else uvmalloc_loop pagetable (PGROUNDUP oldsz) (PGROUNDUP oldsz) newsz xperm s)"

text \<open>
  The recursion of \<^verbatim>\<open>freewalk\<close> follows the tables in memory and has no bound of its own;
  the first argument bounds the number of levels.  \<^verbatim>\<open>uvmfree\<close> passes three, the levels of the tables that
  \<^verbatim>\<open>walk\<close> makes.
\<close>

primrec freewalk :: "nat \<Rightarrow> u64 \<Rightarrow> 'a kst_scheme \<Rightarrow> 'a kst_scheme res" where
  "freewalk 0 pagetable s = Inl Fuel"
| "freewalk (Suc levels) pagetable s =
     ebind (efold (\<lambda>i s.
         let pte = ld64 (mem s) (slot pagetable (of_nat i))
         in if pte AND PTE_V \<noteq> 0 \<and> pte AND (PTE_R OR PTE_W OR PTE_X) = 0
            then ebind (freewalk levels (PTE2PA pte) s) (\<lambda>s.
                 Inr (s\<lparr>mem := st64 (mem s) (slot pagetable (of_nat i)) 0\<rparr>))
            else if pte AND PTE_V \<noteq> 0 then Inl (Panic ''freewalk: leaf'')
            else Inr s) [0..<512] s)
       (kfree pagetable)"

definition uvmfree :: "u64 \<Rightarrow> u64 \<Rightarrow> 'a kst_scheme \<Rightarrow> 'a kst_scheme res" where
  "uvmfree pagetable sz s =
     ebind (if 0 < sz then uvmunmap pagetable 0 (PGROUNDUP sz div PGSIZE) True s else Inr s)
       (freewalk 3 pagetable)"

function uvmcopy_loop ::
  "u64 \<Rightarrow> u64 \<Rightarrow> u64 \<Rightarrow> u64 \<Rightarrow> 'a kst_scheme \<Rightarrow> (int \<times> 'a kst_scheme) res"
where
  "uvmcopy_loop old new i sz s =
     (if i < sz
      then ebind (walk old i False s) (\<lambda>(pte, s).
        if pte = 0 then Inl (Panic ''uvmcopy: pte should exist'')
        else if ld64 (mem s) pte AND PTE_V = 0 then Inl (Panic ''uvmcopy: page not present'')
        else let pa = PTE2PA (ld64 (mem s) pte); flags = PTE_FLAGS (ld64 (mem s) pte)
             in ebind (kalloc s) (\<lambda>(p, s).
                if p = 0
                then ebind (uvmunmap new 0 (i div PGSIZE) True s) (\<lambda>s. Inr (-1, s))
                else ebind (mappages new i PGSIZE p flags (s\<lparr>mem := memmove (mem s) p pa 4096\<rparr>)) (\<lambda>(r, s).
                  if r \<noteq> 0
                  then ebind (kfree p s) (\<lambda>s.
                       ebind (uvmunmap new 0 (i div PGSIZE) True s) (\<lambda>s. Inr (-1, s)))
                  else uvmcopy_loop old new (i + PGSIZE) sz s)))
      else Inr (0, s))"
  by pat_completeness auto
termination
  by (relation "measure (\<lambda>(old, new, i, sz, s). 274877906944 - unat i)")
    (auto dest!: walk_below simp: unat_u64_add)

declare uvmcopy_loop.simps [simp del]

definition uvmcopy :: "u64 \<Rightarrow> u64 \<Rightarrow> u64 \<Rightarrow> 'a kst_scheme \<Rightarrow> (int \<times> 'a kst_scheme) res" where
  "uvmcopy old new sz s = uvmcopy_loop old new 0 sz s"

definition uvmclear :: "u64 \<Rightarrow> u64 \<Rightarrow> 'a kst_scheme \<Rightarrow> 'a kst_scheme res" where
  "uvmclear pagetable va s =
     ebind (walk pagetable va False s) (\<lambda>(pte, s).
     if pte = 0 then Inl (Panic ''uvmclear'')
     else Inr (s\<lparr>mem := st64 (mem s) pte (ld64 (mem s) pte AND NOT PTE_U)\<rparr>))"


section \<open>Copies between kernel and user memory\<close>

text \<open>The bytes from \<open>va\<close> to the end of its page.\<close>

definition page_room :: "u64 \<Rightarrow> nat" where
  "page_room va = unat (PGSIZE - (va - PGROUNDDOWN va))"

lemma page_offset: "unat (va - PGROUNDDOWN va) = unat va mod 4096"
proof -
  have "unat (va - PGROUNDDOWN va) = unat va - unat (PGROUNDDOWN va)"
    by (rule unat_sub) (use PGROUNDDOWN_bounds(1) [of va] in \<open>simp add: word_le_nat_alt\<close>)
  then show ?thesis by (simp add: unat_PGROUNDDOWN minus_div_mult_eq_mod)
qed

lemma page_room_eq: "page_room va = 4096 - unat va mod 4096"
proof -
  have le: "va - PGROUNDDOWN va \<le> PGSIZE"
    using mod_less_divisor [of 4096 "unat va"] by (simp add: word_le_nat_alt page_offset)
  then show ?thesis unfolding page_room_def by (subst unat_sub [OF le]) (simp add: page_offset)
qed

lemma page_room_pos: "0 < page_room va" "page_room va \<le> 4096"
  using mod_less_divisor [of 4096 "unat va"] by (simp_all add: page_room_eq)

function copyout :: "u64 \<Rightarrow> u64 \<Rightarrow> u8 list \<Rightarrow> 'a kst_scheme \<Rightarrow> (int \<times> 'a kst_scheme) res" where
  "copyout pagetable dstva src s =
     (if 0 < length src
      then let va0 = PGROUNDDOWN dstva
           in ebind (walkaddr pagetable va0 s) (\<lambda>(pa0, s).
              if pa0 = 0 then Inr (-1, s)
              else let n = min (page_room dstva) (length src)
                   in copyout pagetable (va0 + PGSIZE) (drop n src)
                        (s\<lparr>mem := put_bytes (mem s) (pa0 + (dstva - va0)) (take n src)\<rparr>))
      else Inr (0, s))"
  by pat_completeness auto
termination
  by (relation "measure (\<lambda>(pt, va, src, s). length src)") (use page_room_pos in auto)

declare copyout.simps [simp del]

function copyin ::
  "u64 \<Rightarrow> u64 \<Rightarrow> nat \<Rightarrow> 'a kst_scheme \<Rightarrow> ((int \<times> u8 list) \<times> 'a kst_scheme) res"
where
  "copyin pagetable srcva len s =
     (if 0 < len
      then let va0 = PGROUNDDOWN srcva
           in ebind (walkaddr pagetable va0 s) (\<lambda>(pa0, s).
              if pa0 = 0 then Inr ((-1, []), s)
              else let n = min (page_room srcva) len
                   in ebind (copyin pagetable (va0 + PGSIZE) (len - n) s) (\<lambda>((r, bs), s).
                      Inr ((r, get_bytes (mem s) (pa0 + (srcva - va0)) n @ bs), s)))
      else Inr ((0, []), s))"
  by pat_completeness auto
termination
  by (relation "measure (\<lambda>(pt, va, len, s). len)") (use page_room_pos in auto)

declare copyin.simps [simp del]

text \<open>
  The inner loop of \<^verbatim>\<open>copyinstr\<close> on at most \<open>n\<close> bytes: the bytes copied and whether a null
  byte, which is copied too, ended it.
\<close>

fun copyinstr_chunk :: "memory \<Rightarrow> u64 \<Rightarrow> nat \<Rightarrow> u8 list \<times> bool" where
  "copyinstr_chunk m p 0 = ([], False)"
| "copyinstr_chunk m p (Suc n) =
     (if m p = 0 then ([0], True)
      else let (bs, got_null) = copyinstr_chunk m (p + 1) n in (m p # bs, got_null))"

function copyinstr ::
  "u64 \<Rightarrow> u64 \<Rightarrow> nat \<Rightarrow> 'a kst_scheme \<Rightarrow> ((int \<times> u8 list) \<times> 'a kst_scheme) res"
where
  "copyinstr pagetable srcva mx s =
     (if 0 < mx
      then let va0 = PGROUNDDOWN srcva
           in ebind (walkaddr pagetable va0 s) (\<lambda>(pa0, s).
              if pa0 = 0 then Inr ((-1, []), s)
              else let n = min (page_room srcva) mx;
                       (bs, got_null) = copyinstr_chunk (mem s) (pa0 + (srcva - va0)) n
                   in if got_null then Inr ((0, bs), s)
                      else ebind (copyinstr pagetable (va0 + PGSIZE) (mx - n) s) (\<lambda>((r, bs'), s).
                        Inr ((r, bs @ bs'), s)))
      else Inr ((-1, []), s))"
  by pat_completeness auto
termination
  by (relation "measure (\<lambda>(pt, va, mx, s). mx)") (use page_room_pos in auto)

declare copyinstr.simps [simp del]

end
