(* ===== verification/Pagetable.thy ===== *)
theory Pagetable
  imports Vm
begin

text \<open>
  What a page table in memory means.  \<open>node\<close> finds the table at the end of a path of
  indices, \<open>pte_of\<close> and \<open>huge_of\<close> the entry that a virtual address has at level 0 and
  the 2 MiB leaf it has at level 1.  A table is well formed when its tables are distinct
  allocated frames; the operations of \<^verbatim>\<open>kernel/vm.c\<close> then act as updates of \<open>pte_of\<close>.
\<close>

section \<open>Frames and slots\<close>

definition is_page :: "u64 \<Rightarrow> bool" where
  "is_page a \<longleftrightarrow> (\<exists>i < NPAGE. a = page_addr i)"

lemma is_pageI [intro]: "i < NPAGE \<Longrightarrow> is_page (page_addr i)"
  by (auto simp: is_page_def)

lemma is_page_nat: "is_page a \<Longrightarrow> \<exists>k. unat a = 4096 * k \<and> 524800 \<le> k \<and> k < 557056"
proof -
  assume "is_page a"
  then obtain i where "i < NPAGE" "a = page_addr i" by (auto simp: is_page_def)
  then show ?thesis by (intro exI [of _ "524800 + i"]) (simp add: unat_page_addr)
qed

lemma is_page_props: "is_page a \<Longrightarrow> paligned a \<and> a \<noteq> 0"
  by (auto simp: is_page_def)

lemma unat_slot:
  assumes "is_page p" "i < 512"
  shows "unat (slot p (of_nat i)) = unat p + 8 * i"
proof -
  have m: "unat (8 * of_nat i :: u64) = 8 * i"
    using assms(2) by (subst unat_mult_lem [THEN iffD1]) simp_all
  show ?thesis unfolding slot_def using is_page_nat [OF assms(1)] assms(2) m
    by (subst unat_u64_add_nowrap) auto
qed

lemma aligned8_slot: "is_page p \<Longrightarrow> i < 512 \<Longrightarrow> aligned8 (slot p (of_nat i))"
  using is_page_nat [of p] by (auto simp: aligned8_def unat_slot)

lemma slot_nonnull: "is_page p \<Longrightarrow> i < 512 \<Longrightarrow> slot p (of_nat i) \<noteq> 0"
proof -
  assume "is_page p" "i < 512"
  then have "unat (slot p (of_nat i)) \<noteq> 0" using is_page_nat [of p] by (auto simp: unat_slot)
  then show ?thesis by auto
qed

lemma slot_inj:
  assumes "is_page p" "is_page q" "i < 512" "j < 512"
  shows "slot p (of_nat i) = slot q (of_nat j) \<longleftrightarrow> p = q \<and> i = j"
proof
  assume e: "slot p (of_nat i) = slot q (of_nat j)"
  obtain k l where k: "unat p = 4096 * k" and l: "unat q = 4096 * l"
    using is_page_nat assms(1,2) by blast
  have "4096 * k + 8 * i = 4096 * l + 8 * j"
    using arg_cong [OF e, of unat] assms k l by (simp add: unat_slot)
  moreover have "(4096 * k + 8 * i) div 4096 = k" "(4096 * l + 8 * j) div 4096 = l"
    using assms(3,4) by simp_all
  ultimately have "k = l \<and> i = j" by simp
  then show "p = q \<and> i = j" using k l by (simp add: u64_eq_iff)
qed simp

lemma slot_PX: "slot p (PX l va) = slot p (of_nat (unat (PX l va)))"
  by simp

lemma page_apart:
  assumes "is_page p" "is_page q" "p \<noteq> q"
  shows "region p 4096 \<inter> region q 4096 = {}"
proof -
  obtain k l where k: "unat p = 4096 * k" "k < 557056" and l: "unat q = 4096 * l" "l < 557056"
    using is_page_nat assms(1,2) by blast
  have "k \<noteq> l" using assms(3) k l by (auto simp: u64_eq_iff)
  then consider "unat p + 4096 \<le> unat q" | "unat q + 4096 \<le> unat p" using k l by linarith
  then show ?thesis
    using region_disjoint [of p 4096 q 4096] region_disjoint [of q 4096 p 4096] k l
    by cases (auto simp: Int_commute)
qed

lemma slot_in_page:
  assumes "is_page p" "i < 512" "k < 8"
  shows "slot p (of_nat i) + of_nat k \<in> region p 4096"
proof -
  obtain n where n: "unat p = 4096 * n" "n < 557056" using is_page_nat assms(1) by blast
  have u: "unat (slot p (of_nat i)) = unat p + 8 * i" using assms by (simp add: unat_slot)
  have "unat (slot p (of_nat i) + of_nat k) = unat p + 8 * i + k"
    using u assms n by (subst unat_u64_add_nowrap) auto
  then show ?thesis using assms n by (simp add: region_nat)
qed

text \<open>The entries of a page depend on the bytes of that page only.\<close>

lemma ld64_page_cong:
  assumes "is_page p" "i < 512" "\<And>a. a \<in> region p 4096 \<Longrightarrow> m' a = m a"
  shows "ld64 m' (slot p (of_nat i)) = ld64 m (slot p (of_nat i))"
  by (rule ld64_cong) (use assms slot_in_page in blast)

lemma ld64_zero_page:
  assumes "is_page p" "i < 512"
  shows "ld64 (memset m p 0 4096) (slot p (of_nat i)) = 0"
proof (rule ld64_zero)
  fix k :: nat assume "k < 8"
  then show "memset m p 0 4096 (slot p (of_nat i) + of_nat k) = 0"
    using slot_in_page [OF assms, of k] by (simp add: memset_eq)
qed

lemma ld64_memset_other:
  assumes "is_page p" "is_page q" "p \<noteq> q" "i < 512"
  shows "ld64 (memset m q 0 4096) (slot p (of_nat i)) = ld64 m (slot p (of_nat i))"
proof (rule ld64_page_cong [OF assms(1,4)])
  fix a assume "a \<in> region p 4096"
  then have "a \<notin> region q 4096" using page_apart [OF assms(1-3)] by blast
  then show "memset m q 0 4096 a = m a" by (simp add: memset_eq)
qed

lemma ld64_st64_slot:
  assumes "is_page p" "is_page q" "i < 512" "j < 512"
  shows "ld64 (st64 m (slot p (of_nat i)) v) (slot q (of_nat j))
    = (if p = q \<and> i = j then v else ld64 m (slot q (of_nat j)))"
  using assms slot_inj [OF assms] by (auto simp: ld64_st64_other aligned8_slot)

lemma st64_slot_frame:
  assumes "is_page p" "i < 512" "a \<notin> region p 4096"
  shows "st64 m (slot p (of_nat i)) v a = m a"
proof (rule st64_frame)
  obtain n where n: "unat p = 4096 * n" "n < 557056" using is_page_nat assms(1) by blast
  have u: "unat (slot p (of_nat i)) = unat p + 8 * i" using assms by (simp add: unat_slot)
  show "\<not> unat (a - slot p (of_nat i)) < 8"
    using assms(2,3) n u by (auto simp: region_nat)
qed


section \<open>Tables, entries and well-formedness\<close>

definition is_table :: "u64 \<Rightarrow> bool" where
  "is_table e \<longleftrightarrow> e AND PTE_V \<noteq> 0 \<and> e AND (PTE_R OR PTE_W OR PTE_X) = 0"

text \<open>The table reached by a path of indices, the last one first.\<close>

primrec node :: "memory \<Rightarrow> u64 \<Rightarrow> nat list \<Rightarrow> u64 option" where
  "node m pt [] = Some pt"
| "node m pt (i # P) = (case node m pt P of None \<Rightarrow> None
     | Some p \<Rightarrow> let e = ld64 m (slot p (of_nat i)) in if is_table e then Some (PTE2PA e) else None)"

definition path_ok :: "nat list \<Rightarrow> bool" where
  "path_ok P \<longleftrightarrow> length P \<le> 2 \<and> (\<forall>i\<in>set P. i < 512)"

definition ix :: "nat \<Rightarrow> u64 \<Rightarrow> nat" where
  "ix l va = unat (PX l va)"

definition pte_of :: "memory \<Rightarrow> u64 \<Rightarrow> u64 \<Rightarrow> u64" where
  "pte_of m pt va = (case node m pt [ix 1 va, ix 2 va] of None \<Rightarrow> 0
     | Some p \<Rightarrow> ld64 m (slot p (of_nat (ix 0 va))))"

definition mid_of :: "memory \<Rightarrow> u64 \<Rightarrow> u64 \<Rightarrow> u64" where
  "mid_of m pt va = (case node m pt [ix 2 va] of None \<Rightarrow> 0
     | Some p \<Rightarrow> ld64 m (slot p (of_nat (ix 1 va))))"

text \<open>
  A well-formed table: every table it reaches is a base frame, no frame is reached by two
  paths, and no entry of the root is a leaf.
\<close>

definition pt_wf :: "memory \<Rightarrow> u64 \<Rightarrow> bool" where
  "pt_wf m pt \<longleftrightarrow>
     (\<forall>P a. path_ok P \<longrightarrow> node m pt P = Some a \<longrightarrow> is_page a)
   \<and> (\<forall>P Q a. path_ok P \<longrightarrow> path_ok Q \<longrightarrow> node m pt P = Some a \<longrightarrow> node m pt Q = Some a \<longrightarrow> P = Q)
   \<and> (\<forall>i < 512. ld64 m (slot pt (of_nat i)) AND PTE_V \<noteq> 0 \<longrightarrow> is_table (ld64 m (slot pt (of_nat i))))"

definition tables :: "memory \<Rightarrow> u64 \<Rightarrow> u64 set" where
  "tables m pt = {a. \<exists>P. path_ok P \<and> node m pt P = Some a}"

text \<open>The table is well formed and all its frames are in use.\<close>

definition pt_inv :: "'a kst_scheme \<Rightarrow> u64 \<Rightarrow> bool" where
  "pt_inv s pt \<longleftrightarrow> pt_wf (mem s) pt
     \<and> (\<forall>i < NPAGE. page_addr i \<in> tables (mem s) pt \<longrightarrow> 0 < page_refs s i)"

lemma path_ok_simps [simp]:
  "path_ok []" "path_ok (i # P) \<longleftrightarrow> i < 512 \<and> length P \<le> 1 \<and> path_ok P"
  by (auto simp: path_ok_def)

lemma ix_less [simp]: "ix l va < 512"
  by (simp add: ix_def)

lemma slot_ix: "slot p (PX l va) = slot p (of_nat (ix l va))"
  by (simp add: ix_def)

lemma pt_wfD:
  assumes "pt_wf m pt"
  shows "path_ok P \<Longrightarrow> node m pt P = Some a \<Longrightarrow> is_page a"
    and "path_ok P \<Longrightarrow> path_ok Q \<Longrightarrow> node m pt P = Some a \<Longrightarrow> node m pt Q = Some a \<Longrightarrow> P = Q"
    and "i < 512 \<Longrightarrow> ld64 m (slot pt (of_nat i)) AND PTE_V \<noteq> 0 \<Longrightarrow> is_table (ld64 m (slot pt (of_nat i)))"
  using assms unfolding pt_wf_def by blast+

lemma root_is_page: "pt_wf m pt \<Longrightarrow> is_page pt"
  using pt_wfD(1) [of m pt "[]"] by simp

text \<open>Bytes outside the tables do not matter.\<close>

lemma node_cong:
  assumes "pt_wf m pt" "\<And>a. a \<in> \<Union> ((\<lambda>p. region p 4096) ` tables m pt) \<Longrightarrow> m' a = m a" "path_ok P"
  shows "node m' pt P = node m pt P"
  using assms(3)
proof (induction P)
  case (Cons i P)
  then have IH: "node m' pt P = node m pt P" and P: "path_ok P" "i < 512" by simp_all
  have "ld64 m' (slot p (of_nat i)) = ld64 m (slot p (of_nat i))" if "node m pt P = Some p" for p
    using that P assms(2) pt_wfD(1) [OF assms(1)] by (intro ld64_page_cong) (auto simp: tables_def)
  then show ?case by (simp add: IH split: option.splits)
qed simp

lemma tables_cong:
  assumes "pt_wf m pt" "\<And>a. a \<in> \<Union> ((\<lambda>p. region p 4096) ` tables m pt) \<Longrightarrow> m' a = m a"
  shows "tables m' pt = tables m pt"
  using node_cong [OF assms] by (auto simp: tables_def)

lemma root_in_tables: "pt \<in> tables m pt"
  unfolding tables_def by (rule CollectI, rule exI [of _ "[]"]) simp

lemma pt_wf_cong:
  assumes "pt_wf m pt" "\<And>a. a \<in> \<Union> ((\<lambda>p. region p 4096) ` tables m pt) \<Longrightarrow> m' a = m a"
  shows "pt_wf m' pt"
proof -
  have "ld64 m' (slot pt (of_nat i)) = ld64 m (slot pt (of_nat i))" if "i < 512" for i
    using that assms root_in_tables [of pt m] by (intro ld64_page_cong root_is_page [OF assms(1)]) auto
  then show ?thesis using assms(1) node_cong [OF assms] unfolding pt_wf_def by simp
qed

lemma entry_cong:
  assumes "pt_wf m pt" "\<And>a. a \<in> \<Union> ((\<lambda>p. region p 4096) ` tables m pt) \<Longrightarrow> m' a = m a"
  shows "pte_of m' pt va = pte_of m pt va" "mid_of m' pt va = mid_of m pt va"
proof -
  have e: "ld64 m' (slot p (of_nat i)) = ld64 m (slot p (of_nat i))"
    if "node m pt P = Some p" "path_ok P" "i < 512" for p P i
    using that assms(2) pt_wfD(1) [OF assms(1)] by (intro ld64_page_cong) (auto simp: tables_def)
  show "pte_of m' pt va = pte_of m pt va"
    using e [of "[ix 1 va, ix 2 va]"] node_cong [OF assms, of "[ix 1 va, ix 2 va]"]
    by (auto simp: pte_of_def simp del: node.simps split: option.splits)
  show "mid_of m' pt va = mid_of m pt va"
    using e [of "[ix 2 va]"] node_cong [OF assms, of "[ix 2 va]"]
    by (auto simp: mid_of_def simp del: node.simps split: option.splits)
qed


section \<open>Writing a leaf entry\<close>

lemma node_leaf_store:
  assumes "pt_wf m pt" "path_ok L" "length L = 2" "node m pt L = Some p" "i < 512" "path_ok P"
  shows "node (st64 m (slot p (of_nat i)) v) pt P = node m pt P"
  using assms(6)
proof (induction P)
  case (Cons j P)
  then have IH: "node (st64 m (slot p (of_nat i)) v) pt P = node m pt P" and P: "path_ok P" "j < 512" "length P \<le> 1"
    by simp_all
  have "ld64 (st64 m (slot p (of_nat i)) v) (slot q (of_nat j)) = ld64 m (slot q (of_nat j))"
    if q: "node m pt P = Some q" for q
  proof -
    have "p \<noteq> q" using pt_wfD(2) [OF assms(1) P(1) assms(2)] q assms(3,4) P(3) by auto
    then show ?thesis
      using ld64_st64_slot [of p q i j] pt_wfD(1) [OF assms(1)] assms(2,4,5) P q by metis
  qed
  then show ?case by (simp add: IH split: option.splits)
qed simp

lemma leaf_store:
  fixes v :: u64
  assumes "pt_wf m pt" "node m pt [ix 1 va, ix 2 va] = Some p" "va < MAXVA"
  defines "m' \<equiv> st64 m (slot p (of_nat (ix 0 va))) v"
  shows "pt_wf m' pt" "tables m' pt = tables m pt" "mid_of m' pt va' = mid_of m pt va'"
    "va' < MAXVA \<Longrightarrow> pte_of m' pt va' = (if PGROUNDDOWN va' = PGROUNDDOWN va then v else pte_of m pt va')"
proof -
  let ?L = "[ix 1 va, ix 2 va]"
  have n: "node m' pt P = node m pt P" if "path_ok P" for P
    unfolding m'_def using node_leaf_store [OF assms(1) _ _ assms(2) _ that] by simp
  have pg: "is_page p" using pt_wfD(1) [OF assms(1) _ assms(2)] by simp
  have ne: "ld64 m' (slot q (of_nat j)) = ld64 m (slot q (of_nat j))"
    if "path_ok P" "node m pt P = Some q" "j < 512" "P \<noteq> ?L \<or> j \<noteq> ix 0 va" for P q j
  proof -
    have "is_page q" using pt_wfD(1) [OF assms(1)] that by blast
    moreover have "\<not> (p = q \<and> ix 0 va = j)"
      using that pt_wfD(2) [OF assms(1) that(1), of ?L q] assms(2) by auto
    ultimately show ?thesis unfolding m'_def using pg that(3) by (subst ld64_st64_slot) auto
  qed
  show "tables m' pt = tables m pt" using n by (auto simp: tables_def)
  show "pt_wf m' pt"
    using assms(1) n ne [of "[]" pt] unfolding pt_wf_def by simp
  show "mid_of m' pt va' = mid_of m pt va'"
    using n [of "[ix 2 va']"] ne [of "[ix 2 va']" _ "ix 1 va'"]
    by (auto simp: mid_of_def simp del: node.simps split: option.splits)
  show "pte_of m' pt va' = (if PGROUNDDOWN va' = PGROUNDDOWN va then v else pte_of m pt va')"
    if va': "va' < MAXVA"
  proof (cases "PGROUNDDOWN va' = PGROUNDDOWN va")
    case True
    then have "ix 2 va' = ix 2 va" "ix 1 va' = ix 1 va" "ix 0 va' = ix 0 va"
      using PX_page_eq [OF va' assms(3)] by (simp_all add: ix_def)
    then show ?thesis using True n [of ?L] assms(2) by (simp add: pte_of_def m'_def del: node.simps)
  next
    case False
    then have "[ix 1 va', ix 2 va'] \<noteq> ?L \<or> ix 0 va' \<noteq> ix 0 va"
      using PX_page_eq [OF va' assms(3)] by (auto simp: ix_def u64_eq_iff)
    then show ?thesis using False n [of "[ix 1 va', ix 2 va']"] ne [of "[ix 1 va', ix 2 va']" _ "ix 0 va'"]
      by (auto simp: pte_of_def simp del: node.simps split: option.splits)
  qed
qed


section \<open>Adding a table\<close>

lemma flags_and:
  assumes "w < 1024"
  shows "e AND w = PTE_FLAGS e AND w"
proof -
  have "(0x3FF :: u64) = mask 10" by (simp add: mask_eq_exp_minus_1)
  then have "0x3FF AND w = w"
    using take_bit_of_less [OF assms] by (simp add: take_bit_eq_mask and.commute)
  then show ?thesis by (simp add: PTE_FLAGS_def and.assoc)
qed

lemma is_table_new: "is_table (PA2PTE q OR PTE_V)"
proof -
  have f: "PTE_FLAGS (PA2PTE q OR PTE_V) = 1" by (simp add: PTE_FLAGS_PA2PTE)
  show ?thesis
    unfolding is_table_def using flags_and [of 1 "PA2PTE q OR PTE_V"] flags_and [of 14 "PA2PTE q OR PTE_V"] f
    by simp
qed

lemma is_table_zero [simp]: "\<not> is_table 0"
  by (simp add: is_table_def)

lemma is_table_V: "e AND PTE_V = 0 \<Longrightarrow> \<not> is_table e"
  by (simp add: is_table_def)

text \<open>
  Slot \<open>i\<close> of the table \<open>p\<close> at path \<open>P\<close> is invalid, \<open>q\<close> is a frame outside the
  table, and \<open>m'\<close> is the memory after \<open>q\<close> is cleared and entered in the slot.
\<close>

definition adds :: "memory \<Rightarrow> u64 \<Rightarrow> nat list \<Rightarrow> u64 \<Rightarrow> nat \<Rightarrow> u64 \<Rightarrow> memory \<Rightarrow> bool" where
  "adds m pt P p i q m' \<longleftrightarrow>
     pt_wf m pt \<and> path_ok (i # P) \<and> node m pt P = Some p \<and> ld64 m (slot p (of_nat i)) AND PTE_V = 0
   \<and> is_page q \<and> q \<notin> tables m pt
   \<and> m' = st64 (memset m q 0 4096) (slot p (of_nat i)) (PA2PTE q OR PTE_V)"

lemma addsD:
  assumes "adds m pt P p i q m'"
  shows "pt_wf m pt" "path_ok (i # P)" "path_ok P" "i < 512" "node m pt P = Some p"
    "ld64 m (slot p (of_nat i)) AND PTE_V = 0" "is_page q" "q \<notin> tables m pt" "is_page p" "p \<noteq> q"
    "m' = st64 (memset m q 0 4096) (slot p (of_nat i)) (PA2PTE q OR PTE_V)"
  using assms pt_wfD(1) [of m pt P p] by (auto simp: adds_def tables_def)

lemma adds_entry:
  assumes "adds m pt P p i q m'" "path_ok R" "node m pt R = Some r" "j < 512" "j # R \<noteq> i # P"
  shows "ld64 m' (slot r (of_nat j)) = ld64 m (slot r (of_nat j))"
proof -
  note d = addsD [OF assms(1)]
  have r: "is_page r" "r \<noteq> q" using pt_wfD(1) [OF d(1)] assms d(8) by (auto simp: tables_def)
  have "\<not> (p = r \<and> i = j)" using pt_wfD(2) [OF d(1,3) assms(2) d(5)] assms(3,5) by auto
  then show ?thesis unfolding d(11) using r d assms(4)
    by (auto simp: ld64_st64_slot ld64_memset_other)
qed

lemma adds_entry_q: "adds m pt P p i q m' \<Longrightarrow> j < 512 \<Longrightarrow> ld64 m' (slot q (of_nat j)) = 0"
  using addsD [of m pt P p i q m'] by (auto simp: ld64_st64_slot ld64_zero_page)

lemma adds_entry_p: "adds m pt P p i q m' \<Longrightarrow> ld64 m' (slot p (of_nat i)) = PA2PTE q OR PTE_V"
  using addsD(11) [of m pt P p i q m'] by simp

lemma adds_old:
  assumes "adds m pt P p i q m'"
  shows "node m pt (i # P) = None"
  using addsD [OF assms] is_table_V by simp

lemma adds_node:
  assumes "adds m pt P p i q m'"
  shows "path_ok R \<Longrightarrow> node m' pt R = (if R = i # P then Some q else node m pt R)"
proof (induction R)
  case (Cons j R)
  note d = addsD [OF assms]
  from Cons have IH: "node m' pt R = (if R = i # P then Some q else node m pt R)" and R: "path_ok R" "j < 512"
    by simp_all
  consider "R = i # P" | "R \<noteq> i # P" "j # R = i # P" | "R \<noteq> i # P" "j # R \<noteq> i # P" by blast
  then show ?case
  proof cases
    case 1
    then have "node m' pt (j # R) = None" using IH R adds_entry_q [OF assms] by simp
    moreover have "node m pt (j # R) = None" using 1 adds_old [OF assms] by (simp only: node.simps option.case)
    ultimately show ?thesis using 1 by (simp only: if_False list.inject n_not_Suc_n refl not_Cons_self2 simp_thms)
  next
    case 2
    then show ?thesis
      using IH d(5) adds_entry_p [OF assms] PTE2PA_PA2PTE [of q PTE_V] is_page_props [OF d(7)] is_table_new [of q]
      by simp
  next
    case 3
    then show ?thesis using IH adds_entry [OF assms R(1) _ R(2)] by (auto split: option.splits)
  qed
qed (use addsD [OF assms] in simp)

lemma adds_tables:
  assumes "adds m pt P p i q m'"
  shows "tables m' pt = insert q (tables m pt)"
proof (intro equalityI subsetI)
  fix x assume "x \<in> tables m' pt"
  then show "x \<in> insert q (tables m pt)"
    unfolding tables_def using adds_node [OF assms] by (fastforce simp del: node.simps split: if_splits)
next
  fix x assume "x \<in> insert q (tables m pt)"
  then consider "x = q" | R where "path_ok R" "node m pt R = Some x"
    unfolding tables_def by blast
  then show "x \<in> tables m' pt"
  proof cases
    case 1
    then show ?thesis unfolding tables_def
      using adds_node [OF assms addsD(2) [OF assms]] addsD(2) [OF assms]
      by (intro CollectI exI [of _ "i # P"]) (simp del: node.simps)
  next
    case 2
    then have "R \<noteq> i # P" using adds_old [OF assms] by (metis option.distinct(1))
    then show ?thesis unfolding tables_def using 2 adds_node [OF assms 2(1)]
      by (intro CollectI exI [of _ R]) simp
  qed
qed

lemma adds_wf:
  assumes "adds m pt P p i q m'"
  shows "pt_wf m' pt"
proof -
  note d = addsD [OF assms] and n = adds_node [OF assms]
  have "is_page a" if "path_ok R" "node m' pt R = Some a" for R a
    using that n [of R] d(7) pt_wfD(1) [OF d(1), of R a] by (auto split: if_splits)
  moreover have "R = S" if "path_ok R" "path_ok S" "node m' pt R = Some a" "node m' pt S = Some a" for R S a
    using that n [of R] n [of S] d(8) pt_wfD(2) [OF d(1), of R S a]
    by (auto simp: tables_def split: if_splits)
  moreover have "is_table (ld64 m' (slot pt (of_nat j)))"
    if j: "j < 512" "ld64 m' (slot pt (of_nat j)) AND PTE_V \<noteq> 0" for j
  proof (cases "[j] = i # P")
    case True
    then show ?thesis using adds_entry_p [OF assms] d(5) is_table_new [of q] by auto
  next
    case False
    then show ?thesis using j adds_entry [OF assms, of "[]" pt j] pt_wfD(3) [OF d(1)] by simp
  qed
  ultimately show ?thesis unfolding pt_wf_def by blast
qed

lemma entry_via:
  assumes "adds m pt P p i q m'" "path_ok R" "j < 512" "j # R \<noteq> i # P"
  shows "(case node m' pt R of None \<Rightarrow> 0 | Some r \<Rightarrow> ld64 m' (slot r (of_nat j)))
    = (case node m pt R of None \<Rightarrow> 0 | Some r \<Rightarrow> ld64 m (slot r (of_nat j)))"
proof (cases "R = i # P")
  case True
  then show ?thesis
    using adds_node [OF assms(1,2)] adds_old [OF assms(1)] adds_entry_q [OF assms(1,3)]
    by (simp only: simp_thms if_True option.case)
next
  case False
  then show ?thesis
    using adds_node [OF assms(1,2)] adds_entry [OF assms(1,2) _ assms(3,4)]
    by (cases "node m pt R") (simp_all only: if_False option.case)
qed

lemma adds_pte: "adds m pt P p i q m' \<Longrightarrow> pte_of m' pt va = pte_of m pt va"
  unfolding pte_of_def by (rule entry_via) (auto simp: adds_def)

lemma adds_mid:
  assumes "adds m pt P p i q m'"
  shows "mid_of m' pt va = (if i # P = [ix 1 va, ix 2 va] then PA2PTE q OR PTE_V else mid_of m pt va)"
proof (cases "i # P = [ix 1 va, ix 2 va]")
  case True
  then have "node m' pt [ix 2 va] = Some p" using adds_node [OF assms, of P] addsD [OF assms] by simp
  then show ?thesis using True adds_entry_p [OF assms] by (simp add: mid_of_def del: node.simps)
next
  case False
  then have "mid_of m' pt va = mid_of m pt va"
    unfolding mid_of_def by (intro entry_via [OF assms]) auto
  then show ?thesis using False by (simp only: if_False)
qed

lemma adds_bytes:
  "adds m pt P p i q m' \<Longrightarrow> a \<notin> region q 4096 \<Longrightarrow> a \<notin> region p 4096 \<Longrightarrow> m' a = m a"
  using addsD [of m pt P p i q m'] st64_slot_frame [of p i a] by (simp add: memset_eq)


section \<open>Walks\<close>

text \<open>
  \<open>t\<close> differs from \<open>s\<close> only in the tables of \<open>pt\<close>: every new table was a free frame and
  has one reference, leaves of level 1 stay, and no byte outside the tables changes.
  Where no entry of a virtual address changes either, \<open>t\<close> only adds empty tables.
\<close>

definition touches :: "u64 \<Rightarrow> 'a kst_scheme \<Rightarrow> 'a kst_scheme \<Rightarrow> bool" where
  "touches pt s t \<longleftrightarrow>
     kmem_inv t \<and> pt_inv t pt \<and> tables (mem s) pt \<subseteq> tables (mem t) pt
   \<and> (\<forall>va. mid_of (mem t) pt va \<noteq> mid_of (mem s) pt va \<longrightarrow>
        mid_of (mem s) pt va AND PTE_V = 0 \<and> is_table (mid_of (mem t) pt va))
   \<and> (\<forall>a. (\<forall>p\<in>tables (mem t) pt. a \<notin> region p 4096) \<longrightarrow> mem t a = mem s a)
   \<and> (\<forall>k. page_refs t k \<noteq> page_refs s k \<longrightarrow>
        page_refs s k = 0 \<and> page_refs t k = 1 \<and> page_addr k \<in> tables (mem t) pt)
   \<and> (\<forall>k < NPAGE. page_addr k \<in> tables (mem t) pt \<longrightarrow> page_addr k \<notin> tables (mem s) pt \<longrightarrow> page_refs s k = 0)
   \<and> huge_refs t = huge_refs s \<and> locks t = locks s \<and> hartid t = hartid s \<and> kst.more t = kst.more s"

definition grows :: "u64 \<Rightarrow> 'a kst_scheme \<Rightarrow> 'a kst_scheme \<Rightarrow> bool" where
  "grows pt s t \<longleftrightarrow> touches pt s t \<and> (\<forall>va. pte_of (mem t) pt va = pte_of (mem s) pt va)"

lemma pt_inv_same:
  assumes "pt_inv s pt" "mem t = mem s" "page_refs t = page_refs s"
  shows "pt_inv t pt"
  using assms by (simp add: pt_inv_def)

lemma grows_same:
  assumes "kmem_inv t" "pt_inv s pt" "mem t = mem s" "page_refs t = page_refs s"
    "huge_refs t = huge_refs s" "locks t = locks s" "hartid t = hartid s" "kst.more t = kst.more s"
  shows "grows pt s t"
  using assms pt_inv_same [OF assms(2-4)] by (simp add: grows_def touches_def)

lemma grows_refl: "kmem_inv s \<Longrightarrow> pt_inv s pt \<Longrightarrow> grows pt s s"
  by (rule grows_same) simp_all

lemma more_settled [simp]: "kst.more (settled s) = kst.more s"
  by (simp add: settled_def set_mycpu_def)

lemma hw_settled [simp]: "locks (settled s) = locks s" "hartid (settled s) = hartid s"
  by (simp_all add: settled_def)

lemma grows_settled: "kmem_inv s \<Longrightarrow> pt_inv s pt \<Longrightarrow> grows pt s (settled s)"
  by (rule grows_same) simp_all

lemma touchesD:
  assumes "touches pt s t"
  shows "kmem_inv t" "pt_inv t pt" "tables (mem s) pt \<subseteq> tables (mem t) pt"
    and "mid_of (mem t) pt va \<noteq> mid_of (mem s) pt va \<Longrightarrow>
      mid_of (mem s) pt va AND PTE_V = 0 \<and> is_table (mid_of (mem t) pt va)"
    and "\<forall>p\<in>tables (mem t) pt. a \<notin> region p 4096 \<Longrightarrow> mem t a = mem s a"
    and "page_refs t k \<noteq> page_refs s k \<Longrightarrow>
      page_refs s k = 0 \<and> page_refs t k = 1 \<and> page_addr k \<in> tables (mem t) pt"
    and "k < NPAGE \<Longrightarrow> page_addr k \<in> tables (mem t) pt \<Longrightarrow> page_addr k \<notin> tables (mem s) pt \<Longrightarrow> page_refs s k = 0"
    and "huge_refs t = huge_refs s" "locks t = locks s" "hartid t = hartid s" "kst.more t = kst.more s"
  using assms unfolding touches_def by blast+

lemma touches_trans:
  assumes st: "touches pt s t" and tu: "touches pt t u"
  shows "touches pt s u"
proof -
  note S = touchesD [OF st] and U = touchesD [OF tu]
  have mid: "mid_of (mem s) pt va AND PTE_V = 0 \<and> is_table (mid_of (mem u) pt va)"
    if "mid_of (mem u) pt va \<noteq> mid_of (mem s) pt va" for va
  proof (cases "mid_of (mem u) pt va = mid_of (mem t) pt va")
    case True
    then show ?thesis using S(4) [of va] that by simp
  next
    case False
    then have u: "mid_of (mem t) pt va AND PTE_V = 0" "is_table (mid_of (mem u) pt va)" using U(4) by blast+
    then have "mid_of (mem t) pt va = mid_of (mem s) pt va" using S(4) [of va] is_table_V [OF u(1)] by blast
    then show ?thesis using u by simp
  qed
  have refs: "page_refs s k = 0 \<and> page_refs u k = 1 \<and> page_addr k \<in> tables (mem u) pt"
    if "page_refs u k \<noteq> page_refs s k" for k
  proof (cases "page_refs u k = page_refs t k")
    case True
    then show ?thesis using S(6) [of k] U(3) that by auto
  next
    case False
    then have u: "page_refs t k = 0" "page_refs u k = 1" "page_addr k \<in> tables (mem u) pt"
      using U(6) by blast+
    then have "page_refs t k = page_refs s k" using S(6) [of k] by auto
    then show ?thesis using u by simp
  qed
  have bytes: "mem u a = mem s a" if "\<forall>p\<in>tables (mem u) pt. a \<notin> region p 4096" for a
    using U(5) [OF that] S(5) [of a] U(3) that by auto
  have new: "page_refs s k = 0"
    if k: "k < NPAGE" "page_addr k \<in> tables (mem u) pt" "page_addr k \<notin> tables (mem s) pt" for k
  proof (cases "page_addr k \<in> tables (mem t) pt")
    case False
    then have "page_refs t k = 0" using U(7) k by blast
    then show ?thesis using S(6) [of k] by auto
  qed (rule S(7) [OF k(1) _ k(3)])
  show ?thesis unfolding touches_def
    using U(1,2) subset_trans [OF S(3) U(3)] mid bytes refs new S(8-11) U(8-11) by simp
qed

lemma grows_trans: "grows pt s t \<Longrightarrow> grows pt t u \<Longrightarrow> grows pt s u"
  using touches_trans by (auto simp: grows_def)

lemma memset_twice [simp]: "memset (memset m p 0 4096) p 0 4096 = memset m p 0 4096"
  by (simp add: memset_eq fun_eq_iff)

lemma fresh_not_table:
  assumes "pt_inv s pt" "k < NPAGE" "page_refs s k = 0"
  shows "page_addr k \<notin> tables (mem s) pt"
  using assms unfolding pt_inv_def by auto

lemma adds_grows:
  assumes "kmem_inv s" "pt_inv s pt" "page_avail s k"
    "adds (mem s) pt P p i (page_addr k) m'" "t = (take_page k (settled s))\<lparr>mem := m'\<rparr>"
  shows "grows pt s t"
proof -
  let ?q = "page_addr k"
  have k: "k < NPAGE" "page_refs s k = 0" using assms(3) by (simp_all add: page_avail_def page_refs_def)
  have t: "mem t = m'" "page_refs t = (page_refs s)(k := 1)" "huge_refs t = huge_refs s"
    "locks t = locks s" "hartid t = hartid s" "kst.more t = kst.more s"
    by (auto simp: assms(5) page_refs_def huge_refs_def take_page_def fun_eq_iff settled_def set_mycpu_def)
  have inv: "kmem_inv t"
    using kmem_inv_change(1) [OF assms(1,3)] unfolding assms(5) by simp
  have T: "tables (mem t) pt = insert ?q (tables (mem s) pt)" using adds_tables [OF assms(4)] t by simp
  have pt: "pt_inv t pt"
    using assms(2) adds_wf [OF assms(4)] T t k page_addr_inj unfolding pt_inv_def by auto
  have p: "p \<in> tables (mem s) pt" using addsD(3,5) [OF assms(4)] by (auto simp: tables_def)
  have "mem t a = mem s a" if "\<forall>p\<in>tables (mem t) pt. a \<notin> region p 4096" for a
    using adds_bytes [OF assms(4), of a] that p T t by simp
  moreover have "mid_of (mem s) pt va AND PTE_V = 0 \<and> is_table (mid_of (mem t) pt va)"
    if "mid_of (mem t) pt va \<noteq> mid_of (mem s) pt va" for va
  proof -
    have "i # P = [ix 1 va, ix 2 va]" and v: "mid_of (mem t) pt va = PA2PTE ?q OR PTE_V"
      using that adds_mid [OF assms(4), of va] t by (auto split: if_splits)
    then have "mid_of (mem s) pt va = ld64 (mem s) (slot p (of_nat i))"
      using addsD(5) [OF assms(4)] by (simp add: mid_of_def del: node.simps)
    then show ?thesis using addsD(6) [OF assms(4)] is_table_new [of ?q] v by simp
  qed
  moreover have "pte_of (mem t) pt va = pte_of (mem s) pt va" for va
    using adds_pte [OF assms(4)] t by simp
  ultimately show ?thesis unfolding grows_def touches_def using inv pt T t k page_addr_inj by auto
qed

lemma kalloc_section_settled: "kalloc_section (settled s) = kalloc_section s"
  by (simp add: kalloc_section_def cong: option.case_cong)

lemma walk_step_grows:
  assumes "kmem_inv s" "pt_inv s pt" "path_ok (ix l va # P)" "node (mem s) pt P = Some p"
    "ld64 (mem s) (slot p (of_nat (ix l va))) AND PTE_V \<noteq> 0 \<Longrightarrow> is_table (ld64 (mem s) (slot p (of_nat (ix l va))))"
  shows "\<exists>r t. walk_step p va True l s = Inr (r, t) \<and> grows pt s t
    \<and> (\<forall>q. r = Some q \<longrightarrow> node (mem t) pt (ix l va # P) = Some q)
    \<and> (r = None \<longrightarrow> kalloc_section t = None)"
proof (cases "ld64 (mem s) (slot p (of_nat (ix l va))) AND PTE_V = 0")
  case False
  then show ?thesis
    using assms grows_refl [OF assms(1,2)] by (simp add: walk_step_def slot_ix Let_def)
next
  case inv: True
  show ?thesis
  proof (cases "kalloc_section s")
    case None
    then show ?thesis
      using inv kalloc_null [OF assms(1)] grows_settled [OF assms(1,2)] kalloc_section_settled [of s]
      by (simp add: walk_step_def slot_ix Let_def)
  next
    case (Some h)
    then obtain k where k: "page_avail s k" "kalloc s = Inr (page_addr k, take_page k (settled s))"
      using kalloc_ok [OF assms(1)] by blast
    have n: "k < NPAGE" "page_refs s k = 0" using k(1) by (simp_all add: page_avail_def page_refs_def)
    let ?m' = "st64 (memset (mem s) (page_addr k) 0 4096) (slot p (of_nat (ix l va))) (PA2PTE (page_addr k) OR PTE_V)"
    have a: "adds (mem s) pt P p (ix l va) (page_addr k) ?m'"
      unfolding adds_def using assms(2-4) inv n fresh_not_table [OF assms(2) n] by (auto simp: pt_inv_def)
    have nz: "page_addr k \<noteq> 0" using n by simp
    have "walk_step p va True l s = Inr (Some (page_addr k), (take_page k (settled s))\<lparr>mem := ?m'\<rparr>)"
      using inv k(2) nz by (simp add: walk_step_def slot_ix Let_def)
    moreover have "node ?m' pt (ix l va # P) = Some (page_addr k)"
      using adds_node [OF a assms(3)] by (simp del: node.simps)
    ultimately show ?thesis using adds_grows [OF assms(1,2) k(1) a refl] by (simp del: node.simps)
  qed
qed

lemma touches_mid_table:
  assumes "touches pt s t" "mid_of (mem s) pt va AND PTE_V \<noteq> 0 \<Longrightarrow> is_table (mid_of (mem s) pt va)"
    "mid_of (mem t) pt va AND PTE_V \<noteq> 0"
  shows "is_table (mid_of (mem t) pt va)"
  using assms unfolding touches_def by metis

lemma walk_alloc:
  assumes "kmem_inv s" "pt_inv s pt" "va < MAXVA"
    "mid_of (mem s) pt va AND PTE_V \<noteq> 0 \<Longrightarrow> is_table (mid_of (mem s) pt va)"
  shows "\<exists>r t. walk pt va True s = Inr (r, t) \<and> grows pt s t
    \<and> (r = 0 \<and> kalloc_section t = None
       \<or> (\<exists>p. r = slot p (of_nat (ix 0 va)) \<and> node (mem t) pt [ix 1 va, ix 2 va] = Some p))"
proof -
  have wf: "pt_wf (mem s) pt" using assms(2) by (simp add: pt_inv_def)
  obtain r t where t: "walk_step pt va True 2 s = Inr (r, t)" "grows pt s t"
    "\<forall>q. r = Some q \<longrightarrow> node (mem t) pt [ix 2 va] = Some q" "r = None \<longrightarrow> kalloc_section t = None"
    using walk_step_grows [OF assms(1,2), of 2 va "[]" pt] pt_wfD(3) [OF wf, of "ix 2 va"] by auto
  have va: "\<not> MAXVA \<le> va" using assms(3) by (simp only: not_le)
  show ?thesis
  proof (cases r)
    case None
    then show ?thesis using t va by (simp add: walk_def del: MAXVA_def)
  next
    case (Some q)
    have tt: "touches pt s t" using t(2) by (simp add: grows_def)
    then have kt: "kmem_inv t" "pt_inv t pt" by (simp_all add: touches_def)
    have q: "node (mem t) pt [ix 2 va] = Some q" using t(3) Some by blast
    then have "mid_of (mem t) pt va = ld64 (mem t) (slot q (of_nat (ix 1 va)))"
      by (simp add: mid_of_def del: node.simps)
    then have "is_table (ld64 (mem t) (slot q (of_nat (ix 1 va))))"
      if "ld64 (mem t) (slot q (of_nat (ix 1 va))) AND PTE_V \<noteq> 0"
      using touches_mid_table [OF tt assms(4)] that by simp
    then obtain r' u where u: "walk_step q va True 1 t = Inr (r', u)" "grows pt t u"
      "\<forall>p. r' = Some p \<longrightarrow> node (mem u) pt [ix 1 va, ix 2 va] = Some p" "r' = None \<longrightarrow> kalloc_section u = None"
      using walk_step_grows [OF kt _ q, of 1 va] by (auto simp del: node.simps)
    have "walk pt va True s = Inr (case r' of None \<Rightarrow> 0 | Some p \<Rightarrow> slot p (of_nat (ix 0 va)), u)"
      using t(1) u(1) va Some by (cases r') (simp_all add: walk_def slot_ix del: MAXVA_def)
    then show ?thesis using grows_trans [OF t(2) u(2)] u(3,4) by (cases r') auto
  qed
qed

text \<open>A walk that may not allocate changes nothing and finds the entry, if there is one.\<close>

lemma walk_step_find:
  assumes "node m pt P = Some p" "m = mem s"
    "ld64 m (slot p (of_nat (ix l va))) AND PTE_V \<noteq> 0 \<Longrightarrow> is_table (ld64 m (slot p (of_nat (ix l va))))"
  shows "walk_step p va False l s = Inr (node m pt (ix l va # P), s)"
  using assms is_table_V by (auto simp: walk_step_def slot_ix Let_def)

lemma walk_find:
  assumes "pt_wf (mem s) pt" "va < MAXVA"
    "mid_of (mem s) pt va AND PTE_V \<noteq> 0 \<Longrightarrow> is_table (mid_of (mem s) pt va)"
  shows "walk pt va False s = Inr (case node (mem s) pt [ix 1 va, ix 2 va] of None \<Rightarrow> 0
     | Some p \<Rightarrow> slot p (of_nat (ix 0 va)), s)"
proof -
  have va: "\<not> MAXVA \<le> va" using assms(2) by (simp only: not_le)
  have 1: "walk_step pt va False 2 s = Inr (node (mem s) pt [ix 2 va], s)"
    using walk_step_find [of "mem s" pt "[]" pt s 2 va] pt_wfD(3) [OF assms(1), of "ix 2 va"] by simp
  show ?thesis
  proof (cases "node (mem s) pt [ix 2 va]")
    case None
    then have "node (mem s) pt [ix 1 va, ix 2 va] = None" by (subst node.simps) simp
    then show ?thesis using 1 None va by (simp add: walk_def del: MAXVA_def node.simps)
  next
    case (Some q)
    then have "mid_of (mem s) pt va = ld64 (mem s) (slot q (of_nat (ix 1 va)))"
      by (simp add: mid_of_def del: node.simps)
    then have "walk_step q va False 1 s = Inr (node (mem s) pt [ix 1 va, ix 2 va], s)"
      using walk_step_find [OF Some refl, of 1 va] assms(3) by simp
    then show ?thesis
      using 1 Some va by (simp add: walk_def slot_ix del: MAXVA_def node.simps split: option.splits)
  qed
qed


section \<open>Mapping pages\<close>

lemma leaf_touches:
  assumes "kmem_inv t" "pt_inv t pt" "node (mem t) pt [ix 1 va, ix 2 va] = Some p" "va < MAXVA"
  shows "touches pt t (t\<lparr>mem := st64 (mem t) (slot p (of_nat (ix 0 va))) v\<rparr>)"
proof -
  have wf: "pt_wf (mem t) pt" using assms(2) by (simp add: pt_inv_def)
  note ls = leaf_store [OF wf assms(3,4), where v = v]
  have p: "is_page p" "p \<in> tables (mem t) pt"
    using pt_wfD(1) [OF wf _ assms(3)] assms(3) unfolding tables_def
    by (simp, intro CollectI exI [of _ "[ix 1 va, ix 2 va]"], simp del: node.simps)
  have "pt_inv (t\<lparr>mem := st64 (mem t) (slot p (of_nat (ix 0 va))) v\<rparr>) pt"
    using assms(2) ls(1,2) by (simp add: pt_inv_def page_refs_def)
  then show ?thesis
    using assms(1) ls(2,3) st64_slot_frame [OF p(1)] p(2)
    unfolding touches_def by (auto simp: page_refs_def huge_refs_def fun_eq_iff)
qed

definition vpn :: "u64 \<Rightarrow> nat" where
  "vpn va = unat va div 4096"

lemma vpn_PGROUNDDOWN: "PGROUNDDOWN va = PGROUNDDOWN va' \<longleftrightarrow> vpn va = vpn va'"
  by (simp add: u64_eq_iff unat_PGROUNDDOWN vpn_def)

text \<open>No leaf of level 1 covers the address.\<close>

definition no_huge :: "memory \<Rightarrow> u64 \<Rightarrow> u64 \<Rightarrow> bool" where
  "no_huge m pt va \<longleftrightarrow> (mid_of m pt va AND PTE_V \<noteq> 0 \<longrightarrow> is_table (mid_of m pt va))"

lemma no_huge_touches: "touches pt s t \<Longrightarrow> no_huge (mem s) pt va \<Longrightarrow> no_huge (mem t) pt va"
  using touches_mid_table [of pt s t va] by (simp add: no_huge_def)

text \<open>The entry of \<open>va\<close> after \<open>k\<close> pages from \<open>a\<close> on are mapped to frames from \<open>pa\<close> on.\<close>

definition mapped :: "u64 \<Rightarrow> nat \<Rightarrow> u64 \<Rightarrow> u64 \<Rightarrow> (u64 \<Rightarrow> u64) \<Rightarrow> u64 \<Rightarrow> u64" where
  "mapped a k pa perm f va =
     (if vpn a \<le> vpn va \<and> vpn va < vpn a + k
      then PA2PTE (pa + of_nat (4096 * (vpn va - vpn a))) OR perm OR PTE_V else f va)"

lemma mapped_0 [simp]: "mapped a 0 pa perm f = f"
  by (auto simp: mapped_def fun_eq_iff)

lemma mapped_Suc:
  assumes "vpn (a + PGSIZE) = vpn a + 1"
    "\<And>va. va < MAXVA \<Longrightarrow> g va = (if vpn va = vpn a then PA2PTE pa OR perm OR PTE_V else f va)" "va < MAXVA"
  shows "mapped (a + PGSIZE) k (pa + PGSIZE) perm g va = mapped a (Suc k) pa perm f va"
proof (cases "vpn a < vpn va")
  case True
  then obtain d where d: "vpn va = vpn a + 1 + d" by (metis Suc_eq_plus1 add_Suc_right add_Suc_shift less_iff_Suc_add)
  then show ?thesis using assms by (simp add: mapped_def add.assoc)
next
  case False
  then show ?thesis using assms by (auto simp: mapped_def)
qed

text \<open>One walk that may allocate, followed by a write to the entry it returns.\<close>

lemma walk_write:
  assumes "kmem_inv s" "pt_inv s pt" "va < MAXVA" "no_huge (mem s) pt va"
  obtains t where "walk pt va True s = Inr (0, t)" "grows pt s t" "kalloc_section t = None"
  | r t where "walk pt va True s = Inr (r, t)" "r \<noteq> 0" "grows pt s t" "ld64 (mem t) r = pte_of (mem s) pt va"
    "\<And>v. touches pt s (t\<lparr>mem := st64 (mem t) r v\<rparr>)"
    "\<And>v va'. va' < MAXVA \<Longrightarrow> pte_of (st64 (mem t) r v) pt va' = (if vpn va' = vpn va then v else pte_of (mem s) pt va')"
proof -
  obtain r t where w: "walk pt va True s = Inr (r, t)" "grows pt s t"
    "r = 0 \<and> kalloc_section t = None \<or> (\<exists>p. r = slot p (of_nat (ix 0 va)) \<and> node (mem t) pt [ix 1 va, ix 2 va] = Some p)"
    using walk_alloc [OF assms(1-3)] assms(4) unfolding no_huge_def by blast
  from w(3) show ?thesis
  proof
    assume "r = 0 \<and> kalloc_section t = None"
    then show ?thesis using w that(1) by blast
  next
    assume "\<exists>p. r = slot p (of_nat (ix 0 va)) \<and> node (mem t) pt [ix 1 va, ix 2 va] = Some p"
    then obtain p where p: "r = slot p (of_nat (ix 0 va))" "node (mem t) pt [ix 1 va, ix 2 va] = Some p" by blast
    have tt: "touches pt s t" and e: "pte_of (mem t) pt va' = pte_of (mem s) pt va'" for va'
      using w(2) by (simp_all add: grows_def)
    then have kt: "kmem_inv t" "pt_inv t pt" and wf: "pt_wf (mem t) pt"
      by (simp_all add: touches_def pt_inv_def)
    have "r \<noteq> 0" using p slot_nonnull pt_wfD(1) [OF wf _ p(2)] by simp
    moreover have "ld64 (mem t) r = pte_of (mem s) pt va"
      using p e [of va] by (simp add: pte_of_def del: node.simps)
    moreover have "touches pt s (t\<lparr>mem := st64 (mem t) r v\<rparr>)" for v
      using touches_trans [OF tt leaf_touches [OF kt p(2) assms(3)]] p(1) by simp
    moreover have "pte_of (st64 (mem t) r v) pt va' = (if vpn va' = vpn va then v else pte_of (mem s) pt va')"
      if "va' < MAXVA" for v va'
      using leaf_store(4) [OF wf p(2) assms(3) that] p(1) e by (simp add: vpn_PGROUNDDOWN)
    ultimately show ?thesis using that(2) w by blast
  qed
qed

lemma vpn_add:
  assumes "unat a + 4096 * n < 274877906944"
  shows "unat (a + of_nat (4096 * n)) = unat a + 4096 * n" "vpn (a + of_nat (4096 * n)) = vpn a + n"
proof -
  show u: "unat (a + of_nat (4096 * n)) = unat a + 4096 * n"
    using assms by (subst unat_u64_add_nowrap) (subst unat_of_nat_u64; simp)+
  show "vpn (a + of_nat (4096 * n)) = vpn a + n" unfolding vpn_def u by simp
qed

lemma mappages_loop_ok:
  assumes "kmem_inv s" "pt_inv s pt" "unat a + 4096 * n < 274877906944"
    "\<And>va. va < MAXVA \<Longrightarrow> vpn a \<le> vpn va \<Longrightarrow> vpn va \<le> vpn a + n \<Longrightarrow>
      no_huge (mem s) pt va \<and> pte_of (mem s) pt va AND PTE_V = 0"
  shows "\<exists>k t. mappages_loop pt a (a + of_nat (4096 * n)) pa perm s = Inr (if k = Suc n then 0 else -1, t)
    \<and> k \<le> Suc n \<and> (k = Suc n \<or> kalloc_section t = None) \<and> touches pt s t
    \<and> (\<forall>va. va < MAXVA \<longrightarrow> pte_of (mem t) pt va = mapped a k pa perm (pte_of (mem s) pt) va)"
  using assms
proof (induction n arbitrary: a pa s)
  case (0 a pa s)
  have a: "a < MAXVA" using 0(3) by (simp add: word_less_nat_alt)
  then have h: "no_huge (mem s) pt a" "pte_of (mem s) pt a AND PTE_V = 0" using 0(4) by auto
  show ?case
  proof (rule walk_write [OF 0(1,2) a h(1)])
    fix t assume "walk pt a True s = Inr (0, t)" "grows pt s t" "kalloc_section t = None"
    then show ?thesis
      by (intro exI [of _ 0] exI [of _ t], subst mappages_loop.simps) (simp add: grows_def)
  next
    fix r t assume "walk pt a True s = Inr (r, t)" "r \<noteq> 0" "ld64 (mem t) r = pte_of (mem s) pt a"
      "\<And>v. touches pt s (t\<lparr>mem := st64 (mem t) r v\<rparr>)"
      "\<And>v va'. va' < MAXVA \<Longrightarrow> pte_of (st64 (mem t) r v) pt va' = (if vpn va' = vpn a then v else pte_of (mem s) pt va')"
    then show ?thesis
      using h(2) by (intro exI [of _ 1] exI, subst mappages_loop.simps) (auto simp: mapped_def Let_def)
  qed
next
  case (Suc n a pa s)
  have a: "a < MAXVA" using Suc.prems(3) by (simp add: word_less_nat_alt)
  then have h: "no_huge (mem s) pt a" "pte_of (mem s) pt a AND PTE_V = 0" using Suc.prems(4) by auto
  have a1: "unat (a + PGSIZE) = unat a + 4096" "vpn (a + PGSIZE) = vpn a + 1"
    using vpn_add [of a 1] Suc.prems(3) by simp_all
  have lst: "a + PGSIZE + of_nat (4096 * n) = a + of_nat (4096 * Suc n)" by (simp add: add.assoc)
  have ne: "a \<noteq> a + of_nat (4096 * Suc n)" using vpn_add(1) [OF Suc.prems(3)] by (metis add_cancel_left_right mult_is_0 nat.distinct(1) zero_neq_numeral)
  show ?case
  proof (rule walk_write [OF Suc.prems(1,2) a h(1)])
    fix t assume "walk pt a True s = Inr (0, t)" "grows pt s t" "kalloc_section t = None"
    then show ?thesis
      by (intro exI [of _ 0] exI [of _ t], subst mappages_loop.simps) (simp add: grows_def)
  next
    fix r t assume w: "walk pt a True s = Inr (r, t)" "r \<noteq> 0" "ld64 (mem t) r = pte_of (mem s) pt a"
      and tt: "\<And>v. touches pt s (t\<lparr>mem := st64 (mem t) r v\<rparr>)"
      and e: "\<And>v va'. va' < MAXVA \<Longrightarrow> pte_of (st64 (mem t) r v) pt va' = (if vpn va' = vpn a then v else pte_of (mem s) pt va')"
    let ?u = "t\<lparr>mem := st64 (mem t) r (PA2PTE pa OR perm OR PTE_V)\<rparr>"
    have u: "kmem_inv ?u" "pt_inv ?u pt" using tt by (simp_all add: touches_def)
    have "no_huge (mem ?u) pt va \<and> pte_of (mem ?u) pt va AND PTE_V = 0"
      if "va < MAXVA" "vpn (a + PGSIZE) \<le> vpn va" "vpn va \<le> vpn (a + PGSIZE) + n" for va
      using that Suc.prems(4) [OF that(1)] e [OF that(1)] no_huge_touches [OF tt] a1(2) by simp
    then obtain k z where z:
      "mappages_loop pt (a + PGSIZE) (a + of_nat (4096 * Suc n)) (pa + PGSIZE) perm ?u = Inr (if k = Suc n then 0 else -1, z)"
      "k \<le> Suc n" "touches pt ?u z"
      "\<forall>va. va < MAXVA \<longrightarrow> pte_of (mem z) pt va = mapped (a + PGSIZE) k (pa + PGSIZE) perm (pte_of (mem ?u) pt) va"
      "k = Suc n \<or> kalloc_section z = None"
      using Suc.IH [OF u, of "a + PGSIZE" "pa + PGSIZE"] a1(1) Suc.prems(3) unfolding lst by auto
    have "mappages_loop pt a (a + of_nat (4096 * Suc n)) pa perm s = Inr (if Suc k = Suc (Suc n) then 0 else -1, z)"
      using w z(1) h(2) ne by (subst mappages_loop.simps) (simp add: Let_def)
    moreover have "pte_of (mem z) pt va = mapped a (Suc k) pa perm (pte_of (mem s) pt) va" if "va < MAXVA" for va
      using z(4) that mapped_Suc [OF a1(2) _ that, of "pte_of (mem ?u) pt"] e by simp
    ultimately show ?thesis
      using z(2,3,5) touches_trans [OF tt z(3)] by (intro exI [of _ "Suc k"] exI [of _ z]) auto
  qed
qed

text \<open>The pages that a byte range touches.\<close>

definition span :: "u64 \<Rightarrow> u64 \<Rightarrow> nat" where
  "span va sz = Suc (vpn (va + sz - 1) - vpn va)"

lemma PGROUNDDOWN_last:
  assumes "sz \<noteq> 0" "unat va + unat sz \<le> 274877906944"
  shows "PGROUNDDOWN (va + sz - 1) = PGROUNDDOWN va + of_nat (4096 * (span va sz - 1))"
    "unat (PGROUNDDOWN va) + 4096 * (span va sz - 1) < 274877906944" "vpn va \<le> vpn (va + sz - 1)"
proof -
  have z: "0 < unat sz" using assms(1) by (simp add: unat_gt_0)
  have s: "unat (va + sz) = unat va + unat sz" using assms(2) by (subst unat_u64_add_nowrap) auto
  then have l: "unat (va + sz - 1) = unat va + unat sz - 1"
    using z by (subst unat_minus_one) auto
  show le: "vpn va \<le> vpn (va + sz - 1)" unfolding vpn_def l using z by (intro div_le_mono) linarith
  have e: "4096 * vpn va + 4096 * (span va sz - 1) = 4096 * vpn (va + sz - 1)"
    using le by (simp add: span_def right_diff_distrib')
  have "vpn (va + sz - 1) < 67108864" unfolding vpn_def l using assms(2) z by auto
  then show b: "unat (PGROUNDDOWN va) + 4096 * (span va sz - 1) < 274877906944"
    using e by (simp add: unat_PGROUNDDOWN vpn_def)
  show "PGROUNDDOWN (va + sz - 1) = PGROUNDDOWN va + of_nat (4096 * (span va sz - 1))"
    using e vpn_add(1) [OF b] by (simp add: u64_eq_iff unat_PGROUNDDOWN vpn_def)
qed

lemma vpn_PGROUNDDOWN_self [simp]: "vpn (PGROUNDDOWN va) = vpn va"
  by (simp add: vpn_def unat_PGROUNDDOWN)

lemma mapped_base: "vpn a = vpn b \<Longrightarrow> mapped a = mapped b"
  by (simp add: mapped_def fun_eq_iff)

lemma mappages_ok:
  assumes "kmem_inv s" "pt_inv s pt" "sz \<noteq> 0" "unat va + unat sz \<le> 274877906944"
    "\<And>x. x < MAXVA \<Longrightarrow> vpn va \<le> vpn x \<Longrightarrow> vpn x < vpn va + span va sz \<Longrightarrow>
      no_huge (mem s) pt x \<and> pte_of (mem s) pt x AND PTE_V = 0"
  shows "\<exists>k t. mappages pt va sz pa perm s = Inr (if k = span va sz then 0 else -1, t)
    \<and> k \<le> span va sz \<and> (k = span va sz \<or> kalloc_section t = None) \<and> touches pt s t
    \<and> (\<forall>x. x < MAXVA \<longrightarrow> pte_of (mem t) pt x = mapped va k pa perm (pte_of (mem s) pt) x)"
proof -
  note l = PGROUNDDOWN_last [OF assms(3,4)]
  have n: "Suc (span va sz - 1) = span va sz" by (simp add: span_def)
  have "no_huge (mem s) pt x \<and> pte_of (mem s) pt x AND PTE_V = 0"
    if "x < MAXVA" "vpn (PGROUNDDOWN va) \<le> vpn x" "vpn x \<le> vpn (PGROUNDDOWN va) + (span va sz - 1)" for x
    using assms(5) [OF that(1)] that(2,3) n by simp
  from mappages_loop_ok [OF assms(1,2) l(2) this, of pa perm]
  show ?thesis
    using assms(3) mapped_base [of "PGROUNDDOWN va" va]
    unfolding mappages_def l(1) n by simp
qed

text \<open>C2: mappages refines an update of the address space: on a well-formed page table and a range
  below MAXVA in which nothing is mapped, it does not panic; it maps the pages of the range in
  order, each to its frame with the given permissions, until it is done (0) or the
  allocator has no frame left (-1); every other virtual address keeps its entry, no byte outside the tables changes, and the
  table stays well formed.\<close>

theorem mappages_spec:
  assumes "kmem_inv s" "pt_inv s pt" "sz \<noteq> 0" "unat va + unat sz \<le> 274877906944"
    "\<And>x. x < MAXVA \<Longrightarrow> vpn va \<le> vpn x \<Longrightarrow> vpn x < vpn va + span va sz \<Longrightarrow>
      no_huge (mem s) pt x \<and> pte_of (mem s) pt x AND PTE_V = 0"
  shows "\<exists>k t. mappages pt va sz pa perm s = Inr (if k = span va sz then 0 else -1, t)
    \<and> k \<le> span va sz \<and> (k = span va sz \<or> kalloc_section t = None) \<and> kmem_inv t \<and> pt_inv t pt
    \<and> (\<forall>x. x < MAXVA \<longrightarrow> pte_of (mem t) pt x = mapped va k pa perm (pte_of (mem s) pt) x)
    \<and> (\<forall>a. (\<forall>p. p \<in> tables (mem t) pt \<longrightarrow> a \<notin> region p 4096) \<longrightarrow> mem t a = mem s a)"
proof -
  obtain k t where t: "mappages pt va sz pa perm s = Inr (if k = span va sz then 0 else -1, t)"
    "k \<le> span va sz" "k = span va sz \<or> kalloc_section t = None" "touches pt s t"
    "\<forall>x. x < MAXVA \<longrightarrow> pte_of (mem t) pt x = mapped va k pa perm (pte_of (mem s) pt) x"
    using mappages_ok [OF assms, of pa perm] by blast
  then show ?thesis
    using touchesD(1,2,5) [OF t(4)] by (intro exI [of _ k] exI [of _ t]) (simp del: MAXVA_def)
qed


section \<open>Empty tables\<close>

lemma empty_node:
  assumes "\<And>i. i < 512 \<Longrightarrow> ld64 m (slot pt (of_nat i)) = 0"
  shows "path_ok P \<Longrightarrow> node m pt P = (if P = [] then Some pt else None)"
  using assms by (induction P) auto

lemma empty_table:
  assumes "is_page pt" "\<And>i. i < 512 \<Longrightarrow> ld64 m (slot pt (of_nat i)) = 0"
  shows "pt_wf m pt" "tables m pt = {pt}" "pte_of m pt va = 0" "mid_of m pt va = 0"
proof -
  note n = empty_node [OF assms(2)]
  show "pt_wf m pt"
    unfolding pt_wf_def using assms n by (auto split: if_splits)
  show "tables m pt = {pt}"
    unfolding tables_def using n by (auto split: if_splits intro: exI [of _ "[]"])
  show "pte_of m pt va = 0" using n [of "[ix 1 va, ix 2 va]"] by (simp add: pte_of_def del: node.simps)
  show "mid_of m pt va = 0" using n [of "[ix 2 va]"] by (simp add: mid_of_def del: node.simps)
qed

lemma take_page_table:
  assumes "kmem_inv s" "page_avail s k"
  shows "pt_inv (take_page k (settled s)) (page_addr k)"
    "pte_of (mem (take_page k (settled s))) (page_addr k) va = 0"
    "mid_of (mem (take_page k (settled s))) (page_addr k) va = 0"
proof -
  let ?t = "take_page k (settled s)"
  have k: "k < NPAGE" using assms(2) by (simp add: page_avail_def)
  have z: "ld64 (mem ?t) (slot (page_addr k) (of_nat i)) = 0" if "i < 512" for i
    using that k by (simp add: ld64_zero_page is_pageI)
  note e = empty_table [OF is_pageI [OF k] z]
  show "pt_inv ?t (page_addr k)" using e(1,2) k page_addr_inj by (auto simp: pt_inv_def)
  show "pte_of (mem ?t) (page_addr k) va = 0" "mid_of (mem ?t) (page_addr k) va = 0" using e(3,4) by auto
qed

definition vm0 :: kst where
  "vm0 = take_page 0 (settled kfresh)"

lemma vm0_props:
  "kmem_inv vm0" "pt_inv vm0 (page_addr 0)" "pte_of (mem vm0) (page_addr 0) va = 0"
  "mid_of (mem vm0) (page_addr 0) va = 0"
proof -
  have a: "page_avail kfresh 0" by (simp add: page_avail_def kfresh_def kboot0_def hw.defs)
  show "kmem_inv vm0" unfolding vm0_def by (rule kmem_inv_change(1) [OF kfresh_inv a])
  show "pt_inv vm0 (page_addr 0)" "pte_of (mem vm0) (page_addr 0) va = 0" "mid_of (mem vm0) (page_addr 0) va = 0"
    unfolding vm0_def by (rule take_page_table [OF kfresh_inv a])+
qed

theorem mappages_spec_witness:
  "\<exists>k t. mappages (page_addr 0) 0x1000 0x2000 0x80300000 6 vm0 = Inr (if k = span 0x1000 0x2000 then 0 else -1, t)
     \<and> k \<le> span 0x1000 0x2000 \<and> pt_inv t (page_addr 0)
     \<and> pte_of (mem t) (page_addr 0) 0x1234 = mapped 0x1000 k 0x80300000 6 (\<lambda>_. 0) 0x1234"
proof -
  have "no_huge (mem vm0) (page_addr 0) x \<and> pte_of (mem vm0) (page_addr 0) x AND PTE_V = 0" for x
    by (simp add: no_huge_def vm0_props)
  then obtain k t where t: "mappages (page_addr 0) 0x1000 0x2000 0x80300000 6 vm0
      = Inr (if k = span 0x1000 0x2000 then 0 else -1, t)" "k \<le> span 0x1000 0x2000" "pt_inv t (page_addr 0)"
    "\<forall>x. x < MAXVA \<longrightarrow> pte_of (mem t) (page_addr 0) x = mapped 0x1000 k 0x80300000 6 (pte_of (mem vm0) (page_addr 0)) x"
    using mappages_spec [OF vm0_props(1,2), of "0x2000" "0x1000" "0x80300000" 6] by auto
  moreover have "pte_of (mem vm0) (page_addr 0) = (\<lambda>_. 0)" using vm0_props(3) by auto
  ultimately show ?thesis by (intro exI [of _ k] exI [of _ t]) simp
qed

end
