(* ===== verification/Uvm.thy ===== *)
theory Uvm
  imports Pagetable
begin

text \<open>
  Properties of the user-memory operations of \<^verbatim>\<open>kernel/vm.c\<close> over the page-table
  abstraction: address lookup, copies from and to user memory, and unmapping.
\<close>

section \<open>Address lookup\<close>

definition user_pte :: "u64 \<Rightarrow> bool" where
  "user_pte e \<longleftrightarrow> e AND PTE_V \<noteq> 0 \<and> e AND PTE_U \<noteq> 0"

text \<open>The physical address of a user address, 0 where \<^verbatim>\<open>walkaddr\<close> rejects it.\<close>

definition upage :: "memory \<Rightarrow> u64 \<Rightarrow> u64 \<Rightarrow> u64" where
  "upage m pt va = (if va < MAXVA \<and> user_pte (pte_of m pt va) then PTE2PA (pte_of m pt va) else 0)"

definition uaddr :: "memory \<Rightarrow> u64 \<Rightarrow> u64 \<Rightarrow> u64" where
  "uaddr m pt va = upage m pt va + of_nat (unat va mod 4096)"

lemma walkaddr_eq:
  assumes "pt_wf (mem s) pt" "va < MAXVA \<Longrightarrow> no_huge (mem s) pt va"
  shows "walkaddr pt va s = Inr (upage (mem s) pt va, s)"
proof (cases "va < MAXVA")
  case True
  have w: "walk pt va False s = Inr (case node (mem s) pt [ix 1 va, ix 2 va] of None \<Rightarrow> 0
     | Some p \<Rightarrow> slot p (of_nat (ix 0 va)), s)"
    using walk_find [OF assms(1) True] assms(2) True by (simp add: no_huge_def)
  have n: "\<not> MAXVA \<le> va" using True by (simp only: not_le)
  show ?thesis
  proof (cases "node (mem s) pt [ix 1 va, ix 2 va]")
    case None
    then show ?thesis using w n
      by (simp add: walkaddr_def upage_def pte_of_def user_pte_def del: MAXVA_def node.simps)
  next
    case (Some p)
    then have "slot p (of_nat (ix 0 va)) \<noteq> 0"
      using slot_nonnull pt_wfD(1) [OF assms(1) _ Some] by simp
    then show ?thesis using w n True Some
      by (auto simp: walkaddr_def upage_def pte_of_def user_pte_def simp del: MAXVA_def node.simps)
  qed
next
  case False
  then have "MAXVA \<le> va" by (simp only: not_less)
  then show ?thesis using False by (simp add: walkaddr_def upage_def del: MAXVA_def)
qed

lemma pte_of_page:
  assumes "va < MAXVA" "va' < MAXVA" "vpn va = vpn va'"
  shows "pte_of m pt va = pte_of m pt va'" "mid_of m pt va = mid_of m pt va'"
proof -
  have "PGROUNDDOWN va = PGROUNDDOWN va'" using assms(3) by (simp add: vpn_PGROUNDDOWN)
  then have "ix 2 va = ix 2 va'" "ix 1 va = ix 1 va'" "ix 0 va = ix 0 va'"
    using PX_page_eq [OF assms(1,2)] by (simp_all add: ix_def)
  then show "pte_of m pt va = pte_of m pt va'" "mid_of m pt va = mid_of m pt va'"
    by (simp_all only: pte_of_def mid_of_def)
qed

lemma PGROUNDDOWN_below: "PGROUNDDOWN va < MAXVA \<longleftrightarrow> va < MAXVA"
proof -
  have "unat va div 4096 * 4096 < 274877906944 \<longleftrightarrow> unat va < 274877906944"
  proof
    assume "unat va div 4096 * 4096 < 274877906944"
    then have "unat va div 4096 < 67108864" by simp
    then show "unat va < 274877906944" by linarith
  next
    assume "unat va < 274877906944"
    then show "unat va div 4096 * 4096 < 274877906944"
      using div_times_less_eq_dividend [of "unat va" 4096] by linarith
  qed
  then show ?thesis by (simp add: word_less_nat_alt unat_PGROUNDDOWN)
qed

lemma upage_page: "upage m pt (PGROUNDDOWN va) = upage m pt va"
proof (cases "va < MAXVA")
  case True
  then have "pte_of m pt (PGROUNDDOWN va) = pte_of m pt va"
    using PGROUNDDOWN_below by (intro pte_of_page) (simp_all del: MAXVA_def)
  then show ?thesis using True PGROUNDDOWN_below [of va] by (simp add: upage_def del: MAXVA_def)
qed (use PGROUNDDOWN_below [of va] in \<open>simp add: upage_def del: MAXVA_def\<close>)

text \<open>No huge leaf lies in the address space.\<close>

definition base_only :: "memory \<Rightarrow> u64 \<Rightarrow> bool" where
  "base_only m pt \<longleftrightarrow> (\<forall>va. no_huge m pt va)"

lemma walkaddr_page:
  assumes "pt_wf (mem s) pt" "base_only (mem s) pt"
  shows "walkaddr pt (PGROUNDDOWN va) s = Inr (upage (mem s) pt va, s)"
  using walkaddr_eq [OF assms(1), of "PGROUNDDOWN va"] assms(2) by (simp add: upage_page base_only_def)


section \<open>Reading user memory\<close>

text \<open>Within the page of \<open>va\<close> the lookup moves with the address.\<close>

lemma div_mod_within:
  fixes x i :: nat
  assumes "x mod 4096 + i < 4096"
  shows "(x + i) div 4096 = x div 4096" "(x + i) mod 4096 = x mod 4096 + i"
proof -
  obtain q r where x: "x = 4096 * q + r" "r < 4096"
    using that [of "x div 4096" "x mod 4096"] by simp
  then have r: "r + i < 4096" using assms by simp
  have "x + i = 4096 * q + (r + i)" using x by simp
  then show "(x + i) div 4096 = x div 4096" "(x + i) mod 4096 = x mod 4096 + i"
    using r x(2) by (simp_all only: x(1)) simp_all
qed

lemma uaddr_within:
  assumes "i < page_room va"
  shows "unat (va + of_nat i) mod 4096 = unat va mod 4096 + i"
    "PGROUNDDOWN (va + of_nat i) = PGROUNDDOWN va"
    "uaddr m pt (va + of_nat i) = upage m pt va + (va - PGROUNDDOWN va) + of_nat i"
proof -
  have i: "unat va mod 4096 + i < 4096" using assms by (simp add: page_room_eq)
  have "unat va = 4096 * (unat va div 4096) + unat va mod 4096" by simp
  moreover have "unat va div 4096 < 4503599627370496" using unat_u64_less [of va] by linarith
  ultimately have lt: "unat va + i < 18446744073709551616" using i by linarith
  have u: "unat (va + of_nat i) = unat va + i"
    using lt i by (subst unat_u64_add_nowrap) simp_all
  show m: "unat (va + of_nat i) mod 4096 = unat va mod 4096 + i"
    unfolding u by (rule div_mod_within(2) [OF i])
  have d: "(unat va + i) div 4096 = unat va div 4096" by (rule div_mod_within(1) [OF i])
  show p: "PGROUNDDOWN (va + of_nat i) = PGROUNDDOWN va"
    by (simp add: u64_eq_iff unat_PGROUNDDOWN u d)
  have "of_nat (unat va mod 4096 + i) = (va - PGROUNDDOWN va) + of_nat i"
    by (simp add: page_offset [symmetric])
  then show "uaddr m pt (va + of_nat i) = upage m pt va + (va - PGROUNDDOWN va) + of_nat i"
    unfolding uaddr_def m using upage_page [of m pt va] upage_page [of m pt "va + of_nat i"] p by simp
qed

lemma next_page:
  assumes "page_room va \<le> n"
  shows "va + of_nat (page_room va) = PGROUNDDOWN va + PGSIZE"
  by (simp add: page_room_def)

definition uread :: "memory \<Rightarrow> u64 \<Rightarrow> u64 \<Rightarrow> nat \<Rightarrow> u8 list" where
  "uread m pt va n = map (\<lambda>i. m (uaddr m pt (va + of_nat i))) [0..<n]"

lemma uread_append: "uread m pt va (k + n) = uread m pt va k @ uread m pt (va + of_nat k) n"
proof -
  have "map (\<lambda>i. m (uaddr m pt (va + of_nat i))) [k..<k + n]
    = map (\<lambda>i. m (uaddr m pt (va + of_nat k + of_nat i))) [0..<n]"
    by (rule nth_equalityI) (simp_all add: add.assoc)
  moreover have "[0..<k + n] = [0..<k] @ [k..<k + n]" by (rule upt_add_eq_append) simp
  ultimately show ?thesis by (simp only: uread_def map_append)
qed

lemma get_bytes_page:
  assumes "n \<le> page_room va"
  shows "get_bytes m (upage m pt va + (va - PGROUNDDOWN va)) n = uread m pt va n"
  unfolding get_bytes_def uread_def using assms uaddr_within(3) [of _ va m pt] by simp

definition all_mapped :: "memory \<Rightarrow> u64 \<Rightarrow> u64 \<Rightarrow> nat \<Rightarrow> bool" where
  "all_mapped m pt va n \<longleftrightarrow> (\<forall>i < n. upage m pt (va + of_nat i) \<noteq> 0)"

lemma all_mapped_page:
  assumes "0 < n" "n \<le> page_room va"
  shows "all_mapped m pt va n \<longleftrightarrow> upage m pt va \<noteq> 0"
proof -
  have "upage m pt (va + of_nat i) = upage m pt va" if "i < page_room va" for i
    using uaddr_within(2) [OF that] upage_page [of m pt va] upage_page [of m pt "va + of_nat i"] by simp
  then show ?thesis using assms unfolding all_mapped_def by auto
qed

lemma all_mapped_add:
  "all_mapped m pt va (k + n) \<longleftrightarrow> all_mapped m pt va k \<and> all_mapped m pt (va + of_nat k) n"
proof
  assume a: "all_mapped m pt va (k + n)"
  then have "all_mapped m pt (va + of_nat k) n"
    unfolding all_mapped_def by (metis add.assoc nat_add_left_cancel_less of_nat_add)
  then show "all_mapped m pt va k \<and> all_mapped m pt (va + of_nat k) n"
    using a unfolding all_mapped_def by auto
next
  assume a: "all_mapped m pt va k \<and> all_mapped m pt (va + of_nat k) n"
  show "all_mapped m pt va (k + n)" unfolding all_mapped_def
  proof (intro allI impI)
    fix i assume i: "i < k + n"
    show "upage m pt (va + of_nat i) \<noteq> 0"
    proof (cases "i < k")
      case False
      then obtain j where "i = k + j" "j < n" using i by (metis le_iff_add nat_add_left_cancel_less not_le)
      then show ?thesis using a unfolding all_mapped_def by (simp add: add.assoc [symmetric])
    qed (use a in \<open>simp add: all_mapped_def\<close>)
  qed
qed

lemma copyin_ok:
  assumes "pt_wf (mem s) pt" "base_only (mem s) pt"
  shows "\<exists>r bs. copyin pt va len s = Inr ((r, bs), s)
    \<and> (if all_mapped (mem s) pt va len then r = 0 \<and> bs = uread (mem s) pt va len else r = -1)"
  using assms
proof (induction len arbitrary: va rule: less_induct)
  case (less len va)
  show ?case
  proof (cases "len = 0")
    case True
    then show ?thesis by (subst copyin.simps) (simp add: all_mapped_def uread_def)
  next
    case False
    let ?n = "min (page_room va) len"
    have n: "0 < ?n" "?n \<le> page_room va" "?n \<le> len" using False page_room_pos [of va] by auto
    have w: "walkaddr pt (PGROUNDDOWN va) s = Inr (upage (mem s) pt va, s)"
      by (rule walkaddr_page [OF less.prems])
    have split: "len = ?n + (len - ?n)" using n by simp
    show ?thesis
    proof (cases "upage (mem s) pt va = 0")
      case True
      then have "\<not> all_mapped (mem s) pt va len"
        using split all_mapped_add [of "mem s" pt va ?n "len - ?n"] all_mapped_page [OF n(1,2)] by metis
      then show ?thesis using True w False by (subst copyin.simps) (simp add: Let_def)
    next
      case ok: False
      have nx: "PGROUNDDOWN va + PGSIZE = va + of_nat ?n \<or> len - ?n = 0"
        using next_page [of va len] by (cases "page_room va \<le> len") (auto simp: min_def)
      have "len - ?n < len" using n by simp
      from less.IH [OF this less.prems, of "PGROUNDDOWN va + PGSIZE"] obtain r bs where
        c: "copyin pt (PGROUNDDOWN va + PGSIZE) (len - ?n) s = Inr ((r, bs), s)"
        "if all_mapped (mem s) pt (PGROUNDDOWN va + PGSIZE) (len - ?n)
         then r = 0 \<and> bs = uread (mem s) pt (PGROUNDDOWN va + PGSIZE) (len - ?n) else r = -1" by blast
      have am: "all_mapped (mem s) pt va len \<longleftrightarrow> all_mapped (mem s) pt (va + of_nat ?n) (len - ?n)"
        using all_mapped_add [of "mem s" pt va ?n "len - ?n"] all_mapped_page [OF n(1,2), of "mem s" pt] ok split by metis
      have "copyin pt va len s = Inr ((r, uread (mem s) pt va ?n @ bs), s)"
        using False w ok c(1) get_bytes_page [OF n(2)] by (subst copyin.simps) (simp add: Let_def)
      moreover have "uread (mem s) pt va len = uread (mem s) pt va ?n @ uread (mem s) pt (va + of_nat ?n) (len - ?n)"
        using uread_append [of "mem s" pt va ?n "len - ?n"] split by metis
      ultimately show ?thesis using c(2) nx am
        by (elim disjE) (auto simp: all_mapped_def uread_def split: if_splits)
    qed
  qed
qed

text \<open>
  C19: copyin reads through the page table: on a well-formed table without huge leaves, it
  returns 0 exactly when every byte of the range is on a mapped user page below MAXVA, and the
  bytes it delivers are those at the translated addresses; it changes nothing.
\<close>

theorem copyin_spec:
  assumes "pt_wf (mem s) pt" "base_only (mem s) pt"
  shows "\<exists>r bs. copyin pt va len s = Inr ((r, bs), s)
    \<and> (if all_mapped (mem s) pt va len then r = 0 \<and> bs = uread (mem s) pt va len else r = -1)"
  using assms by (rule copyin_ok)


section \<open>Writing user memory\<close>

lemma put_bytes_eq:
  "length bs \<le> 18446744073709551616 \<Longrightarrow>
   put_bytes m a bs = (\<lambda>x. if unat (x - a) < length bs then bs ! unat (x - a) else m x)"
proof (induction bs arbitrary: m a)
  case (Cons b bs)
  then have IH: "put_bytes (m(a := b)) (a + 1) bs
    = (\<lambda>x. if unat (x - (a + 1)) < length bs then bs ! unat (x - (a + 1)) else (m(a := b)) x)" by simp
  show ?case
  proof (rule ext)
    fix x
    show "put_bytes m a (b # bs) x
      = (if unat (x - a) < length (b # bs) then (b # bs) ! unat (x - a) else m x)"
    proof (cases "x = a")
      case True
      have "unat (a - (a + 1)) = 18446744073709551615"
        by (simp add: unsigned_minus_1_eq_mask mask_eq_exp_minus_1)
      then show ?thesis using True IH Cons.prems by simp
    next
      case False
      then have "unat (x - a) = Suc (unat (x - (a + 1)))"
        using unat_minus_one [of "x - a"] by (simp add: diff_diff_eq [symmetric] unat_gt_0)
      then show ?thesis using False IH by simp
    qed
  qed
qed simp

text \<open>
  An address space whose user pages are base frames outside its tables, each mapped at one
  page only.
\<close>

definition private_frames :: "memory \<Rightarrow> u64 \<Rightarrow> bool" where
  "private_frames m pt \<longleftrightarrow>
     (\<forall>x. upage m pt x \<noteq> 0 \<longrightarrow> is_page (upage m pt x) \<and> upage m pt x \<notin> tables m pt)
   \<and> (\<forall>x y. upage m pt x \<noteq> 0 \<longrightarrow> upage m pt x = upage m pt y \<longrightarrow> vpn x = vpn y)"

lemma private_framesD:
  assumes "private_frames m pt" "upage m pt x \<noteq> 0"
  shows "is_page (upage m pt x)" "upage m pt x \<notin> tables m pt" "upage m pt x = upage m pt y \<Longrightarrow> vpn x = vpn y"
  using assms unfolding private_frames_def by blast+

lemma unat_of_nat_mod: "unat (of_nat (n mod 4096) :: u64) = n mod 4096"
proof (rule unat_of_nat_u64)
  have "n mod 4096 < 4096" by simp
  also have "(4096 :: nat) < 18446744073709551616" by simp
  finally show "n mod 4096 < 18446744073709551616" .
qed

lemma uaddr_region: "is_page (upage m pt x) \<Longrightarrow> uaddr m pt x \<in> region (upage m pt x) 4096"
proof -
  assume p: "is_page (upage m pt x)"
  show ?thesis by (simp add: uaddr_def unat_of_nat_mod)
qed

lemma uaddr_inj:
  assumes "private_frames m pt" "upage m pt x \<noteq> 0" "upage m pt y \<noteq> 0" "uaddr m pt x = uaddr m pt y"
  shows "x = y"
proof -
  have p: "is_page (upage m pt x)" "is_page (upage m pt y)" using private_framesD(1) [OF assms(1)] assms(2,3) by blast+
  have e: "upage m pt x = upage m pt y"
  proof (rule ccontr)
    assume "upage m pt x \<noteq> upage m pt y"
    then have "uaddr m pt y \<notin> region (upage m pt x) 4096"
      using page_apart [OF p] uaddr_region [OF p(2)] by blast
    then show False using uaddr_region [OF p(1)] assms(4) by simp
  qed
  have v: "vpn x = vpn y" by (rule private_framesD(3) [OF assms(1,2) e])
  have o: "of_nat (unat x mod 4096) = (of_nat (unat y mod 4096) :: u64)"
    using assms(4) unfolding uaddr_def e by (rule add_left_imp_eq)
  have "unat x mod 4096 = unat (of_nat (unat x mod 4096) :: u64)" by (rule unat_of_nat_mod [symmetric])
  also have "\<dots> = unat (of_nat (unat y mod 4096) :: u64)" by (rule arg_cong [OF o])
  also have "\<dots> = unat y mod 4096" by (rule unat_of_nat_mod)
  finally have "unat x mod 4096 = unat y mod 4096" .
  then have "unat x = unat y"
    using v div_mult_mod_eq [of "unat x" 4096] div_mult_mod_eq [of "unat y" 4096]
    unfolding vpn_def by linarith
  then show ?thesis by (simp add: u64_eq_iff)
qed

text \<open>Bytes of user pages are not bytes of the tables.\<close>

lemma user_write_entries:
  assumes "pt_wf m pt" "private_frames m pt" "upage m pt va \<noteq> 0"
    "\<And>x. x \<notin> region (upage m pt va) 4096 \<Longrightarrow> m' x = m x"
  shows "pt_wf m' pt" "tables m' pt = tables m pt" "pte_of m' pt x = pte_of m pt x"
    "mid_of m' pt x = mid_of m pt x"
proof -
  have p: "is_page (upage m pt va)" "upage m pt va \<notin> tables m pt"
    using private_framesD(1,2) [OF assms(2,3)] by blast+
  have same: "m' a = m a" if "a \<in> \<Union> ((\<lambda>p. region p 4096) ` tables m pt)" for a
  proof -
    obtain q where q: "q \<in> tables m pt" "a \<in> region q 4096" using \<open>a \<in> _\<close> by blast
    then have "is_page q" "q \<noteq> upage m pt va" using pt_wfD(1) [OF assms(1)] p(2) by (auto simp: tables_def)
    then show ?thesis using page_apart [OF _ p(1)] q(2) assms(4) by blast
  qed
  show "pt_wf m' pt" "tables m' pt = tables m pt" "pte_of m' pt x = pte_of m pt x"
    "mid_of m' pt x = mid_of m pt x"
    using pt_wf_cong [OF assms(1) same] tables_cong [OF assms(1) same] entry_cong [OF assms(1) same] by auto
qed

text \<open>The view of user memory is the same.\<close>

definition same_view :: "u64 \<Rightarrow> memory \<Rightarrow> memory \<Rightarrow> bool" where
  "same_view pt m m' \<longleftrightarrow> (\<forall>x. pte_of m' pt x = pte_of m pt x \<and> mid_of m' pt x = mid_of m pt x)
     \<and> tables m' pt = tables m pt"

lemma same_view_lookup:
  assumes "same_view pt m m'"
  shows "upage m' pt x = upage m pt x" "uaddr m' pt x = uaddr m pt x"
    "private_frames m' pt = private_frames m pt" "base_only m' pt = base_only m pt"
    "all_mapped m' pt va n = all_mapped m pt va n"
proof -
  show u: "upage m' pt x = upage m pt x" for x using assms by (simp add: same_view_def upage_def)
  then show "uaddr m' pt x = uaddr m pt x" by (simp add: uaddr_def)
  show "private_frames m' pt = private_frames m pt"
    using assms u by (simp add: private_frames_def same_view_def)
  show "base_only m' pt = base_only m pt"
    using assms by (simp add: base_only_def no_huge_def same_view_def)
  show "all_mapped m' pt va n = all_mapped m pt va n" by (simp add: all_mapped_def u)
qed

lemma same_view_trans: "same_view pt m m' \<Longrightarrow> same_view pt m' m'' \<Longrightarrow> same_view pt m m''"
  by (simp add: same_view_def)

definition user_writes :: "memory \<Rightarrow> u64 \<Rightarrow> u64 \<Rightarrow> nat \<Rightarrow> memory \<Rightarrow> bool" where
  "user_writes m pt va n m' \<longleftrightarrow> (\<forall>a. m' a \<noteq> m a \<longrightarrow>
     (\<exists>i < n. upage m pt (va + of_nat i) \<noteq> 0 \<and> a = uaddr m pt (va + of_nat i)))"

text \<open>One round of \<^verbatim>\<open>copyout\<close>: the bytes of one page.\<close>

lemma copyout_chunk:
  assumes "pt_wf m pt" "private_frames m pt" "upage m pt va \<noteq> 0" "length bs \<le> page_room va"
  defines "m' \<equiv> put_bytes m (upage m pt va + (va - PGROUNDDOWN va)) bs"
  shows "pt_wf m' pt" "same_view pt m m'" "user_writes m pt va (length bs) m'"
    "uread m' pt va (length bs) = bs"
proof -
  let ?a = "upage m pt va + (va - PGROUNDDOWN va)"
  have len: "length bs \<le> 18446744073709551616" "length bs \<le> 4096"
    using assms(4) page_room_pos(2) [of va] by linarith+
  have m': "m' = (\<lambda>x. if unat (x - ?a) < length bs then bs ! unat (x - ?a) else m x)"
    unfolding m'_def by (rule put_bytes_eq [OF len(1)])
  have at: "uaddr m pt (va + of_nat i) = ?a + of_nat i" if "i < length bs" for i
    using uaddr_within(3) that assms(4) by simp
  have up: "upage m pt (va + of_nat i) = upage m pt va" if "i < length bs" for i
  proof -
    have "PGROUNDDOWN (va + of_nat i) = PGROUNDDOWN va" using uaddr_within(2) that assms(4) by simp
    then show ?thesis using upage_page [of m pt va] upage_page [of m pt "va + of_nat i"] by simp
  qed
  show w: "user_writes m pt va (length bs) m'"
    unfolding user_writes_def
  proof (intro allI impI)
    fix a assume "m' a \<noteq> m a"
    then have i: "unat (a - ?a) < length bs" unfolding m' by (auto split: if_splits)
    then have "a = uaddr m pt (va + of_nat (unat (a - ?a)))" by (subst at [OF i]) simp
    then show "\<exists>i < length bs. upage m pt (va + of_nat i) \<noteq> 0 \<and> a = uaddr m pt (va + of_nat i)"
      using i up [OF i] assms(3) by metis
  qed
  have pg: "is_page (upage m pt va)" using private_framesD(1) [OF assms(2,3)] .
  have "m' x = m x" if x: "x \<notin> region (upage m pt va) 4096" for x
  proof (rule ccontr)
    assume "m' x \<noteq> m x"
    then obtain i where i: "i < length bs" "x = uaddr m pt (va + of_nat i)" using w by (auto simp: user_writes_def)
    then have "x \<in> region (upage m pt (va + of_nat i)) 4096"
      using uaddr_region [of m pt "va + of_nat i"] up [OF i(1)] pg by simp
    then show False using x up [OF i(1)] by simp
  qed
  note e = user_write_entries [OF assms(1-3) this]
  show "pt_wf m' pt" by (rule e(1))
  show v: "same_view pt m m'" unfolding same_view_def using e by blast
  show "uread m' pt va (length bs) = bs"
  proof (rule nth_equalityI)
    fix i assume "i < length (uread m' pt va (length bs))"
    then have i: "i < length bs" by (simp add: uread_def)
    have "unat (of_nat i :: u64) = i" using i len(2) by (intro unat_of_nat_u64) simp
    then show "uread m' pt va (length bs) ! i = bs ! i"
      using i at [OF i] same_view_lookup(2) [OF v] by (simp add: uread_def) (simp add: m')
  qed (simp add: uread_def)
qed

lemma user_writes_trans:
  assumes "user_writes m pt va n m'" "same_view pt m m'" "user_writes m' pt (va + of_nat n) k m''"
  shows "user_writes m pt va (n + k) m''"
  unfolding user_writes_def
proof (intro allI impI)
  fix a assume "m'' a \<noteq> m a"
  then consider "m' a \<noteq> m a" | "m'' a \<noteq> m' a" by metis
  then show "\<exists>i < n + k. upage m pt (va + of_nat i) \<noteq> 0 \<and> a = uaddr m pt (va + of_nat i)"
  proof cases
    case 1
    then show ?thesis using assms(1) unfolding user_writes_def by (meson trans_less_add1)
  next
    case 2
    then obtain i where "i < k" "upage m pt (va + of_nat n + of_nat i) \<noteq> 0" "a = uaddr m pt (va + of_nat n + of_nat i)"
      using assms(3) same_view_lookup(1,2) [OF assms(2)] unfolding user_writes_def by auto
    then show ?thesis by (intro exI [of _ "n + i"]) (simp add: add.assoc)
  qed
qed

text \<open>Later bytes do not overwrite earlier ones.\<close>

lemma uread_kept:
  assumes "private_frames m pt" "same_view pt m m'" "same_view pt m' m''" "all_mapped m pt va n"
    "user_writes m' pt (va + of_nat n) k m''" "n + k \<le> 18446744073709551616"
  shows "uread m'' pt va n = uread m' pt va n"
proof -
  have "m'' (uaddr m pt (va + of_nat i)) = m' (uaddr m pt (va + of_nat i))" if i: "i < n" for i
  proof (rule ccontr)
    assume "m'' (uaddr m pt (va + of_nat i)) \<noteq> m' (uaddr m pt (va + of_nat i))"
    then have "\<exists>j < k. upage m' pt (va + of_nat n + of_nat j) \<noteq> 0
        \<and> uaddr m pt (va + of_nat i) = uaddr m' pt (va + of_nat n + of_nat j)"
      using assms(5) unfolding user_writes_def by blast
    then obtain j where j: "j < k" "upage m pt (va + of_nat n + of_nat j) \<noteq> 0"
      "uaddr m pt (va + of_nat i) = uaddr m pt (va + of_nat n + of_nat j)"
      unfolding same_view_lookup(1,2) [OF assms(2)] by blast
    have u: "upage m pt (va + of_nat i) \<noteq> 0" using assms(4) i unfolding all_mapped_def by blast
    have "va + of_nat i = va + of_nat n + of_nat j"
      by (rule uaddr_inj [OF assms(1) u j(2,3)])
    then have "va + of_nat i = va + of_nat (n + j)" by (simp only: of_nat_add add.assoc)
    then have "of_nat i = (of_nat (n + j) :: u64)" by (rule add_left_imp_eq)
    then have "unat (of_nat i :: u64) = unat (of_nat (n + j) :: u64)" by (rule arg_cong)
    moreover have "i < 18446744073709551616" "n + j < 18446744073709551616"
      using i j(1) assms(6) by linarith+
    ultimately have "i = n + j" by (simp only: unat_of_nat_u64)
    then show False using i by linarith
  qed
  then show ?thesis
    using same_view_lookup(2) [OF assms(2)] same_view_lookup(2) [OF assms(3)] by (simp add: uread_def)
qed

lemma copyout_ok:
  assumes "pt_wf (mem s) pt" "base_only (mem s) pt" "private_frames (mem s) pt"
    "length src \<le> 18446744073709551616"
  shows "\<exists>r m'. copyout pt va src s = Inr (r, s\<lparr>mem := m'\<rparr>) \<and> pt_wf m' pt \<and> same_view pt (mem s) m'
    \<and> user_writes (mem s) pt va (length src) m'
    \<and> (if all_mapped (mem s) pt va (length src) then r = 0 \<and> uread m' pt va (length src) = src else r = -1)"
  using assms
proof (induction "length src" arbitrary: va src s rule: less_induct)
  case (less src va s)
  let ?m = "mem s"
  have w: "walkaddr pt (PGROUNDDOWN va) s = Inr (upage ?m pt va, s)"
    by (rule walkaddr_page [OF less.prems(1,2)])
  have self: "same_view pt ?m ?m" "user_writes ?m pt va n ?m" for n by (simp_all add: same_view_def user_writes_def)
  show ?case
  proof (cases "src = []")
    case True
    then show ?thesis using less.prems(1) self
      by (intro exI [of _ 0] exI [of _ ?m], subst copyout.simps) (simp add: all_mapped_def uread_def)
  next
    case False
    let ?n = "min (page_room va) (length src)"
    have n: "0 < ?n" "?n \<le> page_room va" "?n \<le> length src" using False page_room_pos [of va] by auto
    have split: "length src = ?n + (length src - ?n)" using n by simp
    show ?thesis
    proof (cases "upage ?m pt va = 0")
      case True
      then have "\<not> all_mapped ?m pt va (length src)"
        using split all_mapped_add [of ?m pt va ?n "length src - ?n"] all_mapped_page [OF n(1,2)] by metis
      then show ?thesis using True w False less.prems(1) self
        by (intro exI [of _ "-1"] exI [of _ ?m], subst copyout.simps) (simp add: Let_def)
    next
      case ok: False
      let ?m1 = "put_bytes ?m (upage ?m pt va + (va - PGROUNDDOWN va)) (take ?n src)"
      have lt: "length (take ?n src) = ?n" "length (drop ?n src) = length src - ?n" using n by auto
      note c = copyout_chunk [OF less.prems(1,3) ok, of "take ?n src", unfolded lt, OF n(2)]
      have am1: "all_mapped ?m pt va ?n" using all_mapped_page [OF n(1,2)] ok by blast
      have am: "all_mapped ?m pt va (length src) \<longleftrightarrow> all_mapped ?m1 pt (va + of_nat ?n) (length src - ?n)"
        using all_mapped_add [of ?m pt va ?n "length src - ?n"] am1 split same_view_lookup(5) [OF c(2)] by metis
      have "length (drop ?n src) < length src" "length (drop ?n src) \<le> 18446744073709551616"
        using n less.prems(4) lt by linarith+
      from less.hyps [OF this(1), of "s\<lparr>mem := ?m1\<rparr>" "va + of_nat ?n"] this(2) c(1) less.prems(2,3)
        same_view_lookup(3,4) [OF c(2)]
      obtain r m' where IH: "copyout pt (va + of_nat ?n) (drop ?n src) (s\<lparr>mem := ?m1\<rparr>) = Inr (r, s\<lparr>mem := m'\<rparr>)"
        "pt_wf m' pt" "same_view pt ?m1 m'" "user_writes ?m1 pt (va + of_nat ?n) (length src - ?n) m'"
        "if all_mapped ?m1 pt (va + of_nat ?n) (length src - ?n)
         then r = 0 \<and> uread m' pt (va + of_nat ?n) (length src - ?n) = drop ?n src else r = -1"
        unfolding lt by auto
      have nx: "PGROUNDDOWN va + PGSIZE = va + of_nat ?n \<or> drop ?n src = []"
        using next_page [of va "length src"] by (cases "page_room va \<le> length src") (auto simp: min_def)
      have nil: "copyout pt x [] z = Inr (0, z)" for x and z :: "'a kst_scheme" by (subst copyout.simps) simp
      have "copyout pt (PGROUNDDOWN va + PGSIZE) (drop ?n src) (s\<lparr>mem := ?m1\<rparr>) = Inr (r, s\<lparr>mem := m'\<rparr>)"
        using nx IH(1) nil by (elim disjE) (simp_all only:)
      then have run: "copyout pt va src s = Inr (r, s\<lparr>mem := m'\<rparr>)"
        using False w ok by (subst copyout.simps) (simp add: Let_def)
      have keep: "uread m' pt va ?n = take ?n src"
        using uread_kept [OF less.prems(3) c(2) IH(3) am1 IH(4)] c(4) split less.prems(4) by simp
      have "uread m' pt va (length src) = uread m' pt va ?n @ uread m' pt (va + of_nat ?n) (length src - ?n)"
        using uread_append [of m' pt va ?n "length src - ?n"] split by metis
      then have "if all_mapped ?m pt va (length src) then r = 0 \<and> uread m' pt va (length src) = src else r = -1"
        using IH(5) am keep by (simp split: if_splits)
      then show ?thesis
        using run IH(2) same_view_trans [OF c(2) IH(3)] user_writes_trans [OF c(3,2) IH(4)] split by auto
    qed
  qed
qed

text \<open>
  C18: copyout writes through the page table: on a well-formed table without huge leaves whose user
  frames are private, it returns 0 exactly when every byte of the range is on a mapped user page,
  and reading the range back then gives the bytes written; it changes no byte other than those at the
  translated addresses of the range, and no translation.
\<close>

theorem copyout_spec:
  assumes "pt_wf (mem s) pt" "base_only (mem s) pt" "private_frames (mem s) pt"
    "length src \<le> 18446744073709551616"
  shows "\<exists>r m'. copyout pt va src s = Inr (r, s\<lparr>mem := m'\<rparr>) \<and> pt_wf m' pt
    \<and> (\<forall>x. upage m' pt x = upage (mem s) pt x)
    \<and> user_writes (mem s) pt va (length src) m'
    \<and> (if all_mapped (mem s) pt va (length src) then r = 0 \<and> uread m' pt va (length src) = src else r = -1)"
proof -
  obtain r m' where c: "copyout pt va src s = Inr (r, s\<lparr>mem := m'\<rparr>)" "pt_wf m' pt" "same_view pt (mem s) m'"
    "user_writes (mem s) pt va (length src) m'"
    "if all_mapped (mem s) pt va (length src) then r = 0 \<and> uread m' pt va (length src) = src else r = -1"
    using copyout_ok [OF assms] by blast
  moreover have "\<forall>x. upage m' pt x = upage (mem s) pt x" using same_view_lookup(1) [OF c(3)] by blast
  ultimately show ?thesis by blast
qed


section \<open>A concrete address space\<close>

text \<open>One user page at 0x1000, in frame 5; the tables are frames 0, 1 and 2.\<close>

definition pte1 :: u64 where
  "pte1 = PA2PTE (page_addr 5) OR 0x17"

definition memA :: memory where
  "memA = st64 (memset (\<lambda>_. 0) (page_addr 1) 0 4096) (slot (page_addr 0) (of_nat 0)) (PA2PTE (page_addr 1) OR PTE_V)"

definition memB :: memory where
  "memB = st64 (memset memA (page_addr 2) 0 4096) (slot (page_addr 1) (of_nat 0)) (PA2PTE (page_addr 2) OR PTE_V)"

definition mem1 :: memory where
  "mem1 = st64 memB (slot (page_addr 2) (of_nat 1)) pte1"

lemma pages_differ: "page_addr 0 \<noteq> page_addr 1" "page_addr 0 \<noteq> page_addr 2" "page_addr 1 \<noteq> page_addr 2"
  "page_addr 5 \<notin> {page_addr 0, page_addr 1, page_addr 2}"
  by (simp_all add: page_addr_inj)

lemma adds_A: "adds (\<lambda>_. 0) (page_addr 0) [] (page_addr 0) 0 (page_addr 1) memA"
proof -
  have z: "ld64 (\<lambda>_. 0) a = 0" for a by (rule ld64_zero) simp
  note e = empty_table [of "page_addr 0" "\<lambda>_. 0", OF is_pageI [of 0] z]
  show ?thesis unfolding adds_def using e z pages_differ by (auto simp: memA_def is_pageI)
qed

lemma tables_A: "tables memA (page_addr 0) = {page_addr 1, page_addr 0}"
proof -
  have z: "ld64 (\<lambda>_. 0) a = 0" for a by (rule ld64_zero) simp
  show ?thesis using adds_tables [OF adds_A] empty_table(2) [of "page_addr 0" "\<lambda>_. 0", OF is_pageI [of 0] z] by simp
qed

lemma adds_B: "adds memA (page_addr 0) [0] (page_addr 1) 0 (page_addr 2) memB"
proof -
  have n: "node memA (page_addr 0) [0] = Some (page_addr 1)"
    using adds_node [OF adds_A, of "[0]"] by simp
  have "ld64 memA (slot (page_addr 1) (of_nat 0)) = 0" by (rule adds_entry_q [OF adds_A]) simp
  then show ?thesis unfolding adds_def
    using adds_wf [OF adds_A] n tables_A pages_differ by (auto simp: memB_def is_pageI)
qed

lemma mem1_leaf: "node memB (page_addr 0) [ix 1 0x1000, ix 2 0x1000] = Some (page_addr 2)"
proof -
  have "ix 1 0x1000 = 0" "ix 2 0x1000 = 0" by (simp_all add: ix_def unat_PX)
  then show ?thesis using adds_node [OF adds_B, of "[0, 0]"] by (simp only: path_ok_simps) simp
qed

lemma mem1_props:
  "pt_wf mem1 (page_addr 0)" "tables mem1 (page_addr 0) = {page_addr 0, page_addr 1, page_addr 2}"
  "va < MAXVA \<Longrightarrow> pte_of mem1 (page_addr 0) va = (if vpn va = 1 then pte1 else 0)"
  "base_only mem1 (page_addr 0)"
proof -
  have z: "ld64 (\<lambda>_. 0) a = 0" for a by (rule ld64_zero) simp
  note e = empty_table [of "page_addr 0" "\<lambda>_. 0", OF is_pageI [of 0] z]
  have m: "mem1 = st64 memB (slot (page_addr 2) (of_nat (ix 0 0x1000))) pte1"
    by (simp add: mem1_def ix_def unat_PX)
  note l = leaf_store [OF adds_wf [OF adds_B] mem1_leaf, where v = pte1, folded m]
  have B: "pte_of memB (page_addr 0) va = 0" for va
    using adds_pte [OF adds_A] adds_pte [OF adds_B] e(3) by simp
  show "pt_wf mem1 (page_addr 0)" using l(1) by simp
  show "tables mem1 (page_addr 0) = {page_addr 0, page_addr 1, page_addr 2}"
    using l(2) adds_tables [OF adds_B] tables_A by auto
  show "pte_of mem1 (page_addr 0) va = (if vpn va = 1 then pte1 else 0)" if "va < MAXVA"
    using l(4) [of va] that B by (simp add: vpn_PGROUNDDOWN) (simp add: vpn_def)
  have "no_huge mem1 (page_addr 0) va" for va
    using l(3) [of va] adds_mid [OF adds_A, of va] adds_mid [OF adds_B, of va] e(4) is_table_new
    by (simp add: no_huge_def split: if_splits)
  then show "base_only mem1 (page_addr 0)" by (simp add: base_only_def)
qed

lemma pte1_props: "PTE2PA pte1 = page_addr 5" "user_pte pte1" "PTE_FLAGS pte1 = 0x17"
proof -
  show f: "PTE_FLAGS pte1 = 0x17" by (simp add: pte1_def PTE_FLAGS_PA2PTE)
  show "PTE2PA pte1 = page_addr 5"
    unfolding pte1_def by (rule PTE2PA_PA2PTE) simp_all
  show "user_pte pte1"
    using flags_and [of 1 pte1] flags_and [of 16 pte1] f by (simp add: user_pte_def)
qed

lemma mem1_upage: "upage mem1 (page_addr 0) x = (if vpn x = 1 then page_addr 5 else 0)"
proof -
  have "x < MAXVA" if "vpn x = 1"
  proof -
    have "unat x div 4096 = 1" using that by (simp add: vpn_def)
    then have "unat x < 274877906944" by linarith
    then show ?thesis by (simp add: word_less_nat_alt)
  qed
  then show ?thesis using pte1_props mem1_props(3) [of x] by (auto simp: upage_def user_pte_def)
qed

lemma mem1_private: "private_frames mem1 (page_addr 0)"
  unfolding private_frames_def mem1_props(2) mem1_upage
  using pages_differ by (auto simp: is_pageI)

definition vm1 :: kst where
  "vm1 = kfresh\<lparr>mem := mem1\<rparr>"

lemma vm1_mapped: "all_mapped mem1 (page_addr 0) 0x1ff0 2"
proof -
  have v: "vpn 0x1ff0 = 1" "vpn (0x1ff0 + 1) = 1" by (simp_all add: vpn_def)
  have "upage mem1 (page_addr 0) (0x1ff0 + of_nat i) \<noteq> 0" if "i < 2" for i :: nat
  proof -
    have "i = 0 \<or> i = 1" using that by auto
    then show ?thesis using v mem1_upage by auto
  qed
  then show ?thesis by (simp add: all_mapped_def)
qed

theorem copyin_spec_witness:
  "\<exists>bs. copyin (page_addr 0) 0x1ff0 2 vm1 = Inr ((0, bs), vm1)"
  using copyin_spec [of vm1 "page_addr 0" "0x1ff0" 2] mem1_props vm1_mapped by (auto simp: vm1_def)

theorem copyout_spec_witness:
  "\<exists>m'. copyout (page_addr 0) 0x1ff0 [7, 9] vm1 = Inr (0, vm1\<lparr>mem := m'\<rparr>)
     \<and> uread m' (page_addr 0) 0x1ff0 2 = [7, 9]"
  using copyout_spec [of vm1 "page_addr 0" "[7, 9]" "0x1ff0"] mem1_props(1,4) mem1_private vm1_mapped
  by (auto simp: vm1_def numeral_2_eq_2)


section \<open>Unmapping\<close>

text \<open>Freeing a frame outside the tables leaves the tables as they are.\<close>

lemma kfree_data:
  assumes "kmem_inv s" "pt_inv s pt" "k < NPAGE" "0 < page_refs s k" "page_addr k \<notin> tables (mem s) pt"
  shows "\<exists>t. kfree (page_addr k) s = Inr t \<and> kmem_inv t \<and> pt_inv t pt \<and> same_view pt (mem s) (mem t)
    \<and> page_refs t = (page_refs s)(k := page_refs s k - 1) \<and> huge_refs t = huge_refs s
    \<and> (\<forall>a. a \<notin> region (page_addr k) 4096 \<longrightarrow> mem t a = mem s a) \<and> locks t = locks s \<and> kst.more t = kst.more s"
proof -
  have nz: "pa_referenced s k \<noteq> 0" using assms(4) by (auto simp: page_refs_def)
  let ?t = "if pa_referenced s k = 1 then free_page k (settled s) else set_ref k (pa_referenced s k - 1) (settled s)"
  have run: "kfree (page_addr k) s = Inr ?t" by (rule kfree_live [OF assms(1,3) nz])
  have inv: "kmem_inv ?t"
    using kmem_inv_change(2,3) [OF assms(1,3) nz] by simp
  have refs: "page_refs ?t = (page_refs s)(k := page_refs s k - 1)"
    using nz by (simp add: unat_u8_pred) (simp add: page_refs_def)
  have bytes: "mem ?t a = mem s a" if "a \<notin> region (page_addr k) 4096" for a
    using that by (simp add: memset_eq)
  have wf: "pt_wf (mem s) pt" using assms(2) by (simp add: pt_inv_def)
  have same: "mem ?t a = mem s a" if a: "a \<in> \<Union> ((\<lambda>p. region p 4096) ` tables (mem s) pt)" for a
  proof -
    obtain q where q: "q \<in> tables (mem s) pt" "a \<in> region q 4096" using a by blast
    then have "is_page q" "q \<noteq> page_addr k" using pt_wfD(1) [OF wf] assms(5) by (auto simp: tables_def)
    then show ?thesis using page_apart [OF _ is_pageI [OF assms(3)]] q(2) bytes by blast
  qed
  have view: "same_view pt (mem s) (mem ?t)"
    unfolding same_view_def using tables_cong [OF wf same] entry_cong [OF wf same] by blast
  have "pt_inv ?t pt"
    using assms(2,5) pt_wf_cong [OF wf same] view refs unfolding pt_inv_def same_view_def
    by (metis fun_upd_apply)
  moreover have "huge_refs ?t = huge_refs s"
    by (simp add: huge_refs_def fun_eq_iff free_page_def set_ref_def)
  moreover have "locks ?t = locks s" "kst.more ?t = kst.more s" by (simp_all add: free_page_def set_ref_def)
  ultimately show ?thesis using run inv refs view bytes by blast
qed

text \<open>
  The pages \<open>n\<close> from \<open>a\<close> on are mapped by leaf entries.  Where their frames are to be
  freed, the frame of page number \<open>v\<close> is the base frame \<open>fr v\<close>, in use and outside the
  tables, and different pages have different frames.
\<close>

definition unmappable :: "'a kst_scheme \<Rightarrow> u64 \<Rightarrow> u64 \<Rightarrow> nat \<Rightarrow> bool \<Rightarrow> (nat \<Rightarrow> nat) \<Rightarrow> bool" where
  "unmappable s pt a n do_free fr \<longleftrightarrow>
     (\<forall>x. x < MAXVA \<longrightarrow> vpn a \<le> vpn x \<longrightarrow> vpn x < vpn a + n \<longrightarrow>
        no_huge (mem s) pt x \<and> pte_of (mem s) pt x AND PTE_V \<noteq> 0 \<and> PTE_FLAGS (pte_of (mem s) pt x) \<noteq> PTE_V
      \<and> (do_free \<longrightarrow> PTE2PA (pte_of (mem s) pt x) = page_addr (fr (vpn x))))
   \<and> (do_free \<longrightarrow> inj_on fr {vpn a..<vpn a + n} \<and> (\<forall>v\<in>{vpn a..<vpn a + n}.
        fr v < NPAGE \<and> 0 < page_refs s (fr v) \<and> page_addr (fr v) \<notin> tables (mem s) pt))"

text \<open>The page table after the walk of one round, the free and the clearing of the entry.\<close>

lemma unmap_one:
  assumes "kmem_inv s" "pt_inv s pt" "va < MAXVA" "no_huge (mem s) pt va" "pte_of (mem s) pt va AND PTE_V \<noteq> 0"
    "do_free \<Longrightarrow> PTE2PA (pte_of (mem s) pt va) = page_addr k \<and> k < NPAGE \<and> 0 < page_refs s k
      \<and> page_addr k \<notin> tables (mem s) pt"
  shows "\<exists>r t. walk pt va False s = Inr (r, s) \<and> r \<noteq> 0 \<and> ld64 (mem s) r = pte_of (mem s) pt va
    \<and> (if do_free then kfree (PTE2PA (pte_of (mem s) pt va)) s else Inr s) = Inr t
    \<and> kmem_inv (t\<lparr>mem := st64 (mem t) r 0\<rparr>) \<and> pt_inv (t\<lparr>mem := st64 (mem t) r 0\<rparr>) pt
    \<and> tables (st64 (mem t) r 0) pt = tables (mem s) pt
    \<and> (\<forall>x. mid_of (st64 (mem t) r 0) pt x = mid_of (mem s) pt x)
    \<and> (\<forall>x. x < MAXVA \<longrightarrow> pte_of (st64 (mem t) r 0) pt x = (if vpn x = vpn va then 0 else pte_of (mem s) pt x))
    \<and> page_refs t = (if do_free then (page_refs s)(k := page_refs s k - 1) else page_refs s)"
proof -
  have wf: "pt_wf (mem s) pt" using assms(2) by (simp add: pt_inv_def)
  obtain p where p: "node (mem s) pt [ix 1 va, ix 2 va] = Some p"
    using assms(5) by (cases "node (mem s) pt [ix 1 va, ix 2 va]") (auto simp: pte_of_def simp del: node.simps)
  let ?r = "slot p (of_nat (ix 0 va))"
  have w: "walk pt va False s = Inr (?r, s)"
    using walk_find [OF wf assms(3)] assms(4) p unfolding no_huge_def by (simp del: node.simps)
  have r: "?r \<noteq> 0" "ld64 (mem s) ?r = pte_of (mem s) pt va"
    using slot_nonnull pt_wfD(1) [OF wf _ p] p by (simp_all add: pte_of_def del: node.simps)
  obtain t where t: "(if do_free then kfree (PTE2PA (pte_of (mem s) pt va)) s else Inr s) = Inr t"
    "kmem_inv t" "pt_inv t pt" "same_view pt (mem s) (mem t)"
    "page_refs t = (if do_free then (page_refs s)(k := page_refs s k - 1) else page_refs s)"
    "node (mem t) pt [ix 1 va, ix 2 va] = Some p"
  proof (cases do_free)
    case False
    then show ?thesis using that [of s] assms(1,2) p by (simp add: same_view_def del: node.simps)
  next
    case True
    note k = assms(6) [OF True]
    obtain t where t: "kfree (page_addr k) s = Inr t" "kmem_inv t" "pt_inv t pt" "same_view pt (mem s) (mem t)"
      "page_refs t = (page_refs s)(k := page_refs s k - 1)" "\<forall>a. a \<notin> region (page_addr k) 4096 \<longrightarrow> mem t a = mem s a"
      using kfree_data [OF assms(1,2)] k by blast
    have "mem t a = mem s a" if "a \<in> \<Union> ((\<lambda>p. region p 4096) ` tables (mem s) pt)" for a
    proof -
      from \<open>a \<in> _\<close> obtain q where q: "q \<in> tables (mem s) pt" "a \<in> region q 4096" by blast
      then have "is_page q" "q \<noteq> page_addr k" using pt_wfD(1) [OF wf] k by (auto simp: tables_def)
      then show ?thesis using page_apart [OF _ is_pageI [of k]] q(2) t(6) k by blast
    qed
    from node_cong [OF wf this, of "[ix 1 va, ix 2 va]"] p
    show ?thesis using that [of t] t k True by (simp del: node.simps)
  qed
  have wft: "pt_wf (mem t) pt" using t(3) by (simp add: pt_inv_def)
  note l = leaf_store [OF wft t(6) assms(3), where v = 0]
  have "pt_inv (t\<lparr>mem := st64 (mem t) ?r 0\<rparr>) pt"
    using leaf_touches [OF t(2,3,6) assms(3)] by (simp add: touches_def)
  then show ?thesis
    using w r t l by (intro exI [of _ ?r] exI [of _ t]) (simp add: same_view_def vpn_PGROUNDDOWN)
qed

lemma unmappable_step:
  assumes "unmappable s pt a (Suc n) do_free fr" "vpn a' = vpn a + 1"
    "tables (mem u) pt = tables (mem s) pt" "\<forall>x. mid_of (mem u) pt x = mid_of (mem s) pt x"
    "\<forall>x. x < MAXVA \<longrightarrow> pte_of (mem u) pt x = (if vpn x = vpn a then 0 else pte_of (mem s) pt x)"
    "page_refs u = (if do_free then (page_refs s)(fr (vpn a) := page_refs s (fr (vpn a)) - 1) else page_refs s)"
  shows "unmappable u pt a' n do_free fr"
proof -
  have ne: "fr v \<noteq> fr (vpn a)" if "do_free" "v \<in> {vpn a'..<vpn a' + n}" for v
  proof -
    have i: "inj_on fr {vpn a..<vpn a + Suc n}" using assms(1) that(1) by (simp add: unmappable_def)
    have v: "v \<in> {vpn a..<vpn a + Suc n}" "vpn a \<in> {vpn a..<vpn a + Suc n}" "v \<noteq> vpn a"
      using that(2) assms(2) by auto
    show ?thesis using inj_onD [OF i _ v(1,2)] v(3) by blast
  qed
  have "inj_on fr {vpn a'..<vpn a' + n}" if do_free
    using assms(1,2) that by (auto simp: unmappable_def intro: inj_on_subset [of fr "{vpn a..<vpn a + Suc n}"])
  then show ?thesis
    using assms ne unfolding unmappable_def no_huge_def by (auto simp del: MAXVA_def NPAGE_def)
qed

lemma unmap_refs:
  assumes "unmappable s pt a (Suc n) do_free fr" "vpn a' = vpn a + 1"
  shows "(if do_free then (page_refs s)(fr (vpn a) := page_refs s (fr (vpn a)) - 1) else page_refs s) k
      - (if do_free \<and> k \<in> fr ` {vpn a'..<vpn a' + n} then 1 else 0)
    = page_refs s k - (if do_free \<and> k \<in> fr ` {vpn a..<vpn a + Suc n} then 1 else 0)"
proof (cases do_free)
  case True
  have i: "inj_on fr {vpn a..<vpn a + Suc n}" using assms(1) True by (simp add: unmappable_def)
  have s: "{vpn a..<vpn a + Suc n} = insert (vpn a) {vpn a'..<vpn a' + n}" using assms(2) by auto
  have "fr (vpn a) \<notin> fr ` {vpn a'..<vpn a' + n}" using i assms(2) unfolding s by (auto simp: inj_on_def)
  then show ?thesis unfolding s using True by auto
qed simp

lemma uvmunmap_loop_ok:
  assumes "kmem_inv s" "pt_inv s pt" "unat a + 4096 * n \<le> 274877906944" "unmappable s pt a n do_free fr"
  shows "\<exists>t. uvmunmap_loop pt a (a + of_nat (4096 * n)) do_free s = Inr t \<and> kmem_inv t \<and> pt_inv t pt
    \<and> tables (mem t) pt = tables (mem s) pt
    \<and> (\<forall>x. x < MAXVA \<longrightarrow> pte_of (mem t) pt x = (if vpn a \<le> vpn x \<and> vpn x < vpn a + n then 0 else pte_of (mem s) pt x))
    \<and> (\<forall>k. page_refs t k = page_refs s k - (if do_free \<and> k \<in> fr ` {vpn a..<vpn a + n} then 1 else 0))"
  using assms
proof (induction n arbitrary: a s)
  case (0 a s)
  then show ?case by (subst uvmunmap_loop.simps) auto
next
  case (Suc n a s)
  have a: "a < MAXVA" using Suc.prems(3) by (simp add: word_less_nat_alt)
  have stop: "unat (a + of_nat (4096 * Suc n)) = unat a + 4096 * Suc n"
    using Suc.prems(3) by (subst unat_u64_add_nowrap) (subst unat_of_nat_u64; simp)+
  have a1: "unat (a + PGSIZE) = unat a + 4096" "vpn (a + PGSIZE) = vpn a + 1"
    using Suc.prems(3) unat_u64_add_nowrap [of a PGSIZE] by (simp_all add: vpn_def)
  have h: "no_huge (mem s) pt a" "pte_of (mem s) pt a AND PTE_V \<noteq> 0" "PTE_FLAGS (pte_of (mem s) pt a) \<noteq> PTE_V"
    using Suc.prems(4) a unfolding unmappable_def by auto
  have fk: "PTE2PA (pte_of (mem s) pt a) = page_addr (fr (vpn a)) \<and> fr (vpn a) < NPAGE
      \<and> 0 < page_refs s (fr (vpn a)) \<and> page_addr (fr (vpn a)) \<notin> tables (mem s) pt" if do_free
    using Suc.prems(4) a that unfolding unmappable_def by auto
  obtain r t where r: "walk pt a False s = Inr (r, s)" "r \<noteq> 0" "ld64 (mem s) r = pte_of (mem s) pt a"
    "(if do_free then kfree (PTE2PA (pte_of (mem s) pt a)) s else Inr s) = Inr t"
    and u: "kmem_inv (t\<lparr>mem := st64 (mem t) r 0\<rparr>)" "pt_inv (t\<lparr>mem := st64 (mem t) r 0\<rparr>) pt"
    "tables (st64 (mem t) r 0) pt = tables (mem s) pt"
    "\<forall>x. mid_of (st64 (mem t) r 0) pt x = mid_of (mem s) pt x"
    "\<forall>x. x < MAXVA \<longrightarrow> pte_of (st64 (mem t) r 0) pt x = (if vpn x = vpn a then 0 else pte_of (mem s) pt x)"
    "page_refs t = (if do_free then (page_refs s)(fr (vpn a) := page_refs s (fr (vpn a)) - 1) else page_refs s)"
    using unmap_one [OF Suc.prems(1,2) a h(1,2), of do_free "fr (vpn a)"] fk by blast
  let ?u = "t\<lparr>mem := st64 (mem t) r 0\<rparr>"
  have ru: "page_refs ?u = page_refs t" by (simp add: page_refs_def fun_eq_iff)
  have "unmappable ?u pt (a + PGSIZE) n do_free fr"
    using u by (intro unmappable_step [OF Suc.prems(4) a1(2)]) (simp_all add: ru del: MAXVA_def)
  with Suc.IH [OF u(1,2), of "a + PGSIZE"] a1(1) Suc.prems(3)
  obtain z where z: "uvmunmap_loop pt (a + PGSIZE) (a + PGSIZE + of_nat (4096 * n)) do_free ?u = Inr z"
    "kmem_inv z" "pt_inv z pt" "tables (mem z) pt = tables (mem ?u) pt"
    "\<forall>x. x < MAXVA \<longrightarrow> pte_of (mem z) pt x =
      (if vpn (a + PGSIZE) \<le> vpn x \<and> vpn x < vpn (a + PGSIZE) + n then 0 else pte_of (mem ?u) pt x)"
    "\<forall>k. page_refs z k = page_refs ?u k - (if do_free \<and> k \<in> fr ` {vpn (a + PGSIZE)..<vpn (a + PGSIZE) + n} then 1 else 0)"
    by auto
  have lst: "a + PGSIZE + of_nat (4096 * n) = a + of_nat (4096 * Suc n)" by (simp add: add.assoc)
  have "a < a + of_nat (4096 * Suc n)" unfolding word_less_nat_alt stop by simp
  then have run: "uvmunmap_loop pt a (a + of_nat (4096 * Suc n)) do_free s = Inr z"
    using r h z(1) unfolding lst by (subst uvmunmap_loop.simps) (auto split: if_splits)
  have pte: "pte_of (mem z) pt x = (if vpn a \<le> vpn x \<and> vpn x < vpn a + Suc n then 0 else pte_of (mem s) pt x)"
    if "x < MAXVA" for x
    using z(5) u(5) that a1(2) by (auto simp del: MAXVA_def)
  have refs: "page_refs z k = page_refs s k - (if do_free \<and> k \<in> fr ` {vpn a..<vpn a + Suc n} then 1 else 0)" for k
    using unmap_refs [OF Suc.prems(4) a1(2)] z(6) u(6) ru by simp
  show ?case using run z(2-4) u(3) pte refs by auto
qed

text \<open>
  C20: uvmunmap refines the removal of a range from the address space: on a range of mapped leaf pages it
  does not panic, clears exactly the entries of the range, keeps the table well formed, and, with
  do_free, drops one reference of each frame of the range and of no other.
\<close>

theorem uvmunmap_spec:
  assumes "kmem_inv s" "pt_inv s pt" "paligned va" "unat va + 4096 * unat npages \<le> 274877906944"
    "unmappable s pt va (unat npages) do_free fr"
  shows "\<exists>t. uvmunmap pt va npages do_free s = Inr t \<and> kmem_inv t \<and> pt_inv t pt
    \<and> (\<forall>x. x < MAXVA \<longrightarrow> pte_of (mem t) pt x =
         (if vpn va \<le> vpn x \<and> vpn x < vpn va + unat npages then 0 else pte_of (mem s) pt x))
    \<and> (\<forall>k. page_refs t k = page_refs s k - (if do_free \<and> k \<in> fr ` {vpn va..<vpn va + unat npages} then 1 else 0))"
proof -
  have "va + npages * PGSIZE = va + of_nat (4096 * unat npages)" by (simp add: mult.commute)
  moreover have "va mod PGSIZE = 0" using assms(3) by (simp only: paligned_def)
  ultimately have run: "uvmunmap pt va npages do_free s = uvmunmap_loop pt va (va + of_nat (4096 * unat npages)) do_free s"
    unfolding uvmunmap_def by (simp only: if_False simp_thms)
  show ?thesis using uvmunmap_loop_ok [OF assms(1,2,4,5)] unfolding run by blast
qed

definition vm2 :: kst where
  "vm2 = (take_page 5 (settled (take_page 2 (settled (take_page 1 (settled
     (take_page 0 (settled kfresh))))))))\<lparr>mem := mem1\<rparr>"

lemma vm2_props: "kmem_inv vm2" "pt_inv vm2 (page_addr 0)" "mem vm2 = mem1" "page_refs vm2 5 = 1"
proof -
  let ?a = "take_page 0 (settled kfresh)" and ?b = "\<lambda>s :: kst. take_page 1 (settled s)"
  let ?c = "\<lambda>s :: kst. take_page 2 (settled s)" and ?d = "\<lambda>s :: kst. take_page 5 (settled s)"
  note av = page_avail_def take_page_def kfresh_def kboot0_def hw.defs
  have "kmem_inv ?a" by (rule kmem_inv_change(1) [OF kfresh_inv]) (simp add: av)
  then have "kmem_inv (?b ?a)" by (rule kmem_inv_change(1)) (simp add: av)
  then have "kmem_inv (?c (?b ?a))" by (rule kmem_inv_change(1)) (simp add: av)
  then have "kmem_inv (?d (?c (?b ?a)))" by (rule kmem_inv_change(1)) (simp add: av)
  then show "kmem_inv vm2" unfolding vm2_def by simp
  have refs: "page_refs vm2 = (\<lambda>_. 0)(0 := 1, 1 := 1, 2 := 1, 5 := 1)"
    by (auto simp: vm2_def page_refs_def take_page_def kfresh_def kboot0_def hw.defs fun_eq_iff)
  show m: "mem vm2 = mem1" by (simp add: vm2_def)
  show "page_refs vm2 5 = 1" by (simp add: refs)
  show "pt_inv vm2 (page_addr 0)"
    unfolding pt_inv_def m mem1_props(2) refs using mem1_props(1) page_addr_inj by (auto simp: pt_inv_def)
qed

theorem uvmunmap_spec_witness:
  "\<exists>t. uvmunmap (page_addr 0) 0x1000 1 True vm2 = Inr t \<and> kmem_inv t
     \<and> pte_of (mem t) (page_addr 0) 0x1000 = 0 \<and> page_refs t 5 = 0"
proof -
  have v: "vpn 0x1000 = 1" by (simp add: vpn_def)
  have f: "pte1 AND PTE_V \<noteq> 0" using pte1_props(2) by (simp add: user_pte_def)
  have "unmappable vm2 (page_addr 0) 0x1000 1 True (\<lambda>_. 5)"
    unfolding unmappable_def vm2_props(3) v
    using mem1_props(3) mem1_props(4) f pte1_props pages_differ vm2_props(4)
    by (auto simp: base_only_def mem1_props(2) simp del: MAXVA_def)
  then have "\<exists>t. uvmunmap (page_addr 0) 0x1000 1 True vm2 = Inr t \<and> kmem_inv t \<and> pt_inv t (page_addr 0)
    \<and> (\<forall>x. x < MAXVA \<longrightarrow> pte_of (mem t) (page_addr 0) x =
         (if vpn 0x1000 \<le> vpn x \<and> vpn x < vpn 0x1000 + unat (1 :: u64) then 0 else pte_of (mem vm2) (page_addr 0) x))
    \<and> (\<forall>k. page_refs t k = page_refs vm2 k - (if True \<and> k \<in> (\<lambda>_. 5) ` {vpn 0x1000..<vpn 0x1000 + unat (1 :: u64)} then 1 else 0))"
    by (intro uvmunmap_spec [OF vm2_props(1,2)]) (simp_all add: paligned_def)
  then show ?thesis using vm2_props(4) v by (auto simp: image_iff)
qed

end
