(* ===== verification/File.thy ===== *)
theory File
  imports Uvm
begin

text \<open>
  The tables of open files (\<^verbatim>\<open>kernel/file.c\<close>) and of in-memory inodes
  (\<^verbatim>\<open>kernel/fs.c\<close>), as far as their reference counts go: the structures, and the
  operations that process creation uses.  A \<^verbatim>\<open>struct file *\<close> or \<^verbatim>\<open>struct inode *\<close> is an
  index into its table, the null pointer is \<open>None\<close>.  The sleep lock inside inode \<open>i\<close> is kept with the
  other sleep locks, under number \<open>30 + i\<close>.
\<close>

datatype ftype = FD_NONE | FD_PIPE | FD_INODE | FD_DEVICE

record kfile =
  f_type :: ftype
  f_ref :: int
  f_readable :: bool
  f_writable :: bool
  f_pipe :: u64
  f_ip :: "nat option"
  f_off :: u32
  f_major :: int

record sleeplock =
  slk_locked :: bool
  slk_name :: string
  slk_pid :: int

record inode =
  i_dev :: u32
  i_inum :: u32
  i_ref :: int
  i_valid :: bool
  i_type :: int
  i_major :: int
  i_minor :: int
  i_nlink :: int
  i_size :: u32
  i_addrs :: "nat \<Rightarrow> u32"

record filest = vmst +
  ftable :: "nat \<Rightarrow> kfile"
  itable :: "nat \<Rightarrow> inode"

definition fileinit :: "'a filest_scheme \<Rightarrow> 'a filest_scheme" where
  "fileinit s = initlock Lk_ftable ''ftable'' s"

definition filealloc :: "'a filest_scheme \<Rightarrow> (nat option \<times> 'a filest_scheme) res" where
  "filealloc = critical Lk_ftable (\<lambda>s.
     case find (\<lambda>f. f_ref (ftable s f) = 0) [0..<NFILE] of
       Some f \<Rightarrow> Inr (Some f, s\<lparr>ftable := (ftable s)(f := (ftable s f)\<lparr>f_ref := 1\<rparr>)\<rparr>)
     | None \<Rightarrow> Inr (None, s))"

definition filedup :: "nat \<Rightarrow> 'a filest_scheme \<Rightarrow> (nat \<times> 'a filest_scheme) res" where
  "filedup f = critical Lk_ftable (\<lambda>s.
     if f_ref (ftable s f) < 1 then Inl (Panic ''filedup'')
     else Inr (f, s\<lparr>ftable := (ftable s)(f := (ftable s f)\<lparr>f_ref := f_ref (ftable s f) + 1\<rparr>)\<rparr>))"

definition idup :: "nat \<Rightarrow> 'a filest_scheme \<Rightarrow> (nat \<times> 'a filest_scheme) res" where
  "idup ip = critical Lk_itable (\<lambda>s.
     Inr (ip, s\<lparr>itable := (itable s)(ip := (itable s ip)\<lparr>i_ref := i_ref (itable s ip) + 1\<rparr>)\<rparr>))"

end
