(* ===== verification/Proc.thy ===== *)
theory Proc
  imports File
begin

text \<open>
  \<^verbatim>\<open>kernel/proc.c\<close> without the memory-mapping code: the process table, allocation and
  release of processes, sleep and wakeup, kill, wait and the scheduler.

  A \<^verbatim>\<open>struct proc *\<close> is an index into \<^verbatim>\<open>proc[NPROC]\<close>; the null pointer is \<open>None\<close> and
  dereferencing it is the fault \<open>Wild\<close>.  The trapframe of a process is a page of physical
  memory, reached by its address.  \<open>pname\<close> is the string in \<^verbatim>\<open>name\<close>, without its null byte.
  A wait channel is the identity of the kernel object whose address the code uses.

  \<^verbatim>\<open>swtch\<close> (assembly) leaves a kernel thread in the middle of a function and resumes it
  later.  A function that calls it is split there: \<open>_enter\<close> is the code up to the switch,
  \<open>_leave\<close> the code after the thread is resumed.
\<close>

datatype procstate = UNUSED | USED | SLEEPING | RUNNABLE | RUNNING | ZOMBIE

datatype chan = Ch_null | Ch_proc nat | Ch_ticks | Ch_nread u64 | Ch_nwrite u64 | Ch_lock nat
  | Ch_log | Ch_buf nat | Ch_free | Ch_uart | Ch_cons

record proc =
  state :: procstate
  chan :: chan
  killed_flag :: bool
  xstate :: int
  pid :: int
  mmap_list :: "nat \<Rightarrow> u64"
  parent :: "nat option"
  kstack :: u64
  sz :: u64
  pagetable :: u64
  trapframe :: u64
  ctx_ra :: u64
  ctx_sp :: u64
  ofile :: "nat \<Rightarrow> nat option"
  cwd :: "nat option"
  pname :: "u8 list"

record procst = filest +
  procs :: "nat \<Rightarrow> proc"
  initproc :: "nat option"
  nextpid :: int
  pagefaults :: int
  ticks :: u32
  forkret_sym :: u64

definition upd_proc :: "nat \<Rightarrow> (proc \<Rightarrow> proc) \<Rightarrow> 'a procst_scheme \<Rightarrow> 'a procst_scheme" where
  "upd_proc p f s = s\<lparr>procs := (procs s)(p := f (procs s p))\<rparr>"

section \<open>Pointers\<close>

definition ld_ptr :: "u64 \<Rightarrow> 'a kst_scheme \<Rightarrow> u64 res" where
  "ld_ptr a s = (if a = 0 then Inl Wild else Inr (ld64 (mem s) a))"

definition st_ptr :: "u64 \<Rightarrow> u64 \<Rightarrow> 'a kst_scheme \<Rightarrow> 'a kst_scheme res" where
  "st_ptr a v s = (if a = 0 then Inl Wild else Inr (s\<lparr>mem := st64 (mem s) a v\<rparr>))"

definition deref :: "'p option \<Rightarrow> 'p res" where
  "deref p = (case p of None \<Rightarrow> Inl Wild | Some p \<Rightarrow> Inr p)"

text \<open>Offsets of the fields of \<^verbatim>\<open>struct trapframe\<close>.\<close>

definition TF_kernel_satp :: u64 where "TF_kernel_satp = 0"
definition TF_kernel_sp :: u64 where "TF_kernel_sp = 8"
definition TF_kernel_trap :: u64 where "TF_kernel_trap = 16"
definition TF_epc :: u64 where "TF_epc = 24"
definition TF_kernel_hartid :: u64 where "TF_kernel_hartid = 32"
definition TF_sp :: u64 where "TF_sp = 48"
definition TF_a :: "nat \<Rightarrow> u64" where "TF_a n = 112 + 8 * of_nat n"

definition TF_size :: nat where "TF_size = 288"

text \<open>Access to a field of the trapframe of a process.\<close>

definition tf_ld :: "nat \<Rightarrow> u64 \<Rightarrow> 'a procst_scheme \<Rightarrow> u64 res" where
  "tf_ld p off s =
     (if trapframe (procs s p) = 0 then Inl Wild else Inr (ld64 (mem s) (trapframe (procs s p) + off)))"

definition tf_st :: "nat \<Rightarrow> u64 \<Rightarrow> u64 \<Rightarrow> 'a procst_scheme \<Rightarrow> 'a procst_scheme res" where
  "tf_st p off v s =
     (if trapframe (procs s p) = 0 then Inl Wild
      else Inr (s\<lparr>mem := st64 (mem s) (trapframe (procs s p) + off) v\<rparr>))"

section \<open>The process table\<close>

definition procinit :: "'a procst_scheme \<Rightarrow> 'a procst_scheme" where
  "procinit s = fold (\<lambda>p s.
       upd_proc p (\<lambda>q. q\<lparr>state := UNUSED, kstack := KSTACK (of_nat p)\<rparr>) (initlock (Lk_proc p) ''proc'' s))
     [0..<NPROC] (initlock Lk_wait ''wait_lock'' (initlock Lk_pid ''nextpid'' s))"

definition myproc :: "'a hw_scheme \<Rightarrow> (nat option \<times> 'a hw_scheme) res" where
  "myproc s =
     (let s = push_off s; p = cpu_proc (mycpu s)
      in ebind (pop_off s) (\<lambda>s. Inr (p, s)))"

definition this_proc :: "'a hw_scheme \<Rightarrow> (nat \<times> 'a hw_scheme) res" where
  "this_proc s = ebind (myproc s) (\<lambda>(p, s). ebind (deref p) (\<lambda>p. Inr (p, s)))"

definition allocpid :: "'a procst_scheme \<Rightarrow> (int \<times> 'a procst_scheme) res" where
  "allocpid = critical Lk_pid (\<lambda>s. Inr (nextpid s, s\<lparr>nextpid := nextpid s + 1\<rparr>))"

section \<open>Page tables of processes\<close>

definition proc_pagetable :: "nat \<Rightarrow> 'a procst_scheme \<Rightarrow> (u64 \<times> 'a procst_scheme) res" where
  "proc_pagetable p s =
     ebind (uvmcreate s) (\<lambda>(pt, s).
     if pt = 0 then Inr (0, s)
     else ebind (mappages pt TRAMPOLINE PGSIZE (trampoline s) (PTE_R OR PTE_X) s) (\<lambda>(r, s).
     if r < 0 then ebind (uvmfree pt 0 s) (\<lambda>s. Inr (0, s))
     else ebind (mappages pt TRAPFRAME PGSIZE (trapframe (procs s p)) (PTE_R OR PTE_W) s) (\<lambda>(r, s).
     if r < 0 then ebind (uvmunmap pt TRAMPOLINE 1 False s) (\<lambda>s.
                   ebind (uvmfree pt 0 s) (\<lambda>s. Inr (0, s)))
     else Inr (pt, s))))"

text \<open>
  The loop over the pages of a mapping that \<^verbatim>\<open>proc_freepagetable\<close> and \<^verbatim>\<open>sys_munmap\<close> have in
  common: pages that were never touched have no valid entry and are skipped.
\<close>

function munmap_loop :: "u64 \<Rightarrow> u64 \<Rightarrow> u64 \<Rightarrow> 'a kst_scheme \<Rightarrow> 'a kst_scheme res" where
  "munmap_loop pt a stop s =
     (if a < stop
      then ebind (walk pt a False s) (\<lambda>(pte, s).
        if pte = 0 then munmap_loop pt (a + PGSIZE) stop s
        else if ld64 (mem s) pte AND PTE_V = 0 then munmap_loop pt (a + PGSIZE) stop s
        else if PTE_FLAGS (ld64 (mem s) pte) = PTE_V then Inl (Panic ''munmap: not a leaf'')
        else ebind (kfree (PTE2PA (ld64 (mem s) pte)) s) (\<lambda>s.
             munmap_loop pt (a + PGSIZE) stop (s\<lparr>mem := st64 (mem s) pte 0\<rparr>)))
      else Inr s)"
  by pat_completeness auto
termination
  by (relation "measure (\<lambda>(pt, a, stop, s). 274877906944 - unat a)")
    (auto dest!: walk_below simp: unat_u64_add)

declare munmap_loop.simps [simp del]

definition clear_mmap :: "nat \<Rightarrow> proc \<Rightarrow> proc" where
  "clear_mmap i q = q\<lparr>mmap_list := (mmap_list q)(i := 0, i + 1 := 0, i + 2 := 0)\<rparr>"

definition free_mapping :: "u64 \<Rightarrow> nat \<Rightarrow> nat \<Rightarrow> 'a procst_scheme \<Rightarrow> 'a procst_scheme res" where
  "free_mapping pt p i s =
     (let addr = mmap_list (procs s p) i; len = mmap_list (procs s p) (i + 1)
      in if addr \<noteq> 0
         then ebind (if mmap_list (procs s p) (i + 2) AND HUGE_MASK \<noteq> 0
                     then uvmunmap_huge pt addr (len div HUGEPGSIZE) True s
                     else munmap_loop pt addr (addr + len) s) (\<lambda>s.
              Inr (upd_proc p (clear_mmap i) s))
         else Inr s)"

definition proc_freepagetable :: "u64 \<Rightarrow> u64 \<Rightarrow> nat \<Rightarrow> 'a procst_scheme \<Rightarrow> 'a procst_scheme res" where
  "proc_freepagetable pt psz p s =
     ebind (uvmunmap pt TRAMPOLINE 1 False s) (\<lambda>s.
     ebind (uvmunmap pt TRAPFRAME 1 False s) (\<lambda>s.
     ebind (efold (free_mapping pt p) [0, 3, 6, 9] s)
     (uvmfree pt psz)))"

section \<open>Allocation and release of processes\<close>

definition freeproc :: "nat \<Rightarrow> 'a procst_scheme \<Rightarrow> 'a procst_scheme res" where
  "freeproc p s =
     ebind (if trapframe (procs s p) \<noteq> 0 then kfree (trapframe (procs s p)) s else Inr s) (\<lambda>s.
     let s = upd_proc p (\<lambda>q. q\<lparr>trapframe := 0\<rparr>) s in
     ebind (if pagetable (procs s p) \<noteq> 0
            then proc_freepagetable (pagetable (procs s p)) (sz (procs s p)) p s else Inr s) (\<lambda>s.
     Inr (upd_proc p (\<lambda>q. q\<lparr>pagetable := 0, sz := 0, pid := 0, parent := None, pname := [],
       chan := Ch_null, killed_flag := False, xstate := 0, state := UNUSED\<rparr>) s)))"

primrec allocproc_scan :: "nat list \<Rightarrow> 'a procst_scheme \<Rightarrow> (nat option \<times> 'a procst_scheme) res" where
  "allocproc_scan [] s = Inr (None, s)"
| "allocproc_scan (p # ps) s =
     ebind (acquire (Lk_proc p) s) (\<lambda>s.
     if state (procs s p) = UNUSED then Inr (Some p, s)
     else ebind (release (Lk_proc p) s) (allocproc_scan ps))"

definition allocproc_fail :: "nat \<Rightarrow> 'a procst_scheme \<Rightarrow> (nat option \<times> 'a procst_scheme) res" where
  "allocproc_fail p s =
     ebind (freeproc p s) (\<lambda>s. ebind (release (Lk_proc p) s) (\<lambda>s. Inr (None, s)))"

definition allocproc :: "'a procst_scheme \<Rightarrow> (nat option \<times> 'a procst_scheme) res" where
  "allocproc s =
     ebind (allocproc_scan [0..<NPROC] s) (\<lambda>(f, s).
     case f of None \<Rightarrow> Inr (None, s)
     | Some p \<Rightarrow>
       ebind (allocpid s) (\<lambda>(i, s).
       let s = upd_proc p (\<lambda>q. q\<lparr>pid := i, state := USED\<rparr>) s in
       ebind (kalloc s) (\<lambda>(tf, s).
       let s = upd_proc p (\<lambda>q. q\<lparr>trapframe := tf\<rparr>) s in
       if tf = 0 then allocproc_fail p s
       else ebind (proc_pagetable p s) (\<lambda>(pt, s).
       let s = upd_proc p (\<lambda>q. q\<lparr>pagetable := pt\<rparr>) s in
       if pt = 0 then allocproc_fail p s
       else Inr (Some p,
         upd_proc p (\<lambda>q. q\<lparr>ctx_ra := forkret_sym s, ctx_sp := kstack q + PGSIZE\<rparr>) s)))))"

definition growproc :: "int \<Rightarrow> 'a procst_scheme \<Rightarrow> (int \<times> 'a procst_scheme) res" where
  "growproc n s =
     ebind (this_proc s) (\<lambda>(p, s).
     let pt = pagetable (procs s p); psz = sz (procs s p) in
     if 0 < n
     then ebind (uvmalloc pt psz (psz + of_int n) PTE_W s) (\<lambda>(r, s).
          if r = 0 then Inr (-1, s) else Inr (0, upd_proc p (\<lambda>q. q\<lparr>sz := r\<rparr>) s))
     else if n < 0
     then ebind (uvmdealloc pt psz (psz + of_int n) s) (\<lambda>(r, s).
          Inr (0, upd_proc p (\<lambda>q. q\<lparr>sz := r\<rparr>) s))
     else Inr (0, s))"

section \<open>Sleep, wakeup and the scheduler\<close>

definition sched_enter :: "'a procst_scheme \<Rightarrow> (bool \<times> 'a procst_scheme) res" where
  "sched_enter s =
     ebind (this_proc s) (\<lambda>(p, s).
     if \<not> holding (Lk_proc p) s then Inl (Panic ''sched p->lock'')
     else if noff (mycpu s) \<noteq> 1 then Inl (Panic ''sched locks'')
     else if state (procs s p) = RUNNING then Inl (Panic ''sched running'')
     else if intr_get s then Inl (Panic ''sched interruptible'')
     else Inr (intena (mycpu s), s))"

definition sched_leave :: "bool \<Rightarrow> 'a procst_scheme \<Rightarrow> 'a procst_scheme" where
  "sched_leave intena0 s = set_mycpu ((mycpu s)\<lparr>intena := intena0\<rparr>) s"

definition yield_enter :: "'a procst_scheme \<Rightarrow> (bool \<times> 'a procst_scheme) res" where
  "yield_enter s =
     ebind (this_proc s) (\<lambda>(p, s).
     ebind (acquire (Lk_proc p) s) (\<lambda>s.
     sched_enter (upd_proc p (\<lambda>q. q\<lparr>state := RUNNABLE\<rparr>) s)))"

definition yield_leave :: "nat \<Rightarrow> bool \<Rightarrow> 'a procst_scheme \<Rightarrow> 'a procst_scheme res" where
  "yield_leave p intena0 s = release (Lk_proc p) (sched_leave intena0 s)"

text \<open>One round of the inner loop of \<^verbatim>\<open>scheduler\<close>, up to the switch to the process and after it.\<close>

definition scheduler_enter :: "nat \<Rightarrow> 'a procst_scheme \<Rightarrow> (bool \<times> 'a procst_scheme) res" where
  "scheduler_enter p s =
     ebind (acquire (Lk_proc p) s) (\<lambda>s.
     if state (procs s p) = RUNNABLE
     then let s = upd_proc p (\<lambda>q. q\<lparr>state := RUNNING\<rparr>) s
          in Inr (True, set_mycpu ((mycpu s)\<lparr>cpu_proc := Some p\<rparr>) s)
     else ebind (release (Lk_proc p) s) (\<lambda>s. Inr (False, s)))"

definition scheduler_leave :: "nat \<Rightarrow> 'a procst_scheme \<Rightarrow> 'a procst_scheme res" where
  "scheduler_leave p s = release (Lk_proc p) (set_mycpu ((mycpu s)\<lparr>cpu_proc := None\<rparr>) s)"

text \<open>
  The actions of \<^verbatim>\<open>sleep\<close> and \<^verbatim>\<open>wakeup\<close> that other harts can observe one by one, and the two
  functions as sequences of them.  \<open>Switch\<close> is the rest of the round of \<^verbatim>\<open>scheduler\<close> that the
  switch in \<^verbatim>\<open>sched\<close> resumes.
\<close>

datatype pact = Acq lockid | Rel lockid | Set_chan nat chan | Set_state nat procstate | Wake nat chan
  | Sched | Switch nat

primrec act :: "pact \<Rightarrow> 'a procst_scheme \<Rightarrow> 'a procst_scheme res" where
  "act (Acq l) s = acquire l s"
| "act (Rel l) s = release l s"
| "act (Set_chan p ch) s = Inr (upd_proc p (\<lambda>q. q\<lparr>chan := ch\<rparr>) s)"
| "act (Set_state p st) s = Inr (upd_proc p (\<lambda>q. q\<lparr>state := st\<rparr>) s)"
| "act (Wake p ch) s =
     Inr (if state (procs s p) = SLEEPING \<and> chan (procs s p) = ch
          then upd_proc p (\<lambda>q. q\<lparr>state := RUNNABLE\<rparr>) s else s)"
| "act Sched s = ebind (sched_enter s) (\<lambda>(_, s). Inr s)"
| "act (Switch p) s = scheduler_leave p s"

definition sleep_acts :: "chan \<Rightarrow> lockid \<Rightarrow> nat \<Rightarrow> pact list" where
  "sleep_acts ch lk p = [Acq (Lk_proc p), Rel lk, Set_chan p ch, Set_state p SLEEPING]"

definition wakeup_acts :: "chan \<Rightarrow> nat \<Rightarrow> pact list" where
  "wakeup_acts ch p = [Acq (Lk_proc p), Wake p ch, Rel (Lk_proc p)]"

definition sleep_enter :: "chan \<Rightarrow> lockid \<Rightarrow> 'a procst_scheme \<Rightarrow> (bool \<times> 'a procst_scheme) res" where
  "sleep_enter ch lk s =
     ebind (this_proc s) (\<lambda>(p, s). ebind (efold act (sleep_acts ch lk p) s) sched_enter)"

definition sleep_leave :: "nat \<Rightarrow> lockid \<Rightarrow> bool \<Rightarrow> 'a procst_scheme \<Rightarrow> 'a procst_scheme res" where
  "sleep_leave p lk intena0 s =
     ebind (release (Lk_proc p) (upd_proc p (\<lambda>q. q\<lparr>chan := Ch_null\<rparr>) (sched_leave intena0 s)))
       (acquire lk)"

definition wakeup_one :: "chan \<Rightarrow> nat \<Rightarrow> 'a procst_scheme \<Rightarrow> 'a procst_scheme res" where
  "wakeup_one ch p s =
     ebind (myproc s) (\<lambda>(me, s).
     if me = Some p then Inr s else efold act (wakeup_acts ch p) s)"

definition wakeup :: "chan \<Rightarrow> 'a procst_scheme \<Rightarrow> 'a procst_scheme res" where
  "wakeup ch = efold (wakeup_one ch) [0..<NPROC]"

section \<open>Kill, exit and wait\<close>

primrec kill_scan :: "int \<Rightarrow> nat list \<Rightarrow> 'a procst_scheme \<Rightarrow> (int \<times> 'a procst_scheme) res" where
  "kill_scan k [] s = Inr (-1, s)"
| "kill_scan k (p # ps) s =
     ebind (acquire (Lk_proc p) s) (\<lambda>s.
     if pid (procs s p) = k
     then let s = upd_proc p (\<lambda>q. q\<lparr>killed_flag := True\<rparr>) s;
              s = (if state (procs s p) = SLEEPING then upd_proc p (\<lambda>q. q\<lparr>state := RUNNABLE\<rparr>) s else s)
          in ebind (release (Lk_proc p) s) (\<lambda>s. Inr (0, s))
     else ebind (release (Lk_proc p) s) (kill_scan k ps))"

definition kill :: "int \<Rightarrow> 'a procst_scheme \<Rightarrow> (int \<times> 'a procst_scheme) res" where
  "kill k = kill_scan k [0..<NPROC]"

definition setkilled :: "nat \<Rightarrow> 'a procst_scheme \<Rightarrow> 'a procst_scheme res" where
  "setkilled p = critical0 (Lk_proc p) (\<lambda>s. Inr (upd_proc p (\<lambda>q. q\<lparr>killed_flag := True\<rparr>) s))"

definition killed :: "nat \<Rightarrow> 'a procst_scheme \<Rightarrow> (bool \<times> 'a procst_scheme) res" where
  "killed p = critical (Lk_proc p) (\<lambda>s. Inr (killed_flag (procs s p), s))"

definition reparent_one :: "nat \<Rightarrow> nat \<Rightarrow> 'a procst_scheme \<Rightarrow> 'a procst_scheme res" where
  "reparent_one p pp s =
     (if parent (procs s pp) = Some p
      then let s = upd_proc pp (\<lambda>q. q\<lparr>parent := initproc s\<rparr>) s
           in wakeup (case initproc s of None \<Rightarrow> Ch_null | Some i \<Rightarrow> Ch_proc i) s
      else Inr s)"

definition reparent :: "nat \<Rightarrow> 'a procst_scheme \<Rightarrow> 'a procst_scheme res" where
  "reparent p = efold (reparent_one p) [0..<NPROC]"

text \<open>
  The end of \<^verbatim>\<open>exit\<close>, after its open files and current directory are closed: hand over the
  children, become a zombie and enter the scheduler for the last time.
\<close>

definition exit_zombie :: "nat \<Rightarrow> int \<Rightarrow> 'a procst_scheme \<Rightarrow> (bool \<times> 'a procst_scheme) res" where
  "exit_zombie p status s =
     ebind (acquire Lk_wait s) (\<lambda>s.
     ebind (reparent p s) (\<lambda>s.
     ebind (wakeup (case parent (procs s p) of None \<Rightarrow> Ch_null | Some i \<Rightarrow> Ch_proc i) s) (\<lambda>s.
     ebind (acquire (Lk_proc p) s) (\<lambda>s.
     ebind (release Lk_wait (upd_proc p (\<lambda>q. q\<lparr>xstate := status, state := ZOMBIE\<rparr>) s))
     sched_enter))))"

text \<open>The four bytes of a C \<^verbatim>\<open>int\<close>, least significant first.\<close>

definition int_bytes :: "int \<Rightarrow> u8 list" where
  "int_bytes i = map (\<lambda>k. ucast (drop_bit (8 * k) (of_int i :: u32))) [0..<4]"

text \<open>
  One scan of \<^verbatim>\<open>wait\<close> over the process table.  It ends with a result of the call, or with
  whether there are children at all.
\<close>

primrec wait_scan ::
  "nat \<Rightarrow> u64 \<Rightarrow> nat list \<Rightarrow> bool \<Rightarrow> 'a procst_scheme \<Rightarrow> ((int + bool) \<times> 'a procst_scheme) res"
where
  "wait_scan p addr [] havekids s = Inr (Inr havekids, s)"
| "wait_scan p addr (pp # pps) havekids s =
     (if parent (procs s pp) = Some p
      then ebind (acquire (Lk_proc pp) s) (\<lambda>s.
        if state (procs s pp) = ZOMBIE
        then let child = pid (procs s pp)
             in ebind (if addr \<noteq> 0
                       then copyout (pagetable (procs s p)) addr (int_bytes (xstate (procs s pp))) s
                       else Inr (0, s)) (\<lambda>(r, s).
                if r < 0
                then ebind (release (Lk_proc pp) s) (\<lambda>s.
                     ebind (release Lk_wait s) (\<lambda>s. Inr (Inl (-1), s)))
                else ebind (freeproc pp s) (\<lambda>s.
                     ebind (release (Lk_proc pp) s) (\<lambda>s.
                     ebind (release Lk_wait s) (\<lambda>s. Inr (Inl child, s)))))
        else ebind (release (Lk_proc pp) s) (wait_scan p addr pps True))
      else wait_scan p addr pps havekids s)"

text \<open>
  One round of the outer loop of \<^verbatim>\<open>wait\<close>, with \<^verbatim>\<open>wait_lock\<close> held: a result of the call, or
  \<open>None\<close> when it goes to sleep on the process itself.
\<close>

definition wait_round ::
  "nat \<Rightarrow> u64 \<Rightarrow> 'a procst_scheme \<Rightarrow> ((int option \<times> bool) \<times> 'a procst_scheme) res"
where
  "wait_round p addr s =
     ebind (wait_scan p addr [0..<NPROC] False s) (\<lambda>(r, s).
     case r of Inl v \<Rightarrow> Inr ((Some v, False), s)
     | Inr havekids \<Rightarrow>
       ebind (if havekids then killed p s else Inr (True, s)) (\<lambda>(k, s).
       if k then ebind (release Lk_wait s) (\<lambda>s. Inr ((Some (-1), False), s))
       else ebind (sleep_enter (Ch_proc p) Lk_wait s) (\<lambda>(i, s). Inr ((None, i), s))))"

definition wait :: "u64 \<Rightarrow> 'a procst_scheme \<Rightarrow> ((int option \<times> bool) \<times> 'a procst_scheme) res" where
  "wait addr s =
     ebind (this_proc s) (\<lambda>(p, s). ebind (acquire Lk_wait s) (wait_round p addr))"

text \<open>A sleeping \<^verbatim>\<open>wait\<close> resumes with the next round.\<close>

definition wait_resume ::
  "nat \<Rightarrow> u64 \<Rightarrow> bool \<Rightarrow> 'a procst_scheme \<Rightarrow> ((int option \<times> bool) \<times> 'a procst_scheme) res"
where
  "wait_resume p addr intena0 s = ebind (sleep_leave p Lk_wait intena0 s) (wait_round p addr)"

section \<open>Copies to and from either space\<close>

definition either_copyout :: "bool \<Rightarrow> u64 \<Rightarrow> u8 list \<Rightarrow> 'a procst_scheme \<Rightarrow> (int \<times> 'a procst_scheme) res" where
  "either_copyout user_dst dst src s =
     ebind (myproc s) (\<lambda>(p, s).
     if user_dst then ebind (deref p) (\<lambda>p. copyout (pagetable (procs s p)) dst src s)
     else Inr (0, s\<lparr>mem := put_bytes (mem s) dst src\<rparr>))"

definition either_copyin ::
  "bool \<Rightarrow> u64 \<Rightarrow> nat \<Rightarrow> 'a procst_scheme \<Rightarrow> ((int \<times> u8 list) \<times> 'a procst_scheme) res"
where
  "either_copyin user_src src len s =
     ebind (myproc s) (\<lambda>(p, s).
     if user_src then ebind (deref p) (\<lambda>p. copyin (pagetable (procs s p)) src len s)
     else Inr ((0, get_bytes (mem s) src len), s))"

end
