(* ===== verification/Mmap.thy ===== *)
theory Mmap
  imports Proc
begin

text \<open>
  Memory mappings: \<^verbatim>\<open>sys_mmap\<close> and \<^verbatim>\<open>sys_munmap\<close> (\<^verbatim>\<open>kernel/sysproc.c\<close>), the page-fault
  handler that allocates pages on demand and copies on write, and \<^verbatim>\<open>fork\<close> with its sharing of
  mapped pages (\<^verbatim>\<open>kernel/proc.c\<close>).  A process has four mappings; each is three words of
  \<^verbatim>\<open>mmap_list\<close>: address, length, and protection with flags.
\<close>

section \<open>Arguments of system calls\<close>

definition argraw :: "nat \<Rightarrow> 'a procst_scheme \<Rightarrow> (u64 \<times> 'a procst_scheme) res" where
  "argraw n s =
     ebind (this_proc s) (\<lambda>(p, s).
     if n < 6 then ebind (tf_ld p (TF_a n) s) (\<lambda>v. Inr (v, s)) else Inl (Panic ''argraw''))"

definition argint :: "nat \<Rightarrow> 'a procst_scheme \<Rightarrow> (int \<times> 'a procst_scheme) res" where
  "argint n s = ebind (argraw n s) (\<lambda>(v, s). Inr (sint (ucast v :: u32), s))"

definition argaddr :: "nat \<Rightarrow> 'a procst_scheme \<Rightarrow> (u64 \<times> 'a procst_scheme) res" where
  "argaddr n s = argraw n s"

section \<open>mmap and munmap\<close>

text \<open>The checks of \<^verbatim>\<open>sys_mmap\<close> on its arguments.\<close>

definition mmap_args_ok :: "u64 \<Rightarrow> int \<Rightarrow> int \<Rightarrow> int \<Rightarrow> bool" where
  "mmap_args_ok addr len prot flags \<longleftrightarrow>
     \<not> (addr < PHYSTOP \<or> MAXVA - 0x10000000 < addr \<or> addr mod PGSIZE \<noteq> 0)
   \<and> \<not> (len \<le> 0 \<or> 32 * 2097152 < len)
   \<and> (prot = 1 \<or> prot = 2)
   \<and> (flags = 0x10 \<or> flags = 0x20 \<or> flags = 0x110 \<or> flags = 0x120)"

text \<open>The length rounded up to whole pages of the kind asked for.\<close>

definition mmap_length :: "int \<Rightarrow> int \<Rightarrow> u64" where
  "mmap_length len flags =
     (if 0x20 < flags then HUGEPGROUNDUP (of_int len) else PGROUNDUP (of_int len))"

text \<open>The slot of \<^verbatim>\<open>mmap_list\<close> at index \<open>i\<close> overlaps the new mapping.\<close>

definition mmap_overlap :: "(nat \<Rightarrow> u64) \<Rightarrow> u64 \<Rightarrow> u64 \<Rightarrow> nat \<Rightarrow> bool" where
  "mmap_overlap ml addr len i \<longleftrightarrow>
     ml i \<le> addr \<and> addr < ml i + ml (i + 1) \<or> addr \<le> ml i \<and> ml i < addr + len"

definition slots :: "nat list" where
  "slots = [0, 3, 6, 9]"

definition mmap_body :: "nat \<Rightarrow> u64 \<Rightarrow> u64 \<Rightarrow> int \<Rightarrow> int \<Rightarrow> 'a procst_scheme \<Rightarrow> (u64 \<times> 'a procst_scheme) res" where
  "mmap_body p addr len prot flags s =
     (if list_ex (mmap_overlap (mmap_list (procs s p)) addr len) slots then Inr (0, s)
      else Inr (addr,
        case find (\<lambda>i. mmap_list (procs s p) i = 0) slots of None \<Rightarrow> s
        | Some i \<Rightarrow> upd_proc p (\<lambda>q. q\<lparr>mmap_list :=
            (mmap_list q)(i := addr, i + 1 := len, i + 2 := of_int prot OR of_int flags)\<rparr>) s))"

definition sys_mmap :: "'a procst_scheme \<Rightarrow> (u64 \<times> 'a procst_scheme) res" where
  "sys_mmap s =
     ebind (argaddr 0 s) (\<lambda>(addr, s).
     ebind (argint 1 s) (\<lambda>(len, s).
     ebind (argint 2 s) (\<lambda>(prot, s).
     ebind (argint 3 s) (\<lambda>(flags, s).
     if \<not> mmap_args_ok addr len prot flags then Inr (0, s)
     else ebind (this_proc s) (\<lambda>(p, s).
          critical Lk_mmap (mmap_body p addr (mmap_length len flags) prot flags) s)))))"

definition munmap_body :: "nat \<Rightarrow> u64 \<Rightarrow> 'a procst_scheme \<Rightarrow> (u64 \<times> 'a procst_scheme) res" where
  "munmap_body p addr s =
     (case find (\<lambda>i. addr = mmap_list (procs s p) i) slots of
        None \<Rightarrow> Inr (-1, s)
      | Some i \<Rightarrow>
          let len = sint (ucast (mmap_list (procs s p) (i + 1)) :: u32);
              flags = sint (ucast (mmap_list (procs s p) (i + 2)) :: u32)
          in ebind (if (0x100 :: int) AND flags \<noteq> 0
                    then uvmunmap_huge (pagetable (procs s p)) addr
                           (of_int (sgn len * (\<bar>len\<bar> div 2097152))) True s
                    else munmap_loop (pagetable (procs s p)) addr (addr + of_int len) s) (\<lambda>s.
             Inr (0, upd_proc p (clear_mmap i) s)))"

definition sys_munmap :: "'a procst_scheme \<Rightarrow> (u64 \<times> 'a procst_scheme) res" where
  "sys_munmap s =
     ebind (argaddr 0 s) (\<lambda>(addr, s).
     if addr mod 4096 \<noteq> 0 \<or> addr < PHYSTOP \<or> MAXVA - 0x10000000 < addr then Inr (-1, s)
     else ebind (this_proc s) (\<lambda>(p, s). critical Lk_mmap (munmap_body p addr) s))"

section \<open>Entry flags\<close>

definition create_pte_flag :: "u64 \<Rightarrow> bool \<Rightarrow> bool \<Rightarrow> u64" where
  "create_pte_flag m_flags isSharedNotMapped is_cow_private =
     (let fl = 1 :: u32;
          fl = (if m_flags AND PROT_MASK = PROT_READ then fl + 2 else fl + 6);
          fl = fl + 16;
          fl = (if m_flags AND FLAG_MASK = MAP_PRIVATE then fl + 256 else fl);
          fl = (if isSharedNotMapped then fl - 1 + 512 else fl);
          fl = (if is_cow_private
                then let fl = fl + 512
                     in if m_flags AND PROT_MASK = PROT_WRITE then fl - 4 else fl
                else fl)
      in ucast fl)"

section \<open>The page-fault handler\<close>

definition find_mapping :: "(nat \<Rightarrow> u64) \<Rightarrow> u64 \<Rightarrow> nat option" where
  "find_mapping ml va = find (\<lambda>i. ml i \<noteq> 0 \<and> ml i \<le> va \<and> va < ml i + ml (i + 1)) slots"

definition fault_perm :: "u64 \<Rightarrow> u64" where
  "fault_perm b =
     (let perm = 1 :: u64;
          perm = (if b AND PROT_MASK = PROT_READ then perm + 2 else perm + 6);
          perm = perm + 16
      in if b AND FLAG_MASK = MAP_PRIVATE then perm + 256 else perm)"

text \<open>
  A page of a shared mapping that no process had touched is now allocated: enter it in
  the tables of the other processes that wait for it.
\<close>

definition connect_one ::
  "(u64 \<Rightarrow> u64 \<Rightarrow> bool \<Rightarrow> 'a procst_scheme \<Rightarrow> (u64 \<times> 'a procst_scheme) res) \<Rightarrow>
   (u64 \<Rightarrow> 'a procst_scheme \<Rightarrow> 'a procst_scheme res) \<Rightarrow>
   nat \<Rightarrow> u64 \<Rightarrow> u64 \<Rightarrow> u64 \<Rightarrow> nat \<Rightarrow> 'a procst_scheme \<Rightarrow> 'a procst_scheme res"
where
  "connect_one wk incr p addr leaf_pte pa np = critical0 (Lk_proc np) (\<lambda>s.
     if pagetable (procs s np) = 0 then Inr s
     else if pid (procs s np) = pid (procs s p) then Inr s
     else ebind (wk (pagetable (procs s np)) addr False s) (\<lambda>(np_pte, s).
          if np_pte = 0 then Inr s
          else let e = ld64 (mem s) np_pte
               in if e AND PTE_CoW = 0x200 \<and> e AND PTE_R \<noteq> 0 \<and> e AND PTE_V = 0
                  then incr pa (s\<lparr>mem := st64 (mem s) np_pte (ld64 (mem s) leaf_pte)\<rparr>)
                  else Inr s))"

text \<open>The part of the handler for a huge page; the result is whether the process is to be killed.\<close>

definition fault_huge :: "u64 \<Rightarrow> nat \<Rightarrow> u64 \<Rightarrow> u64 \<Rightarrow> 'a procst_scheme \<Rightarrow> (bool \<times> 'a procst_scheme) res" where
  "fault_huge scause p addr b s =
     ebind (walk_huge (pagetable (procs s p)) addr True s) (\<lambda>(leaf_pte, s).
     ebind (ld_ptr leaf_pte s) (\<lambda>e.
     if e AND PTE_V \<noteq> 0
     then if scause = 15 \<and> e AND PTE_W = 0
          then if e AND PTE_CoW = 0x300 \<and> e AND PTE_R \<noteq> 0
               then ebind (kalloc_huge s) (\<lambda>(new_page, s).
                    if new_page = 0 then Inl Wild
                    else let s = s\<lparr>mem := memmove (mem s) new_page (PTE2PA (ld64 (mem s) leaf_pte)) 2097152\<rparr>
                         in ebind (kfree_huge (PTE2PA (ld64 (mem s) leaf_pte)) s) (\<lambda>s.
                            Inr (False, s\<lparr>mem := st64 (mem s) leaf_pte
                              (PA2PTE new_page OR create_pte_flag b False False)\<rparr>)))
               else Inr (True, s)
          else Inr (False, s)
     else if e AND PTE_CoW = 0x200 \<and> e AND PTE_R \<noteq> 0
     then ebind (kalloc_huge s) (\<lambda>(pa, s).
          let s = s\<lparr>mem := st64 (mem s) leaf_pte (PA2PTE pa OR fault_perm b)\<rparr>
          in ebind (efold (connect_one walk_huge incr_huge_pa_ref p addr leaf_pte pa) [0..<NPROC] s) (\<lambda>s.
             Inr (False, s)))
     else ebind (kalloc_huge s) (\<lambda>(pa, s).
          Inr (False, s\<lparr>mem := st64 (mem s) leaf_pte (PA2PTE pa OR fault_perm b)\<rparr>))))"

definition fault_base :: "u64 \<Rightarrow> nat \<Rightarrow> u64 \<Rightarrow> u64 \<Rightarrow> 'a procst_scheme \<Rightarrow> (bool \<times> 'a procst_scheme) res" where
  "fault_base scause p addr b s =
     ebind (walk (pagetable (procs s p)) addr True s) (\<lambda>(leaf_pte, s).
     ebind (ld_ptr leaf_pte s) (\<lambda>e.
     if e AND PTE_V \<noteq> 0
     then if scause = 15 \<and> e AND PTE_W = 0
          then if e AND PTE_CoW = 0x300 \<and> e AND PTE_R \<noteq> 0
               then ebind (kalloc s) (\<lambda>(new_page, s).
                    if new_page = 0 then Inl Wild
                    else let s = s\<lparr>mem := memmove (mem s) new_page (PTE2PA (ld64 (mem s) leaf_pte)) 4096\<rparr>
                         in ebind (kfree (PTE2PA (ld64 (mem s) leaf_pte)) s) (\<lambda>s.
                            Inr (False, s\<lparr>mem := st64 (mem s) leaf_pte
                              (PA2PTE new_page OR create_pte_flag b False False)\<rparr>)))
               else Inr (True, s)
          else Inr (False, s)
     else if e AND PTE_CoW = 0x200 \<and> e AND PTE_R \<noteq> 0
     then ebind (kalloc s) (\<lambda>(pa, s).
          let s = s\<lparr>mem := st64 (mem s) leaf_pte (PA2PTE pa OR fault_perm b)\<rparr>
          in ebind (efold (connect_one walk incr_pa_ref p addr leaf_pte pa) [0..<NPROC] s) (\<lambda>s.
             Inr (False, s)))
     else ebind (kalloc s) (\<lambda>(pa, s).
          Inr (False, s\<lparr>mem := st64 (mem s) leaf_pte (PA2PTE pa OR fault_perm b)\<rparr>))))"

definition fault_body :: "u64 \<Rightarrow> u64 \<Rightarrow> nat \<Rightarrow> 'a procst_scheme \<Rightarrow> (bool \<times> 'a procst_scheme) res" where
  "fault_body scause stval p s =
     (case find_mapping (mmap_list (procs s p)) stval of
        None \<Rightarrow> Inr (True, s)
      | Some i \<Rightarrow>
          let b = mmap_list (procs s p) (i + 2)
          in if b AND HUGE_MASK = MAP_HUGEPAGE
             then fault_huge scause p (HUGEPGROUNDDOWN stval) b s
             else fault_base scause p (PGROUNDDOWN stval) b s)"

definition pagefault :: "u64 \<Rightarrow> u64 \<Rightarrow> 'a procst_scheme \<Rightarrow> 'a procst_scheme res" where
  "pagefault scause stval s =
     ebind (this_proc (s\<lparr>pagefaults := pagefaults s + 1\<rparr>)) (\<lambda>(p, s).
     ebind (critical Lk_mmap (fault_body scause stval p) s) (\<lambda>(kill_it, s).
     if kill_it then setkilled p s else Inr s))"

section \<open>Fork\<close>

text \<open>
  The four loops of \<^verbatim>\<open>fork\<close> over the pages of one mapping: huge or base pages, shared or
  private.  Each visits the parent's entry of a page and gives the child the same frame; an
  untouched shared page gets a placeholder entry in both tables, and a writable private page
  becomes read-only with the copy-on-write mark in both.
\<close>

definition inherit_flags :: "nat \<Rightarrow> nat \<Rightarrow> nat \<Rightarrow> 'a procst_scheme \<Rightarrow> 'a procst_scheme" where
  "inherit_flags p np i s =
     upd_proc np (\<lambda>q. q\<lparr>mmap_list := (mmap_list q)(i + 2 := mmap_list (procs s p) (i + 2))\<rparr>) s"

text \<open>Give the child the entry the parent has, and count the new reference.\<close>

definition share_page ::
  "(u64 \<Rightarrow> u64 \<Rightarrow> bool \<Rightarrow> 'a procst_scheme \<Rightarrow> (u64 \<times> 'a procst_scheme) res) \<Rightarrow>
   (u64 \<Rightarrow> 'a procst_scheme \<Rightarrow> 'a procst_scheme res) \<Rightarrow>
   string \<Rightarrow> nat \<Rightarrow> nat \<Rightarrow> nat \<Rightarrow> u64 \<Rightarrow> 'a procst_scheme \<Rightarrow> 'a procst_scheme res"
where
  "share_page wk incr msg p np i a s =
     ebind (wk (pagetable (procs s p)) a False s) (\<lambda>(old_pte, s).
     if old_pte = 0 then Inl (Panic msg)
     else ebind (wk (pagetable (procs s np)) a True s) (\<lambda>(new_pte, s).
          ebind (st_ptr new_pte (ld64 (mem s) old_pte) s) (\<lambda>s.
          let s = inherit_flags p np i s
          in incr (PTE2PA (ld64 (mem s) old_pte)) s)))"

text \<open>A page of a shared mapping that has no frame yet.\<close>

definition share_untouched ::
  "(u64 \<Rightarrow> u64 \<Rightarrow> bool \<Rightarrow> 'a procst_scheme \<Rightarrow> (u64 \<times> 'a procst_scheme) res) \<Rightarrow>
   u64 \<Rightarrow> nat \<Rightarrow> nat \<Rightarrow> nat \<Rightarrow> u64 \<Rightarrow> u64 \<Rightarrow> 'a procst_scheme \<Rightarrow> 'a procst_scheme res"
where
  "share_untouched wk flags p np i a pte s =
     (let s = s\<lparr>mem := st64 (mem s) pte (create_pte_flag flags True False)\<rparr>
      in ebind (wk (pagetable (procs s np)) a True s) (\<lambda>(new_pte, s).
         ebind (st_ptr new_pte (ld64 (mem s) pte) s) (\<lambda>s. Inr (inherit_flags p np i s))))"

definition fork_shared_page ::
  "(u64 \<Rightarrow> u64 \<Rightarrow> bool \<Rightarrow> 'a procst_scheme \<Rightarrow> (u64 \<times> 'a procst_scheme) res) \<Rightarrow>
   (u64 \<Rightarrow> 'a procst_scheme \<Rightarrow> 'a procst_scheme res) \<Rightarrow>
   u64 \<Rightarrow> nat \<Rightarrow> nat \<Rightarrow> nat \<Rightarrow> u64 \<Rightarrow> 'a procst_scheme \<Rightarrow> 'a procst_scheme res"
where
  "fork_shared_page wk incr flags p np i a s =
     ebind (wk (pagetable (procs s p)) a False s) (\<lambda>(pte, s).
     ebind (if pte = 0 then wk (pagetable (procs s p)) a True s else Inr (pte, s)) (\<lambda>(pte, s).
     ebind (ld_ptr pte s) (\<lambda>e.
     if e AND PTE_V = 0 then share_untouched wk flags p np i a pte s
     else if PTE_FLAGS e = PTE_V then Inl (Panic ''fork: not a leaf'')
     else share_page wk incr ''(fork, shared, mapped)'' p np i a s)))"

definition fork_private_page ::
  "(u64 \<Rightarrow> u64 \<Rightarrow> bool \<Rightarrow> 'a procst_scheme \<Rightarrow> (u64 \<times> 'a procst_scheme) res) \<Rightarrow>
   (u64 \<Rightarrow> 'a procst_scheme \<Rightarrow> 'a procst_scheme res) \<Rightarrow> string \<Rightarrow> string \<Rightarrow>
   u64 \<Rightarrow> nat \<Rightarrow> nat \<Rightarrow> nat \<Rightarrow> u64 \<Rightarrow> 'a procst_scheme \<Rightarrow> 'a procst_scheme res"
where
  "fork_private_page wk incr msg_ro msg_cow flags p np i a s =
     ebind (wk (pagetable (procs s p)) a False s) (\<lambda>(pte, s).
     if pte = 0 then Inr (inherit_flags p np i s)
     else let e = ld64 (mem s) pte
          in if e AND PTE_V = 0 then Inr (inherit_flags p np i s)
             else if PTE_FLAGS e = PTE_V then Inl (Panic ''fork: not a leaf'')
             else if flags AND PROT_MASK = PROT_READ
             then share_page wk incr msg_ro p np i a s
             else share_page wk incr msg_cow p np i a
                    (s\<lparr>mem := st64 (mem s) pte ((e AND NOT 0x3FF) OR create_pte_flag flags False True)\<rparr>))"

lemma fork_page_below:
  assumes "\<And>pt al (s :: 'a procst_scheme) r. wk pt a al s = Inr r \<Longrightarrow> unat a < 274877906944"
  shows "fork_shared_page wk incr flags p np i a s = Inr t \<Longrightarrow> unat a < 274877906944"
    "fork_private_page wk incr m1 m2 flags p np i a s = Inr t \<Longrightarrow> unat a < 274877906944"
  using assms by (auto simp: fork_shared_page_def fork_private_page_def ebind_eq_Inr)

lemma fork_base_below:
  "fork_shared_page walk incr flags p np i a s = Inr t \<Longrightarrow> unat a < 274877906944"
  "fork_private_page walk incr m1 m2 flags p np i a s = Inr t \<Longrightarrow> unat a < 274877906944"
  by (erule fork_page_below [rotated], metis surj_pair walk_below)+

lemma fork_huge_below:
  "fork_shared_page walk_huge incr flags p np i a s = Inr t \<Longrightarrow> unat a < 274877906944"
  "fork_private_page walk_huge incr m1 m2 flags p np i a s = Inr t \<Longrightarrow> unat a < 274877906944"
  by (erule fork_page_below [rotated], metis surj_pair walk_huge_below)+

text \<open>
  The loops over the pages: every round calls \<^verbatim>\<open>walk\<close> or \<^verbatim>\<open>walk_huge\<close>, which panics at
  \<^verbatim>\<open>MAXVA\<close>, so the loops end.
\<close>

function fork_huge_shared ::
  "u64 \<Rightarrow> nat \<Rightarrow> nat \<Rightarrow> nat \<Rightarrow> u64 \<Rightarrow> u64 \<Rightarrow> 'a procst_scheme \<Rightarrow> 'a procst_scheme res"
where
  "fork_huge_shared flags p np i a stop s =
     (if a < stop
      then ebind (fork_shared_page walk_huge incr_huge_pa_ref flags p np i a s)
             (fork_huge_shared flags p np i (a + HUGEPGSIZE) stop)
      else Inr s)"
  by pat_completeness auto
termination
  by (relation "measure (\<lambda>(fl, p, np, i, a, stop, s). 274877906944 - unat a)")
    (auto dest!: fork_huge_below simp: unat_u64_add)

function fork_huge_private ::
  "u64 \<Rightarrow> nat \<Rightarrow> nat \<Rightarrow> nat \<Rightarrow> u64 \<Rightarrow> u64 \<Rightarrow> 'a procst_scheme \<Rightarrow> 'a procst_scheme res"
where
  "fork_huge_private flags p np i a stop s =
     (if a < stop
      then ebind (fork_private_page walk_huge incr_huge_pa_ref ''((huge)fork, shared, mapped)''
                    ''((huge)fork, private, mapped)'' flags p np i a s)
             (fork_huge_private flags p np i (a + HUGEPGSIZE) stop)
      else Inr s)"
  by pat_completeness auto
termination
  by (relation "measure (\<lambda>(fl, p, np, i, a, stop, s). 274877906944 - unat a)")
    (auto dest!: fork_huge_below simp: unat_u64_add)

function fork_base_shared ::
  "u64 \<Rightarrow> nat \<Rightarrow> nat \<Rightarrow> nat \<Rightarrow> u64 \<Rightarrow> u64 \<Rightarrow> 'a procst_scheme \<Rightarrow> 'a procst_scheme res"
where
  "fork_base_shared flags p np i a stop s =
     (if a < stop
      then ebind (fork_shared_page walk incr_pa_ref flags p np i a s)
             (fork_base_shared flags p np i (a + PGSIZE) stop)
      else Inr s)"
  by pat_completeness auto
termination
  by (relation "measure (\<lambda>(fl, p, np, i, a, stop, s). 274877906944 - unat a)")
    (auto dest!: fork_base_below simp: unat_u64_add)

function fork_base_private ::
  "u64 \<Rightarrow> nat \<Rightarrow> nat \<Rightarrow> nat \<Rightarrow> u64 \<Rightarrow> u64 \<Rightarrow> 'a procst_scheme \<Rightarrow> 'a procst_scheme res"
where
  "fork_base_private flags p np i a stop s =
     (if a < stop
      then ebind (fork_private_page walk incr_pa_ref ''(fork, shared, mapped)''
                    ''(fork, private, mapped)'' flags p np i a s)
             (fork_base_private flags p np i (a + PGSIZE) stop)
      else Inr s)"
  by pat_completeness auto
termination
  by (relation "measure (\<lambda>(fl, p, np, i, a, stop, s). 274877906944 - unat a)")
    (auto dest!: fork_base_below simp: unat_u64_add)

declare fork_huge_shared.simps [simp del] fork_huge_private.simps [simp del]
  fork_base_shared.simps [simp del] fork_base_private.simps [simp del]

definition fork_mapping :: "nat \<Rightarrow> nat \<Rightarrow> nat \<Rightarrow> 'a procst_scheme \<Rightarrow> 'a procst_scheme res" where
  "fork_mapping p np i s =
     (let addr = mmap_list (procs s p) i; len = mmap_list (procs s p) (i + 1);
          flags = mmap_list (procs s p) (i + 2)
      in if addr = 0 then Inr s
         else let s = upd_proc np (\<lambda>q. q\<lparr>mmap_list := (mmap_list q)(i := addr, i + 1 := len)\<rparr>) s
              in if flags AND HUGE_MASK \<noteq> 0
                 then if flags AND FLAG_MASK = MAP_SHARED then fork_huge_shared flags p np i addr (addr + len) s
                      else if flags AND FLAG_MASK = MAP_PRIVATE then fork_huge_private flags p np i addr (addr + len) s
                      else Inr s
                 else if flags AND FLAG_MASK = MAP_SHARED then fork_base_shared flags p np i addr (addr + len) s
                 else if flags AND FLAG_MASK = MAP_PRIVATE then fork_base_private flags p np i addr (addr + len) s
                 else Inr s)"

definition fork_file :: "nat \<Rightarrow> nat \<Rightarrow> nat \<Rightarrow> 'a procst_scheme \<Rightarrow> 'a procst_scheme res" where
  "fork_file p np i s =
     (case ofile (procs s p) i of None \<Rightarrow> Inr s
      | Some f \<Rightarrow> ebind (filedup f s) (\<lambda>(f, s).
          Inr (upd_proc np (\<lambda>q. q\<lparr>ofile := (ofile q)(i := Some f)\<rparr>) s)))"

text \<open>The copy of a string into a buffer of \<open>n\<close> bytes by \<^verbatim>\<open>safestrcpy\<close>.\<close>

definition str_fit :: "nat \<Rightarrow> u8 list \<Rightarrow> u8 list" where
  "str_fit n bs = take (n - 1) (takeWhile (\<lambda>c. c \<noteq> 0) bs)"

text \<open>The end of \<^verbatim>\<open>fork\<close>, after the memory of the parent is copied and shared.\<close>

definition fork_finish :: "nat \<Rightarrow> nat \<Rightarrow> 'a procst_scheme \<Rightarrow> (int \<times> 'a procst_scheme) res" where
  "fork_finish p np s =
     (let tf = trapframe (procs s np); ptf = trapframe (procs s p);
          s = s\<lparr>mem := st64 (memmove (mem s) tf ptf TF_size) (tf + TF_a 0) 0\<rparr>
      in if tf = 0 \<or> ptf = 0 then Inl Wild
         else ebind (efold (fork_file p np) [0..<NOFILE] s) (\<lambda>s.
         ebind (deref (cwd (procs s p))) (\<lambda>ip.
         ebind (idup ip s) (\<lambda>(ip, s).
         let s = upd_proc np (\<lambda>q. q\<lparr>cwd := Some ip, pname := str_fit 16 (pname (procs s p))\<rparr>) s;
             child = pid (procs s np)
         in ebind (release (Lk_proc np) s) (\<lambda>s.
            ebind (critical0 Lk_wait (\<lambda>s. Inr (upd_proc np (\<lambda>q. q\<lparr>parent := Some p\<rparr>) s)) s) (\<lambda>s.
            ebind (critical0 (Lk_proc np) (\<lambda>s. Inr (upd_proc np (\<lambda>q. q\<lparr>state := RUNNABLE\<rparr>) s)) s) (\<lambda>s.
            Inr (child, s))))))))"

definition fork :: "'a procst_scheme \<Rightarrow> (int \<times> 'a procst_scheme) res" where
  "fork s =
     ebind (this_proc s) (\<lambda>(p, s).
     ebind (allocproc s) (\<lambda>(f, s).
     case f of None \<Rightarrow> Inr (-1, s)
     | Some np \<Rightarrow>
       ebind (uvmcopy (pagetable (procs s p)) (pagetable (procs s np)) (sz (procs s p)) s) (\<lambda>(r, s).
       if r < 0
       then ebind (freeproc np s) (\<lambda>s. ebind (release (Lk_proc np) s) (\<lambda>s. Inr (-1, s)))
       else let s = upd_proc np (\<lambda>q. q\<lparr>sz := sz (procs s p)\<rparr>) s
            in ebind (efold (fork_mapping p np) slots s) (fork_finish p np))))"

end
