(* ===== verification/Syscall.thy ===== *)
theory Syscall
  imports Mmap
begin

text \<open>
  \<^verbatim>\<open>kernel/syscall.c\<close>: fetching arguments from user memory and dispatching a system call
  by its number, and the short handlers of \<^verbatim>\<open>kernel/sysproc.c\<close> and \<^verbatim>\<open>kernel/ktest.c\<close>.  The
  clock interrupt of \<^verbatim>\<open>kernel/trap.c\<close> is here because \<^verbatim>\<open>sys_sleep\<close> waits for it.
\<close>

section \<open>Fetching from user memory\<close>

text \<open>The 64-bit value of eight bytes, least significant first.\<close>

definition bytes_u64 :: "u8 list \<Rightarrow> u64" where
  "bytes_u64 bs = ld64 (\<lambda>a. if unat a < length bs then bs ! unat a else 0) 0"

definition fetchaddr :: "u64 \<Rightarrow> 'a procst_scheme \<Rightarrow> (u64 option \<times> 'a procst_scheme) res" where
  "fetchaddr addr s =
     ebind (this_proc s) (\<lambda>(p, s).
     if sz (procs s p) \<le> addr \<or> sz (procs s p) < addr + 8 then Inr (None, s)
     else ebind (copyin (pagetable (procs s p)) addr 8 s) (\<lambda>((r, bs), s).
          if r \<noteq> 0 then Inr (None, s) else Inr (Some (bytes_u64 bs), s)))"

text \<open>The string fetched, without its null byte; \<open>None\<close> where the code returns -1.\<close>

definition fetchstr :: "u64 \<Rightarrow> nat \<Rightarrow> 'a procst_scheme \<Rightarrow> (u8 list option \<times> 'a procst_scheme) res" where
  "fetchstr addr mx s =
     ebind (this_proc s) (\<lambda>(p, s).
     ebind (copyinstr (pagetable (procs s p)) addr mx s) (\<lambda>((r, bs), s).
     if r < 0 then Inr (None, s) else Inr (Some (takeWhile (\<lambda>c. c \<noteq> 0) bs), s)))"

definition argstr :: "nat \<Rightarrow> nat \<Rightarrow> 'a procst_scheme \<Rightarrow> (u8 list option \<times> 'a procst_scheme) res" where
  "argstr n mx s = ebind (argaddr n s) (\<lambda>(addr, s). fetchstr addr mx s)"

section \<open>Handlers\<close>

definition sys_getpid :: "'a procst_scheme \<Rightarrow> (u64 \<times> 'a procst_scheme) res" where
  "sys_getpid s = ebind (this_proc s) (\<lambda>(p, s). Inr (of_int (pid (procs s p)), s))"

definition sys_fork :: "'a procst_scheme \<Rightarrow> (u64 \<times> 'a procst_scheme) res" where
  "sys_fork s = ebind (fork s) (\<lambda>(r, s). Inr (of_int r, s))"

definition sys_sbrk :: "'a procst_scheme \<Rightarrow> (u64 \<times> 'a procst_scheme) res" where
  "sys_sbrk s =
     ebind (argint 0 s) (\<lambda>(n, s).
     ebind (this_proc s) (\<lambda>(p, s).
     let addr = sz (procs s p)
     in ebind (growproc n s) (\<lambda>(r, s). if r < 0 then Inr (-1, s) else Inr (addr, s))))"

definition sys_kill :: "'a procst_scheme \<Rightarrow> (u64 \<times> 'a procst_scheme) res" where
  "sys_kill s = ebind (argint 0 s) (\<lambda>(k, s). ebind (kill k s) (\<lambda>(r, s). Inr (of_int r, s)))"

definition sys_uptime :: "'a procst_scheme \<Rightarrow> (u64 \<times> 'a procst_scheme) res" where
  "sys_uptime = critical Lk_ticks (\<lambda>s. Inr (ucast (ticks s), s))"

definition sys_kcall :: "'a procst_scheme \<Rightarrow> (u64 \<times> 'a procst_scheme) res" where
  "sys_kcall s =
     ebind (argint 0 s) (\<lambda>(n, s).
     Inr (if n = 0 then of_int (freemem s) else if n = 1 then of_int (used4k s)
          else if n = 2 then of_int (used2m s) else if n = 3 then of_int (pagefaults s) else -1, s))"

definition sys_ktest :: "'a procst_scheme \<Rightarrow> (u64 \<times> 'a procst_scheme) res" where
  "sys_ktest s =
     ebind (argint 0 s) (\<lambda>(n, s).
     ebind (argaddr 1 s) (\<lambda>(pa, s).
     if n = 0 then kalloc s
     else if n = 1 then ebind (kfree pa s) (\<lambda>s. Inr (0, s))
     else if n = 2 then kalloc_huge s
     else if n = 3 then ebind (kfree_huge pa s) (\<lambda>s. Inr (0, s))
     else Inr (0, s)))"

text \<open>
  \<^verbatim>\<open>sys_wait\<close> and \<^verbatim>\<open>sys_sleep\<close> may block; \<open>None\<close> is a call that has gone to sleep, with
  the saved interrupt state.
\<close>

definition sys_wait :: "'a procst_scheme \<Rightarrow> ((u64 option \<times> bool) \<times> 'a procst_scheme) res" where
  "sys_wait s =
     ebind (argaddr 0 s) (\<lambda>(addr, s).
     ebind (wait addr s) (\<lambda>((r, e), s). Inr ((map_option of_int r, e), s)))"

text \<open>
  One round of the loop of \<^verbatim>\<open>sys_sleep\<close>, with \<^verbatim>\<open>tickslock\<close> held.  The comparison is between
  unsigned numbers: a negative \<open>n\<close> waits for a very long time.
\<close>

definition sleep_round ::
  "u32 \<Rightarrow> int \<Rightarrow> 'a procst_scheme \<Rightarrow> ((u64 option \<times> bool) \<times> 'a procst_scheme) res"
where
  "sleep_round ticks0 n s =
     (if ticks s - ticks0 < of_int n
      then ebind (this_proc s) (\<lambda>(p, s).
           ebind (killed p s) (\<lambda>(k, s).
           if k then ebind (release Lk_ticks s) (\<lambda>s. Inr ((Some (-1), False), s))
           else ebind (sleep_enter Ch_ticks Lk_ticks s) (\<lambda>(e, s). Inr ((None, e), s))))
      else ebind (release Lk_ticks s) (\<lambda>s. Inr ((Some 0, False), s)))"

definition sys_sleep :: "'a procst_scheme \<Rightarrow> ((u64 option \<times> bool) \<times> 'a procst_scheme) res" where
  "sys_sleep s =
     ebind (argint 0 s) (\<lambda>(n, s).
     ebind (acquire Lk_ticks s) (\<lambda>s. sleep_round (ticks s) n s))"

definition sys_sleep_resume ::
  "nat \<Rightarrow> u32 \<Rightarrow> int \<Rightarrow> bool \<Rightarrow> 'a procst_scheme \<Rightarrow> ((u64 option \<times> bool) \<times> 'a procst_scheme) res"
where
  "sys_sleep_resume p ticks0 n e s = ebind (sleep_leave p Lk_ticks e s) (sleep_round ticks0 n)"

definition trapinit :: "'a procst_scheme \<Rightarrow> 'a procst_scheme" where
  "trapinit s = initlock Lk_ticks ''time'' s"

definition clockintr :: "'a procst_scheme \<Rightarrow> 'a procst_scheme res" where
  "clockintr = critical0 Lk_ticks (\<lambda>s. wakeup Ch_ticks (s\<lparr>ticks := ticks s + 1\<rparr>))"

section \<open>Dispatch\<close>

text \<open>
  The dispatcher over the table \<^verbatim>\<open>syscalls[]\<close> of function pointers: \<open>syscalls\<close> gives the
  handler of a number, \<open>NELEM\<close> the length of the table.
\<close>

definition syscall ::
  "(nat \<Rightarrow> ('a procst_scheme \<Rightarrow> (u64 \<times> 'a procst_scheme) res) option) \<Rightarrow> int \<Rightarrow>
   'a procst_scheme \<Rightarrow> 'a procst_scheme res"
where
  "syscall syscalls NELEM s =
     ebind (this_proc s) (\<lambda>(p, s).
     ebind (tf_ld p (TF_a 7) s) (\<lambda>v.
     let num = sint (ucast v :: u32)
     in case (if 0 < num \<and> num < NELEM then syscalls (nat num) else None) of
          Some h \<Rightarrow> ebind (h s) (\<lambda>(r, s). tf_st p (TF_a 0) r s)
        | None \<Rightarrow> tf_st p (TF_a 0) (-1) s))"

end
