(* ===== verification/Procs.thy ===== *)
theory Procs
  imports Syscall
begin

text \<open>
  Properties of the process table: the current process, wakeup and kill, process
  identifiers, and the state in which sleep leaves a process.
\<close>

section \<open>Locks of the process table\<close>

definition procs_free :: "'a procst_scheme \<Rightarrow> bool" where
  "procs_free s \<longleftrightarrow> (\<forall>p < NPROC. lock_free (Lk_proc p) s)"

lemma myproc_eq: "myproc s = Inr (cpu_proc (mycpu s), settled s)"
proof -
  have c: "mycpu (push_off s) = push_cpu (mycpu s)" by (simp add: push_off_eq)
  have "pop_off (push_off s) = Inr (set_mycpu (pop_cpu (mycpu (push_off s))) (push_off s))"
    by (rule pop_off_eq) (simp_all add: c push_cpu_def)
  then show ?thesis
    by (simp add: myproc_def Let_def c settled_def settle_def push_off_eq) (simp add: push_cpu_def)
qed

lemma mycpu_settled [simp]: "mycpu (settled s) = settle (mycpu s)"
  by (simp add: settled_def)

lemma procst_settled [simp]:
  "procs (settled s) = procs s" "initproc (settled s) = initproc s" "nextpid (settled s) = nextpid s"
  "ticks (settled s) = ticks s" "ftable (settled s) = ftable s"
  by (simp_all add: settled_def set_mycpu_def)

lemma procst_entered [simp]:
  "procs (entered l s) = procs s" "initproc (entered l s) = initproc s" "nextpid (entered l s) = nextpid s"
  "ticks (entered l s) = ticks s" "ftable (entered l s) = ftable s"
  by (simp_all add: entered_def)

lemma settled_twice [simp]: "settled (settled s) = settled s"
  by (simp add: settled_def)

text \<open>A critical section whose body only updates the process table.\<close>

lemma critical0_procs:
  assumes "lock_free l s" "body (entered l s) = Inr ((entered l s)\<lparr>procs := ps\<rparr>)"
  shows "critical0 l body s = Inr ((settled s)\<lparr>procs := ps\<rparr>)"
proof -
  have "critical0 l body s = Inr ((entered l s)\<lparr>procs := ps\<rparr>\<lparr>locks := locks s, cpus := cpus (settled s)\<rparr>)"
    by (rule critical0_leaf [where t = "(entered l s)\<lparr>procs := ps\<rparr>"]) (use assms in simp_all)
  moreover have "(entered l s)\<lparr>procs := ps\<rparr>\<lparr>locks := locks s, cpus := cpus (settled s)\<rparr> = (settled s)\<lparr>procs := ps\<rparr>"
    by (cases s) (simp add: entered_def settled_def set_mycpu_def)
  ultimately show ?thesis by simp
qed

lemma critical_procs:
  assumes "lock_free l s" "body (entered l s) = Inr (r, (entered l s)\<lparr>procs := ps\<rparr>)"
  shows "critical l body s = Inr (r, (settled s)\<lparr>procs := ps\<rparr>)"
proof -
  have "critical l body s = Inr (r, (entered l s)\<lparr>procs := ps\<rparr>\<lparr>locks := locks s, cpus := cpus (settled s)\<rparr>)"
    by (rule critical_leaf [where t = "(entered l s)\<lparr>procs := ps\<rparr>"]) (use assms in simp_all)
  moreover have "(entered l s)\<lparr>procs := ps\<rparr>\<lparr>locks := locks s, cpus := cpus (settled s)\<rparr> = (settled s)\<lparr>procs := ps\<rparr>"
    by (cases s) (simp add: entered_def settled_def set_mycpu_def)
  ultimately show ?thesis by simp
qed

lemma procs_update_same [simp]: "s\<lparr>procs := procs s\<rparr> = s"
  by simp

section \<open>Wakeup\<close>

definition woken :: "chan \<Rightarrow> nat option \<Rightarrow> (nat \<Rightarrow> proc) \<Rightarrow> nat \<Rightarrow> proc" where
  "woken ch me ps p =
     (if Some p \<noteq> me \<and> state (ps p) = SLEEPING \<and> chan (ps p) = ch then (ps p)\<lparr>state := RUNNABLE\<rparr> else ps p)"

lemma wakeup_acts_eq:
  "efold act (wakeup_acts ch p) = critical0 (Lk_proc p) (\<lambda>s. Inr (if state (procs s p) = SLEEPING \<and> chan (procs s p) = ch
      then upd_proc p (\<lambda>q. q\<lparr>state := RUNNABLE\<rparr>) s else s))"
  by (intro ext) (simp add: wakeup_acts_def critical0_def ebind_def split: sum.split)

lemma wakeup_one_eq:
  assumes "lock_free (Lk_proc p) s"
  shows "wakeup_one ch p s = Inr ((settled s)\<lparr>procs := (procs s)(p := woken ch (cpu_proc (mycpu s)) (procs s) p)\<rparr>)"
proof (cases "cpu_proc (mycpu s) = Some p")
  case True
  then show ?thesis by (simp add: wakeup_one_def myproc_eq woken_def)
next
  case False
  have "critical0 (Lk_proc p) (\<lambda>s. Inr (if state (procs s p) = SLEEPING \<and> chan (procs s p) = ch
            then upd_proc p (\<lambda>q. q\<lparr>state := RUNNABLE\<rparr>) s else s)) (settled s)
    = Inr ((settled (settled s))\<lparr>procs := (procs s)(p := woken ch (cpu_proc (mycpu s)) (procs s) p)\<rparr>)"
    using assms False by (intro critical0_procs) (auto simp: woken_def upd_proc_def)
  then show ?thesis using False by (simp add: wakeup_one_def myproc_eq wakeup_acts_eq)
qed

lemma settled_procs: "settled (s\<lparr>procs := ps\<rparr>) = (settled s)\<lparr>procs := ps\<rparr>"
  by (simp add: settled_def set_mycpu_def mycpu_def)

lemma lock_free_procs [simp]: "lock_free l (s\<lparr>procs := ps\<rparr>) = lock_free l s"
  by (simp add: lock_free_def)

definition wake_set :: "chan \<Rightarrow> nat option \<Rightarrow> nat set \<Rightarrow> (nat \<Rightarrow> proc) \<Rightarrow> nat \<Rightarrow> proc" where
  "wake_set ch me A ps p = (if p \<in> A then woken ch me ps p else ps p)"

lemma wake_set_insert:
  assumes "x \<notin> A"
  shows "wake_set ch me A (ps(x := woken ch me ps x)) = wake_set ch me (insert x A) ps"
proof
  fix p
  show "wake_set ch me A (ps(x := woken ch me ps x)) p = wake_set ch me (insert x A) ps p"
    using assms by (cases "p = x") (simp_all add: wake_set_def woken_def)
qed

lemma wake_set_empty [simp]: "wake_set ch me {} ps = ps"
  by (simp add: wake_set_def fun_eq_iff)

lemma wakeup_list:
  assumes "\<And>p. p \<in> set xs \<Longrightarrow> lock_free (Lk_proc p) s" "distinct xs" "xs \<noteq> []"
  shows "efold (wakeup_one ch) xs s
    = Inr ((settled s)\<lparr>procs := wake_set ch (cpu_proc (mycpu s)) (set xs) (procs s)\<rparr>)"
  using assms
proof (induction xs arbitrary: s)
  case (Cons x xs)
  let ?me = "cpu_proc (mycpu s)"
  define s' where "s' = (settled s)\<lparr>procs := (procs s)(x := woken ch ?me (procs s) x)\<rparr>"
  have one: "wakeup_one ch x s = Inr s'" unfolding s'_def using Cons.prems by (intro wakeup_one_eq) simp
  have me: "cpu_proc (mycpu s') = ?me" by (simp add: s'_def mycpu_def settled_def set_mycpu_def)
  have ps: "procs s' = (procs s)(x := woken ch ?me (procs s) x)" by (simp add: s'_def)
  have w: "wake_set ch ?me (set xs) (procs s') = wake_set ch ?me (set (x # xs)) (procs s)"
    unfolding ps using Cons.prems(2) wake_set_insert by simp
  show ?case
  proof (cases "xs = []")
    case True
    then have "(procs s)(x := woken ch ?me (procs s) x) = wake_set ch ?me (set (x # xs)) (procs s)"
      using w ps by simp
    then have "s' = (settled s)\<lparr>procs := wake_set ch ?me (set (x # xs)) (procs s)\<rparr>"
      unfolding s'_def by (rule arg_cong)
    then show ?thesis using one True by simp
  next
    case False
    have f: "lock_free (Lk_proc p) s'" if "p \<in> set xs" for p
      using Cons.prems(1) [of p] that by (simp add: s'_def lock_free_def settled_def)
    have "efold (wakeup_one ch) xs s' = Inr ((settled s')\<lparr>procs := wake_set ch ?me (set (x # xs)) (procs s)\<rparr>)"
      using Cons.IH [OF f _ False] Cons.prems(2) me w by simp
    moreover have "(settled s')\<lparr>procs := ps\<rparr> = (settled s)\<lparr>procs := ps\<rparr>" for ps
      by (simp add: s'_def settled_procs)
    ultimately show ?thesis using one by simp
  qed
qed simp

lemma wakeup_eq:
  assumes "procs_free s"
  shows "wakeup ch s = Inr ((settled s)\<lparr>procs := wake_set ch (cpu_proc (mycpu s)) {..<NPROC} (procs s)\<rparr>)"
proof -
  have "set [0..<NPROC] = {..<NPROC}" by auto
  moreover have "efold (wakeup_one ch) [0..<NPROC] s
    = Inr ((settled s)\<lparr>procs := wake_set ch (cpu_proc (mycpu s)) (set [0..<NPROC]) (procs s)\<rparr>)"
    by (rule wakeup_list) (use assms in \<open>auto simp: procs_free_def\<close>)
  ultimately show ?thesis by (simp add: wakeup_def del: NPROC_def)
qed

section \<open>Kill\<close>

definition struck :: "proc \<Rightarrow> proc" where
  "struck q = q\<lparr>killed_flag := True, state := (if state q = SLEEPING then RUNNABLE else state q)\<rparr>"

lemma kill_pass:
  assumes "lock_free (Lk_proc p) s" "pid (procs s p) \<noteq> k"
  shows "kill_scan k (p # ps) s = kill_scan k ps (settled s)"
proof -
  have "release (Lk_proc p) (entered (Lk_proc p) s)
    = Inr ((entered (Lk_proc p) s)\<lparr>locks := locks s, cpus := cpus (settled s)\<rparr>)"
    using assms(1) by (intro release_entered) simp_all
  moreover have "(entered (Lk_proc p) s)\<lparr>locks := locks s, cpus := cpus (settled s)\<rparr> = settled s"
    by (cases s) (simp add: entered_def settled_def set_mycpu_def)
  ultimately show ?thesis using assms by (simp add: acquire_free)
qed

lemma kill_hit:
  assumes "lock_free (Lk_proc p) s" "pid (procs s p) = k"
  shows "kill_scan k (p # ps) s = Inr (0, (settled s)\<lparr>procs := (procs s)(p := struck (procs s p))\<rparr>)"
proof -
  let ?e = "entered (Lk_proc p) s"
  let ?t = "?e\<lparr>procs := (procs s)(p := struck (procs s p))\<rparr>"
  let ?k = "upd_proc p (\<lambda>q. q\<lparr>killed_flag := True\<rparr>) ?e"
  have t: "(if state (procs ?k p) = SLEEPING then upd_proc p (\<lambda>q. q\<lparr>state := RUNNABLE\<rparr>) ?k else ?k) = ?t"
    by (simp add: upd_proc_def struck_def)
  have "release (Lk_proc p) ?t = Inr (?t\<lparr>locks := locks s, cpus := cpus (settled s)\<rparr>)"
    using assms(1) by (intro release_entered) simp_all
  moreover have "?t\<lparr>locks := locks s, cpus := cpus (settled s)\<rparr>
    = (settled s)\<lparr>procs := (procs s)(p := struck (procs s p))\<rparr>"
    by (cases s) (simp add: entered_def settled_def set_mycpu_def)
  ultimately show ?thesis using assms t by (simp add: acquire_free Let_def)
qed

lemma lock_free_settled_iff [simp]: "lock_free l (settled s) = lock_free l s"
  by (simp add: lock_free_def settled_def)

lemma kill_scan_eq:
  assumes "\<And>p. p \<in> set xs \<Longrightarrow> lock_free (Lk_proc p) s" "xs \<noteq> []"
  shows "kill_scan k xs s = (case find (\<lambda>p. pid (procs s p) = k) xs of
      None \<Rightarrow> Inr (-1, settled s)
    | Some p \<Rightarrow> Inr (0, (settled s)\<lparr>procs := (procs s)(p := struck (procs s p))\<rparr>))"
  using assms
proof (induction xs arbitrary: s)
  case (Cons x xs)
  show ?case
  proof (cases "pid (procs s x) = k")
    case True
    then show ?thesis using kill_hit [of x s k xs] Cons.prems by simp
  next
    case False
    then show ?thesis
      using kill_pass [of x s k xs] Cons.prems Cons.IH [of "settled s"]
      by (cases "xs = []") (auto simp del: kill_scan.simps(2) split: option.splits)
  qed
qed simp

text \<open>kill marks the first process of the table with the given identifier, wakes it if it
  sleeps, and changes no other process; it returns -1 and changes nothing when no process has
  the identifier.\<close>

theorem kill_spec:
  assumes "procs_free s"
  shows "kill k s = (case find (\<lambda>p. pid (procs s p) = k) [0..<NPROC] of
      None \<Rightarrow> Inr (-1, settled s)
    | Some p \<Rightarrow> Inr (0, (settled s)\<lparr>procs := (procs s)(p := (procs s p)\<lparr>killed_flag := True,
         state := (if state (procs s p) = SLEEPING then RUNNABLE else state (procs s p))\<rparr>)\<rparr>))"
  unfolding kill_def struck_def [symmetric]
  by (rule kill_scan_eq) (use assms in \<open>auto simp: procs_free_def\<close>)

section \<open>Sleep and wakeup\<close>

lemma release_held:
  assumes "holding l s" "\<not> sie (mycpu s)" "0 < noff (mycpu s)"
  shows "release l s = Inr (set_mycpu (pop_cpu (mycpu s)) (clear_locked l (clear_holder l s)))"
proof -
  have m: "mycpu (clear_locked l (clear_holder l s)) = mycpu s"
    by (simp add: mycpu_def clear_locked_def clear_holder_def)
  then show ?thesis using assms pop_off_eq [of "clear_locked l (clear_holder l s)"] by (simp add: release_def)
qed

lemma settled_nested:
  assumes "\<not> sie (mycpu s)" "0 < noff (mycpu s)"
  shows "settled s = s"
proof -
  have "settle (mycpu s) = mycpu s"
    using assms by (cases "mycpu s") (simp add: settle_def pop_cpu_def push_cpu_def)
  then show ?thesis by (simp add: settled_def set_mycpu_def mycpu_def)
qed

lemma this_proc_eq: "cpu_proc (mycpu s) = Some p \<Longrightarrow> this_proc s = Inr (p, settled s)"
  by (simp add: this_proc_def myproc_eq deref_def)

text \<open>The argument registers of a process, saved in its trapframe.\<close>

definition tf_arg :: "'a procst_scheme \<Rightarrow> nat \<Rightarrow> nat \<Rightarrow> u64" where
  "tf_arg s p n = ld64 (mem s) (trapframe (procs s p) + TF_a n)"

lemma arg_eq:
  assumes "cpu_proc (mycpu s) = Some p" "trapframe (procs s p) \<noteq> 0" "n < 6"
  shows "argaddr n s = Inr (tf_arg s p n, settled s)"
    "argint n s = Inr (sint (ucast (tf_arg s p n) :: u32), settled s)"
  using assms this_proc_eq [OF assms(1)]
  by (simp_all add: argaddr_def argint_def argraw_def tf_ld_def tf_arg_def)

lemma tf_arg_settled [simp]: "tf_arg (settled s) p n = tf_arg s p n"
  by (simp add: tf_arg_def)

lemma mycpu_entered [simp]: "mycpu (entered l s) = push_cpu (mycpu s)"
  by (simp add: entered_def mycpu_def)

lemma push_cpu_simps [simp]:
  "cpu_proc (push_cpu c) = cpu_proc c" "\<not> sie (push_cpu c)" "noff (push_cpu c) = noff c + 1"
  by (simp_all add: push_cpu_def)

lemma pop_cpu_simps [simp]:
  "cpu_proc (pop_cpu c) = cpu_proc c" "noff (pop_cpu c) = noff c - 1"
  "2 \<le> noff c \<Longrightarrow> \<not> sie (pop_cpu c)"
  by (simp_all add: pop_cpu_def)

lemma lock_free_entered [simp]: "l \<noteq> l' \<Longrightarrow> lock_free l (entered l' s) = lock_free l s"
  by (simp add: lock_free_def entered_def)

text \<open>The state after the part of sleep before the switch, called with only \<open>lk\<close> held.\<close>

definition asleep :: "nat \<Rightarrow> chan \<Rightarrow> lockid \<Rightarrow> 'a procst_scheme \<Rightarrow> 'a procst_scheme" where
  "asleep p ch lk s = upd_proc p (\<lambda>q. q\<lparr>chan := ch, state := SLEEPING\<rparr>)
     (set_mycpu (pop_cpu (push_cpu (push_cpu (mycpu s))))
       (clear_locked lk (clear_holder lk (entered (Lk_proc p) (entered lk s)))))"

lemma mycpu_upd_proc [simp]: "mycpu (upd_proc p f s) = mycpu s"
  by (simp add: mycpu_def upd_proc_def)

lemma locks_asleep:
  assumes "lk \<noteq> Lk_proc p"
  shows "locks (asleep p ch lk s) =
    (locks s)(lk := (locks s lk)\<lparr>sl_locked := False, sl_cpu := None\<rparr>,
              Lk_proc p := (locks s (Lk_proc p))\<lparr>sl_locked := True, sl_cpu := Some (hartid s)\<rparr>)"
  using assms by (auto simp: asleep_def upd_proc_def set_mycpu_def clear_locked_def clear_holder_def entered_def fun_eq_iff)

lemma mycpu_asleep: "mycpu (asleep p ch lk s) = pop_cpu (push_cpu (push_cpu (mycpu s)))"
  by (simp add: asleep_def)

lemma hartid_asleep [simp]: "hartid (asleep p ch lk s) = hartid s"
  by (simp add: asleep_def upd_proc_def set_mycpu_def clear_locked_def clear_holder_def)

lemma procs_asleep: "procs (asleep p ch lk s) = (procs s)(p := (procs s p)\<lparr>chan := ch, state := SLEEPING\<rparr>)"
  by (simp add: asleep_def upd_proc_def set_mycpu_def clear_locked_def clear_holder_def)

lemma sleep_enter_eq:
  assumes "cpu_proc (mycpu s) = Some p" "noff (mycpu s) = 0" "lock_free lk s" "lock_free (Lk_proc p) s"
    "lk \<noteq> Lk_proc p"
  shows "\<exists>i. sleep_enter ch lk (entered lk s) = Inr (i, asleep p ch lk s)"
proof -
  let ?e = "entered lk s"
  have a: "acquire (Lk_proc p) ?e = Inr (entered (Lk_proc p) ?e)"
    using assms by (intro acquire_free) auto
  have h: "holding lk (entered (Lk_proc p) ?e)"
    using assms(5) by (auto simp: holding_def entered_def)
  have r: "release lk (entered (Lk_proc p) ?e) = Inr (set_mycpu (pop_cpu (push_cpu (push_cpu (mycpu s))))
       (clear_locked lk (clear_holder lk (entered (Lk_proc p) ?e))))"
    using release_held [OF h] by simp
  let ?z = "asleep p ch lk s"
  have z: "cpu_proc (mycpu ?z) = Some p" "noff (mycpu ?z) = 1" "\<not> sie (mycpu ?z)"
    using assms by (simp_all add: mycpu_asleep)
  have "sched_enter ?z = Inr (intena (mycpu ?z), ?z)"
    using z this_proc_eq [OF z(1)] settled_nested [OF z(3)]
    by (simp add: sched_enter_def holding_def locks_asleep [OF assms(5)] procs_asleep intr_get_def)
  then show ?thesis
    using assms(1) this_proc_eq [of ?e p] settled_nested [of ?e] a r
    by (simp add: sleep_enter_def sleep_acts_def asleep_def upd_proc_def)
qed

text \<open>wakeup makes runnable exactly the processes, other than the caller, that sleep on the
  channel, and changes nothing else of any process.\<close>

theorem wakeup_spec:
  assumes "procs_free s"
  shows "\<exists>t. wakeup ch s = Inr t \<and> (\<forall>p. procs t p =
    (if p < NPROC \<and> cpu_proc (mycpu s) \<noteq> Some p \<and> state (procs s p) = SLEEPING \<and> chan (procs s p) = ch
     then (procs s p)\<lparr>state := RUNNABLE\<rparr> else procs s p))"
  using wakeup_eq [OF assms, of ch] by (auto simp: wake_set_def woken_def)

section \<open>A concrete process table\<close>

definition proc0 :: proc where
  "proc0 = \<lparr>state = UNUSED, chan = Ch_null, killed_flag = False, xstate = 0, pid = 0, mmap_list = (\<lambda>_. 0),
     parent = None, kstack = 0, sz = 0, pagetable = 0, trapframe = 0, ctx_ra = 0, ctx_sp = 0,
     ofile = (\<lambda>_. None), cwd = None, pname = []\<rparr>"

definition procst_of :: "kst \<Rightarrow> (nat \<Rightarrow> proc) \<Rightarrow> procst" where
  "procst_of k ps = kst.extend k \<lparr>kernel_pagetable = 0, etext = 0x80008000, trampoline = 0x80007000,
     satp = (\<lambda>_. 0), ftable = (\<lambda>_. \<lparr>f_type = FD_NONE, f_ref = 0, f_readable = False, f_writable = False,
     f_pipe = 0, f_ip = None, f_off = 0, f_major = 0\<rparr>),
     itable = (\<lambda>_. \<lparr>i_dev = 0, i_inum = 0, i_ref = 0, i_valid = False, i_type = 0, i_major = 0, i_minor = 0, i_nlink = 0, i_size = 0, i_addrs = (\<lambda>_. 0)\<rparr>),
     procs = ps, initproc = None, nextpid = 1, pagefaults = 0, ticks = 0, forkret_sym = 0x80001000\<rparr>"

lemma procst_of_simps [simp]:
  "locks (procst_of k ps) = locks k" "cpus (procst_of k ps) = cpus k" "hartid (procst_of k ps) = hartid k"
  "mem (procst_of k ps) = mem k" "procs (procst_of k ps) = ps" "mycpu (procst_of k ps) = mycpu k"
  "page_refs (procst_of k ps) = page_refs k" "huge_refs (procst_of k ps) = huge_refs k"
  by (simp_all add: procst_of_def kst.defs mycpu_def page_refs_def huge_refs_def fun_eq_iff)

lemma procst_of_inv [simp]:
  "kmem_inv (procst_of k ps) = kmem_inv k" "lock_free l (procst_of k ps) = lock_free l k"
  "pt_inv (procst_of k ps) pt = pt_inv k pt"
  by (simp_all add: kmem_inv_def kmem_core_def kmem_at_def section_inv_def counters_inv_def pages_used_def
      lock_free_def pt_inv_def) (simp add: procst_of_def kst.defs)

definition ps_sleeper :: "nat \<Rightarrow> proc" where
  "ps_sleeper p = (if p = 3 then proc0\<lparr>state := SLEEPING, chan := Ch_ticks, pid := 7\<rparr> else proc0)"

definition kfresh_run :: "nat \<Rightarrow> kst" where
  "kfresh_run p = set_mycpu ((mycpu kfresh)\<lparr>cpu_proc := Some p\<rparr>) kfresh"

lemma kfresh_run_simps [simp]:
  "cpu_proc (mycpu (kfresh_run p)) = Some p" "noff (mycpu (kfresh_run p)) = 0" "lock_free l (kfresh_run p)"
  by (simp_all add: kfresh_run_def mycpu_def set_mycpu_def kfresh_def kboot0_def hw0_def hw.defs lock_free_def)

lemma kfresh_procs_free: "procs_free (procst_of (kfresh_run p) ps)"
  by (simp add: procs_free_def)

theorem kill_spec_witness:
  "\<exists>t. kill 7 (procst_of (kfresh_run 1) ps_sleeper) = Inr (0, t) \<and> state (procs t 3) = RUNNABLE
     \<and> killed_flag (procs t 3)"
proof -
  have "find (\<lambda>p. pid (ps_sleeper p) = 7) [0..<NPROC] = Some 3"
    by (simp add: upt_rec ps_sleeper_def proc0_def)
  then show ?thesis
    using kill_spec [OF kfresh_procs_free, of 7 1 ps_sleeper] by (simp add: ps_sleeper_def)
qed

theorem wakeup_spec_witness:
  "\<exists>t. wakeup Ch_ticks (procst_of (kfresh_run 1) ps_sleeper) = Inr t \<and> state (procs t 3) = RUNNABLE"
  using wakeup_spec [OF kfresh_procs_free, of Ch_ticks 1 ps_sleeper] by (auto simp: ps_sleeper_def)

end
