(* ===== verification/Mappings.thy ===== *)
theory Mappings
  imports Procs
begin

text \<open>
  The table of mappings of a process: what \<^verbatim>\<open>sys_mmap\<close> checks and enters, and the flags of the
  page-table entries of a mapping.
\<close>

section \<open>Flags of entries\<close>

lemma fault_perm_flags: "fault_perm b = create_pte_flag b False False"
  by (simp add: fault_perm_def create_pte_flag_def Let_def)

lemma mmap_args_cases:
  assumes "mmap_args_ok addr len prot flags"
  shows "(prot = 1 \<or> prot = 2) \<and> (flags = 0x10 \<or> flags = 0x20 \<or> flags = 0x110 \<or> flags = 0x120)"
  using assms by (simp add: mmap_args_ok_def)

text \<open>The flags that fork and the page-fault handler put in an entry of a mapping.  For every
  protection and every flags that mmap accepts, the entry is readable, a user page and not
  executable; it is valid unless it marks an untouched shared page; it is writable exactly for a
  writable mapping that is not shared copy-on-write; its two software bits are the private mark
  and the mark of an untouched or copy-on-write page; and nothing else is set.\<close>

theorem create_pte_flag_spec:
  assumes "mmap_args_ok addr len prot flags" "\<not> (untouched \<and> cow)"
  defines "f \<equiv> create_pte_flag (of_int prot OR of_int flags) untouched cow"
  shows "f AND PTE_R \<noteq> 0 \<and> f AND PTE_U \<noteq> 0 \<and> f AND PTE_X = 0 \<and> f < 1024
    \<and> (f AND PTE_V \<noteq> 0 \<longleftrightarrow> \<not> untouched)
    \<and> (f AND PTE_W \<noteq> 0 \<longleftrightarrow> prot = 2 \<and> \<not> cow)
    \<and> f AND PTE_CoW = (if flags = 0x10 \<or> flags = 0x110 then 0x100 else 0) + (if untouched \<or> cow then 0x200 else 0)"
  using mmap_args_cases [OF assms(1)] assms(2) unfolding f_def
  by (elim conjE disjE; cases untouched; cases cow; simp add: create_pte_flag_def Let_def)

theorem create_pte_flag_spec_witness:
  "create_pte_flag (of_int 2 OR of_int 0x10) False True AND PTE_W = 0
   \<and> create_pte_flag (of_int 2 OR of_int 0x10) False True AND PTE_CoW = 0x300"
proof -
  have "mmap_args_ok 0x90000000 4096 2 0x10" by (simp add: mmap_args_ok_def)
  from create_pte_flag_spec [OF this, of False True] show ?thesis by simp
qed

section \<open>The table of mappings\<close>

definition slot_set :: "nat set" where
  "slot_set = {0, 3, 6, 9}"

lemma set_slots [simp]: "set slots = slot_set"
  by (simp add: slots_def slot_set_def)

definition slot_ok :: "(nat \<Rightarrow> u64) \<Rightarrow> nat \<Rightarrow> bool" where
  "slot_ok ml i \<longleftrightarrow> (if ml i = 0 then ml (i + 1) = 0
     else unat PHYSTOP \<le> unat (ml i) \<and> unat (ml i) \<le> unat (MAXVA - 0x10000000) \<and> unat (ml i) mod 4096 = 0
        \<and> 0 < unat (ml (i + 1)) \<and> unat (ml (i + 1)) \<le> 0x4000000)"

definition slot_end :: "(nat \<Rightarrow> u64) \<Rightarrow> nat \<Rightarrow> nat" where
  "slot_end ml i = unat (ml i) + unat (ml (i + 1))"

text \<open>The mappings of a process are in range and apart from each other.\<close>

definition mmap_wf :: "(nat \<Rightarrow> u64) \<Rightarrow> bool" where
  "mmap_wf ml \<longleftrightarrow> (\<forall>i\<in>slot_set. slot_ok ml i)
     \<and> (\<forall>i\<in>slot_set. \<forall>j\<in>slot_set. i \<noteq> j \<longrightarrow> ml i \<noteq> 0 \<longrightarrow> ml j \<noteq> 0 \<longrightarrow>
          slot_end ml i \<le> unat (ml j) \<or> slot_end ml j \<le> unat (ml i))"

text \<open>The mapping that covers an address: its address, length and flags.\<close>

definition mapping_at :: "(nat \<Rightarrow> u64) \<Rightarrow> u64 \<Rightarrow> (u64 \<times> u64 \<times> u64) option" where
  "mapping_at ml x = map_option (\<lambda>i. (ml i, ml (i + 1), ml (i + 2))) (find_mapping ml x)"

lemma slot_okD:
  assumes "slot_ok ml i"
  shows "unat (ml i + ml (i + 1)) = slot_end ml i" "slot_end ml i < 274877906944"
    "ml i \<noteq> 0 \<Longrightarrow> unat (ml i) < slot_end ml i"
proof -
  show l: "slot_end ml i < 274877906944"
    using assms by (auto simp: slot_ok_def slot_end_def split: if_splits)
  then show "unat (ml i + ml (i + 1)) = slot_end ml i"
    by (subst unat_u64_add_nowrap) (simp_all add: slot_end_def)
  show "ml i \<noteq> 0 \<Longrightarrow> unat (ml i) < slot_end ml i" using assms by (simp add: slot_ok_def slot_end_def)
qed

lemma mmap_wfD:
  assumes "mmap_wf ml"
  shows "i \<in> slot_set \<Longrightarrow> slot_ok ml i"
    and "i \<in> slot_set \<Longrightarrow> j \<in> slot_set \<Longrightarrow> i \<noteq> j \<Longrightarrow> ml i \<noteq> 0 \<Longrightarrow> ml j \<noteq> 0 \<Longrightarrow>
      slot_end ml i \<le> unat (ml j) \<or> slot_end ml j \<le> unat (ml i)"
  using assms unfolding mmap_wf_def by blast+

definition covers :: "(nat \<Rightarrow> u64) \<Rightarrow> nat \<Rightarrow> u64 \<Rightarrow> bool" where
  "covers ml i x \<longleftrightarrow> ml i \<noteq> 0 \<and> unat (ml i) \<le> unat x \<and> unat x < slot_end ml i"

lemma find_mapping_covers:
  assumes "mmap_wf ml"
  shows "find_mapping ml x = find (\<lambda>i. covers ml i x) slots"
  unfolding find_mapping_def
  by (rule find_cong) (use slot_okD(1) [OF mmap_wfD(1) [OF assms]] in \<open>auto simp: covers_def word_le_nat_alt word_less_nat_alt\<close>)

lemma covers_unique:
  assumes "mmap_wf ml" "i \<in> slot_set" "j \<in> slot_set" "covers ml i x" "covers ml j x"
  shows "i = j"
  using assms mmap_wfD(2) [OF assms(1-3)] by (fastforce simp: covers_def)

lemma find_mapping_eq:
  assumes "mmap_wf ml" "i \<in> slot_set" "covers ml i x"
  shows "find_mapping ml x = Some i"
proof -
  have "\<exists>j. find_mapping ml x = Some j"
    using assms unfolding find_mapping_covers [OF assms(1)]
    by (metis find_None_iff not_Some_eq set_slots)
  then obtain j where j: "find_mapping ml x = Some j" by blast
  then have "j \<in> slot_set" "covers ml j x"
    unfolding find_mapping_covers [OF assms(1)] by (auto simp: find_Some_iff) (metis nth_mem set_slots)
  then show ?thesis using covers_unique [OF assms(1)] assms(2,3) j by blast
qed

lemma find_mapping_None:
  assumes "mmap_wf ml"
  shows "find_mapping ml x = None \<longleftrightarrow> (\<forall>i\<in>slot_set. \<not> covers ml i x)"
  unfolding find_mapping_covers [OF assms] by (auto simp: find_None_iff)

lemma mmap_length_bounds:
  assumes "mmap_args_ok addr len prot flags"
  shows "0 < unat (mmap_length len flags)" "unat (mmap_length len flags) \<le> 0x4000000"
    "unat addr + unat (mmap_length len flags) < 274877906944"
proof -
  have l: "0 < len" "len \<le> 0x4000000" and a: "addr \<le> MAXVA - 0x10000000"
    using assms by (auto simp: mmap_args_ok_def not_less)
  have "int (unat (of_int len :: u64)) = len"
    using l by (simp add: unsigned_of_int take_bit_int_eq_self)
  then have n: "0 < unat (of_int len :: u64)" "unat (of_int len :: u64) \<le> 0x4000000"
    using l by linarith+
  show b: "0 < unat (mmap_length len flags)" "unat (mmap_length len flags) \<le> 0x4000000"
    using n unat_PGROUNDUP [of "of_int len"] unat_HUGEPGROUNDUP [of "of_int len"]
    unfolding mmap_length_def by (auto split: if_splits)
  have "unat addr \<le> unat (MAXVA - 0x10000000)" using a by (simp only: word_le_nat_alt)
  then show "unat addr + unat (mmap_length len flags) < 274877906944" using b by simp
qed

lemma mmap_overlap_covers:
  assumes "slot_ok ml i" "mmap_args_ok addr len prot flags" "L = mmap_length len flags"
  shows "mmap_overlap ml addr L i \<longleftrightarrow>
    (\<exists>x. unat addr \<le> unat x \<and> unat x < unat addr + unat L \<and> covers ml i x)" (is "_ \<longleftrightarrow> ?R")
proof -
  note L = mmap_length_bounds [OF assms(2)] and sl = slot_okD [OF assms(1)]
  have aL: "unat (addr + L) = unat addr + unat L"
    using L(3) unfolding assms(3) by (subst unat_u64_add_nowrap) simp_all
  have a: "PHYSTOP \<le> addr" using assms(2) by (simp add: mmap_args_ok_def not_less)
  then have a0: "0 < unat addr" by (auto simp: word_le_nat_alt)
  have ov: "mmap_overlap ml addr L i \<longleftrightarrow> unat (ml i) \<le> unat addr \<and> unat addr < slot_end ml i
      \<or> unat addr \<le> unat (ml i) \<and> unat (ml i) < unat addr + unat L"
    unfolding mmap_overlap_def word_le_nat_alt word_less_nat_alt sl(1) aL ..
  show ?thesis
  proof (cases "ml i = 0")
    case True
    then have "slot_end ml i = 0" using assms(1) by (simp add: slot_ok_def slot_end_def)
    then show ?thesis using ov True a0 by (simp add: covers_def)
  next
    case False
    show ?thesis
    proof
      assume "mmap_overlap ml addr L i"
      then consider "unat (ml i) \<le> unat addr" "unat addr < slot_end ml i"
        | "unat addr \<le> unat (ml i)" "unat (ml i) < unat addr + unat L" using ov by blast
      then show ?R
      proof cases
        case 1
        then show ?thesis using False L(1) assms(3) by (intro exI [of _ addr]) (simp add: covers_def)
      next
        case 2
        then show ?thesis using False sl(3) by (intro exI [of _ "ml i"]) (simp add: covers_def)
      qed
    qed (use ov in \<open>auto simp: covers_def\<close>)
  qed
qed

text \<open>Some address of the range is already mapped.\<close>

definition range_taken :: "(nat \<Rightarrow> u64) \<Rightarrow> u64 \<Rightarrow> u64 \<Rightarrow> bool" where
  "range_taken ml addr L \<longleftrightarrow>
     (\<exists>x. unat addr \<le> unat x \<and> unat x < unat addr + unat L \<and> mapping_at ml x \<noteq> None)"

lemma mmap_overlap_any:
  assumes "mmap_wf ml" "mmap_args_ok addr len prot flags" "L = mmap_length len flags"
  shows "list_ex (mmap_overlap ml addr L) slots \<longleftrightarrow> range_taken ml addr L"
proof -
  have some: "find_mapping ml x \<noteq> None \<longleftrightarrow> (\<exists>i\<in>slot_set. covers ml i x)" for x
    using find_mapping_None [OF assms(1)] by simp
  have "list_ex (mmap_overlap ml addr L) slots \<longleftrightarrow> (\<exists>i\<in>slot_set. mmap_overlap ml addr L i)"
    by (simp add: list_ex_iff)
  also have "\<dots> \<longleftrightarrow> (\<exists>i\<in>slot_set. \<exists>x. unat addr \<le> unat x \<and> unat x < unat addr + unat L \<and> covers ml i x)"
    using mmap_overlap_covers [OF mmap_wfD(1) [OF assms(1)] assms(2,3)] by simp
  also have "\<dots> \<longleftrightarrow> (\<exists>x. unat addr \<le> unat x \<and> unat x < unat addr + unat L \<and> find_mapping ml x \<noteq> None)"
    unfolding some by blast
  finally show ?thesis by (simp add: mapping_at_def range_taken_def)
qed

definition put_mapping :: "(nat \<Rightarrow> u64) \<Rightarrow> nat \<Rightarrow> u64 \<Rightarrow> u64 \<Rightarrow> u64 \<Rightarrow> nat \<Rightarrow> u64" where
  "put_mapping ml i a l b = ml(i := a, i + 1 := l, i + 2 := b)"

lemma put_mapping_other:
  assumes "i \<in> slot_set" "j \<in> slot_set" "i \<noteq> j"
  shows "put_mapping ml i a l b j = ml j" "put_mapping ml i a l b (j + 1) = ml (j + 1)"
    "put_mapping ml i a l b (j + 2) = ml (j + 2)"
  using assms by (auto simp: slot_set_def put_mapping_def)

lemma put_mapping_this:
  "put_mapping ml i a l b i = a" "put_mapping ml i a l b (i + 1) = l" "put_mapping ml i a l b (i + 2) = b"
  by (simp_all add: put_mapping_def)

lemma put_mapping_slot:
  assumes "i \<in> slot_set" "j \<in> slot_set" "i \<noteq> j"
  shows "slot_ok (put_mapping ml i a l b) j = slot_ok ml j"
    "slot_end (put_mapping ml i a l b) j = slot_end ml j" "covers (put_mapping ml i a l b) j x = covers ml j x"
  unfolding slot_ok_def slot_end_def covers_def put_mapping_other [OF assms] by (rule refl)+

text \<open>A mapping entered in a free slot, apart from all others.\<close>

lemma put_mapping_wf:
  fixes b :: u64
  assumes "mmap_wf ml" "i \<in> slot_set" "mmap_args_ok addr len prot flags" "L = mmap_length len flags"
    "\<not> range_taken ml addr L"
  defines "ml' \<equiv> put_mapping ml i addr L b"
  shows "mmap_wf ml'"
proof -
  note L = mmap_length_bounds [OF assms(3), folded assms(4)]
  have a: "PHYSTOP \<le> addr" "addr \<le> MAXVA - 0x10000000" "addr mod PGSIZE = 0"
    using assms(3) by (simp_all add: mmap_args_ok_def not_less)
  have new: "slot_ok ml' i" "slot_end ml' i = unat addr + unat L"
    using a L paligned_nat [of addr] unfolding slot_ok_def slot_end_def ml'_def put_mapping_this
    by (auto simp: word_le_nat_alt paligned_def)
  have apart: "slot_end ml j \<le> unat addr \<or> unat addr + unat L \<le> unat (ml j)"
    if j: "j \<in> slot_set" "j \<noteq> i" "ml j \<noteq> 0" for j
  proof (rule ccontr)
    assume n: "\<not> ?thesis"
    have e: "unat (ml j) < slot_end ml j" using slot_okD(3) [OF mmap_wfD(1) [OF assms(1) j(1)] j(3)] .
    obtain x where x: "unat addr \<le> unat x" "unat x < unat addr + unat L" "covers ml j x"
    proof (cases "unat addr \<le> unat (ml j)")
      case True
      then show thesis using n e j(3) that [of "ml j"] by (simp add: covers_def)
    next
      case False
      then show thesis using n j(3) L(1) that [of addr] by (simp add: covers_def)
    qed
    then show False
      using assms(5) find_mapping_eq [OF assms(1) j(1), of x] by (auto simp: mapping_at_def range_taken_def)
  qed
  have "slot_ok ml' j" if "j \<in> slot_set" for j
    using that new(1) put_mapping_slot(1) [OF assms(2) that] mmap_wfD(1) [OF assms(1) that]
    unfolding ml'_def by (cases "i = j") auto
  moreover have "slot_end ml' k \<le> unat (ml' j) \<or> slot_end ml' j \<le> unat (ml' k)"
    if kj: "k \<in> slot_set" "j \<in> slot_set" "k \<noteq> j" "ml' k \<noteq> 0" "ml' j \<noteq> 0" for k j
  proof (cases "k = i \<or> j = i")
    case True
    have mi: "ml' i = addr" by (simp add: ml'_def put_mapping_this)
    from True show ?thesis
    proof
      assume "k = i"
      then show ?thesis
        using apart [of j] kj new(2) mi put_mapping_other(1) [OF assms(2) kj(2)]
          put_mapping_slot(2) [OF assms(2) kj(2)] unfolding ml'_def by auto
    next
      assume "j = i"
      then show ?thesis
        using apart [of k] kj new(2) mi put_mapping_other(1) [OF assms(2) kj(1)]
          put_mapping_slot(2) [OF assms(2) kj(1)] unfolding ml'_def by auto
    qed
  next
    case False
    then show ?thesis
      using mmap_wfD(2) [OF assms(1) kj(1,2)] kj put_mapping_other(1) [OF assms(2)]
        put_mapping_slot(2) [OF assms(2)] unfolding ml'_def by auto
  qed
  ultimately show ?thesis unfolding mmap_wf_def by blast
qed

lemma put_mapping_at:
  assumes "mmap_wf ml" "mmap_wf (put_mapping ml i a l b)" "i \<in> slot_set" "ml i = 0" "a \<noteq> 0"
  shows "mapping_at (put_mapping ml i a l b) x
    = (if unat a \<le> unat x \<and> unat x < unat a + unat l then Some (a, l, b) else mapping_at ml x)"
proof (cases "unat a \<le> unat x \<and> unat x < unat a + unat l")
  case True
  then have "covers (put_mapping ml i a l b) i x"
    using assms(5) by (simp add: covers_def slot_end_def put_mapping_def)
  then show ?thesis
    using True find_mapping_eq [OF assms(2,3)] by (simp add: mapping_at_def) (simp add: put_mapping_def)
next
  case False
  then have i: "\<not> covers (put_mapping ml i a l b) i x" "\<not> covers ml i x"
    using assms(4) by (auto simp: covers_def slot_end_def put_mapping_def)
  have c: "covers (put_mapping ml i a l b) j x = covers ml j x" if "j \<in> slot_set" for j
    using i put_mapping_slot(3) [OF assms(3) that] by (cases "j = i") auto
  have f: "find_mapping (put_mapping ml i a l b) x = find_mapping ml x"
    unfolding find_mapping_covers [OF assms(1)] find_mapping_covers [OF assms(2)]
    by (rule find_cong) (use c in auto)
  show ?thesis
  proof (cases "find_mapping ml x")
    case (Some j)
    then have "j \<in> slot_set" "covers ml j x"
      unfolding find_mapping_covers [OF assms(1)] by (auto simp: find_Some_iff) (metis nth_mem set_slots)
    then have "i \<noteq> j" using i by auto
    then show ?thesis
      using Some f False put_mapping_other [OF assms(3) \<open>j \<in> slot_set\<close>] by (auto simp: mapping_at_def)
  qed (use f False in \<open>simp add: mapping_at_def\<close>)
qed

text \<open>What a successful, an overlapping and a full call of mmap do to the table.\<close>

definition mmap_outcome :: "(nat \<Rightarrow> u64) \<Rightarrow> u64 \<Rightarrow> u64 \<Rightarrow> u64 \<Rightarrow> u64 \<Rightarrow> (nat \<Rightarrow> u64) \<Rightarrow> bool" where
  "mmap_outcome ml addr L b r ml' \<longleftrightarrow> mmap_wf ml' \<and>
     (if range_taken ml addr L
      then r = 0 \<and> ml' = ml
      else r = addr \<and> (if \<forall>i\<in>slot_set. ml i \<noteq> 0 then ml' = ml
        else \<forall>x. mapping_at ml' x = (if unat addr \<le> unat x \<and> unat x < unat addr + unat L
               then Some (addr, L, b) else mapping_at ml x)))"

lemma mmap_body_ok:
  assumes "mmap_wf (mmap_list (procs s p))" "mmap_args_ok addr len prot flags" "L = mmap_length len flags"
  shows "\<exists>r ps. mmap_body p addr L prot flags s = Inr (r, s\<lparr>procs := ps\<rparr>)
    \<and> (\<forall>q. q \<noteq> p \<longrightarrow> ps q = procs s q)
    \<and> mmap_outcome (mmap_list (procs s p)) addr L (of_int prot OR of_int flags) r (mmap_list (ps p))"
proof -
  let ?ml = "mmap_list (procs s p)" and ?b = "of_int prot OR of_int flags :: u64"
  have a0: "addr \<noteq> 0" using assms(2) by (auto simp: mmap_args_ok_def)
  note ov = mmap_overlap_any [OF assms]
  have same: "s\<lparr>procs := procs s\<rparr> = s" by simp
  show ?thesis
  proof (cases "list_ex (mmap_overlap ?ml addr L) slots")
    case True
    then show ?thesis using ov assms(1)
      by (intro exI [of _ 0] exI [of _ "procs s"]) (simp add: mmap_body_def mmap_outcome_def same)
  next
    case free: False
    show ?thesis
    proof (cases "find (\<lambda>i. ?ml i = 0) slots")
      case None
      then have "\<forall>i\<in>slot_set. ?ml i \<noteq> 0" by (auto simp: find_None_iff)
      then show ?thesis using None free ov assms(1)
        by (intro exI [of _ addr] exI [of _ "procs s"]) (simp add: mmap_body_def mmap_outcome_def same)
    next
      case (Some i)
      then have i: "i \<in> slot_set" "?ml i = 0" by (auto simp: find_Some_iff) (metis nth_mem set_slots)
      have wf: "mmap_wf (put_mapping ?ml i addr L ?b)"
        by (rule put_mapping_wf [OF assms(1) i(1) assms(2,3)]) (use ov free in auto)
      let ?ps = "(procs s)(p := (procs s p)\<lparr>mmap_list := put_mapping ?ml i addr L ?b\<rparr>)"
      have "mmap_body p addr L prot flags s = Inr (addr, s\<lparr>procs := ?ps\<rparr>)"
        using Some free by (simp add: mmap_body_def upd_proc_def put_mapping_def)
      moreover have "mmap_outcome ?ml addr L ?b addr (mmap_list (?ps p))"
        using ov free wf i put_mapping_at [OF assms(1) wf i a0] by (auto simp: mmap_outcome_def)
      ultimately show ?thesis by auto
    qed
  qed
qed

lemma sys_mmap_eq:
  fixes s :: "'a procst_scheme"
  assumes "cpu_proc (mycpu s) = Some p" "trapframe (procs s p) \<noteq> 0"
  defines "addr \<equiv> tf_arg s p 0" and "len \<equiv> sint (ucast (tf_arg s p 1) :: u32)"
    and "prot \<equiv> sint (ucast (tf_arg s p 2) :: u32)" and "flags \<equiv> sint (ucast (tf_arg s p 3) :: u32)"
  shows "sys_mmap s = (if \<not> mmap_args_ok addr len prot flags then Inr (0, settled s)
    else critical Lk_mmap (mmap_body p addr (mmap_length len flags) prot flags) (settled s))"
  using assms(1,2) arg_eq [of "settled s" p] arg_eq [OF assms(1,2)] this_proc_eq [of "settled s" p]
  by (simp add: sys_mmap_def addr_def len_def prot_def flags_def)

text \<open>C8: mmap keeps the mappings of a process in range, page aligned and apart from each other.
  It rejects bad arguments and a range that meets an existing mapping, with result 0 and no
  change.  Otherwise it returns the address, and if one of the four slots is free, the addresses of
  the range, rounded up to whole pages, have the new mapping and all other addresses the mapping
  they had.  If no slot is free, it returns the address as well, but enters no mapping.  No other
  process is changed.\<close>

theorem sys_mmap_spec:
  fixes s :: "'a procst_scheme"
  assumes "cpu_proc (mycpu s) = Some p" "trapframe (procs s p) \<noteq> 0" "lock_free Lk_mmap s"
    "mmap_wf (mmap_list (procs s p))"
  defines "addr \<equiv> tf_arg s p 0" and "len \<equiv> sint (ucast (tf_arg s p 1) :: u32)"
    and "prot \<equiv> sint (ucast (tf_arg s p 2) :: u32)" and "flags \<equiv> sint (ucast (tf_arg s p 3) :: u32)"
  shows "\<exists>r t. sys_mmap s = Inr (r, t) \<and> (\<forall>q. q \<noteq> p \<longrightarrow> procs t q = procs s q)
    \<and> (if mmap_args_ok addr len prot flags
       then mmap_outcome (mmap_list (procs s p)) addr (mmap_length len flags) (of_int prot OR of_int flags) r
              (mmap_list (procs t p))
       else r = 0 \<and> procs t = procs s)"
proof (cases "mmap_args_ok addr len prot flags")
  case False
  then show ?thesis using sys_mmap_eq [OF assms(1,2), folded assms(5-8)] by simp
next
  case True
  let ?e = "entered Lk_mmap (settled s)"
  obtain r ps where b: "mmap_body p addr (mmap_length len flags) prot flags ?e = Inr (r, ?e\<lparr>procs := ps\<rparr>)"
    "\<forall>q. q \<noteq> p \<longrightarrow> ps q = procs s q"
    "mmap_outcome (mmap_list (procs s p)) addr (mmap_length len flags) (of_int prot OR of_int flags) r (mmap_list (ps p))"
    using mmap_body_ok [of ?e p, OF _ True refl] assms(4) by auto
  have "critical Lk_mmap (mmap_body p addr (mmap_length len flags) prot flags) (settled s)
    = Inr (r, (settled (settled s))\<lparr>procs := ps\<rparr>)"
    by (rule critical_procs) (use assms(3) b(1) in simp_all)
  then show ?thesis using sys_mmap_eq [OF assms(1,2), folded assms(5-8)] True b(2,3) by simp
qed

definition ps_mmap :: "nat \<Rightarrow> proc" where
  "ps_mmap p = (if p = 1 then proc0\<lparr>trapframe := 0x80200000\<rparr> else proc0)"

text \<open>A process that asks for three writable private pages at 0x90000000.\<close>

definition kst_mmap :: kst where
  "kst_mmap = (kfresh_run 1)\<lparr>mem := st64 (st64 (st64 (st64 (\<lambda>_. 0) (0x80200000 + TF_a 0) 0x90000000)
     (0x80200000 + TF_a 1) 0x2345) (0x80200000 + TF_a 2) 2) (0x80200000 + TF_a 3) 0x10\<rparr>"

lemma kst_mmap_args:
  "tf_arg (procst_of kst_mmap ps_mmap) 1 0 = 0x90000000" "tf_arg (procst_of kst_mmap ps_mmap) 1 1 = 0x2345"
  "tf_arg (procst_of kst_mmap ps_mmap) 1 2 = 2" "tf_arg (procst_of kst_mmap ps_mmap) 1 3 = 0x10"
  by (simp_all add: tf_arg_def ps_mmap_def kst_mmap_def TF_a_def ld64_st64_other aligned8_def)

theorem sys_mmap_spec_witness:
  "\<exists>t. sys_mmap (procst_of kst_mmap ps_mmap) = Inr (0x90000000, t)
    \<and> mapping_at (mmap_list (procs t 1)) 0x90002fff = Some (0x90000000, 0x3000, 0x12)"
proof -
  let ?s = "procst_of kst_mmap ps_mmap"
  have cpu: "cpu_proc (mycpu ?s) = Some 1" and lk: "lock_free Lk_mmap ?s"
    using kfresh_run_simps(1) [of 1] kfresh_run_simps(3) [of Lk_mmap 1]
    by (simp_all add: kst_mmap_def mycpu_def lock_free_def)
  have ml: "mmap_list (procs ?s 1) = (\<lambda>_. 0)" "trapframe (procs ?s 1) \<noteq> 0"
    by (simp_all add: ps_mmap_def proc0_def)
  have wf: "mmap_wf (\<lambda>_. 0)" by (simp add: mmap_wf_def slot_ok_def)
  have none: "mapping_at (\<lambda>_. 0) x = None" for x
    by (simp add: mapping_at_def find_mapping_def slots_def)
  have ne: "slot_set \<noteq> {}" by (simp add: slot_set_def)
  have ok: "mmap_args_ok 0x90000000 0x2345 2 0x10" by (simp add: mmap_args_ok_def)
  have L: "mmap_length 0x2345 0x10 = 0x3000" by (simp add: mmap_length_def PGROUNDUP_def)
  from sys_mmap_spec [OF cpu ml(2) lk, unfolded ml(1), OF wf, unfolded kst_mmap_args] ok L
  show ?thesis by (auto simp: mmap_outcome_def range_taken_def none ne)
qed

end
