(* ===== verification/Paging.thy ===== *)
theory Paging
  imports Mappings Uvm
begin

text \<open>
  Demand paging and copy-on-write: what the page-fault handler and \<^verbatim>\<open>fork\<close> do to the
  frames, the reference counts and the page tables of the processes, for base pages.
\<close>

section \<open>Changes outside the tables\<close>

lemma outside_tables:
  assumes "pt_wf m pt" "is_page q" "q \<notin> tables m pt" "a \<in> \<Union> ((\<lambda>p. region p 4096) ` tables m pt)"
  shows "a \<notin> region q 4096"
proof -
  obtain p where p: "p \<in> tables m pt" "a \<in> region p 4096" using assms(4) by blast
  then have "is_page p" using pt_wfD(1) [OF assms(1)] by (auto simp: tables_def)
  then show ?thesis using page_apart [OF assms(2), of p] p assms(3) by blast
qed

text \<open>A write to a frame that is no table of the page table.\<close>

lemma frame_write:
  assumes "pt_wf m pt" "is_page q" "q \<notin> tables m pt" "\<And>a. a \<notin> region q 4096 \<Longrightarrow> m' a = m a"
  shows "pt_wf m' pt" "same_view pt m m'" "path_ok P \<Longrightarrow> node m' pt P = node m pt P"
proof -
  have eq: "m' a = m a" if "a \<in> \<Union> ((\<lambda>p. region p 4096) ` tables m pt)" for a
    using outside_tables [OF assms(1-3) that] assms(4) by blast
  show "pt_wf m' pt" by (rule pt_wf_cong [OF assms(1) eq])
  show "same_view pt m m'"
    unfolding same_view_def using entry_cong [OF assms(1) eq] tables_cong [OF assms(1) eq] by blast
  show "path_ok P \<Longrightarrow> node m' pt P = node m pt P" by (rule node_cong [OF assms(1) eq])
qed

text \<open>A table that is in place is found, whether or not the walk may allocate.\<close>

lemma walk_step_node:
  assumes "node (mem s) pt P = Some p" "node (mem s) pt (ix l va # P) = Some q"
  shows "walk_step p va al l s = Inr (Some q, s)"
  using assms by (auto simp: walk_step_def slot_ix Let_def is_table_def split: if_splits)

lemma walk_present:
  assumes "node (mem s) pt [ix 1 va, ix 2 va] = Some p" "va < MAXVA"
  shows "walk pt va al s = Inr (slot p (of_nat (ix 0 va)), s)"
proof -
  obtain q where q: "node (mem s) pt [ix 2 va] = Some q"
    using assms(1) by (auto split: option.splits)
  have "walk_step pt va al 2 s = Inr (Some q, s)" "walk_step q va al 1 s = Inr (Some p, s)"
    using walk_step_node [OF _ q] walk_step_node [OF q assms(1)] by simp_all
  then show ?thesis using assms(2) by (simp add: walk_def slot_ix not_le [symmetric] del: MAXVA_def)
qed

lemma pte_node:
  assumes "pte_of m pt va \<noteq> 0"
  obtains p where "node m pt [ix 1 va, ix 2 va] = Some p" "pte_of m pt va = ld64 m (slot p (of_nat (ix 0 va)))"
  using assms by (auto simp: pte_of_def simp del: node.simps split: option.splits)

lemma node_table:
  assumes "node m pt [ix 1 va, ix 2 va] = Some p"
  shows "p \<in> tables m pt"
  unfolding tables_def using assms by (intro CollectI exI [of _ "[ix 1 va, ix 2 va]"]) (simp del: node.simps)

text \<open>The memory after the entry of a page is replaced.\<close>

lemma node_page:
  assumes "pt_inv s pt" "node (mem s) pt [ix 1 va, ix 2 va] = Some p"
  shows "is_page p"
  using pt_wfD(1) [OF _ _ assms(2)] assms(1) by (simp add: pt_inv_def)

lemma set_entry:
  fixes v :: u64
  assumes "kmem_inv s" "pt_inv s pt" "node (mem s) pt [ix 1 va, ix 2 va] = Some p" "va < MAXVA"
  defines "t \<equiv> s\<lparr>mem := st64 (mem s) (slot p (of_nat (ix 0 va))) v\<rparr>"
  shows "kmem_inv t" "pt_inv t pt" "tables (mem t) pt = tables (mem s) pt"
    "x < MAXVA \<Longrightarrow> pte_of (mem t) pt x = (if vpn x = vpn va then v else pte_of (mem s) pt x)"
    "a \<notin> region p 4096 \<Longrightarrow> mem t a = mem s a"
proof -
  have wf: "pt_wf (mem s) pt" using assms(2) by (simp add: pt_inv_def)
  note ls = leaf_store [OF wf assms(3,4), where v = v]
  show "kmem_inv t" "pt_inv t pt"
    using touchesD(1,2) [OF leaf_touches [OF assms(1-4)]] unfolding t_def by blast+
  show "tables (mem t) pt = tables (mem s) pt" using ls(2) by (simp add: t_def)
  show "pte_of (mem t) pt x = (if vpn x = vpn va then v else pte_of (mem s) pt x)" if "x < MAXVA"
    using ls(4) [OF that] by (simp add: t_def vpn_PGROUNDDOWN)
  have p: "is_page p" using pt_wfD(1) [OF wf _ assms(3)] by simp
  show "mem t a = mem s a" if "a \<notin> region p 4096"
    using st64_slot_frame [OF p ix_less that] by (simp add: t_def)
qed

text \<open>Allocation of a frame beside a page table.\<close>

lemma take_beside:
  assumes "kmem_inv s" "pt_inv s pt" "page_avail s j" "t = take_page j (settled s)"
  shows "kmem_inv t" "pt_inv t pt" "same_view pt (mem s) (mem t)"
    "page_addr j \<notin> tables (mem s) pt" "page_refs t = (page_refs s)(j := 1)"
    "mem t a = (if a \<in> region (page_addr j) 4096 then 0 else mem s a)"
    "path_ok P \<Longrightarrow> node (mem t) pt P = node (mem s) pt P"
proof -
  have n: "j < NPAGE" "page_refs s j = 0" using assms(3) by (simp_all add: page_avail_def page_refs_def)
  show q: "page_addr j \<notin> tables (mem s) pt" by (rule fresh_not_table [OF assms(2) n])
  have wf: "pt_wf (mem s) pt" using assms(2) by (simp add: pt_inv_def)
  have m: "mem t a = (if a \<in> region (page_addr j) 4096 then 0 else mem s a)" for a
    by (simp add: assms(4) take_page_def memset_eq region_def)
  then show "mem t a = (if a \<in> region (page_addr j) 4096 then 0 else mem s a)" .
  have out: "mem t a = mem s a" if "a \<notin> region (page_addr j) 4096" for a using m that by simp
  note fw = frame_write [OF wf is_pageI [OF n(1)] q out]
  show "same_view pt (mem s) (mem t)" "path_ok P \<Longrightarrow> node (mem t) pt P = node (mem s) pt P"
    using fw(2,3) by blast+
  show r: "page_refs t = (page_refs s)(j := 1)" by (simp add: assms(4))
  show "kmem_inv t" unfolding assms(4) by (rule kmem_inv_change(1) [OF assms(1,3)])
  show "pt_inv t pt" using assms(2) fw(1,2) r by (auto simp: pt_inv_def same_view_def)
qed

lemma kalloc_beside:
  assumes "kmem_inv s" "pt_inv s pt" "kalloc_section s \<noteq> None"
  obtains j t where "kalloc s = Inr (page_addr j, t)" "page_avail s j" "t = take_page j (settled s)"
    "kmem_inv t" "pt_inv t pt" "same_view pt (mem s) (mem t)"
    "page_addr j \<notin> tables (mem s) pt" "page_refs t = (page_refs s)(j := 1)"
    "\<And>a. mem t a = (if a \<in> region (page_addr j) 4096 then 0 else mem s a)"
    "\<And>P. path_ok P \<Longrightarrow> node (mem t) pt P = node (mem s) pt P"
proof -
  obtain j where j: "page_avail s j" "kalloc s = Inr (page_addr j, take_page j (settled s))"
    using kalloc_ok [OF assms(1)] assms(3) by blast
  note t = take_beside [OF assms(1,2) j(1) refl]
  show ?thesis by (rule that [OF j(2,1) refl t(1-5) t(6) t(7)])
qed

section \<open>Demand paging\<close>

text \<open>The handler once the walk has found the place of an entry that is not valid.\<close>

lemma fault_base_new:
  assumes "walk (pagetable (procs s p)) addr True s = Inr (r, t)" "r \<noteq> 0" "ld64 (mem t) r AND PTE_V = 0"
    "\<not> (ld64 (mem t) r AND PTE_CoW = 0x200 \<and> ld64 (mem t) r AND PTE_R \<noteq> 0)" "kalloc t = Inr (pa, u)"
  shows "fault_base scause p addr b s
    = Inr (False, u\<lparr>mem := st64 (mem u) r (PA2PTE pa OR create_pte_flag b False False)\<rparr>)"
  using assms by (auto simp: fault_base_def ld_ptr_def fault_perm_flags)

text \<open>
  The result of mapping one page at \<open>addr\<close> to the frame \<open>pa\<close>: the entry is set, all others are
  kept, and the frame, if there was one, is new and filled with zeros.
\<close>

definition page_mapped :: "u64 \<Rightarrow> u64 \<Rightarrow> u64 \<Rightarrow> u64 \<Rightarrow> 'a kst_scheme \<Rightarrow> 'a kst_scheme \<Rightarrow> bool" where
  "page_mapped pt addr pa fl s t \<longleftrightarrow> kmem_inv t \<and> pt_inv t pt
     \<and> (\<forall>x. x < MAXVA \<longrightarrow> pte_of (mem t) pt x = (if vpn x = vpn addr then PA2PTE pa OR fl else pte_of (mem s) pt x))
     \<and> (pa \<noteq> 0 \<longrightarrow> (\<exists>j < NPAGE. pa = page_addr j \<and> page_refs s j = 0 \<and> page_refs t j = 1
          \<and> pa \<notin> tables (mem t) pt \<and> (\<forall>a\<in>region pa 4096. mem t a = 0)))"

lemma demand_alloc:
  assumes "kmem_inv t" "pt_inv t pt" "addr < MAXVA" "node (mem t) pt [ix 1 addr, ix 2 addr] = Some q"
  shows "\<exists>pa u. kalloc t = Inr (pa, u) \<and> (pa = 0 \<longleftrightarrow> kalloc_section t = None)
    \<and> page_mapped pt addr pa fl t (u\<lparr>mem := st64 (mem u) (slot q (of_nat (ix 0 addr))) (PA2PTE pa OR fl)\<rparr>)"
proof (cases "kalloc_section t")
  case None
  have k: "kmem_inv (settled t)" "pt_inv (settled t) pt" using assms(1) touchesD(2) grows_settled [OF assms(1,2)]
    by (auto simp: grows_def)
  have n: "node (mem (settled t)) pt [ix 1 addr, ix 2 addr] = Some q" using assms(4) by (simp del: node.simps)
  note e = set_entry [OF k n assms(3), where v = "PA2PTE 0 OR fl"]
  show ?thesis
    using kalloc_null [OF assms(1) None] None e(1,2,4)
    by (intro exI [of _ 0] exI [of _ "settled t"]) (simp add: page_mapped_def del: MAXVA_def)
next
  case (Some h)
  then have sec: "kalloc_section t \<noteq> None" by simp
  show ?thesis
  proof (rule kalloc_beside [OF assms(1,2) sec])
    fix j u
    assume u: "kalloc t = Inr (page_addr j, u)" "page_avail t j" "kmem_inv u" "pt_inv u pt" "same_view pt (mem t) (mem u)"
      "page_addr j \<notin> tables (mem t) pt" "page_refs u = (page_refs t)(j := 1)"
      and m: "\<And>a. mem u a = (if a \<in> region (page_addr j) 4096 then 0 else mem t a)"
      and nd: "\<And>P. path_ok P \<Longrightarrow> node (mem u) pt P = node (mem t) pt P"
    have j: "j < NPAGE" "page_refs t j = 0" using u(2) by (simp_all add: page_avail_def page_refs_def)
    have n: "node (mem u) pt [ix 1 addr, ix 2 addr] = Some q" using nd assms(4) by (simp del: node.simps)
    let ?w = "u\<lparr>mem := st64 (mem u) (slot q (of_nat (ix 0 addr))) (PA2PTE (page_addr j) OR fl)\<rparr>"
    note e = set_entry [OF u(3,4) n assms(3), where v = "PA2PTE (page_addr j) OR fl"]
    have T: "tables (mem ?w) pt = tables (mem t) pt" using e(3) u(5) by (simp add: same_view_def)
    have "q \<in> tables (mem t) pt" by (rule node_table [OF assms(4)])
    then have apart: "region (page_addr j) 4096 \<inter> region q 4096 = {}"
      using page_apart [OF is_pageI [OF j(1)] node_page [OF u(4) n]] u(6) by blast
    have z: "\<forall>a\<in>region (page_addr j) 4096. mem ?w a = 0"
    proof
      fix a assume a: "a \<in> region (page_addr j) 4096"
      then have "a \<notin> region q 4096" using apart by blast
      then show "mem ?w a = 0" using e(5) m a by simp
    qed
    have x: "\<forall>x. x < MAXVA \<longrightarrow> pte_of (mem ?w) pt x
        = (if vpn x = vpn addr then PA2PTE (page_addr j) OR fl else pte_of (mem t) pt x)"
      using e(4) u(5) by (simp add: same_view_def del: MAXVA_def)
    have "page_refs ?w j = 1" using u(7) by (simp add: page_refs_def fun_eq_iff)
    then have "page_mapped pt addr (page_addr j) fl t ?w"
      unfolding page_mapped_def using e(1,2) x j u(6) T z by blast
    moreover have "page_addr j \<noteq> 0" using j(1) by simp
    ultimately show ?thesis using u(1) sec by (intro exI [of _ "page_addr j"] exI [of _ u]) simp
  qed
qed

lemma grows_mapped:
  assumes "grows pt s t" "page_mapped pt addr pa fl t u"
  shows "page_mapped pt addr pa fl s u"
proof -
  have tt: "touches pt s t" and e: "pte_of (mem t) pt x = pte_of (mem s) pt x" for x
    using assms(1) by (simp_all add: grows_def)
  have "page_refs s j = 0" if "page_refs t j = 0" for j
    using touchesD(6) [OF tt, of j] that by auto
  then show ?thesis using assms(2) e unfolding page_mapped_def by (auto simp del: MAXVA_def)
qed

text \<open>C7: Demand paging: a fault on a page of a mapping that has no frame yet, and is not shared with
  another process, gives the process a new frame filled with zeros, with one reference and the
  permissions of the mapping, and changes no other entry of its page table.  When no frame is left,
  the handler faults on a null pointer while it extends the tables, or enters a mapping of physical
  address 0.\<close>

theorem demand_fault:
  assumes "kmem_inv s" "pt_inv s pt" "pt = pagetable (procs s p)" "addr < MAXVA" "no_huge (mem s) pt addr"
    "pte_of (mem s) pt addr AND PTE_V = 0"
    "\<not> (pte_of (mem s) pt addr AND PTE_CoW = 0x200 \<and> pte_of (mem s) pt addr AND PTE_R \<noteq> 0)"
  shows "(\<exists>t. walk pt addr True s = Inr (0, t) \<and> kalloc_section t = None \<and> fault_base scause p addr b s = Inl Wild)
    \<or> (\<exists>t pa u. grows pt s t \<and> (pa = 0 \<longleftrightarrow> kalloc_section t = None)
        \<and> fault_base scause p addr b s = Inr (False, u)
        \<and> page_mapped pt addr pa (create_pte_flag b False False) s u)"
proof -
  obtain r t where w: "walk pt addr True s = Inr (r, t)" "grows pt s t"
    "r = 0 \<and> kalloc_section t = None \<or> (\<exists>q. r = slot q (of_nat (ix 0 addr)) \<and> node (mem t) pt [ix 1 addr, ix 2 addr] = Some q)"
    using walk_alloc [OF assms(1,2,4)] assms(5) unfolding no_huge_def by blast
  from w(3) show ?thesis
  proof
    assume r: "r = 0 \<and> kalloc_section t = None"
    then have "fault_base scause p addr b s = Inl Wild" using w(1) assms(3) by (simp add: fault_base_def ld_ptr_def)
    then show ?thesis using w(1) r by (intro disjI1 exI [of _ t]) simp
  next
    assume "\<exists>q. r = slot q (of_nat (ix 0 addr)) \<and> node (mem t) pt [ix 1 addr, ix 2 addr] = Some q"
    then obtain q where q: "r = slot q (of_nat (ix 0 addr))" "node (mem t) pt [ix 1 addr, ix 2 addr] = Some q" by blast
    have k: "kmem_inv t" "pt_inv t pt" using w(2) touchesD(1,2) by (auto simp: grows_def)
    have r: "r \<noteq> 0" using slot_nonnull [OF node_page [OF k(2) q(2)]] q(1) by simp
    have e: "ld64 (mem t) r = pte_of (mem s) pt addr"
    proof -
      have "pte_of (mem t) pt addr = ld64 (mem t) r" unfolding pte_of_def q(2) q(1) by simp
      then show ?thesis using w(2) by (simp add: grows_def)
    qed
    obtain pa u where u: "kalloc t = Inr (pa, u)" "pa = 0 \<longleftrightarrow> kalloc_section t = None"
      "page_mapped pt addr pa (create_pte_flag b False False) t (u\<lparr>mem := st64 (mem u) r (PA2PTE pa OR create_pte_flag b False False)\<rparr>)"
      using demand_alloc [OF k assms(4) q(2)] q(1) by blast
    have "fault_base scause p addr b s
      = Inr (False, u\<lparr>mem := st64 (mem u) r (PA2PTE pa OR create_pte_flag b False False)\<rparr>)"
      by (rule fault_base_new [OF w(1) [unfolded assms(3)] r]) (use assms(6,7) e u(1) in simp_all)
    then show ?thesis
      using w(2) u(2) grows_mapped [OF w(2) u(3)] by (intro disjI2 exI [of _ t] exI [of _ pa] exI conjI)
  qed
qed

section \<open>Copy on write\<close>

text \<open>The copy of a whole frame to another.\<close>

lemma memmove_page:
  assumes "is_page p" "is_page q"
  shows "memmove m p q 4096 = (\<lambda>a. if a \<in> region p 4096 then m (q + (a - p)) else m a)"
proof -
  have "unat p + 4096 < 18446744073709551616" "unat q + 4096 < 18446744073709551616"
    using is_page_nat [OF assms(1)] is_page_nat [OF assms(2)] by auto
  then show ?thesis using memmove_eq [of q 4096 p m] by (simp add: region_def)
qed

lemma copied_offset:
  assumes "is_page p" "i < 4096"
  shows "p + of_nat i \<in> region p 4096" "p + of_nat i - p = of_nat i"
  using assms(2) by (simp_all add: region_def)

text \<open>The state after the handler has allocated the frame \<open>j\<close> and copied the old frame to it.\<close>

lemma cow_copy:
  assumes "kmem_inv s" "pt_inv s pt" "kalloc_section s \<noteq> None" "k < NPAGE" "0 < page_refs s k"
  obtains j u v where "kalloc s = Inr (page_addr j, u)" "v = u\<lparr>mem := memmove (mem u) (page_addr j) (page_addr k) 4096\<rparr>"
    "j < NPAGE" "j \<noteq> k" "page_refs s j = 0" "page_addr j \<notin> tables (mem s) pt"
    "kmem_inv v" "pt_inv v pt" "same_view pt (mem s) (mem u)" "same_view pt (mem s) (mem v)"
    "page_refs v = (page_refs s)(j := 1)"
    "\<And>P. path_ok P \<Longrightarrow> node (mem u) pt P = node (mem s) pt P"
    "\<And>P. path_ok P \<Longrightarrow> node (mem v) pt P = node (mem s) pt P"
    "\<And>a. a \<notin> region (page_addr j) 4096 \<Longrightarrow> mem v a = mem s a"
    "\<And>i. i < 4096 \<Longrightarrow> mem v (page_addr j + of_nat i) = mem s (page_addr k + of_nat i)"
proof -
  obtain j u where u: "kalloc s = Inr (page_addr j, u)" "page_avail s j" "kmem_inv u" "pt_inv u pt"
    "same_view pt (mem s) (mem u)" "page_addr j \<notin> tables (mem s) pt" "page_refs u = (page_refs s)(j := 1)"
    and m: "\<And>a. mem u a = (if a \<in> region (page_addr j) 4096 then 0 else mem s a)"
    and nd: "\<And>P. path_ok P \<Longrightarrow> node (mem u) pt P = node (mem s) pt P"
    by (rule kalloc_beside [OF assms(1-3)]) blast
  have j: "j < NPAGE" "page_refs s j = 0" using u(2) by (simp_all add: page_avail_def page_refs_def)
  have jk: "j \<noteq> k" using j assms(5) by auto
  note pj = is_pageI [OF j(1)] and pk = is_pageI [OF assms(4)]
  have "page_addr j \<noteq> page_addr k" using jk page_addr_inj [of j k] j(1) assms(4) by auto
  then have apart: "region (page_addr j) 4096 \<inter> region (page_addr k) 4096 = {}" by (rule page_apart [OF pj pk])
  let ?m = "memmove (mem u) (page_addr j) (page_addr k) 4096"
  let ?v = "u\<lparr>mem := ?m\<rparr>"
  note mm = memmove_page [OF pj pk, of "mem u"]
  have out: "?m a = mem u a" if "a \<notin> region (page_addr j) 4096" for a using that unfolding mm by simp
  have T: "tables (mem u) pt = tables (mem s) pt" using u(5) by (simp add: same_view_def)
  have wf: "pt_wf (mem u) pt" using u(4) by (simp add: pt_inv_def)
  have nj: "page_addr j \<notin> tables (mem u) pt" using u(6) T by simp
  note fw = frame_write [OF wf pj nj out]
  have "pt_inv ?v pt"
    using u(4) fw(1,2) by (simp add: pt_inv_def same_view_def page_refs_def)
  moreover have "same_view pt (mem s) (mem ?v)" using same_view_trans [OF u(5) fw(2)] by simp
  moreover have "page_refs ?v = (page_refs s)(j := 1)" using u(7) by (simp add: page_refs_def fun_eq_iff)
  moreover have "node (mem ?v) pt P = node (mem s) pt P" if "path_ok P" for P
    using fw(3) [of P] nd [OF that] that by simp
  moreover have "mem ?v a = mem s a" if "a \<notin> region (page_addr j) 4096" for a using out [OF that] m that by simp
  moreover have "mem ?v (page_addr j + of_nat i) = mem s (page_addr k + of_nat i)" if i: "i < 4096" for i
  proof -
    have "page_addr k + of_nat i \<notin> region (page_addr j) 4096" using copied_offset(1) [OF pk i] apart by blast
    then show ?thesis using m copied_offset [OF pj i] by (simp add: mm)
  qed
  ultimately show ?thesis using that [OF u(1) refl j(1) jk j(2) u(6) _ _ u(5)] u(3) nd by simp
qed

lemma fault_base_cow:
  assumes "walk (pagetable (procs s p)) addr True s = Inr (r, s)" "r \<noteq> 0" "ld64 (mem s) r = e"
    "e AND PTE_V \<noteq> 0" "e AND PTE_W = 0" "e AND PTE_CoW = 0x300" "e AND PTE_R \<noteq> 0"
    "kalloc s = Inr (pa, u)" "pa \<noteq> 0" "ld64 (mem u) r = e"
    "v = u\<lparr>mem := memmove (mem u) pa (PTE2PA e) 4096\<rparr>" "ld64 (mem v) r = e" "kfree (PTE2PA e) v = Inr w"
  shows "fault_base 15 p addr b s
    = Inr (False, w\<lparr>mem := st64 (mem w) r (PA2PTE pa OR create_pte_flag b False False)\<rparr>)"
  using assms by (simp add: fault_base_def ld_ptr_def)

text \<open>Freeing one of several references leaves the bytes of the frame alone.\<close>

lemma kfree_shared:
  assumes "kmem_inv s" "k < NPAGE" "1 < page_refs s k" "kfree (page_addr k) s = Inr t"
  shows "mem t = mem s"
proof -
  have "pa_referenced s k \<noteq> 0" "pa_referenced s k \<noteq> 1" using assms(3) by (auto simp: page_refs_def)
  then show ?thesis using kfree_live [OF assms(1,2)] assms(4) by (auto simp: set_ref_def)
qed

definition cow_done :: "u64 \<Rightarrow> u64 \<Rightarrow> u64 \<Rightarrow> nat \<Rightarrow> nat \<Rightarrow> 'a kst_scheme \<Rightarrow> 'a kst_scheme \<Rightarrow> bool" where
  "cow_done pt addr fl k j s t \<longleftrightarrow> kmem_inv t \<and> pt_inv t pt \<and> j < NPAGE \<and> j \<noteq> k \<and> page_refs s j = 0
     \<and> page_refs t = (page_refs s)(j := 1, k := page_refs s k - 1)
     \<and> (\<forall>x. x < MAXVA \<longrightarrow> pte_of (mem t) pt x
          = (if vpn x = vpn addr then PA2PTE (page_addr j) OR fl else pte_of (mem s) pt x))
     \<and> (\<forall>i < 4096. mem t (page_addr j + of_nat i) = mem s (page_addr k + of_nat i))
     \<and> (1 < page_refs s k \<longrightarrow> (\<forall>a\<in>region (page_addr k) 4096. mem t a = mem s a))"

lemma cow_finish:
  assumes v: "kmem_inv v" "pt_inv v pt" "same_view pt (mem s) (mem v)" "page_refs v = (page_refs s)(j := 1)"
    "\<And>P. path_ok P \<Longrightarrow> node (mem v) pt P = node (mem s) pt P"
    "\<And>a. a \<notin> region (page_addr j) 4096 \<Longrightarrow> mem v a = mem s a"
    "\<And>i. i < 4096 \<Longrightarrow> mem v (page_addr j + of_nat i) = mem s (page_addr k + of_nat i)"
    and j: "j < NPAGE" "j \<noteq> k" "page_refs s j = 0" "page_addr j \<notin> tables (mem s) pt"
    and k: "k < NPAGE" "0 < page_refs s k" "page_addr k \<notin> tables (mem s) pt"
    and q: "node (mem s) pt [ix 1 addr, ix 2 addr] = Some q" "addr < MAXVA"
  shows "\<exists>w. kfree (page_addr k) v = Inr w
    \<and> cow_done pt addr fl k j s (w\<lparr>mem := st64 (mem w) (slot q (of_nat (ix 0 addr))) (PA2PTE (page_addr j) OR fl)\<rparr>)"
proof -
  have T: "tables (mem v) pt = tables (mem s) pt" using v(3) by (simp add: same_view_def)
  have rk: "page_refs v k = page_refs s k" using v(4) j(2) by simp
  obtain w where w: "kfree (page_addr k) v = Inr w" "kmem_inv w" "pt_inv w pt" "same_view pt (mem v) (mem w)"
    "page_refs w = (page_refs v)(k := page_refs v k - 1)"
    "\<forall>a. a \<notin> region (page_addr k) 4096 \<longrightarrow> mem w a = mem v a"
    using kfree_data [OF v(1,2) k(1)] k(2,3) rk T by auto
  let ?e = "PA2PTE (page_addr j) OR fl"
  let ?t = "w\<lparr>mem := st64 (mem w) (slot q (of_nat (ix 0 addr))) ?e\<rparr>"
  have wf: "pt_wf (mem v) pt" using v(2) by (simp add: pt_inv_def)
  have kT: "page_addr k \<notin> tables (mem v) pt" using k(3) T by simp
  have n: "node (mem w) pt [ix 1 addr, ix 2 addr] = Some q"
    using frame_write(3) [OF wf is_pageI [OF k(1)] kT, of "mem w" "[ix 1 addr, ix 2 addr]"] w(6) v(5) q(1)
    by (simp del: node.simps)
  note e = set_entry [OF w(2,3) n q(2), where v = ?e]
  have "q \<in> tables (mem s) pt" by (rule node_table [OF q(1)])
  then have qj: "region (page_addr j) 4096 \<inter> region q 4096 = {}" and qk: "region (page_addr k) 4096 \<inter> region q 4096 = {}"
    using page_apart [OF is_pageI [OF j(1)] node_page [OF w(3) n]] page_apart [OF is_pageI [OF k(1)] node_page [OF w(3) n]]
      j(4) k(3) by blast+
  have jk: "region (page_addr j) 4096 \<inter> region (page_addr k) 4096 = {}"
    using page_apart [OF is_pageI [OF j(1)] is_pageI [OF k(1)]] page_addr_inj [of j k] j(1,2) k(1) by auto
  have cj: "mem ?t (page_addr j + of_nat i) = mem s (page_addr k + of_nat i)" if "i < 4096" for i
    using copied_offset(1) [OF is_pageI [OF j(1)] that] e(5) qj jk w(6) v(7) [OF that] by (metis disjoint_iff)
  have ck: "mem ?t a = mem s a" if "1 < page_refs s k" "a \<in> region (page_addr k) 4096" for a
  proof -
    have "mem w = mem v" using kfree_shared [OF v(1) k(1) _ w(1)] rk that(1) by simp
    moreover have "a \<notin> region q 4096" "a \<notin> region (page_addr j) 4096" using that(2) qk jk by blast+
    ultimately show ?thesis using e(5) v(6) by simp
  qed
  have "page_refs ?t = (page_refs s)(j := 1, k := page_refs s k - 1)"
    using w(5) v(4) j(2) by (simp add: page_refs_def fun_eq_iff)
  then have "cow_done pt addr fl k j s ?t"
    unfolding cow_done_def using e(1,2,4) j cj ck w(4) v(3) by (simp add: same_view_def del: MAXVA_def)
  then show ?thesis using w(1) by blast
qed

text \<open>C3: Copy on write: a write fault on a page that fork left read-only with the copy-on-write mark
  gives the process a new frame with the same bytes and the permissions of the mapping, takes one
  reference from the old frame, changes no other entry, and leaves the bytes of the old frame as
  they are for the processes that still share it.\<close>

theorem cow_fault:
  assumes "kmem_inv s" "pt_inv s pt" "pt = pagetable (procs s p)" "addr < MAXVA" "e = pte_of (mem s) pt addr"
    "e AND PTE_V \<noteq> 0" "e AND PTE_W = 0" "e AND PTE_CoW = 0x300" "e AND PTE_R \<noteq> 0"
    "PTE2PA e = page_addr k" "k < NPAGE" "0 < page_refs s k" "page_addr k \<notin> tables (mem s) pt"
    "kalloc_section s \<noteq> None"
  shows "\<exists>j t. fault_base 15 p addr b s = Inr (False, t) \<and> cow_done pt addr (create_pte_flag b False False) k j s t"
proof -
  have "pte_of (mem s) pt addr \<noteq> 0" using assms(5,6) by auto
  then obtain q where q: "node (mem s) pt [ix 1 addr, ix 2 addr] = Some q"
    "pte_of (mem s) pt addr = ld64 (mem s) (slot q (of_nat (ix 0 addr)))" by (rule pte_node)
  let ?r = "slot q (of_nat (ix 0 addr))"
  note w = walk_present [OF q(1) assms(4), of True]
  have r: "?r \<noteq> 0" using slot_nonnull [OF node_page [OF assms(2) q(1)]] by simp
  obtain j u v where jv: "kalloc s = Inr (page_addr j, u)" "v = u\<lparr>mem := memmove (mem u) (page_addr j) (page_addr k) 4096\<rparr>"
    "j < NPAGE" "j \<noteq> k" "page_refs s j = 0" "page_addr j \<notin> tables (mem s) pt"
    "kmem_inv v" "pt_inv v pt" "same_view pt (mem s) (mem u)" "same_view pt (mem s) (mem v)"
    "page_refs v = (page_refs s)(j := 1)"
    and nu: "\<And>P. path_ok P \<Longrightarrow> node (mem u) pt P = node (mem s) pt P"
    and nv: "\<And>P. path_ok P \<Longrightarrow> node (mem v) pt P = node (mem s) pt P"
    and mv: "\<And>a. a \<notin> region (page_addr j) 4096 \<Longrightarrow> mem v a = mem s a"
      "\<And>i. i < 4096 \<Longrightarrow> mem v (page_addr j + of_nat i) = mem s (page_addr k + of_nat i)"
    by (rule cow_copy [OF assms(1,2,14,11,12)]) blast
  have same: "ld64 m ?r = e" if "same_view pt (mem s) m" "node m pt [ix 1 addr, ix 2 addr] = Some q" for m
  proof -
    have "pte_of m pt addr = ld64 m ?r" unfolding pte_of_def that(2) by simp
    then show ?thesis using that(1) assms(5) by (simp add: same_view_def)
  qed
  obtain z where z: "kfree (page_addr k) v = Inr z"
    "cow_done pt addr (create_pte_flag b False False) k j s
      (z\<lparr>mem := st64 (mem z) ?r (PA2PTE (page_addr j) OR create_pte_flag b False False)\<rparr>)"
    using cow_finish [OF jv(7,8,10,11) nv mv jv(3-6) assms(11-13) q(1) assms(4)] by blast
  have "fault_base 15 p addr b s
    = Inr (False, z\<lparr>mem := st64 (mem z) ?r (PA2PTE (page_addr j) OR create_pte_flag b False False)\<rparr>)"
  proof (rule fault_base_cow [OF w [unfolded assms(3)] r _ assms(6-9) jv(1)])
    show "ld64 (mem s) ?r = e" using q(2) assms(5) by simp
    show "ld64 (mem u) ?r = e" by (rule same [OF jv(9)]) (use nu q(1) in \<open>simp del: node.simps\<close>)
    show "ld64 (mem v) ?r = e" by (rule same [OF jv(10)]) (use nv q(1) in \<open>simp del: node.simps\<close>)
    show "v = u\<lparr>mem := memmove (mem u) (page_addr j) (PTE2PA e) 4096\<rparr>" using jv(2) assms(10) by simp
    show "kfree (PTE2PA e) v = Inr z" using z(1) assms(10) by simp
    show "page_addr j \<noteq> 0" using jv(3) by simp
  qed
  then show ?thesis using z(2) by blast
qed

section \<open>Sharing by fork\<close>

text \<open>The tables of one process grow; those of another, with which it shares no table, stay.\<close>

lemma touches_other:
  assumes "touches pt' s t" "pt_inv s pt" "tables (mem s) pt \<inter> tables (mem s) pt' = {}"
  shows "pt_inv t pt" "same_view pt (mem s) (mem t)" "tables (mem t) pt \<inter> tables (mem t) pt' = {}"
    "path_ok P \<Longrightarrow> node (mem t) pt P = node (mem s) pt P"
proof -
  note D = touchesD [OF assms(1)]
  have wf: "pt_wf (mem s) pt" using assms(2) by (simp add: pt_inv_def)
  have wf': "pt_wf (mem t) pt'" using D(2) by (simp add: pt_inv_def)
  have pg: "is_page r" if "r \<in> tables (mem s) pt" for r
    using that pt_wfD(1) [OF wf] by (auto simp: tables_def)
  have pg': "is_page r" if "r \<in> tables (mem t) pt'" for r
    using that pt_wfD(1) [OF wf'] by (auto simp: tables_def)
  have dis: "r \<notin> tables (mem t) pt'" if r: "r \<in> tables (mem s) pt" for r
  proof
    assume rt: "r \<in> tables (mem t) pt'"
    obtain k where k: "k < NPAGE" "r = page_addr k" using pg [OF r] by (auto simp: is_page_def)
    have "r \<notin> tables (mem s) pt'" using r assms(3) by blast
    then have "page_refs s k = 0" using D(7) [OF k(1)] rt k(2) by blast
    then show False using assms(2) r k by (auto simp: pt_inv_def)
  qed
  have eq: "mem t a = mem s a" if a: "a \<in> \<Union> ((\<lambda>p. region p 4096) ` tables (mem s) pt)" for a
  proof (rule D(5), rule ballI)
    fix p assume p: "p \<in> tables (mem t) pt'"
    obtain r where r: "r \<in> tables (mem s) pt" "a \<in> region r 4096" using a by blast
    then have "r \<noteq> p" using dis p by blast
    then show "a \<notin> region p 4096" using page_apart [OF pg [OF r(1)] pg' [OF p]] r(2) by blast
  qed
  show sv: "same_view pt (mem s) (mem t)"
    unfolding same_view_def using entry_cong [OF wf eq] tables_cong [OF wf eq] by blast
  have T: "tables (mem t) pt = tables (mem s) pt" using sv by (simp add: same_view_def)
  show "tables (mem t) pt \<inter> tables (mem t) pt' = {}" using dis T by blast
  show "path_ok P \<Longrightarrow> node (mem t) pt P = node (mem s) pt P" by (rule node_cong [OF wf eq])
  have "0 < page_refs t k" if "k < NPAGE" "page_addr k \<in> tables (mem s) pt" for k
    using D(6) [of k] assms(2) that by (cases "page_refs t k = page_refs s k") (auto simp: pt_inv_def)
  then show "pt_inv t pt" using pt_wf_cong [OF wf eq] T by (simp add: pt_inv_def)
qed

text \<open>The entry of a shared page keeps its frame.\<close>

lemma PTE2PA_flags:
  assumes "f < 1024"
  shows "PTE2PA ((e AND NOT 0x3FF) OR f) = PTE2PA e"
proof -
  have "\<not> bit f i" if "10 \<le> i" for i using bit_flags [OF assms, of i] that by auto
  then have "PTE2PA ((e AND NOT (mask 10)) OR f) = PTE2PA e"
    unfolding PTE2PA_def by (intro bit_word_eqI) (auto simp: bit_push_bit_iff bit_drop_bit_eq bit_and_iff bit_or_iff bit_not_iff bit_mask_iff)
  moreover have "(mask 10 :: u64) = 0x3FF" by (simp add: mask_eq_exp_minus_1)
  ultimately show ?thesis by simp
qed

lemma create_pte_flag_small: "\<not> (untouched \<and> cow) \<Longrightarrow> create_pte_flag b untouched cow < 1024"
  by (auto simp: create_pte_flag_def Let_def)

lemma kst_upd_proc [simp]:
  "mem (upd_proc p f s) = mem s" "page_refs (upd_proc p f s) = page_refs s" "locks (upd_proc p f s) = locks s"
  "pa_referenced (upd_proc p f s) = pa_referenced s"
  by (simp_all add: upd_proc_def page_refs_def fun_eq_iff)

lemma inv_upd_proc [simp]: "kmem_inv (upd_proc p f s) = kmem_inv s" "pt_inv (upd_proc p f s) pt = pt_inv s pt"
  by (simp_all add: upd_proc_def kmem_inv_def kmem_core_def kmem_at_def section_inv_def counters_inv_def
      pages_used_def lock_free_def pt_inv_def page_refs_def)

text \<open>
  Parent and child, at tables \<open>pt\<close> and \<open>pt'\<close>, both have the entry \<open>e\<close> for the page at \<open>a\<close>, its
  frame \<open>k\<close> has one more reference and the same bytes, and their other entries are kept.
\<close>

definition page_shared :: "u64 \<Rightarrow> u64 \<Rightarrow> u64 \<Rightarrow> u64 \<Rightarrow> nat \<Rightarrow> 'a kst_scheme \<Rightarrow> 'a kst_scheme \<Rightarrow> bool" where
  "page_shared pt pt' a e k s t \<longleftrightarrow> kmem_inv t \<and> pt_inv t pt \<and> pt_inv t pt'
     \<and> (\<forall>x. x < MAXVA \<longrightarrow> pte_of (mem t) pt x = (if vpn x = vpn a then e else pte_of (mem s) pt x))
     \<and> (\<forall>x. x < MAXVA \<longrightarrow> pte_of (mem t) pt' x = (if vpn x = vpn a then e else pte_of (mem s) pt' x))
     \<and> page_refs t k = page_refs s k + 1 \<and> (\<forall>b\<in>region (page_addr k) 4096. mem t b = mem s b)"

lemma incr_shared:
  assumes "kmem_inv t" "k < NPAGE" "0 < page_refs t k" "page_refs t k < 255"
  shows "\<exists>u. incr_pa_ref (page_addr k) t = Inr u \<and> kmem_inv u \<and> mem u = mem t
    \<and> page_refs u = (page_refs t)(k := page_refs t k + 1)"
proof -
  let ?u = "set_ref k (pa_referenced t k + 1) (settled t)"
  have p: "unat (pa_referenced t k) < 255" "pa_referenced t k \<noteq> 0" using assms(3,4) by (auto simp: page_refs_def)
  have r: "unat (pa_referenced t k + 1) = unat (pa_referenced t k) + 1"
    using p(1) by (simp add: unat_word_ariths)
  then have "pa_referenced t k + 1 \<noteq> 0" by auto
  then have "kmem_inv ?u" by (rule kmem_inv_change(3) [OF assms(1,2) p(2)])
  moreover have "page_refs ?u = (page_refs t)(k := page_refs t k + 1)"
    using r by (auto simp: page_refs_def set_ref_def fun_eq_iff)
  ultimately show ?thesis using incr_pa_ref_eq [OF assms(1,2)] by (simp add: set_ref_def)
qed

lemma share_page_ok:
  assumes inv: "kmem_inv s" "pt_inv s pt" "pt_inv s pt'" "tables (mem s) pt \<inter> tables (mem s) pt' = {}"
    and pts: "pt = pagetable (procs s p)" "pt' = pagetable (procs s np)"
    and a: "a < MAXVA" "no_huge (mem s) pt' a" "node (mem s) pt [ix 1 a, ix 2 a] = Some q"
    and e: "e = pte_of (mem s) pt a" "PTE2PA e = page_addr k"
    and k: "k < NPAGE" "0 < page_refs s k" "page_refs s k < 255" "page_addr k \<notin> tables (mem s) pt'"
  shows "(\<exists>t. walk pt' a True s = Inr (0, t) \<and> kalloc_section t = None \<and> share_page walk incr_pa_ref msg p np i a s = Inl Wild)
    \<or> (\<exists>t. share_page walk incr_pa_ref msg p np i a s = Inr t \<and> page_shared pt pt' a e k s t)"
proof -
  let ?o = "slot q (of_nat (ix 0 a))"
  have old: "walk pt a False s = Inr (?o, s)" by (rule walk_present [OF a(3,1)])
  have o: "?o \<noteq> 0" using slot_nonnull [OF node_page [OF inv(2) a(3)]] by simp
  have entry: "ld64 (mem t) ?o = e" if "touches pt' s t" for t :: "'a procst_scheme"
  proof -
    have "node (mem t) pt [ix 1 a, ix 2 a] = Some q"
      using touches_other(4) [OF that inv(2,4), of "[ix 1 a, ix 2 a]"] a(3) by (simp del: node.simps)
    then have "pte_of (mem t) pt a = ld64 (mem t) ?o" unfolding pte_of_def by simp
    then show ?thesis using touches_other(2) [OF that inv(2,4)] e(1) by (simp add: same_view_def)
  qed
  show ?thesis
  proof (rule walk_write [OF inv(1,3) a(1,2)])
    fix t assume t: "walk pt' a True s = Inr (0, t)" "grows pt' s t" "kalloc_section t = None"
    then have "share_page walk incr_pa_ref msg p np i a s = Inl Wild"
      using old o pts by (simp add: share_page_def st_ptr_def)
    then show ?thesis using t by (intro disjI1 exI [of _ t]) simp
  next
    fix r t assume w: "walk pt' a True s = Inr (r, t)" "r \<noteq> 0" "grows pt' s t"
      and tt: "\<And>v. touches pt' s (t\<lparr>mem := st64 (mem t) r v\<rparr>)"
      and x: "\<And>v va'. va' < MAXVA \<Longrightarrow> pte_of (st64 (mem t) r v) pt' va' = (if vpn va' = vpn a then v else pte_of (mem s) pt' va')"
    let ?t1 = "t\<lparr>mem := st64 (mem t) r e\<rparr>"
    let ?t2 = "inherit_flags p np i ?t1"
    note T1 = tt [of e] note D = touchesD [OF T1] and O = touches_other [OF T1 inv(2,4)]
    have ld: "ld64 (mem t) ?o = e" using entry w(3) by (simp add: grows_def)
    have m2: "mem ?t2 = mem ?t1" by (simp add: inherit_flags_def)
    have r2: "page_refs ?t2 k = page_refs s k"
      using D(6) [of k] k(2) by (auto simp: inherit_flags_def page_refs_def)
    have i2: "kmem_inv ?t2" using D(1) by (simp add: inherit_flags_def)
    obtain u where u: "incr_pa_ref (page_addr k) ?t2 = Inr u" "kmem_inv u" "mem u = mem ?t2"
      "page_refs u = (page_refs ?t2)(k := page_refs ?t2 k + 1)"
      using incr_shared [OF i2 k(1)] k(2,3) r2 by auto
    have "share_page walk incr_pa_ref msg p np i a s = incr_pa_ref (PTE2PA (ld64 (mem ?t2) ?o)) ?t2"
      using old o pts w(1,2) ld by (simp add: share_page_def st_ptr_def Let_def)
    moreover have "ld64 (mem ?t2) ?o = e" using entry [OF T1] m2 by simp
    ultimately have res: "share_page walk incr_pa_ref msg p np i a s = Inr u" using u(1) e(2) by simp
    have refs: "page_refs ?t2 = page_refs ?t1" by (simp add: inherit_flags_def)
    have "pt_inv u pt0" if "pt_inv ?t1 pt0" for pt0
      using that u(3,4) m2 refs by (auto simp: pt_inv_def)
    then have pi: "pt_inv u pt" "pt_inv u pt'" using O(1) D(2) by blast+
    have nk: "page_addr k \<notin> tables (mem ?t1) pt'" using D(7) [OF k(1)] k(2,4) by auto
    have "mem ?t1 b = mem s b" if b: "b \<in> region (page_addr k) 4096" for b
    proof (rule D(5), rule ballI)
      fix z assume z: "z \<in> tables (mem ?t1) pt'"
      have "is_page z" using z pt_wfD(1) D(2) by (auto simp: tables_def pt_inv_def)
      then show "b \<notin> region z 4096" using page_apart [OF is_pageI [OF k(1)], of z] nk z b by blast
    qed
    then have "\<forall>b\<in>region (page_addr k) 4096. mem u b = mem s b" using u(3) m2 by simp
    moreover have "pte_of (mem u) pt y = (if vpn y = vpn a then e else pte_of (mem s) pt y)" if "y < MAXVA" for y
      using O(2) u(3) m2 e(1) pte_of_page(1) [OF that a(1), of "mem s" pt] by (simp add: same_view_def)
    moreover have "pte_of (mem u) pt' y = (if vpn y = vpn a then e else pte_of (mem s) pt' y)" if "y < MAXVA" for y
      using x [OF that] u(3) m2 by simp
    ultimately have "page_shared pt pt' a e k s u"
      unfolding page_shared_def using u(2) pi u(4) r2 by (simp del: MAXVA_def)
    then show ?thesis using res by blast
  qed
qed

lemma no_huge_view: "same_view pt m m' \<Longrightarrow> no_huge m' pt x = no_huge m pt x"
  by (simp add: same_view_def no_huge_def)

text \<open>What an entry says of a copy-on-write page: valid, readable, for the user, not writable, not
  executable, with both software bits set.\<close>

definition cow_entry :: "u64 \<Rightarrow> bool" where
  "cow_entry e \<longleftrightarrow> e AND PTE_V \<noteq> 0 \<and> e AND PTE_R \<noteq> 0 \<and> e AND PTE_U \<noteq> 0 \<and> e AND PTE_W = 0 \<and> e AND PTE_X = 0
     \<and> e AND PTE_CoW = 0x300"

lemma fork_flags_cow:
  assumes "flags AND PROT_MASK = PROT_WRITE" "flags AND FLAG_MASK = MAP_PRIVATE"
  shows "cow_entry ((e AND NOT 0x3FF) OR create_pte_flag flags False True)"
proof -
  have c: "create_pte_flag flags False True = 0x313" using assms by (simp add: create_pte_flag_def)
  have m: "((e AND - 1024) OR 0x313) AND b = 0x313 AND b" if "- 1024 AND b = 0" for b :: u64
    using that by (simp add: bit.conj_disj_distrib2 and.assoc)
  show ?thesis unfolding cow_entry_def c by (simp add: m)
qed

text \<open>C6: fork shares a writable private page copy-on-write: parent and child end with the same entry,
  which is for the parent's frame, valid, readable, for the user, no longer writable, not
  executable and marked copy-on-write; the frame has one more reference and its bytes are
  unchanged; no other page of either process is affected.  The only other outcome is a fault when
  no frame is left for the child's tables.\<close>

theorem fork_cow_page:
  assumes "kmem_inv s" "pt_inv s pt" "pt_inv s pt'" "tables (mem s) pt \<inter> tables (mem s) pt' = {}"
    "pt = pagetable (procs s p)" "pt' = pagetable (procs s np)" "a < MAXVA" "no_huge (mem s) pt' a" "no_huge (mem s) pt a"
    "e = pte_of (mem s) pt a" "e AND PTE_V \<noteq> 0" "PTE_FLAGS e \<noteq> PTE_V" "flags AND PROT_MASK = PROT_WRITE"
    "PTE2PA e = page_addr k" "k < NPAGE" "0 < page_refs s k" "page_refs s k < 255"
    "page_addr k \<notin> tables (mem s) pt" "page_addr k \<notin> tables (mem s) pt'" "flags AND FLAG_MASK = MAP_PRIVATE"
  shows "fork_private_page walk incr_pa_ref m1 m2 flags p np i a s = Inl Wild
    \<and> (\<exists>m u. walk pt' a True (s\<lparr>mem := m\<rparr>) = Inr (0, u) \<and> kalloc_section u = None)
    \<or> (\<exists>t e'. fork_private_page walk incr_pa_ref m1 m2 flags p np i a s = Inr t
        \<and> page_shared pt pt' a e' k s t \<and> PTE2PA e' = page_addr k \<and> cow_entry e')"
proof -
  have "pte_of (mem s) pt a \<noteq> 0" using assms(10,11) by auto
  then obtain q where q: "node (mem s) pt [ix 1 a, ix 2 a] = Some q"
    "pte_of (mem s) pt a = ld64 (mem s) (slot q (of_nat (ix 0 a)))" by (rule pte_node)
  let ?o = "slot q (of_nat (ix 0 a))"
  define e' where "e' = (e AND NOT 0x3FF) OR create_pte_flag flags False True"
  let ?s1 = "s\<lparr>mem := st64 (mem s) ?o e'\<rparr>"
  have o: "?o \<noteq> 0" using slot_nonnull [OF node_page [OF assms(2) q(1)]] by simp
  note E = set_entry [OF assms(1,2) q(1) assms(7), where v = e']
  have qT: "q \<in> tables (mem s) pt" by (rule node_table [OF q(1)])
  have "q \<notin> tables (mem s) pt'" using qT assms(4) by blast
  moreover have "pt_wf (mem s) pt'" using assms(3) by (simp add: pt_inv_def)
  ultimately have C: "pt_wf (mem ?s1) pt'" "same_view pt' (mem s) (mem ?s1)"
    using frame_write [OF _ node_page [OF assms(2) q(1)], of "mem s" pt' "mem ?s1"] E(5) by blast+
  have C3: "pt_inv ?s1 pt'" using assms(3) C by (simp add: pt_inv_def same_view_def page_refs_def)
  have T: "tables (mem ?s1) pt \<inter> tables (mem ?s1) pt' = {}" using assms(4) E(3) C(2) by (simp add: same_view_def)
  have nd: "node (mem ?s1) pt [ix 1 a, ix 2 a] = Some q"
    using node_leaf_store [OF _ _ _ q(1), of "ix 0 a" "[ix 1 a, ix 2 a]" e'] q(1) assms(2)
    by (simp add: pt_inv_def del: node.simps)
  have pe: "e' = pte_of (mem ?s1) pt a" using E(4) [OF assms(7)] by simp
  have pa: "PTE2PA e' = page_addr k" unfolding e'_def using PTE2PA_flags create_pte_flag_small assms(14) by simp
  have step: "fork_private_page walk incr_pa_ref m1 m2 flags p np i a s = share_page walk incr_pa_ref m2 p np i a ?s1"
    using walk_present [OF q(1) assms(7), of False] o q(2) assms(5,10-13) by (simp add: fork_private_page_def e'_def)
  have "(\<exists>t. walk pt' a True ?s1 = Inr (0, t) \<and> kalloc_section t = None \<and> share_page walk incr_pa_ref m2 p np i a ?s1 = Inl Wild)
    \<or> (\<exists>t. share_page walk incr_pa_ref m2 p np i a ?s1 = Inr t \<and> page_shared pt pt' a e' k ?s1 t)"
  proof (rule share_page_ok [OF E(1,2) C3 T _ _ assms(7) _ nd pe pa assms(15)])
    show "no_huge (mem ?s1) pt' a" using no_huge_view [OF C(2)] assms(8) by simp
    show "page_addr k \<notin> tables (mem ?s1) pt'" using C(2) assms(19) by (simp add: same_view_def)
  qed (use assms(5,6,16,17) in \<open>simp_all add: page_refs_def\<close>)
  moreover have "page_shared pt pt' a e' k s t" if "page_shared pt pt' a e' k ?s1 t" for t
  proof -
    have "mem ?s1 b = mem s b" if "b \<in> region (page_addr k) 4096" for b
      using E(5) page_apart [OF is_pageI [OF assms(15)] node_page [OF assms(2) q(1)]] qT assms(18) that by blast
    moreover have "page_refs ?s1 k = page_refs s k" by (simp add: page_refs_def)
    moreover have "pte_of (mem ?s1) pt' x = pte_of (mem s) pt' x" for x using C(2) by (simp add: same_view_def)
    ultimately show ?thesis using that E(4) unfolding page_shared_def by (auto simp del: MAXVA_def)
  qed
  moreover have "cow_entry e'" unfolding e'_def by (rule fork_flags_cow [OF assms(13,20)])
  ultimately show ?thesis unfolding step using pa by blast
qed

section \<open>Concrete processes\<close>

text \<open>One process with an empty page table, at frame 0.\<close>

definition ps_root :: "nat \<Rightarrow> proc" where
  "ps_root p = (if p = 1 then proc0\<lparr>pagetable := page_addr 0, pid := 1\<rparr>
     else if p = 2 then proc0\<lparr>pagetable := page_addr 6, pid := 2\<rparr> else proc0)"

lemma ps_root_pt [simp]: "pagetable (ps_root 1) = page_addr 0" "pagetable (ps_root 2) = page_addr 6"
  by (simp_all add: ps_root_def)

theorem demand_fault_witness:
  "(\<exists>t. fault_base 13 1 0x90000000 0x12 (procst_of vm0 ps_root) = Inl Wild
       \<and> walk (page_addr 0) 0x90000000 True (procst_of vm0 ps_root) = Inr (0, t))
   \<or> (\<exists>u pa. fault_base 13 1 0x90000000 0x12 (procst_of vm0 ps_root) = Inr (False, u)
       \<and> pte_of (mem u) (page_addr 0) 0x90000000 = PA2PTE pa OR create_pte_flag 0x12 False False)"
proof -
  let ?s = "procst_of vm0 ps_root"
  have i: "kmem_inv ?s" "pt_inv ?s (page_addr 0)" using vm0_props(1,2) by simp_all
  have z: "pte_of (mem ?s) (page_addr 0) 0x90000000 = 0" "no_huge (mem ?s) (page_addr 0) 0x90000000"
    using vm0_props(3,4) by (simp_all add: no_huge_def)
  have va: "(0x90000000 :: u64) < MAXVA" by simp
  have "page_addr 0 = pagetable (procs ?s 1)" by (simp add: ps_root_def)
  from demand_fault [OF i this va z(2), of 13 "0x12"] z(1)
  show ?thesis using va unfolding page_mapped_def by auto
qed

text \<open>The page at 0x1000 of the process, read-only and marked copy-on-write, in frame 5.\<close>

definition cow_pte :: u64 where
  "cow_pte = PA2PTE (page_addr 5) OR 0x313"

definition vm3 :: kst where
  "vm3 = vm2\<lparr>mem := st64 mem1 (slot (page_addr 2) (of_nat (ix 0 0x1000))) cow_pte\<rparr>"

lemma cow_pte_props: "PTE2PA cow_pte = page_addr 5" "PTE_FLAGS cow_pte = 0x313"
  "cow_pte AND PTE_V \<noteq> 0" "cow_pte AND PTE_W = 0" "cow_pte AND PTE_CoW = 0x300" "cow_pte AND PTE_R \<noteq> 0"
proof -
  show f: "PTE_FLAGS cow_pte = 0x313" by (simp add: cow_pte_def PTE_FLAGS_PA2PTE)
  show "PTE2PA cow_pte = page_addr 5" unfolding cow_pte_def by (rule PTE2PA_PA2PTE) simp_all
  show "cow_pte AND PTE_V \<noteq> 0" "cow_pte AND PTE_W = 0" "cow_pte AND PTE_CoW = 0x300" "cow_pte AND PTE_R \<noteq> 0"
    using flags_and [where e = cow_pte] f by simp_all
qed

lemma mem1_node: "node mem1 (page_addr 0) [ix 1 0x1000, ix 2 0x1000] = Some (page_addr 2)"
proof -
  have "node (st64 memB (slot (page_addr 2) (of_nat 1)) pte1) (page_addr 0) [ix 1 0x1000, ix 2 0x1000]
    = node memB (page_addr 0) [ix 1 0x1000, ix 2 0x1000]"
    by (rule node_leaf_store [OF adds_wf [OF adds_B] _ _ mem1_leaf]) simp_all
  then show ?thesis using mem1_leaf by (simp add: mem1_def)
qed

lemma vm3_props: "kmem_inv vm3" "pt_inv vm3 (page_addr 0)" "tables (mem vm3) (page_addr 0) = {page_addr 0, page_addr 1, page_addr 2}"
  "x < MAXVA \<Longrightarrow> pte_of (mem vm3) (page_addr 0) x = (if vpn x = 1 then cow_pte else 0)"
  "page_refs vm3 5 = 1" "page_addr 5 \<notin> tables (mem vm3) (page_addr 0)" "kalloc_section vm3 \<noteq> None"
proof -
  have va: "(0x1000 :: u64) < MAXVA" and v1: "vpn 0x1000 = 1" by (simp_all add: vpn_def)
  have n: "node (mem vm2) (page_addr 0) [ix 1 0x1000, ix 2 0x1000] = Some (page_addr 2)"
    using mem1_node vm2_props(3) by (simp del: node.simps)
  note e = set_entry [OF vm2_props(1,2) n va, where v = cow_pte, unfolded vm2_props(3), folded vm3_def]
  show "kmem_inv vm3" "pt_inv vm3 (page_addr 0)" by (rule e(1), rule e(2))
  show T: "tables (mem vm3) (page_addr 0) = {page_addr 0, page_addr 1, page_addr 2}" using e(3) mem1_props(2) by simp
  show "pte_of (mem vm3) (page_addr 0) x = (if vpn x = 1 then cow_pte else 0)" if "x < MAXVA"
    using e(4) [OF that] mem1_props(3) [OF that] v1 by simp
  show "page_refs vm3 5 = 1" using vm2_props(4) by (simp add: vm3_def page_refs_def)
  show "page_addr 5 \<notin> tables (mem vm3) (page_addr 0)" using T pages_differ(4) by simp
  have "hugepagelist vm3 0 = 4"
    by (simp add: vm3_def vm2_def take_page_def kfresh_def kboot0_def hw.defs)
  moreover have "[0..<NHUGE] = 0 # [1..<NHUGE]" by (simp add: upt_conv_Cons)
  ultimately show "kalloc_section vm3 \<noteq> None" unfolding kalloc_section_def by simp
qed

theorem cow_fault_witness:
  "\<exists>j t. fault_base 15 1 0x1000 0x12 (procst_of vm3 ps_root) = Inr (False, t)
     \<and> pte_of (mem t) (page_addr 0) 0x1000 = PA2PTE (page_addr j) OR create_pte_flag 0x12 False False
     \<and> page_refs t 5 = 0 \<and> page_refs t j = 1"
proof -
  let ?s = "procst_of vm3 ps_root"
  have va: "(0x1000 :: u64) < MAXVA" and v1: "vpn 0x1000 = 1" by (simp_all add: vpn_def)
  have i: "kmem_inv ?s" "pt_inv ?s (page_addr 0)" using vm3_props(1,2) by simp_all
  have e: "cow_pte = pte_of (mem ?s) (page_addr 0) 0x1000" using vm3_props(4) [OF va] v1 by simp
  have r: "0 < page_refs ?s 5" "page_addr 5 \<notin> tables (mem ?s) (page_addr 0)" using vm3_props(5,6) by simp_all
  have sec: "kalloc_section ?s \<noteq> None"
    using vm3_props(7) by (simp add: kalloc_section_def procst_of_def kst.defs cong: option.case_cong)
  have "page_addr 0 = pagetable (procs ?s 1)" by (simp add: ps_root_def)
  from cow_fault [OF i this va e cow_pte_props(3-6,1) _ r sec, of "0x12"]
  obtain j t where t: "fault_base 15 1 0x1000 0x12 ?s = Inr (False, t)"
    "cow_done (page_addr 0) 0x1000 (create_pte_flag 0x12 False False) 5 j ?s t" by auto
  then have "page_refs t 5 = 0" "page_refs t j = 1"
    "pte_of (mem t) (page_addr 0) 0x1000 = PA2PTE (page_addr j) OR create_pte_flag 0x12 False False"
    using vm3_props(5) va by (simp_all add: cow_done_def del: MAXVA_def)
  then show ?thesis using t(1) by blast
qed

text \<open>A parent with one writable page and a child with an empty page table, at frame 6.\<close>

definition vm4 :: kst where
  "vm4 = take_page 6 (settled vm2)"

lemma vm4_props: "kmem_inv vm4" "pt_inv vm4 (page_addr 0)" "pt_inv vm4 (page_addr 6)"
  "tables (mem vm4) (page_addr 0) = {page_addr 0, page_addr 1, page_addr 2}" "tables (mem vm4) (page_addr 6) = {page_addr 6}"
  "pte_of (mem vm4) (page_addr 0) 0x1000 = pte1" "no_huge (mem vm4) (page_addr 0) x" "no_huge (mem vm4) (page_addr 6) x"
  "page_refs vm4 5 = 1"
proof -
  have refs: "page_refs vm2 6 = 0" "page_avail vm2 6"
    by (simp_all add: page_avail_def page_refs_def vm2_def take_page_def kfresh_def kboot0_def hw.defs)
  note t = take_beside [OF vm2_props(1,2) refs(2) vm4_def]
  show "kmem_inv vm4" "pt_inv vm4 (page_addr 0)" by (rule t(1), rule t(2))
  have va: "(0x1000 :: u64) < MAXVA" and v1: "vpn 0x1000 = 1" by (simp_all add: vpn_def)
  show "tables (mem vm4) (page_addr 0) = {page_addr 0, page_addr 1, page_addr 2}"
    "pte_of (mem vm4) (page_addr 0) 0x1000 = pte1" "no_huge (mem vm4) (page_addr 0) x"
    using t(3) mem1_props(2,4) mem1_props(3) [OF va] v1 vm2_props(3)
    by (simp_all add: same_view_def base_only_def no_huge_def)
  note e = take_page_table [OF vm2_props(1) refs(2), folded vm4_def]
  show "pt_inv vm4 (page_addr 6)" "no_huge (mem vm4) (page_addr 6) x" using e by (simp_all add: no_huge_def)
  have "ld64 (mem vm4) (slot (page_addr 6) (of_nat i)) = 0" if "i < 512" for i
    unfolding vm4_def using that by (simp add: ld64_zero_page is_pageI)
  then show "tables (mem vm4) (page_addr 6) = {page_addr 6}" by (intro empty_table(2) is_pageI) simp_all
  show "page_refs vm4 5 = 1" using t(5) vm2_props(4) by simp
qed

theorem fork_cow_page_witness:
  "fork_private_page walk incr_pa_ref ''ro'' ''cow'' 0x12 1 2 0 0x1000 (procst_of vm4 ps_root) = Inl Wild
   \<or> (\<exists>t. fork_private_page walk incr_pa_ref ''ro'' ''cow'' 0x12 1 2 0 0x1000 (procst_of vm4 ps_root) = Inr t
       \<and> pte_of (mem t) (page_addr 6) 0x1000 = pte_of (mem t) (page_addr 0) 0x1000 \<and> page_refs t 5 = 2
       \<and> cow_entry (pte_of (mem t) (page_addr 0) 0x1000))"
proof -
  let ?s = "procst_of vm4 ps_root"
  have va: "(0x1000 :: u64) < MAXVA" by simp
  have i: "kmem_inv ?s" "pt_inv ?s (page_addr 0)" "pt_inv ?s (page_addr 6)" using vm4_props(1-3) by simp_all
  have six: "page_addr 6 \<notin> {page_addr 0, page_addr 1, page_addr 2}" "page_addr 5 \<noteq> page_addr 6"
    using page_addr_inj [of 6 0] page_addr_inj [of 6 1] page_addr_inj [of 6 2] page_addr_inj [of 5 6] by simp_all
  then have T: "tables (mem ?s) (page_addr 0) \<inter> tables (mem ?s) (page_addr 6) = {}" using vm4_props(4,5) by simp
  have ps: "page_addr 0 = pagetable (procs ?s 1)" "page_addr 6 = pagetable (procs ?s 2)" by (simp_all add: ps_root_def)
  have nh: "no_huge (mem ?s) (page_addr 6) 0x1000" "no_huge (mem ?s) (page_addr 0) 0x1000" using vm4_props(7,8) by simp_all
  have e: "pte1 = pte_of (mem ?s) (page_addr 0) 0x1000" using vm4_props(6) by simp
  have f: "pte1 AND PTE_V \<noteq> 0" "PTE_FLAGS pte1 \<noteq> PTE_V" using pte1_props by (simp_all add: user_pte_def)
  have r: "0 < page_refs ?s 5" "page_refs ?s 5 < 255" using vm4_props(9) by simp_all
  have n: "page_addr 5 \<notin> tables (mem ?s) (page_addr 0)" "page_addr 5 \<notin> tables (mem ?s) (page_addr 6)"
    using pages_differ(4) six(2) vm4_props(4,5) by simp_all
  have w: "(0x12 :: u64) AND PROT_MASK = PROT_WRITE" "(0x12 :: u64) AND FLAG_MASK = MAP_PRIVATE" by simp_all
  from fork_cow_page [OF i T ps va nh e f w(1) pte1_props(1) _ r n w(2), of "''ro''" "''cow''" 0]
  show ?thesis using vm4_props(9) va by (auto simp: page_shared_def)
qed

end
