(* ===== verification/Sleepwake.thy ===== *)
theory Sleepwake
  imports Procs
begin

text \<open>
  The protocol of \<^verbatim>\<open>sleep\<close> and \<^verbatim>\<open>wakeup\<close> of \<^verbatim>\<open>kernel/proc.c\<close> on two harts that run at
  the same time.  One hart runs \<^verbatim>\<open>sleep\<close> action by action, up to the point where the scheduler
  of that hart frees the lock of the process; the other takes the lock of the condition,
  runs \<^verbatim>\<open>wakeup\<close> action by action and frees the lock.  A step is one action of either
  hart.  The invariant covers every interleaving.
\<close>

section \<open>The two programs\<close>

definition sleeper_prog :: "chan \<Rightarrow> lockid \<Rightarrow> nat \<Rightarrow> pact list" where
  "sleeper_prog ch lk p = sleep_acts ch lk p @ [Sched, Switch p]"

definition wakeup_loop :: "chan \<Rightarrow> nat option \<Rightarrow> nat list \<Rightarrow> pact list" where
  "wakeup_loop ch me qs = concat (map (\<lambda>q. if me = Some q then [] else wakeup_acts ch q) qs)"

definition waker_prog :: "chan \<Rightarrow> lockid \<Rightarrow> nat option \<Rightarrow> pact list" where
  "waker_prog ch lk me = Acq lk # wakeup_loop ch me [0..<NPROC] @ [Rel lk]"

text \<open>A hart that runs its program alone runs \<^verbatim>\<open>sleep\<close> and \<^verbatim>\<open>wakeup\<close>.\<close>

lemma efold_append: "efold f (xs @ ys) s = ebind (efold f xs s) (efold f ys)"
  by (induction xs arbitrary: s) (simp_all add: ebind_def split: sum.split)

lemma sleeper_prog_runs:
  assumes "cpu_proc (mycpu s) = Some p" "\<not> sie (mycpu s)" "0 < noff (mycpu s)"
  shows "efold act (sleeper_prog ch lk p) s = ebind (sleep_enter ch lk s) (\<lambda>(_, s). scheduler_leave p s)"
  using this_proc_eq [OF assms(1)] settled_nested [OF assms(2,3)]
  by (simp add: sleeper_prog_def efold_append sleep_enter_def)
    (auto simp: ebind_def split: sum.split)

lemma acquire_cpu: "acquire l s = Inr t \<Longrightarrow> mycpu t = push_cpu (mycpu s)"
  by (auto simp: acquire_def push_off_eq test_and_set_def record_holder_def mycpu_def set_mycpu_def Let_def
      split: if_splits)

lemma release_cpu:
  assumes "release l s = Inr t"
  shows "mycpu t = pop_cpu (mycpu s)"
proof -
  let ?u = "clear_locked l (clear_holder l s)"
  have p: "pop_off ?u = Inr t" using assms by (simp add: release_def split: if_splits)
  have u: "mycpu ?u = mycpu s" by (simp add: mycpu_def clear_locked_def clear_holder_def)
  have "\<not> sie (mycpu ?u)" "0 < noff (mycpu ?u)"
    using p by (auto simp: pop_off_def intr_get_def split: if_splits)
  then show ?thesis using p u by (auto simp: pop_off_eq)
qed

lemma critical0_cpu:
  assumes "critical0 l body s = Inr t" "\<And>u v. body u = Inr v \<Longrightarrow> mycpu v = mycpu u"
  shows "mycpu t = pop_cpu (push_cpu (mycpu s))"
  using assms by (auto simp: critical0_def ebind_eq_Inr dest!: acquire_cpu release_cpu)

lemma wakeup_runs:
  assumes "\<not> sie (mycpu s)" "0 < noff (mycpu s)"
  shows "wakeup ch s = efold act (wakeup_loop ch (cpu_proc (mycpu s)) [0..<NPROC]) s"
proof -
  have "efold (wakeup_one ch) qs s = efold act (wakeup_loop ch (cpu_proc (mycpu s)) qs) s" for qs
    using assms
  proof (induction qs arbitrary: s)
    case (Cons q qs)
    let ?me = "cpu_proc (mycpu s)"
    have one: "wakeup_one ch q s = efold act (if ?me = Some q then [] else wakeup_acts ch q) s"
      using settled_nested [OF Cons.prems] by (simp add: wakeup_one_def myproc_eq)
    have "mycpu t = mycpu s" if "wakeup_one ch q s = Inr t" for t
    proof (cases "?me = Some q")
      case False
      then have "critical0 (Lk_proc q) (\<lambda>s. Inr (if state (procs s q) = SLEEPING \<and> chan (procs s q) = ch
          then upd_proc q (\<lambda>q. q\<lparr>state := RUNNABLE\<rparr>) s else s)) s = Inr t"
        using that unfolding one by (simp add: wakeup_acts_eq)
      then have "mycpu t = pop_cpu (push_cpu (mycpu s))" by (rule critical0_cpu) auto
      then show ?thesis using Cons.prems by (cases "mycpu s") (simp add: pop_cpu_def push_cpu_def)
    qed (use that one in simp)
    then have "ebind (wakeup_one ch q s) (efold (wakeup_one ch) qs)
      = ebind (wakeup_one ch q s) (efold act (wakeup_loop ch ?me qs))"
      using Cons by (cases "wakeup_one ch q s") auto
    moreover have "wakeup_loop ch ?me (q # qs) = (if ?me = Some q then [] else wakeup_acts ch q) @ wakeup_loop ch ?me qs"
      by (simp add: wakeup_loop_def)
    ultimately show ?case by (simp only: efold.simps efold_append one [symmetric])
  qed (simp add: wakeup_loop_def)
  then show ?thesis by (simp add: wakeup_def del: NPROC_def)
qed

section \<open>Interleaving\<close>

text \<open>
  A step of the hart \<open>h\<close> of the sleeper or of the hart \<open>k\<close> of the waker.  An \<^verbatim>\<open>acquire\<close> that finds
  its lock taken is no step: the hart spins.
\<close>

inductive wstep ::
  "nat \<Rightarrow> nat \<Rightarrow> 'a procst_scheme \<times> pact list \<times> pact list \<Rightarrow> 'a procst_scheme \<times> pact list \<times> pact list \<Rightarrow> bool"
  for h k where
  sleeper: "act a (s\<lparr>hartid := h\<rparr>) = Inr t \<Longrightarrow> wstep h k (s, a # as, bs) (t, as, bs)"
| waker: "act b (s\<lparr>hartid := k\<rparr>) = Inr t \<Longrightarrow> wstep h k (s, as, b # bs) (t, as, bs)"

inductive_cases wstep_cases: "wstep h k (s, as, bs) c"

section \<open>Locks and nesting\<close>

text \<open>The locks of \<open>L\<close> are held as \<open>W\<close> says, and hart \<open>h\<close> has disabled interrupts \<open>n\<close> times.\<close>

definition owners :: "lockid set \<Rightarrow> (lockid \<Rightarrow> nat option) \<Rightarrow> 'a hw_scheme \<Rightarrow> bool" where
  "owners L W s \<longleftrightarrow> (\<forall>l\<in>L. sl_locked (locks s l) = (W l \<noteq> None) \<and> sl_cpu (locks s l) = W l)"

definition nest :: "nat \<Rightarrow> nat \<Rightarrow> 'a hw_scheme \<Rightarrow> bool" where
  "nest h n s \<longleftrightarrow> noff (cpus s h) = n \<and> (0 < n \<longrightarrow> \<not> sie (cpus s h))"

text \<open>A step of hart \<open>h\<close> that leaves the processes and the other harts alone.\<close>

definition local_step :: "nat \<Rightarrow> 'a procst_scheme \<Rightarrow> 'a procst_scheme \<Rightarrow> bool" where
  "local_step h s t \<longleftrightarrow> procs t = procs s \<and> (\<forall>k. k \<noteq> h \<longrightarrow> cpus t k = cpus s k)"

lemma local_stepD:
  assumes "local_step h s t"
  shows "procs t = procs s" "k \<noteq> h \<Longrightarrow> nest k n t = nest k n s" "k \<noteq> h \<Longrightarrow> cpus t k = cpus s k"
  using assms by (simp_all add: local_step_def nest_def)

lemma acquire_step:
  assumes "owners L W s" "l \<in> L" "W l = None" "nest h n s"
  shows "\<exists>t. acquire l (s\<lparr>hartid := h\<rparr>) = Inr t \<and> owners L (W(l := Some h)) t \<and> nest h (Suc n) t
    \<and> local_step h s t \<and> cpu_proc (cpus t h) = cpu_proc (cpus s h)"
proof -
  let ?s = "s\<lparr>hartid := h\<rparr>"
  have "lock_free l ?s" using assms(1-3) by (auto simp: owners_def lock_free_def)
  then have "acquire l ?s = Inr (entered l ?s)" by (rule acquire_free)
  moreover have "owners L (W(l := Some h)) (entered l ?s)" "nest h (Suc n) (entered l ?s)"
    "local_step h s (entered l ?s)" "cpu_proc (cpus (entered l ?s) h) = cpu_proc (cpus s h)"
    using assms by (auto simp: owners_def nest_def local_step_def entered_def mycpu_def push_cpu_def)
  ultimately show ?thesis by blast
qed

lemma acquire_spins:
  assumes "owners L W s" "l \<in> L" "W l = Some g" "g \<noteq> h"
  shows "acquire l (s\<lparr>hartid := h\<rparr>) = Inl Spin"
  using assms by (auto simp: owners_def acquire_def push_off_eq holding_def test_and_set_def)

lemma release_step:
  assumes "owners L W s" "l \<in> L" "W l = Some h" "nest h (Suc n) s"
  shows "\<exists>t. release l (s\<lparr>hartid := h\<rparr>) = Inr t \<and> owners L (W(l := None)) t \<and> nest h n t
    \<and> local_step h s t \<and> cpu_proc (cpus t h) = cpu_proc (cpus s h)"
proof -
  let ?s = "s\<lparr>hartid := h\<rparr>"
  let ?t = "set_mycpu (pop_cpu (mycpu ?s)) (clear_locked l (clear_holder l ?s))"
  have "holding l ?s" using assms(1-3) by (auto simp: owners_def holding_def)
  then have "release l ?s = Inr ?t"
    by (rule release_held) (use assms(4) in \<open>simp_all add: nest_def mycpu_def\<close>)
  moreover have "owners L (W(l := None)) ?t" "nest h n ?t" "local_step h s ?t" "cpu_proc (cpus ?t h) = cpu_proc (cpus s h)"
    using assms by (auto simp: owners_def nest_def local_step_def mycpu_def set_mycpu_def clear_locked_def
        clear_holder_def pop_cpu_def)
  ultimately show ?thesis by blast
qed

section \<open>The invariant\<close>

text \<open>
  Where the waker is: before its first action, about to visit process \<open>q\<close>, inside the lock of
  \<open>q\<close> before and after its test, or done; and what is left of its program there.
\<close>

datatype wpos = Before | At nat | Locked nat | Woke nat | After

primrec wrest :: "chan \<Rightarrow> lockid \<Rightarrow> nat option \<Rightarrow> wpos \<Rightarrow> pact list" where
  "wrest ch lk me Before = waker_prog ch lk me"
| "wrest ch lk me (At q) = wakeup_loop ch me [q..<NPROC] @ [Rel lk]"
| "wrest ch lk me (Locked q) = Wake q ch # Rel (Lk_proc q) # wakeup_loop ch me [Suc q..<NPROC] @ [Rel lk]"
| "wrest ch lk me (Woke q) = Rel (Lk_proc q) # wakeup_loop ch me [Suc q..<NPROC] @ [Rel lk]"
| "wrest ch lk me After = []"

primrec passed :: "nat \<Rightarrow> wpos \<Rightarrow> bool" where
  "passed p Before = False"
| "passed p (At q) = (p < q)"
| "passed p (Locked q) = (p < q)"
| "passed p (Woke q) = (p \<le> q)"
| "passed p After = True"

primrec wnest :: "wpos \<Rightarrow> nat" where
  "wnest Before = 0" | "wnest (At q) = 1" | "wnest (Locked q) = 2" | "wnest (Woke q) = 2" | "wnest After = 0"

primrec visits :: "wpos \<Rightarrow> nat option" where
  "visits Before = None" | "visits (At q) = None" | "visits (Locked q) = Some q" | "visits (Woke q) = Some q"
| "visits After = None"

primrec wvalid :: "nat option \<Rightarrow> wpos \<Rightarrow> bool" where
  "wvalid me Before = True"
| "wvalid me (At q) = (q \<le> NPROC)"
| "wvalid me (Locked q) = (q < NPROC \<and> me \<noteq> Some q)"
| "wvalid me (Woke q) = (q < NPROC \<and> me \<noteq> Some q)"
| "wvalid me After = True"

text \<open>Who holds which lock when the sleeper has done \<open>i\<close> of its six actions.\<close>

definition own :: "nat \<Rightarrow> nat \<Rightarrow> nat \<Rightarrow> lockid \<Rightarrow> nat \<Rightarrow> wpos \<Rightarrow> lockid \<Rightarrow> nat option" where
  "own h k p lk i w l =
     (if l = lk then if i \<le> 1 then Some h else if 0 < wnest w then Some k else None
      else if l = Lk_proc p \<and> 1 \<le> i \<and> i \<le> 5 then Some h
      else if \<exists>q. visits w = Some q \<and> l = Lk_proc q then Some k else None)"

definition snest :: "nat \<Rightarrow> nat" where
  "snest i = (if i = 1 then 2 else if i = 6 then 0 else 1)"

definition winv_at :: "nat \<Rightarrow> nat \<Rightarrow> nat \<Rightarrow> chan \<Rightarrow> lockid \<Rightarrow> nat option \<Rightarrow> nat \<Rightarrow> wpos \<Rightarrow> 'a procst_scheme \<Rightarrow> bool" where
  "winv_at h k p ch lk me i w s \<longleftrightarrow> i \<le> 6 \<and> wvalid me w \<and> (i \<le> 1 \<longrightarrow> w = Before)
     \<and> (i \<le> 5 \<longrightarrow> \<not> passed p w \<and> visits w \<noteq> Some p \<and> cpu_proc (cpus s h) = Some p)
     \<and> owners (insert lk (Lk_proc ` {..<NPROC})) (own h k p lk i w) s
     \<and> nest h (snest i) s \<and> nest k (wnest w) s
     \<and> (3 \<le> i \<longrightarrow> chan (procs s p) = ch)
     \<and> (4 \<le> i \<longrightarrow> state (procs s p) = (if passed p w then RUNNABLE else SLEEPING))"

definition winv :: "nat \<Rightarrow> nat \<Rightarrow> nat \<Rightarrow> chan \<Rightarrow> lockid \<Rightarrow> nat option \<Rightarrow> 'a procst_scheme \<times> pact list \<times> pact list \<Rightarrow> bool" where
  "winv h k p ch lk me c \<longleftrightarrow> (case c of (s, as, bs) \<Rightarrow>
     \<exists>i w. winv_at h k p ch lk me i w s \<and> as = drop i (sleeper_prog ch lk p) \<and> bs = wrest ch lk me w)"

text \<open>The two harts, the process and the lock of the condition are as the protocol wants them.\<close>

definition apart :: "nat \<Rightarrow> nat \<Rightarrow> nat \<Rightarrow> lockid \<Rightarrow> nat option \<Rightarrow> bool" where
  "apart h k p lk me \<longleftrightarrow> p < NPROC \<and> h \<noteq> k \<and> (\<forall>q. lk \<noteq> Lk_proc q) \<and> me \<noteq> Some p"

lemma length_sleeper_prog: "length (sleeper_prog ch lk p) = 6"
  by (simp add: sleeper_prog_def sleep_acts_def)

lemma sleep_at:
  assumes "as = drop i (sleeper_prog ch lk p)" "as = a # as'"
  shows "i < 6" "as' = drop (Suc i) (sleeper_prog ch lk p)"
    "a = [Acq (Lk_proc p), Rel lk, Set_chan p ch, Set_state p SLEEPING, Sched, Switch p] ! i"
proof -
  note l = length_sleeper_prog [of ch lk p]
  have d: "drop i (sleeper_prog ch lk p) = a # as'" using assms by simp
  then show i: "i < 6" using l by (metis drop_all list.simps(3) not_less)
  have "a # as' = sleeper_prog ch lk p ! i # drop (Suc i) (sleeper_prog ch lk p)"
    using Cons_nth_drop_Suc [of i "sleeper_prog ch lk p"] i l d by simp
  then show "as' = drop (Suc i) (sleeper_prog ch lk p)"
    "a = [Acq (Lk_proc p), Rel lk, Set_chan p ch, Set_state p SLEEPING, Sched, Switch p] ! i"
    by (simp_all add: sleeper_prog_def sleep_acts_def)
qed

lemma owners_cong: "owners L W s \<Longrightarrow> (\<And>l. W l = V l) \<Longrightarrow> owners L V s"
  by (simp add: owners_def)

lemma upd_proc_hw [simp]:
  "owners L W (upd_proc p f s) = owners L W s" "nest h n (upd_proc p f s) = nest h n s"
  "owners L W (s\<lparr>hartid := g\<rparr>) = owners L W s" "nest h n (s\<lparr>hartid := g\<rparr>) = nest h n s"
  "cpus (upd_proc p f s) = cpus s" "procs (upd_proc p f s) = (procs s)(p := f (procs s p))"
  by (simp_all add: owners_def nest_def upd_proc_def)

lemma sched_step:
  assumes "owners L W s" "Lk_proc p \<in> L" "W (Lk_proc p) = Some h" "nest h 1 s" "cpu_proc (cpus s h) = Some p"
    "state (procs s p) \<noteq> RUNNING"
  shows "act Sched (s\<lparr>hartid := h\<rparr>) = Inr (s\<lparr>hartid := h\<rparr>)"
proof -
  let ?s = "s\<lparr>hartid := h\<rparr>"
  have n: "\<not> sie (mycpu ?s)" "noff (mycpu ?s) = 1" using assms(4) by (simp_all add: nest_def mycpu_def)
  have "cpu_proc (mycpu ?s) = Some p" using assms(5) by (simp add: mycpu_def)
  from this_proc_eq [OF this] have "this_proc ?s = Inr (p, ?s)" using settled_nested [of ?s] n by simp
  moreover have "holding (Lk_proc p) ?s" using assms(1-3) by (auto simp: owners_def holding_def)
  ultimately show ?thesis using n assms(6) by (simp add: sched_enter_def intr_get_def)
qed

lemma switch_step:
  assumes "owners L W s" "Lk_proc p \<in> L" "W (Lk_proc p) = Some h" "nest h 1 s"
  shows "\<exists>t. act (Switch p) (s\<lparr>hartid := h\<rparr>) = Inr t \<and> owners L (W(Lk_proc p := None)) t \<and> nest h 0 t \<and> local_step h s t"
proof -
  define u where "u = set_mycpu ((mycpu (s\<lparr>hartid := h\<rparr>))\<lparr>cpu_proc := None\<rparr>) (s\<lparr>hartid := h\<rparr>)"
  have u: "owners L W u" "nest h (Suc 0) u" "local_step h s u" "u\<lparr>hartid := h\<rparr> = u"
    using assms(1,4) by (auto simp: u_def owners_def nest_def set_mycpu_def mycpu_def local_step_def)
  obtain t where t: "release (Lk_proc p) u = Inr t" "owners L (W(Lk_proc p := None)) t" "nest h 0 t" "local_step h u t"
    using release_step [OF u(1) assms(2,3) u(2)] unfolding u(4) by blast
  have "act (Switch p) (s\<lparr>hartid := h\<rparr>) = Inr t" using t(1) by (simp add: scheduler_leave_def u_def)
  moreover have "local_step h s t" using t(4) u(3) by (simp add: local_step_def)
  ultimately show ?thesis using t by blast
qed

lemma own_moves:
  assumes "\<And>q. lk \<noteq> Lk_proc q"
  shows "((own h k p lk 0 w)(Lk_proc p := Some h)) l = own h k p lk 1 w l"
    "((own h k p lk 1 Before)(lk := None)) l = own h k p lk 2 Before l"
    "visits w \<noteq> Some p \<Longrightarrow> ((own h k p lk 5 w)(Lk_proc p := None)) l = own h k p lk 6 w l"
    "2 \<le> i \<Longrightarrow> ((own h k p lk i Before)(lk := Some k)) l = own h k p lk i (At 0) l"
    "2 \<le> i \<Longrightarrow> ((own h k p lk i (At q))(lk := None)) l = own h k p lk i After l"
    "2 \<le> i \<Longrightarrow> i = 6 \<or> q \<noteq> p \<Longrightarrow> ((own h k p lk i (At r))(Lk_proc q := Some k)) l = own h k p lk i (Locked q) l"
    "2 \<le> i \<Longrightarrow> i = 6 \<or> q \<noteq> p \<Longrightarrow> ((own h k p lk i (Woke q))(Lk_proc q := None)) l = own h k p lk i (At r) l"
    "own h k p lk i (Locked q) l = own h k p lk i (Woke q) l"
  using assms by (auto simp: own_def)

lemma sleeper_moves:
  assumes A: "apart h k p lk me" and I: "winv_at h k p ch lk me i w s" and i: "i < 6"
  shows "\<exists>t. act ([Acq (Lk_proc p), Rel lk, Set_chan p ch, Set_state p SLEEPING, Sched, Switch p] ! i) (s\<lparr>hartid := h\<rparr>) = Inr t
    \<and> winv_at h k p ch lk me (Suc i) w t"
proof -
  let ?L = "insert lk (Lk_proc ` {..<NPROC})"
  note I' = I [unfolded winv_at_def] and A' = A [unfolded apart_def]
  have L: "Lk_proc p \<in> ?L" "lk \<in> ?L" using A' by auto
  have lk: "\<And>q. lk \<noteq> Lk_proc q" using A' by blast
  have O: "owners ?L (own h k p lk i w) s" "nest h (snest i) s" "nest k (wnest w) s" using I' by blast+
  note M = own_moves [OF lk, where h = h and k = k and p = p]
  consider "i = 0" | "i = 1" | "i = 2" | "i = 3" | "i = 4" | "i = 5" using i by linarith
  then show ?thesis
  proof cases
    case 1
    have w: "w = Before" using I' 1 by simp
    have "own h k p lk 0 w (Lk_proc p) = None" "nest h 1 s" using w lk [of p] O(2) 1 by (auto simp: own_def snest_def)
    then obtain t where t: "acquire (Lk_proc p) (s\<lparr>hartid := h\<rparr>) = Inr t"
      "owners ?L ((own h k p lk 0 w)(Lk_proc p := Some h)) t" "nest h (Suc 1) t" "local_step h s t"
      "cpu_proc (cpus t h) = cpu_proc (cpus s h)"
      using acquire_step [OF O(1) [unfolded 1] L(1)] by blast
    then show ?thesis
      using 1 w I' A' owners_cong [OF t(2) M(1)]
      by (auto simp: winv_at_def snest_def numeral_2_eq_2 local_stepD(1,2) [OF t(4)])
  next
    case 2
    have w: "w = Before" using I' 2 by simp
    have "own h k p lk 1 w lk = Some h" "nest h (Suc 1) s" using O(2) 2 by (auto simp: own_def snest_def numeral_2_eq_2)
    then obtain t where t: "release lk (s\<lparr>hartid := h\<rparr>) = Inr t"
      "owners ?L ((own h k p lk 1 w)(lk := None)) t" "nest h 1 t" "local_step h s t"
      "cpu_proc (cpus t h) = cpu_proc (cpus s h)"
      using release_step [OF O(1) [unfolded 2] L(2)] by blast
    then show ?thesis
      using 2 w I' A' owners_cong [OF t(2) [unfolded w] M(2)]
      by (auto simp: winv_at_def snest_def numeral_2_eq_2 local_stepD(1,2) [OF t(4)])
  next
    case 3
    then show ?thesis using I' owners_cong [OF O(1), of "own h k p lk 3 w"] by (auto simp: winv_at_def snest_def own_def)
  next
    case 4
    then show ?thesis using I' owners_cong [OF O(1), of "own h k p lk 4 w"] by (auto simp: winv_at_def snest_def own_def)
  next
    case 5
    have "act Sched (s\<lparr>hartid := h\<rparr>) = Inr (s\<lparr>hartid := h\<rparr>)"
      by (rule sched_step [OF O(1) L(1)]) (use 5 I' O(2) lk [of p] in \<open>auto simp: own_def snest_def\<close>)
    then show ?thesis using 5 I' owners_cong [OF O(1), of "own h k p lk 5 w"] by (auto simp: winv_at_def snest_def own_def)
  next
    case 6
    have v: "visits w \<noteq> Some p" using I' 6 by simp
    have "own h k p lk 5 w (Lk_proc p) = Some h" "nest h 1 s" using O(2) 6 lk [of p] by (auto simp: own_def snest_def)
    then obtain t where t: "act (Switch p) (s\<lparr>hartid := h\<rparr>) = Inr t"
      "owners ?L ((own h k p lk 5 w)(Lk_proc p := None)) t" "nest h 0 t" "local_step h s t"
      using switch_step [OF O(1) [unfolded 6] L(1)] by blast
    then show ?thesis
      using 6 I' A' owners_cong [OF t(2) M(3) [OF v]] by (auto simp: winv_at_def snest_def local_stepD(1,2) [OF t(4)])
  qed
qed

text \<open>The next process that the waker visits, from \<open>q\<close> on.\<close>

lemma wakeup_loop_cases:
  assumes "q \<le> NPROC"
  obtains (none) "wakeup_loop ch me [q..<NPROC] = []" "\<And>r. q \<le> r \<Longrightarrow> r < NPROC \<Longrightarrow> me = Some r"
  | (visit) r where "q \<le> r" "r < NPROC" "me \<noteq> Some r" "\<And>j. q \<le> j \<Longrightarrow> j < r \<Longrightarrow> me = Some j"
      "wakeup_loop ch me [q..<NPROC] = wakeup_acts ch r @ wakeup_loop ch me [Suc r..<NPROC]"
proof -
  have "(wakeup_loop ch me [q..<NPROC] = [] \<and> (\<forall>r. q \<le> r \<and> r < NPROC \<longrightarrow> me = Some r))
    \<or> (\<exists>r. q \<le> r \<and> r < NPROC \<and> me \<noteq> Some r \<and> (\<forall>j. q \<le> j \<and> j < r \<longrightarrow> me = Some j)
        \<and> wakeup_loop ch me [q..<NPROC] = wakeup_acts ch r @ wakeup_loop ch me [Suc r..<NPROC])"
    using assms
  proof (induction "NPROC - q" arbitrary: q)
    case 0
    then show ?case by (intro disjI1) (auto simp: wakeup_loop_def)
  next
    case (Suc n)
    then have q: "q < NPROC" "[q..<NPROC] = q # [Suc q..<NPROC]" by (simp_all add: upt_conv_Cons)
    show ?case
    proof (cases "me = Some q")
      case True
      have e: "wakeup_loop ch me [q..<NPROC] = wakeup_loop ch me [Suc q..<NPROC]"
        using True unfolding q(2) by (simp add: wakeup_loop_def)
      have w: "me = Some j" if "q \<le> j" "Suc q \<le> j \<Longrightarrow> me = Some j" for j
        using that True by (cases "j = q") auto
      have "n = NPROC - Suc q" "Suc q \<le> NPROC" using Suc.hyps(2) q(1) by linarith+
      from Suc.hyps(1) [OF this] show ?thesis unfolding e using w by (meson Suc_leD)
    next
      case False
      then show ?thesis using q by (intro disjI2 exI [of _ q]) (auto simp: wakeup_loop_def)
    qed
  qed
  then show ?thesis using none visit by blast
qed

lemma waker_moves:
  assumes A: "apart h k p lk me" and I: "winv_at h k p ch lk me i w s" and b: "wrest ch lk me w = b # bs"
  shows "act b (s\<lparr>hartid := k\<rparr>) = Inl Spin \<and> i < 6
    \<or> (\<exists>t v. act b (s\<lparr>hartid := k\<rparr>) = Inr t \<and> bs = wrest ch lk me v \<and> winv_at h k p ch lk me i v t)"
proof -
  let ?L = "insert lk (Lk_proc ` {..<NPROC})"
  note I' = I [unfolded winv_at_def] and A' = A [unfolded apart_def]
  have lk: "\<And>q. lk \<noteq> Lk_proc q" and hk: "h \<noteq> k" using A' by blast+
  have O: "owners ?L (own h k p lk i w) s" "nest h (snest i) s" "nest k (wnest w) s" using I' by blast+
  have keep: "procs t = procs s" "nest h n t = nest h n s" "cpus t h = cpus s h" if "local_step k s t" for t n
    using local_stepD [OF that] hk by blast+
  have i6: "i = 6 \<or> i < 6" using I' by linarith
  note M = own_moves [OF lk, where h = h and k = k and p = p]
  show ?thesis
  proof (cases w)
    case Before
    then have b': "b = Acq lk" "bs = wrest ch lk me (At 0)" using b by (simp_all add: waker_prog_def)
    show ?thesis
    proof (cases "i \<le> 1")
      case True
      then have "act b (s\<lparr>hartid := k\<rparr>) = Inl Spin"
        using acquire_spins [OF O(1), of lk h k] hk b' by (simp add: own_def)
      then show ?thesis using True by simp
    next
      case False
      then have "own h k p lk i w lk = None" using Before by (simp add: own_def)
      then obtain t where t: "acquire lk (s\<lparr>hartid := k\<rparr>) = Inr t" "owners ?L ((own h k p lk i w)(lk := Some k)) t"
        "nest k (Suc 0) t" "local_step k s t"
        using acquire_step [OF O(1), of lk k 0] O(3) Before by auto
      have "owners ?L (own h k p lk i (At 0)) t"
        by (rule owners_cong [OF t(2) [unfolded Before] M(4)]) (use False in simp)
      then have "winv_at h k p ch lk me i (At 0) t" using I' False Before t(3) by (simp add: winv_at_def keep [OF t(4)])
      then show ?thesis using t(1) unfolding b' act.simps by blast
    qed
  next
    case (At q)
    have i2: "2 \<le> i" using I' At by (cases "i \<le> 1") auto
    have q: "q \<le> NPROC" using I' At by simp
    from q show ?thesis
    proof (cases rule: wakeup_loop_cases [where ch = ch and me = me])
      case none
      then have b': "b = Rel lk" "bs = wrest ch lk me After" using b At by simp_all
      have ps: "p < q" using none(2) [of p] A' by (meson not_less)
      then have i: "i = 6" using I' At i6 by auto
      have "own h k p lk i w lk = Some k" using i2 At by (simp add: own_def)
      then obtain t where t: "release lk (s\<lparr>hartid := k\<rparr>) = Inr t" "owners ?L ((own h k p lk i w)(lk := None)) t"
        "nest k 0 t" "local_step k s t"
        using release_step [OF O(1), of lk k 0] O(3) At by auto
      have "owners ?L (own h k p lk i After) t" by (rule owners_cong [OF t(2) [unfolded At] M(5) [OF i2]])
      then have "winv_at h k p ch lk me i After t" using I' i At ps t(3) by (simp add: winv_at_def keep [OF t(4)])
      then show ?thesis using t(1) unfolding b' act.simps by blast
    next
      case (visit r)
      then have b': "b = Acq (Lk_proc r)" "bs = wrest ch lk me (Locked r)" using b At by (simp_all add: wakeup_acts_def)
      have L: "Lk_proc r \<in> ?L" using visit(2) by simp
      show ?thesis
      proof (cases "r = p \<and> i < 6")
        case True
        then have "own h k p lk i w (Lk_proc r) = Some h" using lk [of p] i2 by (auto simp: own_def)
        then show ?thesis using acquire_spins [OF O(1) L] hk b' True by simp
      next
        case False
        then have rp: "i = 6 \<or> r \<noteq> p" using i6 by blast
        have "own h k p lk i w (Lk_proc r) = None" using lk [of r] rp At by (auto simp: own_def)
        then obtain t where t: "acquire (Lk_proc r) (s\<lparr>hartid := k\<rparr>) = Inr t"
          "owners ?L ((own h k p lk i w)(Lk_proc r := Some k)) t" "nest k (Suc 1) t" "local_step k s t"
          using acquire_step [OF O(1) L, of k 1] O(3) At by auto
        have ps: "p < r \<longleftrightarrow> p < q" using visit(1,4) A' by (metis less_le_trans not_less)
        have "owners ?L (own h k p lk i (Locked r)) t" by (rule owners_cong [OF t(2) [unfolded At] M(6) [OF i2 rp]])
        then have "winv_at h k p ch lk me i (Locked r) t"
          using I' At visit(2,3) rp ps i2 t(3) by (auto simp: winv_at_def keep [OF t(4)] numeral_2_eq_2)
        then show ?thesis using t(1) unfolding b' act.simps by blast
      qed
    qed
  next
    case (Locked q)
    then have b': "b = Wake q ch" "bs = wrest ch lk me (Woke q)" using b by simp_all
    have i2: "2 \<le> i" using I' Locked by (cases "i \<le> 1") auto
    have qp: "i = 6 \<or> q \<noteq> p" using I' Locked i6 by auto
    obtain t where t: "act b (s\<lparr>hartid := k\<rparr>) = Inr t" "owners ?L (own h k p lk i (Woke q)) t" "nest h (snest i) t"
      "nest k (wnest (Woke q)) t" "cpus t = cpus s"
      "procs t = (procs s)(q := (if state (procs s q) = SLEEPING \<and> chan (procs s q) = ch
         then (procs s q)\<lparr>state := RUNNABLE\<rparr> else procs s q))"
      using O owners_cong [OF O(1) [unfolded Locked] M(8)] Locked b'(1) by (auto simp: fun_upd_idem)
    have "winv_at h k p ch lk me i (Woke q) t"
      using I' Locked qp i2 t(2-6) by (auto simp: winv_at_def)
    then show ?thesis using t(1) b'(2) by blast
  next
    case (Woke q)
    then have b': "b = Rel (Lk_proc q)" "bs = wrest ch lk me (At (Suc q))" using b by simp_all
    have i2: "2 \<le> i" using I' Woke by (cases "i \<le> 1") auto
    have qp: "i = 6 \<or> q \<noteq> p" using I' Woke i6 by auto
    have L: "Lk_proc q \<in> ?L" using I' Woke by simp
    have "own h k p lk i w (Lk_proc q) = Some k" using lk [of q] qp Woke by (auto simp: own_def)
    then obtain t where t: "release (Lk_proc q) (s\<lparr>hartid := k\<rparr>) = Inr t"
      "owners ?L ((own h k p lk i w)(Lk_proc q := None)) t" "nest k 1 t" "local_step k s t"
      using release_step [OF O(1) L, of k 1] O(3) Woke by (auto simp: numeral_2_eq_2)
    have "owners ?L (own h k p lk i (At (Suc q))) t" by (rule owners_cong [OF t(2) [unfolded Woke] M(7) [OF i2 qp]])
    then have "winv_at h k p ch lk me i (At (Suc q)) t"
      using I' Woke i2 t(3) by (auto simp: winv_at_def keep [OF t(4)] less_Suc_eq_le)
    then show ?thesis using t(1) unfolding b' act.simps by blast
  qed (use b in simp)
qed

section \<open>No wakeup is lost\<close>

lemma winv_step:
  assumes "apart h k p lk me" "winv h k p ch lk me c" "wstep h k c d"
  shows "winv h k p ch lk me d"
  using assms(3)
proof cases
  case (sleeper a s t as bs)
  obtain i w where i: "winv_at h k p ch lk me i w s" "a # as = drop i (sleeper_prog ch lk p)" "bs = wrest ch lk me w"
    using assms(2) sleeper by (auto simp: winv_def)
  note A = sleep_at [OF i(2) refl]
  show ?thesis using sleeper_moves [OF assms(1) i(1) A(1)] A(2,3) i(3) sleeper by (auto simp: winv_def)
next
  case (waker b s t as bs)
  obtain i w where i: "winv_at h k p ch lk me i w s" "as = drop i (sleeper_prog ch lk p)" "wrest ch lk me w = b # bs"
    using assms(2) waker by (auto simp: winv_def)
  show ?thesis using waker_moves [OF assms(1) i(1,3)] i(2) waker by (auto simp: winv_def)
qed

lemma winv_reach:
  assumes "apart h k p lk me" "rtranclp (wstep h k) c d" "winv h k p ch lk me c"
  shows "winv h k p ch lk me d"
  using assms(2,3) by (induction rule: rtranclp_induct) (auto intro: winv_step [OF assms(1)])

lemma wrest_Nil: "wrest ch lk me w = [] \<longleftrightarrow> w = After"
  by (cases w) (simp_all add: waker_prog_def)

lemma winv_run:
  assumes "apart h k p lk me" "winv h k p ch lk me (s, as, bs)"
  shows "\<exists>t. rtranclp (wstep h k) (s, as, bs) (t, [], [])"
  using assms(2)
proof (induction "length as + length bs" arbitrary: s as bs)
  case (Suc n)
  obtain i w where i: "winv_at h k p ch lk me i w s" "as = drop i (sleeper_prog ch lk p)" "bs = wrest ch lk me w"
    using Suc.prems by (auto simp: winv_def)
  have "\<exists>t as' bs'. wstep h k (s, as, bs) (t, as', bs') \<and> n = length as' + length bs'"
  proof (cases as)
    case (Cons a as')
    note A = sleep_at [OF i(2) Cons]
    show ?thesis using sleeper_moves [OF assms(1) i(1) A(1)] A(3) Cons Suc.hyps(2) by (fastforce intro: wstep.sleeper)
  next
    case Nil
    then obtain b bs' where b: "bs = b # bs'" using Suc.hyps(2) by (cases bs) auto
    have "6 \<le> i" using Nil i(2) length_sleeper_prog [of ch lk p] by simp
    then obtain t where "act b (s\<lparr>hartid := k\<rparr>) = Inr t" using waker_moves [OF assms(1) i(1), of b bs'] i(3) b by auto
    then show ?thesis using b Nil Suc.hyps(2) by (fastforce intro: wstep.waker)
  qed
  then obtain t as' bs' where t: "wstep h k (s, as, bs) (t, as', bs')" "n = length as' + length bs'" by blast
  have "winv h k p ch lk me (t, as', bs')" by (rule winv_step [OF assms(1) Suc.prems t(1)])
  from Suc.hyps(1) [OF t(2) this] t(1) show ?case by (meson converse_rtranclp_into_rtranclp)
qed auto

lemma winv_init:
  assumes "apart h k p lk me" "procs_free s" "lock_free lk s" "cpu_proc (cpus s h) = Some p"
    "noff (cpus s h) = 0" "noff (cpus s k) = 0" "acquire lk (s\<lparr>hartid := h\<rparr>) = Inr s0"
  shows "winv h k p ch lk me (s0, sleeper_prog ch lk p, waker_prog ch lk me)"
proof -
  let ?L = "insert lk (Lk_proc ` {..<NPROC})"
  have o: "owners ?L (\<lambda>_. None) s" using assms(2,3) by (auto simp: owners_def procs_free_def lock_free_def)
  obtain t where t: "acquire lk (s\<lparr>hartid := h\<rparr>) = Inr t" "owners ?L ((\<lambda>_. None)(lk := Some h)) t" "nest h (Suc 0) t"
    "local_step h s t" "cpu_proc (cpus t h) = cpu_proc (cpus s h)"
    using acquire_step [OF o, of lk h 0] assms(5) by (auto simp: nest_def)
  have "owners ?L (own h k p lk 0 Before) t" by (rule owners_cong [OF t(2)]) (auto simp: own_def)
  moreover have "nest k 0 t" using local_stepD(2) [OF t(4), of k 0] assms(1,6) by (simp add: apart_def nest_def)
  ultimately have "winv_at h k p ch lk me 0 Before t" using t(3,5) assms(4) by (simp add: winv_at_def snest_def)
  moreover have "s0 = t" using t(1) assms(7) by simp
  ultimately show ?thesis
    unfolding winv_def by (auto intro!: exI [of _ 0] exI [of _ Before])
qed

text \<open>C21: No wakeup is lost.  A process on hart h takes the lock of its condition and calls sleep; on
  hart k another thread takes the same lock, calls wakeup on the channel and frees the lock.  The two
  harts interleave action by action (each acquire, release, write of the channel and of the state, and
  test of a sleeper is a step).  In every state they can reach: the sleeper's next action
  succeeds; the waker's next action succeeds, or it spins on a lock while the sleeper still has
  actions to do; no action panics; both can run to the end; and once both are
  done the process is RUNNABLE.\<close>

theorem no_lost_wakeup:
  assumes "p < NPROC" "h \<noteq> k" "\<forall>q. lk \<noteq> Lk_proc q" "procs_free s" "lock_free lk s"
    "cpu_proc (cpus s h) = Some p" "cpu_proc (cpus s k) \<noteq> Some p" "noff (cpus s h) = 0" "noff (cpus s k) = 0"
    "acquire lk (s\<lparr>hartid := h\<rparr>) = Inr s0"
    "rtranclp (wstep h k) (s0, sleeper_prog ch lk p, waker_prog ch lk (cpu_proc (cpus s k))) (t, as, bs)"
  shows "(as \<noteq> [] \<longrightarrow> (\<exists>u. act (hd as) (t\<lparr>hartid := h\<rparr>) = Inr u))
    \<and> (bs \<noteq> [] \<longrightarrow> (\<exists>u. act (hd bs) (t\<lparr>hartid := k\<rparr>) = Inr u) \<or> act (hd bs) (t\<lparr>hartid := k\<rparr>) = Inl Spin \<and> as \<noteq> [])
    \<and> (\<exists>u. rtranclp (wstep h k) (t, as, bs) (u, [], []))
    \<and> (as = [] \<and> bs = [] \<longrightarrow> state (procs t p) = RUNNABLE \<and> chan (procs t p) = ch)"
proof -
  let ?me = "cpu_proc (cpus s k)"
  have A: "apart h k p lk ?me" using assms(1-3,7) by (simp add: apart_def)
  have I: "winv h k p ch lk ?me (t, as, bs)"
    by (rule winv_reach [OF A assms(11) winv_init [OF A assms(4-6,8-10)]])
  then obtain i w where i: "winv_at h k p ch lk ?me i w t" "as = drop i (sleeper_prog ch lk p)" "bs = wrest ch lk ?me w"
    by (auto simp: winv_def)
  have e: "as = [] \<longleftrightarrow> 6 \<le> i" using i(2) length_sleeper_prog by simp
  have "\<exists>u. act (hd as) (t\<lparr>hartid := h\<rparr>) = Inr u" if "as \<noteq> []"
  proof -
    have "as = hd as # tl as" using that by simp
    note S = sleep_at [OF i(2) this]
    show ?thesis using sleeper_moves [OF A i(1) S(1)] unfolding S(3) by blast
  qed
  moreover have "(\<exists>u. act (hd bs) (t\<lparr>hartid := k\<rparr>) = Inr u) \<or> act (hd bs) (t\<lparr>hartid := k\<rparr>) = Inl Spin \<and> as \<noteq> []" if "bs \<noteq> []"
    using waker_moves [OF A i(1), of "hd bs" "tl bs"] i(3) e that by auto
  moreover have "\<exists>u. rtranclp (wstep h k) (t, as, bs) (u, [], [])" by (rule winv_run [OF A I])
  moreover have "state (procs t p) = RUNNABLE \<and> chan (procs t p) = ch" if "as = []" "bs = []"
    using i(1,3) e that wrest_Nil [of ch lk ?me w] by (auto simp: winv_at_def)
  ultimately show ?thesis by blast
qed

theorem no_lost_wakeup_witness:
  "\<exists>s0 u. acquire Lk_ticks ((procst_of (kfresh_run 1) ps_sleeper)\<lparr>hartid := 0\<rparr>) = Inr s0
    \<and> rtranclp (wstep 0 1) (s0, sleeper_prog Ch_ticks Lk_ticks 1, waker_prog Ch_ticks Lk_ticks None) (u, [], [])
    \<and> state (procs u 1) = RUNNABLE"
proof -
  let ?s = "procst_of (kfresh_run 1) ps_sleeper"
  have c: "cpu_proc (cpus ?s 0) = Some 1" "cpu_proc (cpus ?s 1) = None" "noff (cpus ?s 0) = 0" "noff (cpus ?s 1) = 0"
    by (simp_all add: kfresh_run_def set_mycpu_def mycpu_def kfresh_def kboot0_def hw0_def hw.defs)
  have l: "lock_free Lk_ticks ?s" by simp
  then have "lock_free Lk_ticks (?s\<lparr>hartid := 0\<rparr>)" by (simp add: lock_free_def)
  then obtain s0 where a: "acquire Lk_ticks (?s\<lparr>hartid := 0\<rparr>) = Inr s0" using acquire_free by blast
  note N = no_lost_wakeup [of 1 0 1 Lk_ticks ?s s0 Ch_ticks, OF _ _ _ kfresh_procs_free l c(1) _ c(3,4) a, unfolded c(2)]
  obtain u where u: "rtranclp (wstep 0 1) (s0, sleeper_prog Ch_ticks Lk_ticks 1, waker_prog Ch_ticks Lk_ticks None) (u, [], [])"
    using N [OF _ _ _ _ rtranclp.rtrancl_refl] by auto
  then show ?thesis using N [OF _ _ _ _ u] a by auto
qed

end
