(* ===== verification/Pipe.thy ===== *)
theory Pipe
  imports Proc
begin

text \<open>
  \<^verbatim>\<open>kernel/pipe.c\<close>: a ring buffer of 512 bytes between two open files.  A
  \<^verbatim>\<open>struct pipe\<close> fills a base frame; the fields are kept in \<open>pipes\<close> under the address of
  the frame.  \<open>nread\<close> and \<open>nwrite\<close> count bytes modulo \<open>2\<^sup>3\<^sup>2\<close>.  A reader or writer that
  must wait goes to sleep and resumes with the next round of its loop: \<open>Blocked\<close>, with the
  bytes moved so far and the saved interrupt state.
\<close>

record pipe =
  pi_data :: "nat \<Rightarrow> u8"
  nread :: u32
  nwrite :: u32
  readopen :: bool
  writeopen :: bool

record pipest = procst +
  pipes :: "u64 \<Rightarrow> pipe"

definition PIPESIZE :: nat where PIPESIZE_def [simp]: "PIPESIZE = 512"

datatype pipe_out = Finished int | Blocked nat bool

section \<open>The ring buffer\<close>

definition pipe_full :: "pipe \<Rightarrow> bool" where
  "pipe_full q \<longleftrightarrow> nwrite q = nread q + of_nat PIPESIZE"

definition pipe_empty :: "pipe \<Rightarrow> bool" where
  "pipe_empty q \<longleftrightarrow> nread q = nwrite q"

definition pipe_put :: "u8 \<Rightarrow> pipe \<Rightarrow> pipe" where
  "pipe_put ch q = q\<lparr>pi_data := (pi_data q)(unat (nwrite q mod of_nat PIPESIZE) := ch), nwrite := nwrite q + 1\<rparr>"

definition pipe_get :: "pipe \<Rightarrow> u8 \<times> pipe" where
  "pipe_get q = (pi_data q (unat (nread q mod of_nat PIPESIZE)), q\<lparr>nread := nread q + 1\<rparr>)"

definition upd_pipe :: "u64 \<Rightarrow> (pipe \<Rightarrow> pipe) \<Rightarrow> 'a pipest_scheme \<Rightarrow> 'a pipest_scheme" where
  "upd_pipe pi f s = s\<lparr>pipes := (pipes s)(pi := f (pipes s pi))\<rparr>"

section \<open>Operations\<close>

definition pipeclose :: "u64 \<Rightarrow> bool \<Rightarrow> 'a pipest_scheme \<Rightarrow> 'a pipest_scheme res" where
  "pipeclose pi wr s =
     ebind (acquire (Lk_pipe pi) s) (\<lambda>s.
     ebind (if wr then wakeup (Ch_nread pi) (upd_pipe pi (\<lambda>q. q\<lparr>writeopen := False\<rparr>) s)
            else wakeup (Ch_nwrite pi) (upd_pipe pi (\<lambda>q. q\<lparr>readopen := False\<rparr>) s)) (\<lambda>s.
     let closed = \<not> readopen (pipes s pi) \<and> \<not> writeopen (pipes s pi)
     in ebind (release (Lk_pipe pi) s) (\<lambda>s. if closed then kfree pi s else Inr s)))"

function pipewrite_loop ::
  "u64 \<Rightarrow> nat \<Rightarrow> u64 \<Rightarrow> nat \<Rightarrow> int \<Rightarrow> 'a pipest_scheme \<Rightarrow> (pipe_out \<times> 'a pipest_scheme) res"
where
  "pipewrite_loop pi pr addr i n s =
     (if int i < n
      then ebind (if \<not> readopen (pipes s pi) then Inr (True, s) else killed pr s) (\<lambda>(stop, s).
        if stop then ebind (release (Lk_pipe pi) s) (\<lambda>s. Inr (Finished (-1), s))
        else if pipe_full (pipes s pi)
        then ebind (wakeup (Ch_nread pi) s) (\<lambda>s.
             ebind (sleep_enter (Ch_nwrite pi) (Lk_pipe pi) s) (\<lambda>(e, s). Inr (Blocked i e, s)))
        else ebind (copyin (pagetable (procs s pr)) (addr + of_nat i) 1 s) (\<lambda>((r, bs), s).
             if r = -1
             then ebind (wakeup (Ch_nread pi) s) (\<lambda>s.
                  ebind (release (Lk_pipe pi) s) (\<lambda>s. Inr (Finished (int i), s)))
             else pipewrite_loop pi pr addr (Suc i) n (upd_pipe pi (pipe_put (hd bs)) s)))
      else ebind (wakeup (Ch_nread pi) s) (\<lambda>s.
           ebind (release (Lk_pipe pi) s) (\<lambda>s. Inr (Finished (int i), s))))"
  by pat_completeness auto
termination
  by (relation "measure (\<lambda>(pi, pr, addr, i, n, s). nat (n - int i))") auto

declare pipewrite_loop.simps [simp del]

definition pipewrite :: "u64 \<Rightarrow> u64 \<Rightarrow> int \<Rightarrow> 'a pipest_scheme \<Rightarrow> (pipe_out \<times> 'a pipest_scheme) res" where
  "pipewrite pi addr n s =
     ebind (this_proc s) (\<lambda>(pr, s). ebind (acquire (Lk_pipe pi) s) (pipewrite_loop pi pr addr 0 n))"

definition pipewrite_resume ::
  "u64 \<Rightarrow> nat \<Rightarrow> u64 \<Rightarrow> nat \<Rightarrow> int \<Rightarrow> bool \<Rightarrow> 'a pipest_scheme \<Rightarrow> (pipe_out \<times> 'a pipest_scheme) res"
where
  "pipewrite_resume pi pr addr i n e s =
     ebind (sleep_leave pr (Lk_pipe pi) e s) (pipewrite_loop pi pr addr i n)"

text \<open>The copy loop of \<^verbatim>\<open>piperead\<close>: the number of bytes moved.\<close>

function piperead_copy ::
  "u64 \<Rightarrow> nat \<Rightarrow> u64 \<Rightarrow> nat \<Rightarrow> int \<Rightarrow> 'a pipest_scheme \<Rightarrow> (nat \<times> 'a pipest_scheme) res"
where
  "piperead_copy pi pr addr i n s =
     (if int i < n
      then if pipe_empty (pipes s pi) then Inr (i, s)
           else let (ch, q) = pipe_get (pipes s pi); s = upd_pipe pi (\<lambda>_. q) s
                in ebind (copyout (pagetable (procs s pr)) (addr + of_nat i) [ch] s) (\<lambda>(r, s).
                   if r = -1 then Inr (i, s) else piperead_copy pi pr addr (Suc i) n s)
      else Inr (i, s))"
  by pat_completeness auto
termination
  by (relation "measure (\<lambda>(pi, pr, addr, i, n, s). nat (n - int i))") auto

declare piperead_copy.simps [simp del]

definition piperead_round ::
  "u64 \<Rightarrow> nat \<Rightarrow> u64 \<Rightarrow> int \<Rightarrow> 'a pipest_scheme \<Rightarrow> (pipe_out \<times> 'a pipest_scheme) res"
where
  "piperead_round pi pr addr n s =
     (if pipe_empty (pipes s pi) \<and> writeopen (pipes s pi)
      then ebind (killed pr s) (\<lambda>(k, s).
        if k then ebind (release (Lk_pipe pi) s) (\<lambda>s. Inr (Finished (-1), s))
        else ebind (sleep_enter (Ch_nread pi) (Lk_pipe pi) s) (\<lambda>(e, s). Inr (Blocked 0 e, s)))
      else ebind (piperead_copy pi pr addr 0 n s) (\<lambda>(i, s).
           ebind (wakeup (Ch_nwrite pi) s) (\<lambda>s.
           ebind (release (Lk_pipe pi) s) (\<lambda>s. Inr (Finished (int i), s)))))"

definition piperead :: "u64 \<Rightarrow> u64 \<Rightarrow> int \<Rightarrow> 'a pipest_scheme \<Rightarrow> (pipe_out \<times> 'a pipest_scheme) res" where
  "piperead pi addr n s =
     ebind (this_proc s) (\<lambda>(pr, s). ebind (acquire (Lk_pipe pi) s) (piperead_round pi pr addr n))"

definition piperead_resume ::
  "u64 \<Rightarrow> nat \<Rightarrow> u64 \<Rightarrow> int \<Rightarrow> bool \<Rightarrow> 'a pipest_scheme \<Rightarrow> (pipe_out \<times> 'a pipest_scheme) res"
where
  "piperead_resume pi pr addr n e s =
     ebind (sleep_leave pr (Lk_pipe pi) e s) (piperead_round pi pr addr n)"


section \<open>Contract of a bounded queue\<close>

text \<open>A client's request: put a byte, or get one.\<close>

datatype qop = QPut u8 | QGet

text \<open>
  The requests in order; a put into a full queue and a get from an empty one are refused.
  The answers are the bytes got, in order.
\<close>

fun qrun :: "('q \<Rightarrow> bool) \<Rightarrow> ('q \<Rightarrow> bool) \<Rightarrow> (u8 \<Rightarrow> 'q \<Rightarrow> 'q) \<Rightarrow> ('q \<Rightarrow> u8 \<times> 'q) \<Rightarrow> qop list \<Rightarrow> 'q \<Rightarrow> u8 list \<times> 'q" where
  "qrun fl em pu ge [] q = ([], q)"
| "qrun fl em pu ge (QPut c # os) q =
     qrun fl em pu ge os (if fl q then q else pu c q)"
| "qrun fl em pu ge (QGet # os) q =
     (if em q then qrun fl em pu ge os q
      else let (c, q) = ge q; (cs, q) = qrun fl em pu ge os q in (c # cs, q))"

text \<open>The abstract queue: a list of at most \<open>cap\<close> bytes.\<close>

definition lrun :: "nat \<Rightarrow> qop list \<Rightarrow> u8 list \<Rightarrow> u8 list \<times> u8 list" where
  "lrun cap = qrun (\<lambda>l. length l = cap) (\<lambda>l. l = []) (\<lambda>c l. l @ [c]) (\<lambda>l. (hd l, tl l))"

locale bounded_queue =
  fixes inv :: "'q \<Rightarrow> bool" and contents :: "'q \<Rightarrow> u8 list" and cap :: nat
    and qfull :: "'q \<Rightarrow> bool" and qempty :: "'q \<Rightarrow> bool"
    and qput :: "u8 \<Rightarrow> 'q \<Rightarrow> 'q" and qget :: "'q \<Rightarrow> u8 \<times> 'q"
  assumes bounded: "inv q \<Longrightarrow> length (contents q) \<le> cap"
    and full_iff: "inv q \<Longrightarrow> qfull q \<longleftrightarrow> length (contents q) = cap"
    and empty_iff: "inv q \<Longrightarrow> qempty q \<longleftrightarrow> contents q = []"
    and put_law: "inv q \<Longrightarrow> length (contents q) < cap \<Longrightarrow> inv (qput c q) \<and> contents (qput c q) = contents q @ [c]"
    and get_law: "inv q \<Longrightarrow> contents q \<noteq> [] \<Longrightarrow>
      inv (snd (qget q)) \<and> fst (qget q) = hd (contents q) \<and> contents (snd (qget q)) = tl (contents q)"
begin

lemma run_refines:
  "inv q \<Longrightarrow> inv (snd (qrun qfull qempty qput qget os q))
    \<and> lrun cap os (contents q) = (fst (qrun qfull qempty qput qget os q), contents (snd (qrun qfull qempty qput qget os q)))"
proof (induction os arbitrary: q)
  case Nil
  then show ?case by (simp add: lrun_def)
next
  case (Cons op os)
  show ?case
  proof (cases op)
    case (QPut c)
    show ?thesis
    proof (cases "qfull q")
      case True
      then show ?thesis using Cons QPut full_iff [OF Cons.prems] by (simp add: lrun_def)
    next
      case False
      then have "length (contents q) < cap" using full_iff bounded Cons.prems by (meson le_neq_implies_less)
      then show ?thesis
        using Cons.IH [of "qput c q"] put_law [OF Cons.prems] False QPut by (simp add: lrun_def)
    qed
  next
    case QGet
    show ?thesis
    proof (cases "contents q = []")
      case True
      then show ?thesis using Cons.IH [OF Cons.prems] QGet empty_iff [OF Cons.prems] by (simp add: lrun_def)
    next
      case False
      then show ?thesis
        using Cons.IH [of "snd (qget q)"] get_law [OF Cons.prems False] empty_iff [OF Cons.prems] QGet
        by (simp add: lrun_def split_beta)
    qed
  qed
qed

end

section \<open>The ring buffer is a bounded queue\<close>

definition pipe_inv :: "pipe \<Rightarrow> bool" where
  "pipe_inv q \<longleftrightarrow> unat (nwrite q - nread q) \<le> PIPESIZE"

definition pipe_contents :: "pipe \<Rightarrow> u8 list" where
  "pipe_contents q =
     map (\<lambda>i. pi_data q (unat ((nread q + of_nat i) mod of_nat PIPESIZE))) [0..<unat (nwrite q - nread q)]"

lemma unat_ring: "unat ((a + of_nat i :: u32) mod of_nat PIPESIZE) = (unat a + i) mod 512"
  using unat_ring_index [of 512 a i] by simp

lemma pipe_write_index:
  "unat (nwrite q mod of_nat PIPESIZE) = (unat (nread q) + unat (nwrite q - nread q)) mod 512"
  using unat_ring [of "nread q" "unat (nwrite q - nread q)"] by simp

lemma pipe_length [simp]: "length (pipe_contents q) = unat (nwrite q - nread q)"
  by (simp add: pipe_contents_def)

lemma pipe_put_count:
  assumes "unat (nwrite q - nread q) < 512"
  shows "unat (nwrite (pipe_put c q) - nread q) = Suc (unat (nwrite q - nread q))"
proof -
  have "nwrite (pipe_put c q) - nread q = (nwrite q - nread q) + 1" by (simp add: pipe_put_def)
  moreover have "unat ((nwrite q - nread q) + 1) = Suc (unat (nwrite q - nread q))"
    using assms by (simp only: unat_word_ariths) simp
  ultimately show ?thesis by (simp only:)
qed

lemma pipe_put_contents:
  assumes "unat (nwrite q - nread q) < 512"
  shows "pipe_contents (pipe_put c q) = pipe_contents q @ [c]"
proof -
  let ?n = "unat (nwrite q - nread q)"
  have old: "pi_data (pipe_put c q) (unat ((nread q + of_nat i) mod of_nat PIPESIZE))
    = pi_data q (unat ((nread q + of_nat i) mod of_nat PIPESIZE))" if "i < ?n" for i
  proof -
    have "(unat (nread q) + i) mod 512 \<noteq> (unat (nread q) + ?n) mod 512"
      using ring_index_inj [of i 512 ?n "unat (nread q)"] that assms by auto
    then have "unat ((nread q + of_nat i) mod of_nat PIPESIZE) \<noteq> unat (nwrite q mod of_nat PIPESIZE)"
      unfolding unat_ring pipe_write_index .
    then show ?thesis by (simp add: pipe_put_def)
  qed
  have new: "pi_data (pipe_put c q) (unat ((nread q + of_nat ?n) mod of_nat PIPESIZE)) = c"
    by (simp add: pipe_put_def)
  have r: "nread (pipe_put c q) = nread q" by (simp add: pipe_put_def)
  show ?thesis
    unfolding pipe_contents_def r pipe_put_count [OF assms] upt_Suc using old new by simp
qed

lemma pipe_get_count:
  assumes "nread q \<noteq> nwrite q"
  shows "unat (nwrite q - nread q) = Suc (unat (nwrite q - (nread q + 1)))"
proof -
  have "nwrite q - nread q \<noteq> 0" using assms by simp
  then have "unat (nwrite q - nread q - 1) = unat (nwrite q - nread q) - 1" "0 < unat (nwrite q - nread q)"
    by (simp_all add: unat_minus_one unat_gt_0)
  then show ?thesis by (simp add: diff_diff_eq)
qed

lemma pipe_get_contents:
  assumes "nread q \<noteq> nwrite q"
  shows "pipe_contents q = fst (pipe_get q) # pipe_contents (snd (pipe_get q))"
proof -
  have "[0..<Suc n] = 0 # map Suc [0..<n]" for n by (simp add: upt_conv_Cons map_Suc_upt)
  then show ?thesis
    unfolding pipe_contents_def pipe_get_count [OF assms]
    by (simp add: pipe_get_def pipe_get_count [OF assms] add.assoc comp_def)
qed

interpretation ring: bounded_queue pipe_inv pipe_contents PIPESIZE pipe_full pipe_empty pipe_put pipe_get
proof unfold_locales
  fix q assume "pipe_inv q"
  then show "length (pipe_contents q) \<le> PIPESIZE" by (simp add: pipe_inv_def)
next
  fix q assume q: "pipe_inv q"
  have "nwrite q = nread q + 512 \<longleftrightarrow> nwrite q - nread q = 512" by (auto simp: algebra_simps)
  also have "\<dots> \<longleftrightarrow> unat (nwrite q - nread q) = 512" by (simp add: word_unat_eq_iff)
  finally show "pipe_full q \<longleftrightarrow> length (pipe_contents q) = PIPESIZE" by (simp add: pipe_full_def)
next
  fix q
  have "pipe_contents q = [] \<longleftrightarrow> unat (nwrite q - nread q) = 0" using pipe_length [of q] by (metis length_0_conv)
  then show "pipe_empty q \<longleftrightarrow> pipe_contents q = []" by (auto simp: pipe_empty_def unat_eq_0)
next
  fix q c assume "pipe_inv q" "length (pipe_contents q) < PIPESIZE"
  then have "unat (nwrite q - nread q) < 512" by simp
  then show "pipe_inv (pipe_put c q) \<and> pipe_contents (pipe_put c q) = pipe_contents q @ [c]"
    using pipe_put_count [of q c] pipe_put_contents [of q c] by (simp add: pipe_inv_def pipe_put_def)
next
  fix q assume q: "pipe_inv q" "pipe_contents q \<noteq> []"
  then have n: "nread q \<noteq> nwrite q" by (auto simp: pipe_contents_def)
  have "pipe_inv (snd (pipe_get q))"
    using q(1) pipe_get_count [OF n] by (simp add: pipe_inv_def pipe_get_def)
  then show "pipe_inv (snd (pipe_get q)) \<and> fst (pipe_get q) = hd (pipe_contents q)
      \<and> pipe_contents (snd (pipe_get q)) = tl (pipe_contents q)"
    using pipe_get_contents [OF n] by (metis list.sel(1,3))
qed

text \<open>C22: The pipe's ring buffer is a first-in first-out queue of at most 512 bytes: for every
  sequence of puts (refused when full) and gets (refused when empty), with the counters wrapping
  at 32 bits, the bytes got and the bytes left are those of the same sequence on a list.\<close>

theorem pipe_is_fifo:
  assumes "pipe_inv q"
  shows "pipe_inv (snd (qrun pipe_full pipe_empty pipe_put pipe_get os q))
    \<and> lrun PIPESIZE os (pipe_contents q)
      = (fst (qrun pipe_full pipe_empty pipe_put pipe_get os q),
         pipe_contents (snd (qrun pipe_full pipe_empty pipe_put pipe_get os q)))"
  using assms by (rule ring.run_refines)

text \<open>A pipe whose counters are about to wrap.\<close>

definition pipe0 :: pipe where
  "pipe0 = \<lparr>pi_data = (\<lambda>_. 0), nread = 0xFFFFFFFF, nwrite = 0xFFFFFFFF, readopen = True, writeopen = True\<rparr>"

theorem pipe_is_fifo_witness:
  "pipe_inv pipe0 \<and> fst (qrun pipe_full pipe_empty pipe_put pipe_get [QPut 1, QPut 2, QGet, QGet] pipe0) = [1, 2]"
proof -
  have i: "pipe_inv pipe0" by (simp add: pipe_inv_def pipe0_def)
  have "pipe_contents pipe0 = []" by (simp add: pipe_contents_def pipe0_def)
  then show ?thesis
    using i pipe_is_fifo [OF i, of "[QPut 1, QPut 2, QGet, QGet]"] by (simp add: lrun_def)
qed

end
