(* ===== verification/Grep.thy ===== *)
theory Grep
  imports Main
begin

text \<open>
  The program \<^verbatim>\<open>user/grep.c\<close>: the matcher of patterns with the operators \<^verbatim>\<open>^ . * $\<close>,
  and the loop that reads a file in pieces and prints the lines that match.

  A C string is the list of its characters before the null byte.  A file descriptor is the list
  of the pieces that successive calls of \<^verbatim>\<open>read\<close> find, each cut to the room the caller has.
\<close>

definition NUL :: char where
  "NUL = CHR 0x00"

section \<open>The matcher\<close>

function matchhere :: "string \<Rightarrow> string \<Rightarrow> bool" and matchstar :: "char \<Rightarrow> string \<Rightarrow> string \<Rightarrow> bool" where
  "matchhere re tx =
     (case re of [] \<Rightarrow> True
      | c # re' \<Rightarrow>
          (case re' of d # re'' \<Rightarrow>
             if d = CHR ''*'' then matchstar c re'' tx
             else (case tx of [] \<Rightarrow> False | t # ts \<Rightarrow> (c = CHR ''.'' \<or> c = t) \<and> matchhere re' ts)
           | [] \<Rightarrow>
             if c = CHR ''$'' then tx = []
             else (case tx of [] \<Rightarrow> False | t # ts \<Rightarrow> (c = CHR ''.'' \<or> c = t) \<and> matchhere re' ts)))"
| "matchstar c re tx =
     (matchhere re tx \<or>
      (case tx of [] \<Rightarrow> False | t # ts \<Rightarrow> (t = c \<or> c = CHR ''.'') \<and> matchstar c re ts))"
  by pat_completeness auto
termination
  by (relation "measures [\<lambda>x. case x of Inl (re, tx) \<Rightarrow> 2 * length re | Inr (c, re, tx) \<Rightarrow> 2 * length re + 1,
      \<lambda>x. case x of Inl (re, tx) \<Rightarrow> length tx | Inr (c, re, tx) \<Rightarrow> length tx]") auto

declare matchhere.simps [simp del] matchstar.simps [simp del]

text \<open>The search of an unanchored pattern at every position, the end of the text included.\<close>

fun match_from :: "string \<Rightarrow> string \<Rightarrow> bool" where
  "match_from re tx =
     (matchhere re tx \<or> (case tx of [] \<Rightarrow> False | _ # ts \<Rightarrow> match_from re ts))"

declare match_from.simps [simp del]

definition match :: "string \<Rightarrow> string \<Rightarrow> bool" where
  "match re tx =
     (case re of c # re' \<Rightarrow> if c = CHR ''^'' then matchhere re' tx else match_from re tx
      | [] \<Rightarrow> match_from re tx)"

section \<open>The meaning of a pattern\<close>

text \<open>The pieces of a pattern: a character (or any, for a dot), or a repeated one.\<close>

datatype item = One char | Many char

fun items :: "string \<Rightarrow> item list" where
  "items [] = []"
| "items [c] = (if c = CHR ''$'' then [] else [One c])"
| "items (c # d # re) = (if d = CHR ''*'' then Many c # items re else One c # items (d # re))"

text \<open>The pattern ends in the operator \<^verbatim>\<open>$\<close>.\<close>

fun at_end :: "string \<Rightarrow> bool" where
  "at_end [] = False"
| "at_end [c] = (c = CHR ''$'')"
| "at_end (c # d # re) = (if d = CHR ''*'' then at_end re else at_end (d # re))"

definition fits :: "char \<Rightarrow> char \<Rightarrow> bool" where
  "fits c x \<longleftrightarrow> c = CHR ''.'' \<or> x = c"

primrec language :: "item list \<Rightarrow> string set" where
  "language [] = {[]}"
| "language (i # is) =
     (case i of One c \<Rightarrow> {x # w | x w. fits c x \<and> w \<in> language is}
      | Many c \<Rightarrow> {u @ w | u w. (\<forall>x\<in>set u. fits c x) \<and> w \<in> language is})"

text \<open>A word of the language starts the text, and fills it if the pattern ends in \<^verbatim>\<open>$\<close>.\<close>

definition starts :: "string \<Rightarrow> string \<Rightarrow> bool" where
  "starts re tx \<longleftrightarrow> (\<exists>u v. tx = u @ v \<and> u \<in> language (items re) \<and> (at_end re \<longrightarrow> v = []))"

lemma starts_Nil: "starts [] tx"
  by (simp add: starts_def)

lemma starts_eol: "starts [CHR ''$''] tx \<longleftrightarrow> tx = []"
  by (simp add: starts_def)

lemma starts_one:
  assumes "items (c # re) = One c # items re" "at_end (c # re) = at_end re"
  shows "starts (c # re) tx \<longleftrightarrow> (\<exists>t ts. tx = t # ts \<and> fits c t \<and> starts re ts)"
proof
  assume "starts (c # re) tx"
  then obtain u v where u: "tx = u @ v" "u \<in> language (items (c # re))" "at_end (c # re) \<longrightarrow> v = []"
    unfolding starts_def by blast
  then obtain x w where "u = x # w" "fits c x" "w \<in> language (items re)" using assms(1) by auto
  with u(1,3) assms(2) show "\<exists>t ts. tx = t # ts \<and> fits c t \<and> starts re ts" by (auto simp: starts_def)
next
  assume "\<exists>t ts. tx = t # ts \<and> fits c t \<and> starts re ts"
  then obtain t u v where "tx = (t # u) @ v" "fits c t" "u \<in> language (items re)" "at_end re \<longrightarrow> v = []"
    by (auto simp: starts_def)
  then show "starts (c # re) tx"
    unfolding starts_def using assms by (intro exI [of _ "t # u"] exI [of _ v]) simp
qed

lemma starts_many:
  "starts (c # CHR ''*'' # re) tx \<longleftrightarrow>
     starts re tx \<or> (\<exists>t ts. tx = t # ts \<and> fits c t \<and> starts (c # CHR ''*'' # re) ts)"
proof -
  have "starts (c # CHR ''*'' # re) tx \<longleftrightarrow> (\<exists>u v. tx = u @ v \<and> (\<forall>x\<in>set u. fits c x) \<and> starts re v)" for tx
  proof
    assume "starts (c # CHR ''*'' # re) tx"
    then obtain z v where z: "tx = z @ v" "z \<in> language (Many c # items re)" "at_end re \<longrightarrow> v = []"
      unfolding starts_def by auto
    then obtain u w where "z = u @ w" "\<forall>x\<in>set u. fits c x" "w \<in> language (items re)" by auto
    with z(1,3) have "tx = u @ w @ v" "\<forall>x\<in>set u. fits c x" "w \<in> language (items re)" "at_end re \<longrightarrow> v = []"
      by simp_all
    then show "\<exists>u v. tx = u @ v \<and> (\<forall>x\<in>set u. fits c x) \<and> starts re v" unfolding starts_def by blast
  next
    assume "\<exists>u v. tx = u @ v \<and> (\<forall>x\<in>set u. fits c x) \<and> starts re v"
    then obtain u w v where "tx = (u @ w) @ v" "\<forall>x\<in>set u. fits c x" "w \<in> language (items re)" "at_end re \<longrightarrow> v = []"
      by (auto simp: starts_def)
    then show "starts (c # CHR ''*'' # re) tx"
      unfolding starts_def by (intro exI [of _ "u @ w"] exI [of _ v]) auto
  qed
  moreover have "(\<exists>u v. tx = u @ v \<and> (\<forall>x\<in>set u. fits c x) \<and> starts re v) \<longleftrightarrow> starts re tx
      \<or> (\<exists>t ts. tx = t # ts \<and> fits c t \<and> (\<exists>u v. ts = u @ v \<and> (\<forall>x\<in>set u. fits c x) \<and> starts re v))" (is "?L \<longleftrightarrow> ?R")
  proof
    assume ?L
    then obtain u v where u: "tx = u @ v" "\<forall>x\<in>set u. fits c x" "starts re v" by blast
    then show ?R by (cases u) auto
  next
    assume ?R
    then show ?L
    proof
      assume "starts re tx"
      then show ?L by (intro exI [of _ "[]"] exI [of _ tx]) simp
    next
      assume "\<exists>t ts. tx = t # ts \<and> fits c t \<and> (\<exists>u v. ts = u @ v \<and> (\<forall>x\<in>set u. fits c x) \<and> starts re v)"
      then obtain t u v where "tx = (t # u) @ v" "fits c t" "\<forall>x\<in>set u. fits c x" "starts re v" by auto
      then show ?L by (intro exI [of _ "t # u"] exI [of _ v]) simp
    qed
  qed
  ultimately show ?thesis by simp
qed

lemma matcher_starts:
  "matchhere re tx \<longleftrightarrow> starts re tx"
  "matchstar c re tx \<longleftrightarrow> starts (c # CHR ''*'' # re) tx"
proof (induction re tx and c re tx rule: matchhere_matchstar.induct)
  case (1 re tx)
  show ?case
  proof (cases re)
    case Nil
    then show ?thesis by (simp add: matchhere.simps [of "[]"] starts_Nil)
  next
    case (Cons c re')
    have one: "items (c # re') = One c # items re' \<Longrightarrow> at_end (c # re') = at_end re' \<Longrightarrow>
      (case tx of [] \<Rightarrow> False | t # ts \<Rightarrow> (c = CHR ''.'' \<or> c = t) \<and> starts re' ts) = starts (c # re') tx"
      using starts_one [of c re' tx] by (auto simp: fits_def split: list.splits)
    show ?thesis
    proof (cases re')
      case Nil
      then show ?thesis using Cons 1 one starts_eol [of tx] unfolding matchhere.simps [of re tx]
        by (auto split: list.splits)
    next
      case (Cons d re'')
      then show ?thesis using \<open>re = c # re'\<close> 1 one unfolding matchhere.simps [of re tx]
        by (auto split: list.splits)
    qed
  qed
next
  case (2 c re tx)
  then show ?case
    unfolding matchstar.simps [of c re tx] starts_many [of c re tx]
    by (auto simp: fits_def split: list.splits)
qed

lemma match_from_starts: "match_from re tx \<longleftrightarrow> (\<exists>pre rest. tx = pre @ rest \<and> starts re rest)"
proof (induction tx)
  case Nil
  show ?case by (simp add: match_from.simps [of re "[]"] matcher_starts)
next
  case (Cons t ts)
  have "(\<exists>pre rest. t # ts = pre @ rest \<and> starts re rest)
    \<longleftrightarrow> starts re (t # ts) \<or> (\<exists>pre rest. ts = pre @ rest \<and> starts re rest)"
    by (auto simp: Cons_eq_append_conv)
  then show ?case using Cons by (simp add: match_from.simps [of re "t # ts"] matcher_starts)
qed

text \<open>C38: The recursive matcher of grep decides its patterns: a pattern matches a text when the text
  has a part in the language of the pattern, where a character stands for itself, a dot for any
  character and a star for any number of repetitions; the part starts the text if the pattern
  begins with ^, and ends it if the pattern ends in $.\<close>

theorem match_spec:
  "match re tx \<longleftrightarrow>
     (if re \<noteq> [] \<and> hd re = CHR ''^''
      then \<exists>u v. tx = u @ v \<and> u \<in> language (items (tl re)) \<and> (at_end (tl re) \<longrightarrow> v = [])
      else \<exists>pre u v. tx = pre @ u @ v \<and> u \<in> language (items re) \<and> (at_end re \<longrightarrow> v = []))"
proof (cases re)
  case Nil
  then show ?thesis by (auto simp: match_def match_from_starts starts_def)
next
  case (Cons c re')
  then show ?thesis by (auto simp: match_def match_from_starts matcher_starts starts_def)
qed

theorem match_spec_witness: "match ''b.'' ''abc''"
proof -
  have i: "items ''b.'' = [One CHR ''b'', One CHR ''.'']" "\<not> at_end ''b.''" by simp_all
  have "''bc'' \<in> language [One CHR ''b'', One CHR ''.'']" by (simp add: fits_def)
  then have "\<exists>pre u v. ''abc'' = pre @ u @ v \<and> u \<in> language (items ''b.'') \<and> (at_end ''b.'' \<longrightarrow> v = [])"
    unfolding i(1) using i(2) by (intro exI [of _ "''a''"] exI [of _ "''bc''"] exI [of _ "[]"]) simp
  then show ?thesis using match_spec [of "''b.''" "''abc''"] by simp
qed

section \<open>The loop over a file\<close>

text \<open>\<^verbatim>\<open>strchr(p, '\n')\<close>: the characters before the first newline and those after it.\<close>

fun cut_line :: "string \<Rightarrow> (string \<times> string) option" where
  "cut_line [] = None"
| "cut_line (c # cs) =
     (if c = NUL then None else if c = CHR 0x0A then Some ([], cs)
      else map_option (\<lambda>(l, r). (c # l, r)) (cut_line cs))"

lemma cut_line_length: "cut_line b = Some (l, r) \<Longrightarrow> length r < length b"
  by (induction b arbitrary: l) (auto split: if_splits)

text \<open>The inner loop: the output for the complete lines of the buffer, and what is left.\<close>

function grep_lines :: "string \<Rightarrow> string \<Rightarrow> string \<times> string" where
  "grep_lines pattern b =
     (case cut_line b of None \<Rightarrow> ([], b)
      | Some (l, r) \<Rightarrow> let (out, rest) = grep_lines pattern r
                    in ((if match pattern l then l @ [CHR 0x0A] else []) @ out, rest))"
  by pat_completeness auto
termination by (relation "measure (\<lambda>(pattern, b). length b)") (auto dest: cut_line_length)

declare grep_lines.simps [simp del]

text \<open>
  The outer loop, with the unfinished line \<open>b\<close> at the start of the buffer of 1024 characters;
  the value is what is written to the standard output.
\<close>

function grep_loop :: "string \<Rightarrow> string \<Rightarrow> string list \<Rightarrow> string" where
  "grep_loop pattern b fd =
     (case fd of [] \<Rightarrow> []
      | c # cs \<Rightarrow>
          let room = 1024 - length b - 1; got = take room c
          in if got = [] then []
             else let (out, rest) = grep_lines pattern (b @ got)
                  in out @ grep_loop pattern rest (if length c \<le> room then cs else drop room c # cs))"
  by pat_completeness auto
termination by (relation "measure (\<lambda>(pattern, b, fd). length (concat fd))") auto

declare grep_loop.simps [simp del]

definition grep :: "string \<Rightarrow> string list \<Rightarrow> string" where
  "grep pattern fd = grep_loop pattern [] fd"

section \<open>Lines\<close>

text \<open>The complete lines of a text and what follows the last newline.\<close>

fun split_lines :: "string \<Rightarrow> string list \<times> string" where
  "split_lines [] = ([], [])"
| "split_lines (c # cs) =
     (let (ls, r) = split_lines cs
      in if c = CHR 0x0A then ([] # ls, r)
         else case ls of [] \<Rightarrow> ([], c # r) | l # ls' \<Rightarrow> ((c # l) # ls', r))"

definition print_matches :: "string \<Rightarrow> string list \<Rightarrow> string" where
  "print_matches pattern ls = concat (map (\<lambda>l. l @ [CHR 0x0A]) (filter (match pattern) ls))"

lemma cut_line_None: "NUL \<notin> set b \<Longrightarrow> cut_line b = None \<Longrightarrow> split_lines (b @ x) =
    (case split_lines x of ([], r) \<Rightarrow> ([], b @ r) | (l # ls, r) \<Rightarrow> ((b @ l) # ls, r))"
  by (induction b) (auto split: if_splits prod.splits list.splits)

lemma cut_line_Some: "cut_line b = Some (l, r) \<Longrightarrow> split_lines (b @ x) = (let (ls, z) = split_lines (r @ x) in (l # ls, z))"
  by (induction b arbitrary: l) (auto split: if_splits prod.splits list.splits simp: Let_def)

lemma cut_line_set: "cut_line b = Some (l, r) \<Longrightarrow> set r \<subseteq> set b"
  by (induction b arbitrary: l) (auto split: if_splits)

lemma grep_lines_spec:
  assumes "NUL \<notin> set b" "grep_lines pattern b = (out, rest)"
  shows "\<exists>ls. out = print_matches pattern ls \<and> cut_line rest = None \<and> set rest \<subseteq> set b
    \<and> (\<forall>x. split_lines (b @ x) = (let (ls', z) = split_lines (rest @ x) in (ls @ ls', z)))"
  using assms
proof (induction pattern b arbitrary: out rest rule: grep_lines.induct)
  case (1 pattern b)
  show ?case
  proof (cases "cut_line b")
    case None
    then show ?thesis
      using "1.prems" by (intro exI [of _ "[]"]) (simp add: grep_lines.simps [of pattern b] print_matches_def)
  next
    case (Some lr)
    then obtain l r where lr: "cut_line b = Some (l, r)" by (cases lr) auto
    obtain out' rest' where g: "grep_lines pattern r = (out', rest')" by fastforce
    have "NUL \<notin> set r" using cut_line_set [OF lr] "1.prems"(1) by blast
    then obtain ls where ls: "out' = print_matches pattern ls" "cut_line rest' = None" "set rest' \<subseteq> set r"
      "\<forall>x. split_lines (r @ x) = (let (ls', z) = split_lines (rest' @ x) in (ls @ ls', z))"
      using "1.IH" [OF lr refl _ g] by blast
    have o: "out = (if match pattern l then l @ [CHR 0x0A] else []) @ out'" "rest = rest'"
      using "1.prems"(2) lr g by (simp_all add: grep_lines.simps [of pattern b])
    have "split_lines (b @ x) = (let (ls', z) = split_lines (rest @ x) in ((l # ls) @ ls', z))" for x
      using cut_line_Some [OF lr, of x] ls(4) o(2) by (simp split: prod.splits)
    then show ?thesis
      using ls(1-3) o cut_line_set [OF lr] by (intro exI [of _ "l # ls"]) (auto simp: print_matches_def)
  qed
qed

text \<open>Every line fits in the buffer: no run of 1023 characters without a newline.\<close>

definition lines_fit :: "string \<Rightarrow> bool" where
  "lines_fit s \<longleftrightarrow> (\<forall>l\<in>set (fst (split_lines s)). length l < 1023) \<and> length (snd (split_lines s)) < 1023"

lemma cut_line_fits:
  assumes "NUL \<notin> set b" "cut_line b = None" "lines_fit (b @ x)"
  shows "length b < 1023"
  using assms(3) cut_line_None [OF assms(1,2), of x]
  by (auto simp: lines_fit_def split: prod.splits list.splits)

lemma grep_loop_spec:
  assumes "NUL \<notin> set (b @ concat fd)" "cut_line b = None" "[] \<notin> set fd" "lines_fit (b @ concat fd)"
  shows "grep_loop pattern b fd = print_matches pattern (fst (split_lines (b @ concat fd)))"
  using assms
proof (induction pattern b fd rule: grep_loop.induct)
  case (1 pattern b fd)
  show ?case
  proof (cases fd)
    case Nil
    then have "fst (split_lines b) = []" using cut_line_None [of b "[]"] "1.prems" by simp
    then show ?thesis unfolding grep_loop.simps [of pattern b fd] using Nil by (simp add: print_matches_def)
  next
    case (Cons c cs)
    define room where "room = 1024 - length b - 1"
    have "length b < 1023" using cut_line_fits [OF _ "1.prems"(2,4)] "1.prems"(1) by simp
    then have got: "take room c \<noteq> []" using "1.prems"(3) Cons by (auto simp: room_def)
    obtain out rest where g: "grep_lines pattern (b @ take room c) = (out, rest)" by fastforce
    let ?fd = "if length c \<le> room then cs else drop room c # cs"
    have whole: "b @ concat fd = (b @ take room c) @ concat ?fd" using Cons by auto
    have nul: "NUL \<notin> set (b @ take room c)" using "1.prems"(1) Cons set_take_subset [of room c] by auto
    obtain ls where ls: "out = print_matches pattern ls" "cut_line rest = None" "set rest \<subseteq> set (b @ take room c)"
      "\<forall>x. split_lines ((b @ take room c) @ x) = (let (ls', z) = split_lines (rest @ x) in (ls @ ls', z))"
      using grep_lines_spec [OF nul g] by blast
    have sp: "split_lines (b @ concat fd) = (let (ls', z) = split_lines (rest @ concat ?fd) in (ls @ ls', z))"
      unfolding whole using ls(4) by blast
    have n: "NUL \<notin> set (rest @ concat ?fd)"
      using nul ls(3) "1.prems"(1) unfolding whole by auto
    have ne: "[] \<notin> set ?fd" using "1.prems"(3) Cons by auto
    have fit: "lines_fit (rest @ concat ?fd)"
      using "1.prems"(4) sp by (auto simp: lines_fit_def split: prod.splits)
    have "grep_loop pattern rest ?fd = print_matches pattern (fst (split_lines (rest @ concat ?fd)))"
      using "1.IH" [OF Cons room_def refl got g [symmetric] refl n ls(2) ne fit] .
    moreover have "grep_loop pattern b fd = out @ grep_loop pattern rest ?fd"
      unfolding grep_loop.simps [of pattern b fd]
      by (simp only: Cons list.case Let_def room_def [symmetric] got if_False g prod.case)
    moreover have "fst (split_lines (b @ concat fd)) = ls @ fst (split_lines (rest @ concat ?fd))"
      unfolding sp by (simp add: Let_def split_beta)
    ultimately show ?thesis using ls(1) by (simp add: print_matches_def)
  qed
qed

text \<open>C37: grep prints the matching lines however read cuts the file into pieces: for a file without
  null characters whose lines are shorter than the buffer, the output is the complete lines that
  match the pattern, in order, each with its newline.\<close>

theorem grep_spec:
  assumes "NUL \<notin> set (concat fd)" "[] \<notin> set fd" "lines_fit (concat fd)"
  shows "grep pattern fd
    = concat (map (\<lambda>l. l @ [CHR 0x0A]) (filter (match pattern) (fst (split_lines (concat fd)))))"
  using grep_loop_spec [of "[]" fd pattern] assms by (simp add: grep_def print_matches_def)

theorem grep_spec_witness:
  "grep ''b*$'' [''ab'' @ [CHR 0x0A], ''c''] = ''ab'' @ [CHR 0x0A]"
proof -
  have m: "match ''b*$'' ''ab''"
    by (simp add: match_def match_from.simps matchhere.simps matchstar.simps)
  have l: "split_lines (concat [''ab'' @ [CHR 0x0A], ''c'']) = ([''ab''], ''c'')" by simp
  show ?thesis
    using grep_spec [of "[''ab'' @ [CHR 0x0A], ''c'']" "''b*$''"] m l
    by (simp add: NUL_def lines_fit_def del: split_lines.simps)
qed

end
