(* ===== verification/Ulib.thy ===== *)
theory Ulib
  imports Cstring "HOL-Library.Char_ord"
begin

text \<open>
  The user library: the string functions of \<^verbatim>\<open>user/ulib.c\<close> over the memory of a process,
  and formatted output, \<^verbatim>\<open>user/printf.c\<close> and the conversions of \<^verbatim>\<open>kernel/printf.c\<close>.
  A loop over a string runs until it meets a null byte; in a memory without one it does not end,
  which is the result \<open>None\<close>.  Plain \<^verbatim>\<open>char\<close> is unsigned on RISC-V, and 32-bit
  arithmetic wraps around.  What is written to a file descriptor or to the console is a list of
  characters.
\<close>

section \<open>Strings\<close>

partial_function (option) strcpy_loop :: "memory \<Rightarrow> u64 \<Rightarrow> u64 \<Rightarrow> memory option" where
  "strcpy_loop m s t = (let m' = m(s := m t) in if m t \<noteq> 0 then strcpy_loop m' (s + 1) (t + 1) else Some m')"

definition strcpy :: "memory \<Rightarrow> u64 \<Rightarrow> u64 \<Rightarrow> (u64 \<times> memory) option" where
  "strcpy m s t = map_option (\<lambda>m'. (s, m')) (strcpy_loop m s t)"

partial_function (option) strcmp :: "memory \<Rightarrow> u64 \<Rightarrow> u64 \<Rightarrow> int option" where
  "strcmp m p q =
     (if m p \<noteq> 0 \<and> m p = m q then strcmp m (p + 1) (q + 1) else Some (uint (m p) - uint (m q)))"

partial_function (option) strchr :: "memory \<Rightarrow> u64 \<Rightarrow> u8 \<Rightarrow> u64 option" where
  "strchr m s c = (if m s = 0 then Some 0 else if m s = c then Some s else strchr m (s + 1) c)"

definition memmove_user :: "memory \<Rightarrow> u64 \<Rightarrow> u64 \<Rightarrow> nat \<Rightarrow> memory" where
  "memmove_user m vdst vsrc n = (if vdst < vsrc then copy_up m vdst vsrc n else copy_down m vdst vsrc n)"

definition memcpy :: "memory \<Rightarrow> u64 \<Rightarrow> u64 \<Rightarrow> nat \<Rightarrow> memory" where
  "memcpy m dst src n = memmove_user m dst src n"

text \<open>The string at an address: the bytes before the null byte.\<close>

definition cstr :: "memory \<Rightarrow> u64 \<Rightarrow> u8 list \<Rightarrow> bool" where
  "cstr m a bs \<longleftrightarrow> 0 \<notin> set bs \<and> (\<forall>i < length bs. m (a + of_nat i) = bs ! i) \<and> m (a + of_nat (length bs)) = 0"

lemma cstr_Nil: "cstr m a [] \<longleftrightarrow> m a = 0"
  by (simp add: cstr_def)

lemma cstr_Cons: "cstr m a (b # bs) \<longleftrightarrow> b \<noteq> 0 \<and> m a = b \<and> cstr m (a + 1) bs"
proof -
  have "(\<forall>i < Suc (length bs). m (a + of_nat i) = (b # bs) ! i)
    \<longleftrightarrow> m a = b \<and> (\<forall>i < length bs. m (a + 1 + of_nat i) = bs ! i)"
    by (auto simp: less_Suc_eq_0_disj add.assoc)
  then show ?thesis by (auto simp: cstr_def add.assoc)
qed

text \<open>The order that strcmp decides: lexicographic on the bytes.\<close>

fun cmp_bytes :: "u8 list \<Rightarrow> u8 list \<Rightarrow> int" where
  "cmp_bytes [] [] = 0"
| "cmp_bytes [] (b # bs) = - uint b"
| "cmp_bytes (a # as) [] = uint a"
| "cmp_bytes (a # as) (b # bs) = (if a = b then cmp_bytes as bs else uint a - uint b)"

lemma strcmp_bytes: "cstr m p as \<Longrightarrow> cstr m q bs \<Longrightarrow> strcmp m p q = Some (cmp_bytes as bs)"
proof (induction as bs arbitrary: p q rule: cmp_bytes.induct)
  case (4 a as b bs)
  then show ?case by (subst strcmp.simps) (auto simp: cstr_Cons)
qed (subst strcmp.simps, auto simp: cstr_Nil cstr_Cons)+

lemma uint_positive: "uint b \<noteq> 0 \<Longrightarrow> 0 < uint (b :: u8)"
  using uint_ge_0 [of b] by linarith

lemma cmp_bytes_zero: "0 \<notin> set as \<Longrightarrow> 0 \<notin> set bs \<Longrightarrow> cmp_bytes as bs = 0 \<longleftrightarrow> as = bs"
  by (induction as bs rule: cmp_bytes.induct) (auto simp: word_uint_eq_iff)

lemma cmp_bytes_sign: "0 \<notin> set as \<Longrightarrow> 0 \<notin> set bs \<Longrightarrow> cmp_bytes as bs < 0 \<longleftrightarrow> (as, bs) \<in> lexord {(x, y). x < y}"
  by (induction as bs rule: cmp_bytes.induct) (auto simp: word_less_def word_uint_eq_iff dest: uint_positive)

lemma cstr_no_null: "cstr m a bs \<Longrightarrow> 0 \<notin> set bs"
  by (simp add: cstr_def)

text \<open>strcmp compares null-terminated strings: it returns, the result is zero exactly for equal
  strings and negative exactly when the first comes before the second in lexicographic order.\<close>

theorem strcmp_spec:
  assumes "cstr m p as" "cstr m q bs"
  shows "\<exists>r. strcmp m p q = Some r \<and> (r = 0 \<longleftrightarrow> as = bs) \<and> (r < 0 \<longleftrightarrow> (as, bs) \<in> lexord {(x, y). x < y})"
  using strcmp_bytes [OF assms] cmp_bytes_zero cmp_bytes_sign cstr_no_null [OF assms(1)] cstr_no_null [OF assms(2)]
  by blast

theorem strcmp_spec_witness:
  "\<exists>r. strcmp ((\<lambda>_. 0)(0x100 := 65, 0x101 := 66, 0x200 := 65)) 0x100 0x200 = Some r \<and> r \<noteq> 0 \<and> \<not> r < 0"
proof -
  let ?m = "(\<lambda>_. 0 :: u8)(0x100 := 65, 0x101 := 66, 0x200 := 65)"
  have "cstr ?m 0x100 [65, 66]" "cstr ?m 0x200 [65]" by (simp_all add: cstr_Cons cstr_Nil)
  from strcmp_spec [OF this] show ?thesis by auto
qed

lemma memmove_user_eq:
  assumes "unat src + n < 18446744073709551616" "unat dst + n \<le> 18446744073709551616"
  shows "memmove_user m dst src n = (\<lambda>a. if unat (a - dst) < n then m (src + (a - dst)) else m a)"
proof -
  have nat: "unat (src + of_nat i) = unat src + i" "unat (dst + of_nat i) = unat dst + i" if "i < n" for i
    using assms that by (subst unat_u64_add_nowrap; auto)+
  show ?thesis
  proof (cases "dst < src")
    case True
    have "src + of_nat i \<noteq> dst + of_nat j" if "j < i" "i < n" for i j
      using nat(1) [of i] nat(2) [of j] that True by (auto simp: word_less_nat_alt u64_eq_iff)
    then show ?thesis using True assms copy_up_eq [of n src dst m] by (simp add: memmove_user_def)
  next
    case False
    have "dst + of_nat i \<noteq> src + of_nat j" if "j < i" "i < n" for i j
      using nat(1) [of j] nat(2) [of i] that False by (auto simp: word_less_nat_alt u64_eq_iff)
    then show ?thesis using False assms copy_down_eq [of n dst src m] by (simp add: memmove_user_def)
  qed
qed

text \<open>The memmove of the user library and the memmove of the kernel, which choose the direction of
  the copy by different tests, have the same effect on all blocks that do not run past the end of
  the address space.\<close>

theorem memmove_agree:
  assumes "unat src + n < 18446744073709551616" "unat dst + n \<le> 18446744073709551616"
  shows "memmove_user m dst src n = memmove m dst src n"
  using memmove_user_eq [OF assms] memmove_eq [OF assms] by simp

theorem memmove_agree_witness:
  "memmove_user (\<lambda>a. ucast a) 0x1003 0x1000 8 = memmove (\<lambda>a. ucast a) 0x1003 0x1000 8"
  using memmove_agree [of "0x1000" 8 "0x1003" "\<lambda>a. ucast a"] by simp

section \<open>Numbers\<close>

text \<open>
  The digits of a number in base \<open>k + 2\<close>, the least significant first, as the loop of
  \<^verbatim>\<open>printint\<close> leaves them in its buffer.  The base is 10 or 16 in every call.
\<close>

function put_digits :: "string \<Rightarrow> nat \<Rightarrow> nat \<Rightarrow> string" where
  "put_digits digits k x =
     digits ! (x mod (k + 2)) # (if x div (k + 2) \<noteq> 0 then put_digits digits k (x div (k + 2)) else [])"
  by pat_completeness auto
termination by (relation "measure (\<lambda>(digits, k, x). x)") (auto intro!: div_less_dividend gr0I)

declare put_digits.simps [simp del]

text \<open>The buffer of \<^verbatim>\<open>printint\<close> before it is written out from its end.\<close>

definition printint_buf :: "string \<Rightarrow> int \<Rightarrow> nat \<Rightarrow> bool \<Rightarrow> string" where
  "printint_buf digits xx base sg =
     (let neg = (sg \<and> xx < 0);
          x = (if neg then - of_int xx else of_int xx) :: u32
      in put_digits digits (base - 2) (unat x) @ (if neg then ''-'' else []))"

definition printint :: "int \<Rightarrow> nat \<Rightarrow> bool \<Rightarrow> string" where
  "printint xx base sg = rev (printint_buf ''0123456789ABCDEF'' xx base sg)"

definition printint_kernel :: "int \<Rightarrow> nat \<Rightarrow> bool \<Rightarrow> string" where
  "printint_kernel xx base sg = rev (printint_buf ''0123456789abcdef'' xx base sg)"

definition put_ptr :: "string \<Rightarrow> u64 \<Rightarrow> string" where
  "put_ptr digits x =
     ''0x'' @ map (\<lambda>i. digits ! unat (drop_bit 60 (push_bit (4 * i) x))) [0..<16]"

definition printptr :: "u64 \<Rightarrow> string" where
  "printptr x = put_ptr ''0123456789ABCDEF'' x"

definition printptr_kernel :: "u64 \<Rightarrow> string" where
  "printptr_kernel x = put_ptr ''0123456789abcdef'' x"

fun atoi_loop :: "u32 \<Rightarrow> string \<Rightarrow> u32" where
  "atoi_loop n [] = n"
| "atoi_loop n (c # s) =
     (if CHR ''0'' \<le> c \<and> c \<le> CHR ''9'' then atoi_loop (n * 10 + of_nat (of_char c) - 48) s else n)"

definition atoi :: "string \<Rightarrow> int" where
  "atoi s =
     (case s of c # s' \<Rightarrow> if c = CHR ''-'' then sint (- 1 * atoi_loop 0 s') else sint (atoi_loop 0 s)
      | [] \<Rightarrow> 0)"

text \<open>
  The arguments of \<^verbatim>\<open>vprintf\<close>: a register, or a pointer to a string, which may be null.
  Reading an argument that is not there, or of the wrong kind, is undefined: \<open>None\<close>.
\<close>

datatype va = VReg u64 | VStr "string option"

fun va_reg :: "va list \<Rightarrow> (u64 \<times> va list) option" where
  "va_reg (VReg w # ap) = Some (w, ap)"
| "va_reg _ = None"

fun va_str :: "va list \<Rightarrow> (string \<times> va list) option" where
  "va_str (VStr s # ap) = Some (case s of None \<Rightarrow> ''(null)'' | Some s \<Rightarrow> s, ap)"
| "va_str _ = None"

definition va_int :: "va list \<Rightarrow> (int \<times> va list) option" where
  "va_int ap = map_option (\<lambda>(w, ap). (sint (ucast w :: u32), ap)) (va_reg ap)"

text \<open>What one conversion after a percent sign writes.\<close>

definition convert :: "char \<Rightarrow> va list \<Rightarrow> (string \<times> va list) option" where
  "convert c ap =
     (if c = CHR ''d'' then map_option (\<lambda>(i, ap). (printint i 10 True, ap)) (va_int ap)
      else if c = CHR ''l'' then map_option (\<lambda>(i, ap). (printint i 10 False, ap)) (va_int ap)
      else if c = CHR ''x'' then map_option (\<lambda>(i, ap). (printint i 16 False, ap)) (va_int ap)
      else if c = CHR ''p'' then map_option (\<lambda>(w, ap). (printptr w, ap)) (va_reg ap)
      else if c = CHR ''s'' then va_str ap
      else if c = CHR ''c'' then map_option (\<lambda>(w, ap). ([char_of (unat w mod 256)], ap)) (va_reg ap)
      else if c = CHR ''%'' then Some (''%'', ap)
      else Some ([CHR ''%'', c], ap))"

text \<open>\<^verbatim>\<open>vprintf\<close>: the flag is its variable \<^verbatim>\<open>state\<close>, set after a percent sign.\<close>

fun vprintf :: "bool \<Rightarrow> string \<Rightarrow> va list \<Rightarrow> string option" where
  "vprintf st [] ap = Some []"
| "vprintf False (c # fmt) ap =
     (if c = CHR ''%'' then vprintf True fmt ap
      else map_option ((#) c) (vprintf False fmt ap))"
| "vprintf True (c # fmt) ap =
     (case convert c ap of None \<Rightarrow> None
      | Some (out, ap) \<Rightarrow> map_option ((@) out) (vprintf False fmt ap))"

lemma put_digits_length:
  fixes x k n :: nat
  shows "x < (k + 2) ^ n \<Longrightarrow> 0 < n \<Longrightarrow> length (put_digits digits k x) \<le> n"
proof (induction n arbitrary: x)
  case (Suc n)
  show ?case
  proof (cases "x div (k + 2) = 0")
    case False
    then have "n \<noteq> 0" using Suc.prems(1) by (cases n) auto
    moreover have "x div (k + 2) < (k + 2) ^ n"
      using Suc.prems(1) by (simp add: less_mult_imp_div_less mult.commute)
    ultimately show ?thesis using Suc.IH [of "x div (k + 2)"] by (simp add: put_digits.simps [of _ _ x])
  qed (simp add: put_digits.simps [of _ _ x])
qed simp

text \<open>printint stays inside its buffer of 16 characters for every argument, in the bases that
  printf uses, signed or not, in the user library and in the kernel.\<close>

theorem printint_buffer:
  "length (printint_buf digits xx 10 sg) \<le> 11 \<and> length (printint_buf digits xx 16 sg) \<le> 9"
proof -
  have u: "unat (x :: u32) < 4294967296" for x using unsigned_less [of x] by simp
  have "unat (x :: u32) < 10 ^ 10" "unat (x :: u32) < 16 ^ 8" for x
    using u [of x] by simp_all
  then have "length (put_digits digits 8 (unat (x :: u32))) \<le> 10" "length (put_digits digits 14 (unat (x :: u32))) \<le> 8" for x
    using put_digits_length [of "unat x" 8 10 digits] put_digits_length [of "unat x" 14 8 digits] by simp_all
  then show ?thesis by (simp add: printint_buf_def Let_def le_SucI order_trans [of _ 10 11] order_trans [of _ 8 9])
qed

lemma digit_char:
  assumes "d < 10"
  shows "CHR ''0'' \<le> ''0123456789ABCDEF'' ! d \<and> ''0123456789ABCDEF'' ! d \<le> CHR ''9''
    \<and> (of_nat (of_char (''0123456789ABCDEF'' ! d)) :: u32) - 48 = of_nat d"
proof -
  have "d \<in> {0, 1, 2, 3, 4, 5, 6, 7, 8, 9}" using assms by auto
  then show ?thesis by (elim insertE; simp add: less_eq_char_def)
qed

lemma atoi_put_digits:
  "atoi_loop 0 (rev (put_digits ''0123456789ABCDEF'' 8 x) @ s) = atoi_loop (of_nat x) s"
proof (induction "''0123456789ABCDEF''" "8 :: nat" x arbitrary: s rule: put_digits.induct)
  case (1 x)
  let ?d = "''0123456789ABCDEF'' ! (x mod 10)"
  have d: "CHR ''0'' \<le> ?d" "?d \<le> CHR ''9''" "(of_nat (of_char ?d) :: u32) - 48 = of_nat (x mod 10)"
    using digit_char [of "x mod 10"] by simp_all
  have v: "of_nat (x div 10) * 10 + of_nat (of_char ?d) - 48 = (of_nat x :: u32)"
  proof -
    have "of_nat (x div 10) * 10 + (of_nat (of_char ?d) - 48) = (of_nat (x div 10 * 10 + x mod 10) :: u32)"
      unfolding d(3) by (simp only: of_nat_add of_nat_mult of_nat_numeral)
    also have "x div 10 * 10 + x mod 10 = x" by (rule div_mult_mod_eq)
    finally show ?thesis by (simp add: algebra_simps)
  qed
  show ?case
  proof (cases "x div 10 = 0")
    case True
    then show ?thesis using d v by (simp add: put_digits.simps [of _ _ x])
  next
    case False
    then have "atoi_loop 0 (rev (put_digits ''0123456789ABCDEF'' 8 (x div 10)) @ ?d # s) = atoi_loop (of_nat (x div 10)) (?d # s)"
      using 1 by simp
    then show ?thesis using False d v by (simp add: put_digits.simps [of _ _ x])
  qed
qed

lemma put_digits_first:
  "\<exists>d < 10. last (put_digits ''0123456789ABCDEF'' 8 x) = ''0123456789ABCDEF'' ! d"
proof (induction "''0123456789ABCDEF''" "8 :: nat" x rule: put_digits.induct)
  case (1 x)
  show ?case
  proof (cases "x div 10 = 0")
    case True
    have "x mod 10 < 10" by simp
    then show ?thesis using True by (auto simp: put_digits.simps [of _ _ x] simp del: mod_less_divisor)
  next
    case False
    then have "put_digits ''0123456789ABCDEF'' 8 (x div 10) \<noteq> []" by (simp add: put_digits.simps [of _ _ "x div 10"])
    then show ?thesis using 1 False by (simp add: put_digits.simps [of _ _ x])
  qed
qed

lemma sint_of_int_u32: "- 2147483648 \<le> i \<Longrightarrow> i < 2147483648 \<Longrightarrow> sint (of_int i :: u32) = i"
  by (simp add: signed_of_int signed_take_bit_int_eq_self)

text \<open>C40: Decimal numbers survive printing and reading: atoi applied to what printint writes for a
  32-bit integer in base 10 is the integer.  For the least integer this rests on the machine's
  negation, multiplication and addition wrapping, which C leaves undefined for int.\<close>

theorem atoi_printint:
  assumes "- 2147483648 \<le> xx" "xx < 2147483648"
  shows "atoi (printint xx 10 True) = xx"
proof (cases "xx < 0")
  case True
  have "atoi_loop 0 (rev (put_digits ''0123456789ABCDEF'' 8 (unat (- of_int xx :: u32)))) = - of_int xx"
    using atoi_put_digits [of "unat (- of_int xx :: u32)" "[]"] by simp
  then show ?thesis
    using True assms by (simp add: printint_def printint_buf_def atoi_def sint_of_int_u32)
next
  case False
  let ?ds = "put_digits ''0123456789ABCDEF'' 8 (unat (of_int xx :: u32))"
  have l: "atoi_loop 0 (rev ?ds) = of_int xx"
    using atoi_put_digits [of "unat (of_int xx :: u32)" "[]"] by simp
  obtain d where d: "d < 10" "last ?ds = ''0123456789ABCDEF'' ! d" using put_digits_first by blast
  have "?ds \<noteq> []" by (simp add: put_digits.simps [of _ _ "unat (of_int xx :: u32)"])
  then obtain c cs where c: "rev ?ds = c # cs" "c = last ?ds" by (metis hd_rev list.collapse rev_is_Nil_conv)
  have p: "printint xx 10 True = rev ?ds" using False by (simp add: printint_def printint_buf_def)
  have "c \<noteq> CHR ''-''" using digit_char [OF d(1)] c(2) d(2) by (auto simp: less_eq_char_def)
  then have "atoi (c # cs) = sint (atoi_loop 0 (c # cs))" by (simp add: atoi_def)
  also have "\<dots> = xx" using l sint_of_int_u32 [OF assms] unfolding c(1) by simp
  finally show ?thesis unfolding p c(1) .
qed

theorem atoi_printint_witness: "atoi (printint (- 2147483648) 10 True) = - 2147483648"
  by (rule atoi_printint) simp_all

end
