(* ===== verification/Sleeplock.thy ===== *)
theory Sleeplock
  imports Pipe
begin

text \<open>
  \<^verbatim>\<open>kernel/sleeplock.c\<close>: locks that a process may hold while it sleeps.  The locks are
  addressed by number; \<open>Lk_sleep n\<close> is the spin lock inside lock \<open>n\<close>, and its address is
  the wait channel \<open>Ch_lock n\<close>.  \<open>acquiresleep_round\<close> is one pass of the loop: the lock is
  taken, or the process goes to sleep and resumes with the next pass.
\<close>

record slst = pipest +
  sleeplocks :: "nat \<Rightarrow> sleeplock"

definition initsleeplock :: "nat \<Rightarrow> string \<Rightarrow> 'a slst_scheme \<Rightarrow> 'a slst_scheme" where
  "initsleeplock n nm s =
     (let s = initlock (Lk_sleep n) ''sleep lock'' s
      in s\<lparr>sleeplocks := (sleeplocks s)(n := \<lparr>slk_locked = False, slk_name = nm, slk_pid = 0\<rparr>)\<rparr>)"

text \<open>The result is \<open>None\<close> when the lock is taken, else the saved interrupt state of the sleeper.\<close>

definition acquiresleep_round :: "nat \<Rightarrow> 'a slst_scheme \<Rightarrow> (bool option \<times> 'a slst_scheme) res" where
  "acquiresleep_round n s =
     (if slk_locked (sleeplocks s n)
      then ebind (sleep_enter (Ch_lock n) (Lk_sleep n) s) (\<lambda>(i, s). Inr (Some i, s))
      else let s = s\<lparr>sleeplocks := (sleeplocks s)(n := (sleeplocks s n)\<lparr>slk_locked := True\<rparr>)\<rparr>
           in ebind (this_proc s) (\<lambda>(p, s).
              let s = s\<lparr>sleeplocks := (sleeplocks s)(n := (sleeplocks s n)\<lparr>slk_pid := pid (procs s p)\<rparr>)\<rparr>
              in ebind (release (Lk_sleep n) s) (\<lambda>s. Inr (None, s))))"

definition acquiresleep :: "nat \<Rightarrow> 'a slst_scheme \<Rightarrow> (bool option \<times> 'a slst_scheme) res" where
  "acquiresleep n s = ebind (acquire (Lk_sleep n) s) (acquiresleep_round n)"

definition acquiresleep_resume :: "nat \<Rightarrow> nat \<Rightarrow> bool \<Rightarrow> 'a slst_scheme \<Rightarrow> (bool option \<times> 'a slst_scheme) res" where
  "acquiresleep_resume p n i s = ebind (sleep_leave p (Lk_sleep n) i s) (acquiresleep_round n)"

definition releasesleep :: "nat \<Rightarrow> 'a slst_scheme \<Rightarrow> 'a slst_scheme res" where
  "releasesleep n = critical0 (Lk_sleep n) (\<lambda>s.
     wakeup (Ch_lock n)
       (s\<lparr>sleeplocks := (sleeplocks s)(n := (sleeplocks s n)\<lparr>slk_locked := False, slk_pid := 0\<rparr>)\<rparr>))"

definition holdingsleep :: "nat \<Rightarrow> 'a slst_scheme \<Rightarrow> (bool \<times> 'a slst_scheme) res" where
  "holdingsleep n = critical (Lk_sleep n) (\<lambda>s.
     if slk_locked (sleeplocks s n)
     then ebind (this_proc s) (\<lambda>(p, s). Inr (slk_pid (sleeplocks s n) = pid (procs s p), s))
     else Inr (False, s))"

end
