(* ===== verification/Bio.thy ===== *)
theory Bio
  imports Sleeplock Procs
begin

text \<open>
  The buffer cache, \<^verbatim>\<open>kernel/bio.c\<close>.  Buffers are addressed by their index in
  \<^verbatim>\<open>bcache.buf\<close>; the doubly linked list through \<^verbatim>\<open>head\<close> is the list \<open>lru\<close> of
  indices, most recently used first.  The sleep lock of buffer \<open>b\<close> has number \<open>b\<close>.

  A disk maps a device and a block number to the 1024 bytes of the block.  The driver
  \<^verbatim>\<open>virtio_disk_rw\<close> is represented by its effect: it returns when the device has read
  the whole block into the buffer, or has written the whole buffer to the block.  The list
  \<open>dwrites\<close> keeps the blocks written so far, in order.  A process that has to wait for the sleep
  lock of a buffer ends in \<open>Spin\<close>.
\<close>

definition NBUF :: nat where NBUF_def [simp]: "NBUF = 30"

type_synonym block = "nat \<Rightarrow> u8"

record buf =
  b_valid :: bool
  b_dev :: u32
  b_blockno :: u32
  b_refcnt :: u32
  b_data :: block

record biost = slst +
  bufs :: "nat \<Rightarrow> buf"
  lru :: "nat list"
  disk :: "u32 \<Rightarrow> u32 \<Rightarrow> block"
  dwrites :: "(u32 \<times> u32 \<times> block) list"

definition upd_buf :: "nat \<Rightarrow> (buf \<Rightarrow> buf) \<Rightarrow> 'a biost_scheme \<Rightarrow> 'a biost_scheme" where
  "upd_buf b f s = s\<lparr>bufs := (bufs s)(b := f (bufs s b))\<rparr>"

definition virtio_disk_rw :: "nat \<Rightarrow> bool \<Rightarrow> 'a biost_scheme \<Rightarrow> 'a biost_scheme" where
  "virtio_disk_rw b write s =
     (let d = b_dev (bufs s b); n = b_blockno (bufs s b)
      in if write
         then s\<lparr>disk := (disk s)(d := (disk s d)(n := b_data (bufs s b))),
                dwrites := dwrites s @ [(d, n, b_data (bufs s b))]\<rparr>
         else upd_buf b (\<lambda>x. x\<lparr>b_data := disk s d n\<rparr>) s)"

section \<open>Operations\<close>

definition binit :: "'a biost_scheme \<Rightarrow> 'a biost_scheme" where
  "binit s = fold (\<lambda>b s. (initsleeplock b ''buffer'' s)\<lparr>lru := b # lru s\<rparr>) [0..<NBUF]
     ((initlock Lk_bcache ''bcache'' s)\<lparr>lru := []\<rparr>)"

definition bget_body :: "u32 \<Rightarrow> u32 \<Rightarrow> 'a biost_scheme \<Rightarrow> (nat \<times> 'a biost_scheme) res" where
  "bget_body dv blockno s =
     (case find (\<lambda>b. b_dev (bufs s b) = dv \<and> b_blockno (bufs s b) = blockno) (lru s) of
        Some b \<Rightarrow> Inr (b, upd_buf b (\<lambda>x. x\<lparr>b_refcnt := b_refcnt x + 1\<rparr>) s)
      | None \<Rightarrow>
          (case find (\<lambda>b. b_refcnt (bufs s b) = 0) (rev (lru s)) of
             Some b \<Rightarrow> Inr (b, upd_buf b (\<lambda>x. x\<lparr>b_dev := dv, b_blockno := blockno, b_valid := False, b_refcnt := 1\<rparr>) s)
           | None \<Rightarrow> Inl (Panic ''bget: no buffers'')))"

definition bget :: "u32 \<Rightarrow> u32 \<Rightarrow> 'a biost_scheme \<Rightarrow> (nat \<times> 'a biost_scheme) res" where
  "bget dv blockno s =
     ebind (critical Lk_bcache (bget_body dv blockno) s) (\<lambda>(b, s).
     ebind (acquiresleep b s) (\<lambda>(sleeping, s).
     case sleeping of None \<Rightarrow> Inr (b, s) | Some _ \<Rightarrow> Inl Spin))"

definition bread :: "u32 \<Rightarrow> u32 \<Rightarrow> 'a biost_scheme \<Rightarrow> (nat \<times> 'a biost_scheme) res" where
  "bread dv blockno s =
     ebind (bget dv blockno s) (\<lambda>(b, s).
     if \<not> b_valid (bufs s b)
     then Inr (b, upd_buf b (\<lambda>x. x\<lparr>b_valid := True\<rparr>) (virtio_disk_rw b False s))
     else Inr (b, s))"

definition bwrite :: "nat \<Rightarrow> 'a biost_scheme \<Rightarrow> 'a biost_scheme res" where
  "bwrite b s =
     ebind (holdingsleep b s) (\<lambda>(h, s).
     if \<not> h then Inl (Panic ''bwrite'') else Inr (virtio_disk_rw b True s))"

definition brelse_body :: "nat \<Rightarrow> 'a biost_scheme \<Rightarrow> 'a biost_scheme" where
  "brelse_body b s =
     (let s = upd_buf b (\<lambda>x. x\<lparr>b_refcnt := b_refcnt x - 1\<rparr>) s
      in if b_refcnt (bufs s b) = 0 then s\<lparr>lru := b # remove1 b (lru s)\<rparr> else s)"

definition brelse :: "nat \<Rightarrow> 'a biost_scheme \<Rightarrow> 'a biost_scheme res" where
  "brelse b s =
     ebind (holdingsleep b s) (\<lambda>(h, s).
     if \<not> h then Inl (Panic ''brelse'')
     else ebind (releasesleep b s) (critical0 Lk_bcache (\<lambda>s. Inr (brelse_body b s))))"

definition bpin :: "nat \<Rightarrow> 'a biost_scheme \<Rightarrow> 'a biost_scheme res" where
  "bpin b = critical0 Lk_bcache (\<lambda>s. Inr (upd_buf b (\<lambda>x. x\<lparr>b_refcnt := b_refcnt x + 1\<rparr>) s))"

definition bunpin :: "nat \<Rightarrow> 'a biost_scheme \<Rightarrow> 'a biost_scheme res" where
  "bunpin b = critical0 Lk_bcache (\<lambda>s. Inr (upd_buf b (\<lambda>x. x\<lparr>b_refcnt := b_refcnt x - 1\<rparr>) s))"

section \<open>The locks of the cache\<close>

text \<open>
  A process \<open>p\<close> runs, holds no spin lock, and no other hart is in a critical section: the setting in
  which the file system calls the cache.
\<close>

definition quiet :: "nat \<Rightarrow> 'a hw_scheme \<Rightarrow> bool" where
  "quiet p s \<longleftrightarrow> p < NPROC \<and> cpu_proc (mycpu s) = Some p \<and> noff (mycpu s) = 0 \<and> (\<forall>l. lock_free l s)"

lemma quietD:
  assumes "quiet p s"
  shows "p < NPROC" "cpu_proc (mycpu s) = Some p" "noff (mycpu s) = 0" "lock_free l s" "this_proc s = Inr (p, settled s)"
  using assms this_proc_eq [of s p] by (simp_all add: quiet_def)

lemma quiet_cong:
  assumes "quiet p s" "locks t = locks s" "cpus t = cpus (settled s)" "hartid t = hartid s"
  shows "quiet p t"
  using assms by (simp add: quiet_def mycpu_def lock_free_def settled_def set_mycpu_def)

lemma sleeplocks_hw [simp]:
  "sleeplocks (settled s) = sleeplocks s" "sleeplocks (entered l s) = sleeplocks s"
  by (simp_all add: settled_def set_mycpu_def entered_def)

lemma biost_hw [simp]:
  "bufs (settled s) = bufs s" "bufs (entered l s) = bufs s" "lru (settled s) = lru s" "lru (entered l s) = lru s"
  "disk (settled s) = disk s" "disk (entered l s) = disk s" "dwrites (settled s) = dwrites s" "dwrites (entered l s) = dwrites s"
  by (simp_all add: settled_def set_mycpu_def entered_def)

lemma critical_bufs:
  assumes "lock_free l s" "body (entered l s) = Inr (r, (entered l s)\<lparr>bufs := B, lru := L\<rparr>)"
  shows "critical l body s = Inr (r, (settled s)\<lparr>bufs := B, lru := L\<rparr>)"
proof -
  let ?t = "(entered l s)\<lparr>bufs := B, lru := L\<rparr>"
  have "critical l body s = Inr (r, ?t\<lparr>locks := locks s, cpus := cpus (settled s)\<rparr>)"
    by (rule critical_leaf [where t = ?t]) (use assms in simp_all)
  moreover have "?t\<lparr>locks := locks s, cpus := cpus (settled s)\<rparr> = (settled s)\<lparr>bufs := B, lru := L\<rparr>"
    by (cases s) (simp add: entered_def settled_def set_mycpu_def)
  ultimately show ?thesis by simp
qed

lemma critical0_bufs:
  assumes "lock_free l s" "body (entered l s) = Inr ((entered l s)\<lparr>bufs := B, lru := L\<rparr>)"
  shows "critical0 l body s = Inr ((settled s)\<lparr>bufs := B, lru := L\<rparr>)"
proof -
  let ?t = "(entered l s)\<lparr>bufs := B, lru := L\<rparr>"
  have "critical0 l body s = Inr (?t\<lparr>locks := locks s, cpus := cpus (settled s)\<rparr>)"
    by (rule critical0_leaf [where t = ?t]) (use assms in simp_all)
  moreover have "?t\<lparr>locks := locks s, cpus := cpus (settled s)\<rparr> = (settled s)\<lparr>bufs := B, lru := L\<rparr>"
    by (cases s) (simp add: entered_def settled_def set_mycpu_def)
  ultimately show ?thesis by simp
qed

lemma sl_update_same [simp]: "s\<lparr>sleeplocks := sleeplocks s\<rparr> = s"
  by simp

lemma release_sleep:
  assumes "lock_free l s"
  shows "release l ((entered l s)\<lparr>sleeplocks := S, procs := P\<rparr>) = Inr ((settled s)\<lparr>sleeplocks := S, procs := P\<rparr>)"
proof -
  let ?t = "(entered l s)\<lparr>sleeplocks := S, procs := P\<rparr>"
  have "release l ?t = Inr (?t\<lparr>locks := locks s, cpus := cpus (settled s)\<rparr>)"
    by (rule release_entered) (use assms in simp_all)
  moreover have "?t\<lparr>locks := locks s, cpus := cpus (settled s)\<rparr> = (settled s)\<lparr>sleeplocks := S, procs := P\<rparr>"
    by (cases s) (simp add: entered_def settled_def set_mycpu_def)
  ultimately show ?thesis by simp
qed

lemma release_sleep0:
  assumes "lock_free l s"
  shows "release l ((entered l s)\<lparr>sleeplocks := S\<rparr>) = Inr ((settled s)\<lparr>sleeplocks := S\<rparr>)"
    "release l (entered l s) = Inr (settled s)"
proof -
  have e: "(entered l s)\<lparr>locks := locks s, cpus := cpus (settled s)\<rparr> = settled s"
    "(entered l s)\<lparr>sleeplocks := S, locks := locks s, cpus := cpus (settled s)\<rparr> = (settled s)\<lparr>sleeplocks := S\<rparr>"
    by (cases s; simp add: entered_def settled_def set_mycpu_def)+
  show "release l ((entered l s)\<lparr>sleeplocks := S\<rparr>) = Inr ((settled s)\<lparr>sleeplocks := S\<rparr>)"
    using release_entered [OF assms, of "(entered l s)\<lparr>sleeplocks := S\<rparr>"] e by simp
  show "release l (entered l s) = Inr (settled s)"
    using release_entered [OF assms, of "entered l s"] e by simp
qed

lemma entered_nested [simp]: "settled (entered l s) = entered l s"
  by (rule settled_nested) (simp_all add: push_cpu_def)

lemma settled_sleeplocks: "settled (s\<lparr>sleeplocks := S\<rparr>) = (settled s)\<lparr>sleeplocks := S\<rparr>"
  by (simp add: settled_def set_mycpu_def mycpu_def)

lemma mycpu_sleeplocks [simp]: "mycpu (s\<lparr>sleeplocks := S\<rparr>) = mycpu s"
  by (simp add: mycpu_def)

lemma lock_free_sleeplocks [simp]: "lock_free l (s\<lparr>sleeplocks := S\<rparr>) = lock_free l s"
  by (simp add: lock_free_def)

definition sl_taken :: "nat \<Rightarrow> nat \<Rightarrow> 'a slst_scheme \<Rightarrow> nat \<Rightarrow> sleeplock" where
  "sl_taken p n s = (sleeplocks s)(n := (sleeplocks s n)\<lparr>slk_locked := True, slk_pid := pid (procs s p)\<rparr>)"

definition sl_given :: "nat \<Rightarrow> 'a slst_scheme \<Rightarrow> nat \<Rightarrow> sleeplock" where
  "sl_given n s = (sleeplocks s)(n := (sleeplocks s n)\<lparr>slk_locked := False, slk_pid := 0\<rparr>)"

lemma acquiresleep_eq:
  assumes "quiet p s" "\<not> slk_locked (sleeplocks s n)"
  shows "acquiresleep n s = Inr (None, (settled s)\<lparr>sleeplocks := sl_taken p n s\<rparr>)"
proof -
  let ?e = "entered (Lk_sleep n) s"
  have t: "this_proc (?e\<lparr>sleeplocks := S\<rparr>) = Inr (p, ?e\<lparr>sleeplocks := S\<rparr>)" for S
    by (rule trans [OF this_proc_eq]) (use quietD(2) [OF assms(1)] in \<open>simp_all add: settled_sleeplocks push_cpu_def\<close>)
  have "release (Lk_sleep n) (?e\<lparr>sleeplocks := sl_taken p n s\<rparr>) = Inr ((settled s)\<lparr>sleeplocks := sl_taken p n s\<rparr>)"
    by (rule release_sleep0 [OF quietD(4) [OF assms(1)]])
  then show ?thesis
    using assms quietD(4) [OF assms(1)]
    by (simp add: acquiresleep_def acquire_free acquiresleep_round_def t sl_taken_def)
qed

lemma holdingsleep_eq:
  assumes "quiet p s"
  shows "holdingsleep n s
    = Inr (slk_locked (sleeplocks s n) \<and> slk_pid (sleeplocks s n) = pid (procs s p), settled s)"
proof -
  let ?e = "entered (Lk_sleep n) s"
  have t: "this_proc ?e = Inr (p, ?e)"
    by (rule trans [OF this_proc_eq]) (use quietD(2) [OF assms] in \<open>simp_all add: push_cpu_def\<close>)
  have "release (Lk_sleep n) ?e = Inr (settled s)"
    by (rule release_sleep0 [OF quietD(4) [OF assms]])
  then show ?thesis
    using quietD(4) [OF assms] by (simp add: holdingsleep_def critical_def acquire_free t)
qed

lemma releasesleep_eq:
  assumes "quiet p s"
  shows "releasesleep n s
    = Inr ((settled s)\<lparr>sleeplocks := sl_given n s, procs := wake_set (Ch_lock n) (Some p) {..<NPROC} (procs s)\<rparr>)"
proof -
  let ?e = "entered (Lk_sleep n) s"
  let ?P = "wake_set (Ch_lock n) (Some p) {..<NPROC} (procs s)"
  have "procs_free (?e\<lparr>sleeplocks := sl_given n s\<rparr>)"
    using quietD(4) [OF assms] by (simp add: procs_free_def)
  then have "wakeup (Ch_lock n) (?e\<lparr>sleeplocks := sl_given n s\<rparr>) = Inr (?e\<lparr>sleeplocks := sl_given n s, procs := ?P\<rparr>)"
    using quietD(2) [OF assms] by (simp add: wakeup_eq settled_sleeplocks push_cpu_def)
  then show ?thesis
    using quietD(4) [OF assms] release_sleep [OF quietD(4) [OF assms], where l = "Lk_sleep n" and S = "sl_given n s" and P = ?P]
    by (simp add: releasesleep_def critical0_def acquire_free sl_given_def)
qed

lemma wake_set_pid [simp]:
  "pid (wake_set ch me A ps p) = pid (ps p)" "pagetable (wake_set ch me A ps p) = pagetable (ps p)"
  by (simp_all add: wake_set_def woken_def)

section \<open>What the cache holds\<close>

text \<open>
  \<open>cached d x s\<close> is the buffer of block \<open>x\<close> of device \<open>d\<close>.  The view of the cache is indexed by
  block number: the bytes a reader of the block gets, the references to its buffer, whether
  its buffer is locked, and what the disk holds.
\<close>

definition is_buf :: "u32 \<Rightarrow> u32 \<Rightarrow> (nat \<Rightarrow> buf) \<Rightarrow> nat \<Rightarrow> bool" where
  "is_buf d x B b \<longleftrightarrow> b_dev (B b) = d \<and> b_blockno (B b) = x"

definition cached :: "u32 \<Rightarrow> u32 \<Rightarrow> (nat \<Rightarrow> buf) \<Rightarrow> nat list \<Rightarrow> nat option" where
  "cached d x B L = find (is_buf d x B) L"

record cview =
  cv_data :: "u32 \<Rightarrow> block"
  cv_ref :: "u32 \<Rightarrow> u32"
  cv_held :: "u32 \<Rightarrow> bool"
  cv_disk :: "u32 \<Rightarrow> block"
  cv_writes :: "(u32 \<times> u32 \<times> block) list"

definition view :: "u32 \<Rightarrow> 'a biost_scheme \<Rightarrow> cview" where
  "view d s =
     \<lparr>cv_data = (\<lambda>x. case cached d x (bufs s) (lru s) of
                  None \<Rightarrow> disk s d x
                | Some b \<Rightarrow> if b_valid (bufs s b) then b_data (bufs s b) else disk s d x),
      cv_ref = (\<lambda>x. case cached d x (bufs s) (lru s) of None \<Rightarrow> 0 | Some b \<Rightarrow> b_refcnt (bufs s b)),
      cv_held = (\<lambda>x. case cached d x (bufs s) (lru s) of None \<Rightarrow> False | Some b \<Rightarrow> slk_locked (sleeplocks s b)),
      cv_disk = disk s d, cv_writes = dwrites s\<rparr>"

text \<open>
  The invariant: the list holds every buffer once, no two buffers hold the same block, a buffer in
  use holds valid bytes of the device, a buffer not in use agrees with the disk, and a locked buffer
  is in use.
\<close>

definition cache_ok :: "u32 \<Rightarrow> (nat \<Rightarrow> buf) \<Rightarrow> nat list \<Rightarrow> (u32 \<Rightarrow> block) \<Rightarrow> bool" where
  "cache_ok d B L D \<longleftrightarrow>
     distinct L \<and> set L = {..<NBUF} \<and>
     (\<forall>b<NBUF. \<forall>c<NBUF. b_dev (B b) = d \<and> b_dev (B c) = d \<and> b_blockno (B b) = b_blockno (B c) \<longrightarrow> b = c) \<and>
     (\<forall>b<NBUF. b_refcnt (B b) \<noteq> 0 \<longrightarrow> b_dev (B b) = d \<and> b_valid (B b)) \<and>
     (\<forall>b<NBUF. b_dev (B b) = d \<and> b_valid (B b) \<and> b_refcnt (B b) = 0 \<longrightarrow> b_data (B b) = D (b_blockno (B b)))"

definition held_ok :: "int \<Rightarrow> (nat \<Rightarrow> buf) \<Rightarrow> (nat \<Rightarrow> sleeplock) \<Rightarrow> bool" where
  "held_ok i B S \<longleftrightarrow> (\<forall>b<NBUF. slk_locked (S b) \<longrightarrow> slk_pid (S b) = i \<and> b_refcnt (B b) \<noteq> 0)"

definition good :: "nat \<Rightarrow> u32 \<Rightarrow> 'a biost_scheme \<Rightarrow> bool" where
  "good p d s \<longleftrightarrow> quiet p s \<and> cache_ok d (bufs s) (lru s) (disk s d) \<and> held_ok (pid (procs s p)) (bufs s) (sleeplocks s)"

definition at_buf :: "u32 \<Rightarrow> 'a biost_scheme \<Rightarrow> u32 \<Rightarrow> nat \<Rightarrow> bool" where
  "at_buf d s x b \<longleftrightarrow> b < NBUF \<and> is_buf d x (bufs s) b"

text \<open>
  Two states that differ at most in the cache, the disk and the processes woken.  A process keeps its
  identifier and its page table.
\<close>

definition ident :: "proc \<Rightarrow> int \<times> u64" where
  "ident q = (pid q, pagetable q)"

definition within :: "'a biost_scheme \<Rightarrow> 'a biost_scheme \<Rightarrow> bool" where
  "within s t \<longleftrightarrow> ident \<circ> procs t = ident \<circ> procs s \<and>
     (\<exists>C P S B L D W. t = s\<lparr>cpus := C, procs := P, sleeplocks := S, bufs := B, lru := L, disk := D, dwrites := W\<rparr>)"

lemma cached_iff:
  assumes "cache_ok d B L D"
  shows "cached d x B L = Some b \<longleftrightarrow> b < NBUF \<and> is_buf d x B b"
proof
  assume "cached d x B L = Some b"
  then show "b < NBUF \<and> is_buf d x B b"
    using assms by (force simp: cached_def find_Some_iff cache_ok_def simp del: NBUF_def)
next
  assume b: "b < NBUF \<and> is_buf d x B b"
  then obtain c where c: "find (is_buf d x B) L = Some c"
    using assms by (cases "find (is_buf d x B) L") (auto simp: find_None_iff cache_ok_def simp del: NBUF_def)
  then have "c < NBUF" "is_buf d x B c"
    using assms by (force simp: find_Some_iff cache_ok_def simp del: NBUF_def)+
  then have "c = b" using b assms unfolding cache_ok_def is_buf_def by metis
  then show "cached d x B L = Some b" using c by (simp add: cached_def)
qed

lemma cached_none:
  assumes "cache_ok d B L D"
  shows "cached d x B L = None \<longleftrightarrow> (\<forall>b<NBUF. \<not> is_buf d x B b)"
  using cached_iff [OF assms, of x] by (metis not_None_eq)

lemma view_at:
  assumes "cache_ok d (bufs s) (lru s) (disk s d)" "b < NBUF" "is_buf d x (bufs s) b"
  shows "cv_data (view d s) x = (if b_valid (bufs s b) then b_data (bufs s b) else disk s d x)"
    "cv_ref (view d s) x = b_refcnt (bufs s b)" "cv_held (view d s) x = slk_locked (sleeplocks s b)"
proof -
  have "cached d x (bufs s) (lru s) = Some b" using assms by (simp add: cached_iff)
  then show "cv_data (view d s) x = (if b_valid (bufs s b) then b_data (bufs s b) else disk s d x)"
    "cv_ref (view d s) x = b_refcnt (bufs s b)" "cv_held (view d s) x = slk_locked (sleeplocks s b)"
    by (simp_all add: view_def)
qed

lemma view_none:
  assumes "cache_ok d (bufs s) (lru s) (disk s d)" "\<forall>b<NBUF. \<not> is_buf d x (bufs s) b"
  shows "cv_data (view d s) x = disk s d x" "cv_ref (view d s) x = 0" "\<not> cv_held (view d s) x"
proof -
  have "cached d x (bufs s) (lru s) = None" using assms by (simp add: cached_none [OF assms(1)])
  then show "cv_data (view d s) x = disk s d x" "cv_ref (view d s) x = 0" "\<not> cv_held (view d s) x"
    by (simp_all add: view_def)
qed

lemma view_disk [simp]: "cv_disk (view d s) = disk s d" "cv_writes (view d s) = dwrites s"
  by (simp_all add: view_def)

text \<open>A block nobody refers to agrees with the disk.\<close>

lemma view_clean:
  assumes "cache_ok d (bufs s) (lru s) (disk s d)" "cv_ref (view d s) x = 0"
  shows "cv_data (view d s) x = disk s d x"
proof (cases "\<exists>b<NBUF. is_buf d x (bufs s) b")
  case True
  then obtain b where "b < NBUF" "is_buf d x (bufs s) b" by blast
  then show ?thesis using assms view_at [OF assms(1), of b x] by (simp add: cache_ok_def is_buf_def)
qed (use view_none [OF assms(1)] in auto)

lemma free_buf:
  assumes "cache_ok d B L D" "card {b. b < NBUF \<and> b_refcnt (B b) \<noteq> 0} < NBUF"
  shows "\<exists>b<NBUF. b_refcnt (B b) = 0"
proof (rule ccontr)
  assume "\<not> ?thesis"
  then have "{b. b < NBUF \<and> b_refcnt (B b) \<noteq> 0} = {..<NBUF}" by (auto simp del: NBUF_def)
  then show False using assms(2) by (metis card_lessThan less_irrefl)
qed

text \<open>The buffers in use are as many as the blocks in use.\<close>

lemma used_blocks:
  assumes "cache_ok d (bufs s) (lru s) (disk s d)" "finite A" "\<And>x. cv_ref (view d s) x \<noteq> 0 \<Longrightarrow> x \<in> A" "card A < NBUF"
  shows "\<exists>b<NBUF. b_refcnt (bufs s b) = 0"
proof (rule free_buf [OF assms(1)])
  let ?U = "{b. b < NBUF \<and> b_refcnt (bufs s b) \<noteq> 0}"
  have d: "b_dev (bufs s b) = d" if "b \<in> ?U" for b using assms(1) that by (simp add: cache_ok_def del: NBUF_def)
  then have "inj_on (\<lambda>b. b_blockno (bufs s b)) ?U"
    using assms(1) by (auto simp: inj_on_def cache_ok_def simp del: NBUF_def)
  moreover have "(\<lambda>b. b_blockno (bufs s b)) ` ?U \<subseteq> A"
  proof
    fix x assume "x \<in> (\<lambda>b. b_blockno (bufs s b)) ` ?U"
    then obtain b where "b \<in> ?U" "x = b_blockno (bufs s b)" by blast
    then show "x \<in> A" using view_at(2) [OF assms(1), of b x] d [of b] assms(3) [of x] by (simp add: is_buf_def)
  qed
  ultimately have "card ?U \<le> card A" using card_inj_on_le assms(2) by blast
  then show "card ?U < NBUF" using assms(4) by simp
qed

section \<open>The operations on the view\<close>

lemma settled_bufs: "settled (s\<lparr>bufs := B\<rparr>) = (settled s)\<lparr>bufs := B\<rparr>"
  by (simp add: settled_def set_mycpu_def mycpu_def)

lemma lru_same: "lru t = L \<Longrightarrow> t\<lparr>bufs := B, lru := L\<rparr> = t\<lparr>bufs := B\<rparr>"
  by (cases t) simp

lemma quiet_upd:
  assumes "quiet p s"
  shows "quiet p (settled s)" "quiet p (s\<lparr>bufs := B\<rparr>)" "quiet p (s\<lparr>sleeplocks := S\<rparr>)" "quiet p (s\<lparr>procs := P\<rparr>)"
    "quiet p (s\<lparr>lru := L\<rparr>)" "quiet p (s\<lparr>disk := D\<rparr>)" "quiet p (s\<lparr>dwrites := W\<rparr>)"
  using assms by (simp_all add: quiet_def mycpu_def lock_free_def settled_def set_mycpu_def)

definition loaded :: "u32 \<Rightarrow> u32 \<Rightarrow> 'a biost_scheme \<Rightarrow> buf" where
  "loaded d x s = \<lparr>b_valid = True, b_dev = d, b_blockno = x, b_refcnt = cv_ref (view d s) x + 1, b_data = cv_data (view d s) x\<rparr>"

lemma bread_tail:
  assumes "quiet p s" "critical Lk_bcache (bget_body d x) s = Inr (b, (settled s)\<lparr>bufs := (bufs s)(b := y)\<rparr>)"
    "\<not> slk_locked (sleeplocks s b)" "b_dev y = d" "b_blockno y = x"
  shows "bread d x s = Inr (b, (settled s)\<lparr>sleeplocks := sl_taken p b s,
    bufs := (bufs s)(b := if b_valid y then y else y\<lparr>b_data := disk s d x, b_valid := True\<rparr>)\<rparr>)"
proof -
  let ?t = "(settled s)\<lparr>bufs := (bufs s)(b := y)\<rparr>"
  have "acquiresleep b ?t = Inr (None, (settled ?t)\<lparr>sleeplocks := sl_taken p b ?t\<rparr>)"
    by (rule acquiresleep_eq) (use assms(3) quiet_upd [OF assms(1)] in \<open>simp_all add: quiet_upd\<close>)
  moreover have "sl_taken p b ?t = sl_taken p b s" by (simp add: sl_taken_def)
  ultimately have g: "bget d x s = Inr (b, ?t\<lparr>sleeplocks := sl_taken p b s\<rparr>)"
    using assms(2) by (simp add: bget_def settled_bufs)
  then show ?thesis
    using assms(4,5) by (auto simp: bread_def virtio_disk_rw_def upd_buf_def fun_upd_def [symmetric])
qed

lemma is_buf_find: "(\<lambda>b. b_dev (B b) = d \<and> b_blockno (B b) = x) = is_buf d x B"
  by (simp add: is_buf_def fun_eq_iff)

lemma critical_buf1:
  assumes "lock_free l s" "body (entered l s) = Inr (r, (entered l s)\<lparr>bufs := B\<rparr>)"
  shows "critical l body s = Inr (r, (settled s)\<lparr>bufs := B\<rparr>)"
  using critical_bufs [OF assms(1), where body = body and r = r and B = B and L = "lru s"] assms(2) by (simp add: lru_same)

lemma bread_cached:
  assumes "good p d s" "b < NBUF" "is_buf d x (bufs s) b" "\<not> slk_locked (sleeplocks s b)"
  shows "bread d x s = Inr (b, (settled s)\<lparr>sleeplocks := sl_taken p b s, bufs := (bufs s)(b := loaded d x s)\<rparr>)"
proof -
  have q: "quiet p s" and ok: "cache_ok d (bufs s) (lru s) (disk s d)" using assms(1) by (simp_all add: good_def)
  let ?y = "(bufs s b)\<lparr>b_refcnt := b_refcnt (bufs s b) + 1\<rparr>"
  have f: "find (is_buf d x (bufs s)) (lru s) = Some b"
    using cached_iff [OF ok, of x b] assms(2,3) by (simp add: cached_def)
  have "critical Lk_bcache (bget_body d x) s = Inr (b, (settled s)\<lparr>bufs := (bufs s)(b := ?y)\<rparr>)"
    by (rule critical_buf1) (use f quietD(4) [OF q] in \<open>simp_all add: bget_body_def is_buf_find upd_buf_def\<close>)
  then have "bread d x s = Inr (b, (settled s)\<lparr>sleeplocks := sl_taken p b s,
      bufs := (bufs s)(b := if b_valid ?y then ?y else ?y\<lparr>b_data := disk s d x, b_valid := True\<rparr>)\<rparr>)"
    by (rule bread_tail [OF q]) (use assms in \<open>simp_all add: is_buf_def\<close>)
  moreover have "(if b_valid ?y then ?y else ?y\<lparr>b_data := disk s d x, b_valid := True\<rparr>) = loaded d x s"
    using view_at [OF ok assms(2,3)] assms(3) by (cases "bufs s b") (simp add: loaded_def is_buf_def)
  ultimately show ?thesis by simp
qed

lemma bread_miss:
  assumes "good p d s" "\<forall>b<NBUF. \<not> is_buf d x (bufs s) b" "\<exists>b<NBUF. b_refcnt (bufs s b) = 0"
  obtains b where "b < NBUF" "b_refcnt (bufs s b) = 0"
    "bread d x s = Inr (b, (settled s)\<lparr>sleeplocks := sl_taken p b s, bufs := (bufs s)(b := loaded d x s)\<rparr>)"
proof -
  have q: "quiet p s" and ok: "cache_ok d (bufs s) (lru s) (disk s d)"
    and h: "held_ok (pid (procs s p)) (bufs s) (sleeplocks s)" using assms(1) by (simp_all add: good_def)
  have f0: "find (is_buf d x (bufs s)) (lru s) = None"
    using cached_none [OF ok, of x] assms(2) by (simp add: cached_def)
  have l: "set (lru s) = {..<NBUF}" using ok by (simp add: cache_ok_def)
  then obtain b where f: "find (\<lambda>b. b_refcnt (bufs s b) = 0) (rev (lru s)) = Some b"
    using assms(3) by (cases "find (\<lambda>b. b_refcnt (bufs s b) = 0) (rev (lru s))") (auto simp: find_None_iff simp del: NBUF_def)
  then have b: "b_refcnt (bufs s b) = 0" "b \<in> set (lru s)" by (metis (mono_tags, lifting) find_Some_iff nth_mem set_rev)+
  then have b': "b < NBUF" "\<not> slk_locked (sleeplocks s b)" using l h by (auto simp: held_ok_def simp del: NBUF_def)
  let ?y = "(bufs s b)\<lparr>b_dev := d, b_blockno := x, b_valid := False, b_refcnt := 1\<rparr>"
  have "critical Lk_bcache (bget_body d x) s = Inr (b, (settled s)\<lparr>bufs := (bufs s)(b := ?y)\<rparr>)"
    by (rule critical_buf1) (use f f0 quietD(4) [OF q] in \<open>simp_all add: bget_body_def is_buf_find upd_buf_def\<close>)
  then have "bread d x s = Inr (b, (settled s)\<lparr>sleeplocks := sl_taken p b s,
      bufs := (bufs s)(b := if b_valid ?y then ?y else ?y\<lparr>b_data := disk s d x, b_valid := True\<rparr>)\<rparr>)"
    by (rule bread_tail [OF q]) (use b' in simp_all)
  moreover have "(if b_valid ?y then ?y else ?y\<lparr>b_data := disk s d x, b_valid := True\<rparr>) = loaded d x s"
    using view_none [OF ok assms(2)] by (cases "bufs s b") (simp add: loaded_def)
  ultimately show ?thesis using that b(1) b'(1) by simp
qed

definition v_read :: "u32 \<Rightarrow> cview \<Rightarrow> cview" where
  "v_read x v = v\<lparr>cv_ref := (cv_ref v)(x := cv_ref v x + 1), cv_held := (cv_held v)(x := True)\<rparr>"

definition v_release :: "u32 \<Rightarrow> cview \<Rightarrow> cview" where
  "v_release x v = v\<lparr>cv_ref := (cv_ref v)(x := cv_ref v x - 1), cv_held := (cv_held v)(x := False)\<rparr>"

definition v_ref :: "u32 \<Rightarrow> u32 \<Rightarrow> cview \<Rightarrow> cview" where
  "v_ref x k v = v\<lparr>cv_ref := (cv_ref v)(x := cv_ref v x + k)\<rparr>"

definition v_set :: "u32 \<Rightarrow> block \<Rightarrow> cview \<Rightarrow> cview" where
  "v_set x y v = v\<lparr>cv_data := (cv_data v)(x := y)\<rparr>"

definition v_write :: "u32 \<Rightarrow> u32 \<Rightarrow> cview \<Rightarrow> cview" where
  "v_write d x v = v\<lparr>cv_disk := (cv_disk v)(x := cv_data v x), cv_writes := cv_writes v @ [(d, x, cv_data v x)]\<rparr>"

lemma cache_okD:
  assumes "cache_ok d B L D"
  shows "distinct L" "set L = {..<NBUF}"
    "\<And>b c. \<lbrakk>b < NBUF; c < NBUF; is_buf d x B b; is_buf d x B c\<rbrakk> \<Longrightarrow> b = c"
    "\<And>b. \<lbrakk>b < NBUF; b_refcnt (B b) \<noteq> 0\<rbrakk> \<Longrightarrow> b_dev (B b) = d \<and> b_valid (B b)"
    "\<And>b. \<lbrakk>b < NBUF; is_buf d x B b; b_valid (B b); b_refcnt (B b) = 0\<rbrakk> \<Longrightarrow> b_data (B b) = D x"
  using assms by (simp_all add: cache_ok_def is_buf_def del: NBUF_def)

lemma cache_okI:
  assumes "distinct L" "set L = {..<NBUF}"
    "\<And>x b c. \<lbrakk>b < NBUF; c < NBUF; is_buf d x B b; is_buf d x B c\<rbrakk> \<Longrightarrow> b = c"
    "\<And>b. \<lbrakk>b < NBUF; b_refcnt (B b) \<noteq> 0\<rbrakk> \<Longrightarrow> b_dev (B b) = d \<and> b_valid (B b)"
    "\<And>x b. \<lbrakk>b < NBUF; is_buf d x B b; b_valid (B b); b_refcnt (B b) = 0\<rbrakk> \<Longrightarrow> b_data (B b) = D x"
  shows "cache_ok d B L D"
proof -
  have "b = c" if "b < NBUF" "c < NBUF" "b_dev (B b) = d" "b_dev (B c) = d" "b_blockno (B b) = b_blockno (B c)" for b c
    by (rule assms(3) [OF that(1,2), of "b_blockno (B b)"]) (use that in \<open>simp_all add: is_buf_def\<close>)
  moreover have "b_data (B b) = D (b_blockno (B b))" if "b < NBUF" "b_dev (B b) = d" "b_valid (B b)" "b_refcnt (B b) = 0" for b
    by (rule assms(5) [OF that(1)]) (use that in \<open>simp_all add: is_buf_def\<close>)
  ultimately show ?thesis using assms(1,2,4) unfolding cache_ok_def by blast
qed

lemma view_eqI:
  assumes "\<And>x. cv_data v x = cv_data w x" "\<And>x. cv_ref v x = cv_ref w x" "\<And>x. cv_held v x = cv_held w x"
    "cv_disk v = cv_disk w" "cv_writes v = cv_writes w"
  shows "v = (w :: cview)"
  using assms by (cases v, cases w) (simp add: fun_eq_iff)

lemma load_cache_ok:
  assumes "cache_ok d (bufs s) L (disk s d)" "b < NBUF" "cv_ref (view d s) x + 1 \<noteq> 0"
    "is_buf d x (bufs s) b \<or> (\<forall>c<NBUF. \<not> is_buf d x (bufs s) c)"
  shows "cache_ok d ((bufs s)(b := loaded d x s)) L (disk s d)"
proof (rule cache_okI)
  note D = cache_okD [OF assms(1)]
  have other: "\<not> is_buf d x (bufs s) c" if "c < NBUF" "c \<noteq> b" for c using assms(2,4) D(3) that by blast
  show "distinct L" "set L = {..<NBUF}" using D by simp_all
  show "e = c" if "e < NBUF" "c < NBUF" "is_buf d y ((bufs s)(b := loaded d x s)) e"
    "is_buf d y ((bufs s)(b := loaded d x s)) c" for y e c
    using that other D(3) [of e c y] by (auto simp: is_buf_def loaded_def split: if_splits simp del: NBUF_def)
  show "b_dev (((bufs s)(b := loaded d x s)) e) = d \<and> b_valid (((bufs s)(b := loaded d x s)) e)"
    if "e < NBUF" "b_refcnt (((bufs s)(b := loaded d x s)) e) \<noteq> 0" for e
    using that D(4) [of e] by (simp add: loaded_def split: if_splits del: NBUF_def)
  show "b_data (((bufs s)(b := loaded d x s)) e) = disk s d y"
    if "e < NBUF" "is_buf d y ((bufs s)(b := loaded d x s)) e" "b_valid (((bufs s)(b := loaded d x s)) e)"
      "b_refcnt (((bufs s)(b := loaded d x s)) e) = 0" for y e
    using that D(5) [of e y] assms(3) by (simp add: is_buf_def loaded_def split: if_splits del: NBUF_def)
qed

lemma load_view:
  assumes ok: "cache_ok d (bufs s) (lru s) (disk s d)" and h: "held_ok i (bufs s) (sleeplocks s)"
    and b: "b < NBUF" "cv_ref (view d s) x + 1 \<noteq> 0"
      "is_buf d x (bufs s) b \<or> (\<forall>c<NBUF. \<not> is_buf d x (bufs s) c) \<and> b_refcnt (bufs s b) = 0"
    and t: "bufs t = (bufs s)(b := loaded d x s)" "lru t = lru s" "disk t = disk s" "dwrites t = dwrites s"
      "sleeplocks t = sl_taken p b s"
  shows "view d t = v_read x (view d s)"
proof -
  have ok': "cache_ok d (bufs t) (lru t) (disk t d)" 
    using load_cache_ok [OF ok b(1,2)] b(3) by (simp add: t(1-3) del: NBUF_def) blast
  note at = view_at [OF ok] and at' = view_at [OF ok'] and none = view_none [OF ok] and none' = view_none [OF ok']
  have x: "is_buf d x (bufs t) b" by (simp add: t is_buf_def loaded_def)
  have other: "cv_data (view d t) y = cv_data (view d s) y \<and> cv_ref (view d t) y = cv_ref (view d s) y
      \<and> cv_held (view d t) y = cv_held (view d s) y" if "y \<noteq> x" for y
  proof (cases "\<exists>c<NBUF. is_buf d y (bufs s) c")
    case True
    then obtain c where c: "c < NBUF" "is_buf d y (bufs s) c" by blast
    show ?thesis
    proof (cases "c = b")
      case True
      then have r: "b_refcnt (bufs s b) = 0" "\<not> is_buf d x (bufs s) b" using b(3) c that by (auto simp: is_buf_def)
      have "\<not> is_buf d y (bufs t) e" if e: "e < NBUF" for e
      proof (cases "e = b")
        case False
        then have "\<not> is_buf d y (bufs s) e" using cache_okD(3) [OF ok e c(1)] c(2) \<open>c = b\<close> by blast
        then show ?thesis using False by (simp add: t(1) is_buf_def)
      qed (use \<open>y \<noteq> x\<close> in \<open>simp add: t(1) is_buf_def loaded_def\<close>)
      then show ?thesis
        using none' [of y] at [OF c] r(1) True view_clean [OF ok, of y] h b(1)
        by (simp add: held_ok_def t(3) del: NBUF_def) blast
    next
      case False
      then have "is_buf d y (bufs t) c" using c by (simp add: t is_buf_def)
      then show ?thesis using at' [OF c(1)] at [OF c] False by (simp add: t(1,3,5) sl_taken_def)
    qed
  next
    case False
    then have "\<forall>e<NBUF. \<not> is_buf d y (bufs t) e" using that by (auto simp: t is_buf_def loaded_def simp del: NBUF_def)
    then show ?thesis using none' [of y] none [of y] False by (simp add: t(3) del: NBUF_def)
  qed
  have "cv_data (view d t) y = cv_data (view d s) y"
    "cv_ref (view d t) y = (if y = x then cv_ref (view d s) x + 1 else cv_ref (view d s) y)"
    "cv_held (view d t) y = (if y = x then True else cv_held (view d s) y)" for y
    using other [of y] at' [OF b(1) x] by (cases "y = x"; simp add: t(1,5) loaded_def sl_taken_def)+
  then show ?thesis using t by (intro view_eqI) (simp_all add: v_read_def)
qed

lemma upd_ok:
  assumes "cache_ok d B L D" "b < NBUF" "is_buf d x B b" "b_dev y = d" "b_blockno y = x" "b_valid y"
    "b_refcnt y = 0 \<Longrightarrow> b_data y = D' x" "\<And>z. z \<noteq> x \<Longrightarrow> D' z = D z" "distinct L'" "set L' = {..<NBUF}"
  shows "cache_ok d (B(b := y)) L' D'"
proof (rule cache_okI)
  note D = cache_okD [OF assms(1)]
  have i: "is_buf d z (B(b := y)) = is_buf d z B" for z using assms(3-5) by (auto simp: is_buf_def fun_eq_iff)
  show "distinct L'" "set L' = {..<NBUF}" by fact+
  show "e = c" if "e < NBUF" "c < NBUF" "is_buf d z (B(b := y)) e" "is_buf d z (B(b := y)) c" for z e c
    by (rule D(3)) (use that in \<open>simp_all add: i\<close>)
  show "b_dev ((B(b := y)) e) = d \<and> b_valid ((B(b := y)) e)" if "e < NBUF" "b_refcnt ((B(b := y)) e) \<noteq> 0" for e
    using that D(4) [of e] assms(4,6) by (cases "e = b") simp_all
  show "b_data ((B(b := y)) e) = D' z"
    if e: "e < NBUF" "is_buf d z (B(b := y)) e" "b_valid ((B(b := y)) e)" "b_refcnt ((B(b := y)) e) = 0" for z e
  proof (cases "e = b")
    case True
    then show ?thesis using e assms(5,7) by (simp add: is_buf_def)
  next
    case False
    then have "z \<noteq> x" using D(3) [OF e(1) assms(2)] e(2) assms(3) by (auto simp: i)
    then show ?thesis using e D(5) [of e z] assms(8) False by (simp add: is_buf_def)
  qed
qed

lemma upd_view:
  assumes ok: "cache_ok d (bufs s) (lru s) (disk s d)" and ok': "cache_ok d (bufs t) (lru t) (disk t d)"
    and b: "b < NBUF" "is_buf d x (bufs s) b"
    and t: "bufs t = (bufs s)(b := y)" "b_dev y = d" "b_blockno y = x" "b_valid y" "sleeplocks t = (sleeplocks s)(b := l)"
      "\<And>z. z \<noteq> x \<Longrightarrow> disk t d z = disk s d z"
  shows "view d t = \<lparr>cv_data = (cv_data (view d s))(x := b_data y), cv_ref = (cv_ref (view d s))(x := b_refcnt y),
    cv_held = (cv_held (view d s))(x := slk_locked l), cv_disk = disk t d, cv_writes = dwrites t\<rparr>"
proof -
  have i: "is_buf d z (bufs t) = is_buf d z (bufs s)" for z using b(2) t(2,3) by (auto simp: t(1) is_buf_def fun_eq_iff)
  have x: "cv_data (view d t) x = b_data y" "cv_ref (view d t) x = b_refcnt y" "cv_held (view d t) x = slk_locked l"
    using view_at [OF ok' b(1) b(2) [folded i]] t(4) by (simp_all add: t(1,5))
  have "cv_data (view d t) z = cv_data (view d s) z \<and> cv_ref (view d t) z = cv_ref (view d s) z
      \<and> cv_held (view d t) z = cv_held (view d s) z" if "z \<noteq> x" for z
  proof (cases "\<exists>c<NBUF. is_buf d z (bufs s) c")
    case True
    then obtain c where c: "c < NBUF" "is_buf d z (bufs s) c" by blast
    then have "c \<noteq> b" using b(2) that by (auto simp: is_buf_def)
    then show ?thesis using view_at [OF ok c] view_at [OF ok' c(1) c(2) [folded i]] that by (simp add: t(1,5,6))
  next
    case False
    then show ?thesis using view_none [OF ok, of z] view_none [OF ok', of z] that by (simp add: i t(6) del: NBUF_def)
  qed
  then show ?thesis using x by (intro view_eqI) (auto simp del: fun_upd_apply simp: fun_upd_def)
qed

definition keeps :: "u32 \<Rightarrow> 'a biost_scheme \<Rightarrow> 'a biost_scheme \<Rightarrow> bool" where
  "keeps d s t \<longleftrightarrow> (\<forall>y c. at_buf d s y c \<and> cv_ref (view d s) y \<noteq> 0 \<longrightarrow> at_buf d t y c)"

lemma keepsD: "keeps d s t \<Longrightarrow> at_buf d s y c \<Longrightarrow> cv_ref (view d s) y \<noteq> 0 \<Longrightarrow> at_buf d t y c"
  by (simp add: keeps_def)

lemma within_refl [simp]: "within s s"
  unfolding within_def
  by (intro conjI refl exI [of _ "cpus s"] exI [of _ "procs s"] exI [of _ "sleeplocks s"] exI [of _ "bufs s"]
      exI [of _ "lru s"] exI [of _ "disk s"] exI [of _ "dwrites s"]) simp

lemma within_trans:
  assumes "within s t" "within t u"
  shows "within s u"
proof -
  obtain C P S B L D W where "t = s\<lparr>cpus := C, procs := P, sleeplocks := S, bufs := B, lru := L, disk := D, dwrites := W\<rparr>"
    using assms(1) unfolding within_def by blast
  moreover obtain C' P' S' B' L' D' W' where
    "u = t\<lparr>cpus := C', procs := P', sleeplocks := S', bufs := B', lru := L', disk := D', dwrites := W'\<rparr>"
    using assms(2) unfolding within_def by blast
  ultimately have "u = s\<lparr>cpus := C', procs := P', sleeplocks := S', bufs := B', lru := L', disk := D', dwrites := W'\<rparr>"
    by simp
  then show ?thesis using assms unfolding within_def by metis
qed

lemma withinI:
  assumes "t = s\<lparr>cpus := cpus t, procs := procs t, sleeplocks := sleeplocks t, bufs := bufs t, lru := lru t,
    disk := disk t, dwrites := dwrites t\<rparr>" "ident \<circ> procs t = ident \<circ> procs s"
  shows "within s t"
  using assms unfolding within_def by blast

definition becomes :: "nat \<Rightarrow> u32 \<Rightarrow> 'a biost_scheme \<Rightarrow> 'a biost_scheme \<Rightarrow> cview \<Rightarrow> bool" where
  "becomes p d s t v \<longleftrightarrow> good p d t \<and> within s t \<and> keeps d s t \<and> view d t = v"

lemma becomesD:
  assumes "becomes p d s t v"
  shows "good p d t" "within s t" "keeps d s t" "view d t = v"
  using assms by (simp_all add: becomes_def)

lemma goodD:
  assumes "good p d s"
  shows "quiet p s" "cache_ok d (bufs s) (lru s) (disk s d)" "held_ok (pid (procs s p)) (bufs s) (sleeplocks s)"
  using assms by (simp_all add: good_def)

lemma load_becomes:
  assumes g: "good p d s" and b: "b < NBUF" "cv_ref (view d s) x + 1 \<noteq> 0"
      "is_buf d x (bufs s) b \<or> (\<forall>c<NBUF. \<not> is_buf d x (bufs s) c) \<and> b_refcnt (bufs s b) = 0"
    and t: "t = (settled s)\<lparr>sleeplocks := sl_taken p b s, bufs := (bufs s)(b := loaded d x s)\<rparr>"
  shows "becomes p d s t (v_read x (view d s))" "at_buf d t x b"
proof -
  note G = goodD [OF g]
  have "cache_ok d (bufs t) (lru t) (disk t d)"
    using load_cache_ok [OF G(2) b(1,2)] b(3) by (simp add: t del: NBUF_def) blast
  moreover have "held_ok (pid (procs t p)) (bufs t) (sleeplocks t)"
    using G(3) b(2) by (simp add: t held_ok_def sl_taken_def loaded_def)
  ultimately have "good p d t" using quiet_upd [OF G(1)] by (simp add: good_def t quiet_upd)
  moreover have "within s t"
    by (rule withinI) (cases s, simp add: t settled_def set_mycpu_def, simp add: t)
  moreover have "view d t = v_read x (view d s)"
    by (rule load_view [OF G(2,3) b]) (simp_all add: t)
  moreover have "keeps d s t"
  proof -
    have "at_buf d t y c" if y: "at_buf d s y c" "cv_ref (view d s) y \<noteq> 0" for y c
    proof (cases "c = b")
      case True
      then have "b_refcnt (bufs s b) \<noteq> 0" using y view_at(2) [OF G(2), of b y] by (simp add: at_buf_def)
      then have "y = x" using b(3) y(1) True by (simp add: at_buf_def is_buf_def)
      then show ?thesis using b(1) True by (simp add: at_buf_def t is_buf_def loaded_def)
    qed (use y(1) in \<open>simp add: at_buf_def t is_buf_def\<close>)
    then show ?thesis by (simp add: keeps_def)
  qed
  ultimately show "becomes p d s t (v_read x (view d s))" by (simp add: becomes_def)
  show "at_buf d t x b" using b(1) by (simp add: at_buf_def t is_buf_def loaded_def)
qed

lemma bread_ok:
  assumes g: "good p d s" and x: "\<not> cv_held (view d s) x" "cv_ref (view d s) x + 1 \<noteq> 0"
    and room: "cv_ref (view d s) x \<noteq> 0 \<or> (\<exists>b<NBUF. b_refcnt (bufs s b) = 0)"
  obtains b t where "bread d x s = Inr (b, t)" "becomes p d s t (v_read x (view d s))" "at_buf d t x b"
proof (cases "\<exists>b<NBUF. is_buf d x (bufs s) b")
  case True
  then obtain b where b: "b < NBUF" "is_buf d x (bufs s) b" by blast
  then have "\<not> slk_locked (sleeplocks s b)" using view_at(3) [OF goodD(2) [OF g]] x(1) by blast
  then show ?thesis using that bread_cached [OF g b] load_becomes [OF g b(1) x(2) _ refl] b(2) by blast
next
  case False
  then have n: "\<forall>b<NBUF. \<not> is_buf d x (bufs s) b" by blast
  then have "\<exists>b<NBUF. b_refcnt (bufs s b) = 0" using room view_none(2) [OF goodD(2) [OF g] n] by blast
  then obtain b where "b < NBUF" "b_refcnt (bufs s b) = 0"
    "bread d x s = Inr (b, (settled s)\<lparr>sleeplocks := sl_taken p b s, bufs := (bufs s)(b := loaded d x s)\<rparr>)"
    using bread_miss [OF g n] by blast
  then show ?thesis using that load_becomes [OF g _ x(2) _ refl] n by blast
qed

lemma upd_becomes:
  assumes g: "good p d s" and b: "at_buf d s x b" and q: "quiet p t" and w: "within s t"
    and t: "bufs t = (bufs s)(b := y)" "b_dev y = d" "b_blockno y = x" "b_valid y" "sleeplocks t = (sleeplocks s)(b := l)"
      "\<And>z. z \<noteq> x \<Longrightarrow> disk t d z = disk s d z"
    and y: "b_refcnt y = 0 \<Longrightarrow> b_data y = disk t d x" "slk_locked l \<Longrightarrow> slk_pid l = pid (procs s p) \<and> b_refcnt y \<noteq> 0"
    and lru: "distinct (lru t)" "set (lru t) = {..<NBUF}"
    and v: "\<And>z. cv_data v z = (if z = x then b_data y else cv_data (view d s) z)"
      "\<And>z. cv_ref v z = (if z = x then b_refcnt y else cv_ref (view d s) z)"
      "\<And>z. cv_held v z = (if z = x then slk_locked l else cv_held (view d s) z)"
      "cv_disk v = disk t d" "cv_writes v = dwrites t"
  shows "becomes p d s t v"
    "at_buf d t z c = at_buf d s z c"
proof -
  note G = goodD [OF g]
  have b': "b < NBUF" "is_buf d x (bufs s) b" using b by (simp_all add: at_buf_def)
  have ok: "cache_ok d (bufs t) (lru t) (disk t d)"
    unfolding t(1) by (rule upd_ok [OF G(2) b' t(2-4)]) (use y t lru in simp_all)
  have "pid (procs t p) = pid (procs s p)" using w by (simp add: within_def fun_eq_iff ident_def)
  then have "held_ok (pid (procs t p)) (bufs t) (sleeplocks t)"
    using G(3) y(2) by (simp add: held_ok_def t(1,5))
  then have "good p d t" using q ok by (simp add: good_def)
  moreover have i: "at_buf d t z c = at_buf d s z c" for z c
    using b t(2,3) by (auto simp: at_buf_def is_buf_def t(1))
  moreover have "view d t = \<lparr>cv_data = (cv_data (view d s))(x := b_data y), cv_ref = (cv_ref (view d s))(x := b_refcnt y),
    cv_held = (cv_held (view d s))(x := slk_locked l), cv_disk = disk t d, cv_writes = dwrites t\<rparr>"
    by (rule upd_view [OF G(2) ok b' t])
  then have "view d t = v" using v by (intro view_eqI) simp_all
  ultimately show "becomes p d s t v"
    using w by (simp add: becomes_def keeps_def)
  show "at_buf d t z c = at_buf d s z c" by (rule i)
qed

lemma used_buf:
  assumes "good p d s" "at_buf d s x b" "cv_ref (view d s) x \<noteq> 0"
  shows "b < NBUF" "b_dev (bufs s b) = d" "b_blockno (bufs s b) = x" "b_valid (bufs s b)"
    "b_data (bufs s b) = cv_data (view d s) x" "b_refcnt (bufs s b) = cv_ref (view d s) x"
    "slk_locked (sleeplocks s b) = cv_held (view d s) x"
proof -
  note G = goodD [OF assms(1)]
  have b: "b < NBUF" "is_buf d x (bufs s) b" using assms(2) by (simp_all add: at_buf_def)
  have r: "b_refcnt (bufs s b) \<noteq> 0" using view_at(2) [OF G(2) b] assms(3) by simp
  show "b < NBUF" "b_dev (bufs s b) = d" "b_blockno (bufs s b) = x" "b_valid (bufs s b)"
    "b_data (bufs s b) = cv_data (view d s) x" "b_refcnt (bufs s b) = cv_ref (view d s) x"
    "slk_locked (sleeplocks s b) = cv_held (view d s) x"
    using b view_at [OF G(2) b] cache_okD(4) [OF G(2) b(1) r] by (simp_all add: is_buf_def)
qed

lemma held_used:
  assumes "good p d s" "cv_held (view d s) x"
  shows "cv_ref (view d s) x \<noteq> 0" "at_buf d s x b \<Longrightarrow> slk_pid (sleeplocks s b) = pid (procs s p)"
proof -
  note G = goodD [OF assms(1)]
  obtain c where c: "c < NBUF" "is_buf d x (bufs s) c" using view_none(3) [OF G(2)] assms(2) by blast
  then have l: "slk_locked (sleeplocks s c)" using view_at(3) [OF G(2) c] assms(2) by simp
  then show "cv_ref (view d s) x \<noteq> 0" using G(3) view_at(2) [OF G(2) c] c(1) by (simp add: held_ok_def)
  show "slk_pid (sleeplocks s b) = pid (procs s p)" if "at_buf d s x b"
    using that c l G(3) cache_okD(3) [OF G(2), of b c x] by (auto simp: at_buf_def held_ok_def simp del: NBUF_def)
qed

text \<open>Storing bytes into a buffer.\<close>

lemma store_ok:
  assumes g: "good p d s" "at_buf d s x b" "cv_ref (view d s) x \<noteq> 0"
  shows "becomes p d s (upd_buf b (\<lambda>y. y\<lparr>b_data := a\<rparr>) s) (v_set x a (view d s))"
proof -
  note u = used_buf [OF g] and G = goodD [OF g(1)]
  show ?thesis
    by (rule upd_becomes [OF g(1,2), where y = "(bufs s b)\<lparr>b_data := a\<rparr>" and l = "sleeplocks s b"])
      (use u g G cache_okD [OF G(2)] in \<open>auto simp: upd_buf_def quiet_upd held_ok_def v_set_def intro!: withinI\<close>)
qed

lemma bwrite_ok:
  assumes g: "good p d s" "at_buf d s x b" and h: "cv_held (view d s) x"
  obtains t where "bwrite b s = Inr t" "becomes p d s t (v_write d x (view d s))"
proof -
  note r = held_used [OF g(1) h]
  note u = used_buf [OF g r(1)] and G = goodD [OF g(1)]
  let ?t = "virtio_disk_rw b True (settled s)"
  have "bwrite b s = Inr ?t" using holdingsleep_eq [OF G(1), of b] u(7) h r(2) [OF g(2)] by (simp add: bwrite_def)
  moreover have "becomes p d s ?t (v_write d x (view d s))"
    by (rule upd_becomes [OF g, where y = "bufs s b" and l = "sleeplocks s b"])
      (use u r g G h cache_okD [OF G(2)] in \<open>auto simp: virtio_disk_rw_def quiet_upd v_write_def settled_def set_mycpu_def
        intro!: withinI intro: quiet_cong [OF G(1)]\<close>)
  ultimately show ?thesis using that by blast
qed

lemma bref_ok:
  assumes g: "good p d s" "at_buf d s x b" "cv_ref (view d s) x \<noteq> 0" and k: "cv_ref (view d s) x + k \<noteq> 0"
    and t: "t = (settled s)\<lparr>bufs := (bufs s)(b := (bufs s b)\<lparr>b_refcnt := b_refcnt (bufs s b) + k\<rparr>)\<rparr>"
  shows "becomes p d s t (v_ref x k (view d s))"
proof -
  note u = used_buf [OF g] and G = goodD [OF g(1)]
  show ?thesis
    by (rule upd_becomes [OF g(1,2), where y = "(bufs s b)\<lparr>b_refcnt := b_refcnt (bufs s b) + k\<rparr>" and l = "sleeplocks s b"])
      (use u g G k cache_okD [OF G(2)] in \<open>auto simp: t quiet_upd held_ok_def v_ref_def settled_def set_mycpu_def
        intro!: withinI intro: quiet_cong [OF G(1)]\<close>)
qed

lemma critical0_buf1:
  assumes "lock_free l s" "body (entered l s) = Inr ((entered l s)\<lparr>bufs := B\<rparr>)"
  shows "critical0 l body s = Inr ((settled s)\<lparr>bufs := B\<rparr>)"
  using critical0_bufs [OF assms(1), where body = body and B = B and L = "lru s"] assms(2) by (simp add: lru_same)

lemma bpin_ok:
  assumes g: "good p d s" "at_buf d s x b" "cv_ref (view d s) x \<noteq> 0" and k: "cv_ref (view d s) x + 1 \<noteq> 0"
  obtains t where "bpin b s = Inr t" "becomes p d s t (v_ref x 1 (view d s))"
proof -
  have "bpin b s = Inr ((settled s)\<lparr>bufs := (bufs s)(b := (bufs s b)\<lparr>b_refcnt := b_refcnt (bufs s b) + 1\<rparr>)\<rparr>)"
    unfolding bpin_def by (rule critical0_buf1) (use quietD(4) [OF goodD(1) [OF g(1)]] in \<open>simp_all add: upd_buf_def\<close>)
  then show ?thesis using that bref_ok [OF g k refl] by blast
qed

lemma bunpin_ok:
  assumes g: "good p d s" "at_buf d s x b" "cv_ref (view d s) x \<noteq> 0" and k: "cv_ref (view d s) x - 1 \<noteq> 0"
  obtains t where "bunpin b s = Inr t" "becomes p d s t (v_ref x (- 1) (view d s))"
proof -
  have "bunpin b s = Inr ((settled s)\<lparr>bufs := (bufs s)(b := (bufs s b)\<lparr>b_refcnt := b_refcnt (bufs s b) + - 1\<rparr>)\<rparr>)"
    unfolding bunpin_def by (rule critical0_buf1) (use quietD(4) [OF goodD(1) [OF g(1)]] in \<open>simp_all add: upd_buf_def\<close>)
  moreover have "cv_ref (view d s) x + - 1 \<noteq> 0" using k by simp
  ultimately show ?thesis using that bref_ok [OF g _ refl] by blast
qed

lemma brelse_ok:
  assumes g: "good p d s" "at_buf d s x b" and h: "cv_held (view d s) x"
    and c: "cv_ref (view d s) x = 1 \<Longrightarrow> cv_data (view d s) x = cv_disk (view d s) x"
  obtains t where "brelse b s = Inr t" "becomes p d s t (v_release x (view d s))"
    "at_buf d t z e \<longleftrightarrow> at_buf d s z e"
proof -
  note r = held_used [OF g(1) h]
  note u = used_buf [OF g r(1)] and G = goodD [OF g(1)]
  let ?P = "wake_set (Ch_lock b) (Some p) {..<NPROC} (procs s)"
  let ?y = "(bufs s b)\<lparr>b_refcnt := b_refcnt (bufs s b) - 1\<rparr>"
  let ?L = "if b_refcnt ?y = 0 then b # remove1 b (lru s) else lru s"
  let ?s1 = "(settled s)\<lparr>sleeplocks := sl_given b s, procs := ?P\<rparr>"
  let ?t = "(settled ?s1)\<lparr>bufs := (bufs s)(b := ?y), lru := ?L\<rparr>"
  have q1: "quiet p ?s1" using G(1) by (simp add: quiet_upd)
  have "critical0 Lk_bcache (\<lambda>s. Inr (brelse_body b s)) ?s1 = Inr ?t"
    by (rule critical0_bufs) (use quietD(4) [OF q1] in \<open>auto simp: brelse_body_def upd_buf_def\<close>)
  then have "brelse b s = Inr ?t"
    using holdingsleep_eq [OF G(1), of b] u(7) h r(2) [OF g(2)] releasesleep_eq [OF quiet_upd(1) [OF G(1)], of b]
    by (simp add: brelse_def sl_given_def)
  moreover have "becomes p d s ?t (v_release x (view d s))" "at_buf d ?t z e \<longleftrightarrow> at_buf d s z e"
  proof -
    have w: "within s ?t" by (rule withinI) (cases s, simp add: settled_def set_mycpu_def, simp add: fun_eq_iff ident_def)
    have q: "quiet p ?t" using q1 by (simp add: quiet_upd)
    have L: "distinct ?L" "set ?L = {..<NBUF}" using cache_okD(1,2) [OF G(2)] u(1) by auto
    have clean: "b_data ?y = disk s d x" if "b_refcnt ?y = 0" using that c u(5,6) by simp
    have v: "cv_disk (v_release x (view d s)) = disk s d" "cv_writes (v_release x (view d s)) = dwrites s"
      "cv_data (v_release x (view d s)) i = (if i = x then b_data ?y else cv_data (view d s) i)"
      "cv_ref (v_release x (view d s)) i = (if i = x then b_refcnt ?y else cv_ref (view d s) i)"
      "cv_held (v_release x (view d s)) i = (if i = x then False else cv_held (view d s) i)" for i
      using u by (simp_all add: v_release_def)
    note up = upd_becomes [OF g q w, where y = ?y and l = "(sleeplocks s b)\<lparr>slk_locked := False, slk_pid := 0\<rparr>"
        and v = "v_release x (view d s)"]
    show "becomes p d s ?t (v_release x (view d s))"
      by (rule up(1)) (use u L clean v in \<open>simp_all add: sl_given_def\<close>)
    show "at_buf d ?t z e \<longleftrightarrow> at_buf d s z e"
      by (rule up(2)) (use u L clean v in \<open>simp_all add: sl_given_def\<close>)
  qed
  ultimately show ?thesis using that by blast
qed

section \<open>Properties\<close>

text \<open>
  C16: \<^verbatim>\<open>bread\<close> refines a read of a memory of blocks.  When the block is not locked and its
  buffer is in use or some buffer is free, it returns a locked buffer that holds the current bytes of the
  block, those of the last store to the cached block and otherwise those on the disk; no other block changes
  its bytes, references or lock, whichever buffer was recycled, and nothing is written to the disk.
\<close>

theorem bread_refines:
  assumes "good p d s" "\<not> cv_held (view d s) x" "cv_ref (view d s) x + 1 \<noteq> 0"
    "cv_ref (view d s) x \<noteq> 0 \<or> (\<exists>b<NBUF. b_refcnt (bufs s b) = 0)"
  shows "\<exists>b t. bread d x s = Inr (b, t) \<and> good p d t \<and> b < NBUF \<and> b_blockno (bufs t b) = x
    \<and> b_data (bufs t b) = cv_data (view d s) x \<and> slk_locked (sleeplocks t b)
    \<and> view d t = (view d s)\<lparr>cv_ref := (cv_ref (view d s))(x := cv_ref (view d s) x + 1),
        cv_held := (cv_held (view d s))(x := True)\<rparr>"
proof -
  obtain b t where b: "bread d x s = Inr (b, t)" "becomes p d s t (v_read x (view d s))" "at_buf d t x b"
    using bread_ok [OF assms] by blast
  note t = becomesD [OF b(2)]
  have "cv_ref (view d t) x \<noteq> 0" using assms(3) by (simp add: t(4) v_read_def)
  then show ?thesis
    using b(1) used_buf [OF t(1) b(3)] t by (intro exI [of _ b] exI [of _ t]) (simp add: v_read_def)
qed

definition proc_run :: "nat \<Rightarrow> proc" where
  "proc_run p = proc0\<lparr>state := RUNNING, pid := 7\<rparr>"

definition biost_of :: "(u32 \<Rightarrow> u32 \<Rightarrow> block) \<Rightarrow> biost" where
  "biost_of D = procst.extend (procst_of (kfresh_run 1) proc_run)
     \<lparr>pipes = (\<lambda>_. \<lparr>pi_data = (\<lambda>_. 0), nread = 0, nwrite = 0, readopen = False, writeopen = False\<rparr>),
      sleeplocks = (\<lambda>_. \<lparr>slk_locked = False, slk_name = ''buffer'', slk_pid = 0\<rparr>),
      bufs = (\<lambda>_. \<lparr>b_valid = False, b_dev = 0, b_blockno = 0, b_refcnt = 0, b_data = (\<lambda>_. 0)\<rparr>),
      lru = rev [0..<NBUF], disk = D, dwrites = []\<rparr>"

lemma biost_of_simps [simp]:
  "sleeplocks (biost_of D) b = \<lparr>slk_locked = False, slk_name = ''buffer'', slk_pid = 0\<rparr>"
  "bufs (biost_of D) b = \<lparr>b_valid = False, b_dev = 0, b_blockno = 0, b_refcnt = 0, b_data = (\<lambda>_. 0)\<rparr>"
  "lru (biost_of D) = rev [0..<NBUF]" "disk (biost_of D) = D" "dwrites (biost_of D) = []"
  "mycpu (biost_of D) = mycpu (kfresh_run 1)" "locks (biost_of D) = locks (kfresh_run 1)" "procs (biost_of D) = proc_run"
  by (simp_all add: biost_of_def procst.defs mycpu_def procst_of_def kst.defs)

lemma biost_of_good: "d \<noteq> 0 \<Longrightarrow> good 1 d (biost_of D)"
  using kfresh_run_simps(3) [of _ 1]
  by (auto simp: good_def quiet_def cache_ok_def held_ok_def lock_free_def)

lemma biost_of_view:
  assumes "d \<noteq> 0"
  shows "view d (biost_of D) = \<lparr>cv_data = D d, cv_ref = (\<lambda>_. 0), cv_held = (\<lambda>_. False), cv_disk = D d, cv_writes = []\<rparr>"
proof -
  have "cached d x (bufs (biost_of D)) (lru (biost_of D)) = None" for x
    using assms by (auto simp: cached_def find_None_iff is_buf_def)
  then show ?thesis by (simp add: view_def)
qed

theorem bread_refines_witness:
  "\<exists>b t. bread 1 5 (biost_of (\<lambda>_ n _. ucast n)) = Inr (b, t) \<and> good 1 1 t \<and> b_data (bufs t b) 0 = 5"
proof -
  have "\<exists>b::nat. b < 30" by (rule exI [of _ 0]) simp
  then show ?thesis using bread_refines [OF biost_of_good [of 1 "\<lambda>_ n _. ucast n"], of 5] by (auto simp: biost_of_view)
qed

text \<open>
  when every buffer is in use and none of them holds the block, \<^verbatim>\<open>bread\<close> panics with
  \<^verbatim>\<open>bget: no buffers\<close>.
\<close>

theorem bread_no_buffers:
  assumes "good p d s" "\<forall>b<NBUF. b_refcnt (bufs s b) \<noteq> 0" "\<forall>b<NBUF. b_blockno (bufs s b) \<noteq> x"
  shows "bread d x s = Inl (Panic ''bget: no buffers'')"
proof -
  note G = goodD [OF assms(1)]
  have "find (is_buf d x (bufs s)) (lru s) = None" "find (\<lambda>b. b_refcnt (bufs s b) = 0) (rev (lru s)) = None"
    using assms(2,3) cache_okD(2) [OF G(2)] by (auto simp: find_None_iff is_buf_def simp del: NBUF_def)
  then have "critical Lk_bcache (bget_body d x) s = Inl (Panic ''bget: no buffers'')"
    by (intro critical_fault) (use quietD(4) [OF G(1)] in \<open>simp_all add: bget_body_def is_buf_find\<close>)
  then show ?thesis by (simp add: bread_def bget_def)
qed

definition biost_full :: biost where
  "biost_full = (biost_of (\<lambda>_ n _. ucast n))\<lparr>bufs := \<lambda>b. \<lparr>b_valid = True, b_dev = 1, b_blockno = of_nat b + 100,
     b_refcnt = 1, b_data = (\<lambda>_. 0)\<rparr>\<rparr>"

lemma biost_full_good: "good 1 1 biost_full"
proof -
  have "of_nat b \<noteq> (of_nat c :: u32)" if "b < 30" "c < 30" "b \<noteq> c" for b c :: nat
    using that by (simp add: word_of_nat_eq_iff take_bit_nat_eq_self)
  then show ?thesis
    using biost_of_good [of 1 "\<lambda>_ n _. ucast n"]
    by (auto simp: good_def cache_ok_def held_ok_def biost_full_def quiet_upd)
qed

theorem bread_no_buffers_witness: "bread 1 5 biost_full = Inl (Panic ''bget: no buffers'')"
proof -
  have "of_nat b + 100 \<noteq> (5 :: u32)" if "b < 30" for b
  proof
    assume "of_nat b + 100 = (5 :: u32)"
    then have "unat (of_nat b + 100 :: u32) = unat (5 :: u32)" by (rule arg_cong)
    then show False using that by (simp add: unat_word_ariths unat_of_nat)
  qed
  then show ?thesis using bread_no_buffers [OF biost_full_good, of 5] by (simp add: biost_full_def)
qed

end
