(* ===== verification/Log.thy ===== *)
theory Log
  imports Bio
begin

text \<open>
  The redo log, \<^verbatim>\<open>kernel/log.c\<close>.  The log occupies the blocks from \<open>log_start\<close> on: a header block with the
  number of logged blocks and their home block numbers, then the blocks themselves.  A \<^verbatim>\<open>memmove\<close> of
  \<^verbatim>\<open>BSIZE\<close> bytes between two buffers is an assignment of the whole block.  \<open>begin_op_round\<close> is one
  pass of the loop of \<^verbatim>\<open>begin_op\<close>.
\<close>

definition LOGSIZE :: nat where LOGSIZE_def [simp]: "LOGSIZE = 30"
definition MAXOPBLOCKS :: int where MAXOPBLOCKS_def [simp]: "MAXOPBLOCKS = 10"

record logst = biost +
  log_start :: u32
  log_size :: int
  outstanding :: int
  committing :: bool
  log_dev :: u32
  lh_n :: int
  lh_block :: "nat \<Rightarrow> u32"

record superblock =
  sb_magic :: u32
  sb_size :: u32
  sb_nblocks :: u32
  sb_ninodes :: u32
  sb_nlog :: u32
  sb_logstart :: u32
  sb_inodestart :: u32
  sb_bmapstart :: u32

section \<open>Integers inside a block\<close>

definition blk_ld :: "block \<Rightarrow> nat \<Rightarrow> u32" where
  "blk_ld a o' = ucast (a o') OR push_bit 8 (ucast (a (o' + 1))) OR push_bit 16 (ucast (a (o' + 2)))
     OR push_bit 24 (ucast (a (o' + 3)))"

definition blk_st :: "block \<Rightarrow> nat \<Rightarrow> u32 \<Rightarrow> block" where
  "blk_st a o' v = (\<lambda>i. if o' \<le> i \<and> i < o' + 4 then ucast (drop_bit (8 * (i - o')) v) else a i)"

section \<open>Operations\<close>

definition log_bread :: "nat \<Rightarrow> 'a logst_scheme \<Rightarrow> (nat \<times> 'a logst_scheme) res" where
  "log_bread tail s = bread (log_dev s) (log_start s + of_nat tail + 1) s"

definition home_bread :: "nat \<Rightarrow> 'a logst_scheme \<Rightarrow> (nat \<times> 'a logst_scheme) res" where
  "home_bread tail s = ebind (arrayix LOGSIZE (int tail)) (\<lambda>i. bread (log_dev s) (lh_block s i) s)"

definition buf_copy :: "nat \<Rightarrow> nat \<Rightarrow> 'a biost_scheme \<Rightarrow> 'a biost_scheme" where
  "buf_copy dst src s = upd_buf dst (\<lambda>x. x\<lparr>b_data := b_data (bufs s src)\<rparr>) s"

definition install_one :: "bool \<Rightarrow> nat \<Rightarrow> 'a logst_scheme \<Rightarrow> 'a logst_scheme res" where
  "install_one recovering tail s =
     ebind (log_bread tail s) (\<lambda>(lbuf, s).
     ebind (home_bread tail s) (\<lambda>(dbuf, s).
     ebind (bwrite dbuf (buf_copy dbuf lbuf s)) (\<lambda>s.
     ebind (if \<not> recovering then bunpin dbuf s else Inr s) (\<lambda>s.
     ebind (brelse lbuf s) (brelse dbuf)))))"

definition install_trans :: "bool \<Rightarrow> 'a logst_scheme \<Rightarrow> 'a logst_scheme res" where
  "install_trans recovering s = efold (install_one recovering) [0..<nat (lh_n s)] s"

definition read_head_one :: "nat \<Rightarrow> nat \<Rightarrow> 'a logst_scheme \<Rightarrow> 'a logst_scheme res" where
  "read_head_one b i s = ebind (arrayix LOGSIZE (int i)) (\<lambda>k.
     Inr (s\<lparr>lh_block := (lh_block s)(k := blk_ld (b_data (bufs s b)) (4 + 4 * i))\<rparr>))"

definition read_head :: "'a logst_scheme \<Rightarrow> 'a logst_scheme res" where
  "read_head s =
     ebind (bread (log_dev s) (log_start s) s) (\<lambda>(b, s).
     let s = s\<lparr>lh_n := sint (blk_ld (b_data (bufs s b)) 0)\<rparr>
     in ebind (efold (read_head_one b) [0..<nat (lh_n s)] s) (brelse b))"

definition write_head_one :: "nat \<Rightarrow> nat \<Rightarrow> 'a logst_scheme \<Rightarrow> 'a logst_scheme res" where
  "write_head_one b i s = ebind (arrayix LOGSIZE (int i)) (\<lambda>k.
     Inr (upd_buf b (\<lambda>x. x\<lparr>b_data := blk_st (b_data x) (4 + 4 * i) (lh_block s k)\<rparr>) s))"

definition write_head :: "'a logst_scheme \<Rightarrow> 'a logst_scheme res" where
  "write_head s =
     ebind (bread (log_dev s) (log_start s) s) (\<lambda>(b, s).
     let s = upd_buf b (\<lambda>x. x\<lparr>b_data := blk_st (b_data x) 0 (word_of_int (lh_n s))\<rparr>) s
     in ebind (efold (write_head_one b) [0..<nat (lh_n s)] s) (\<lambda>s.
        ebind (bwrite b s) (brelse b)))"

definition recover_from_log :: "'a logst_scheme \<Rightarrow> 'a logst_scheme res" where
  "recover_from_log s =
     ebind (read_head s) (\<lambda>s.
     ebind (install_trans True s) (\<lambda>s.
     write_head (s\<lparr>lh_n := 0\<rparr>)))"

definition initlog :: "u32 \<Rightarrow> superblock \<Rightarrow> 'a logst_scheme \<Rightarrow> 'a logst_scheme res" where
  "initlog dv sb s =
     (if 4 + 4 * LOGSIZE \<ge> 1024 then Inl (Panic ''initlog: too big logheader'')
      else let s = initlock Lk_log ''log'' s
           in recover_from_log (s\<lparr>log_start := sb_logstart sb, log_size := sint (sb_nlog sb), log_dev := dv\<rparr>))"

text \<open>The result is \<open>None\<close> when the operation may start, else the saved interrupt state of the sleeper.\<close>

definition begin_op_round :: "'a logst_scheme \<Rightarrow> (bool option \<times> 'a logst_scheme) res" where
  "begin_op_round s =
     (if committing s
      then ebind (sleep_enter Ch_log Lk_log s) (\<lambda>(i, s). Inr (Some i, s))
      else if lh_n s + (outstanding s + 1) * MAXOPBLOCKS > int LOGSIZE
      then ebind (sleep_enter Ch_log Lk_log s) (\<lambda>(i, s). Inr (Some i, s))
      else ebind (release Lk_log (s\<lparr>outstanding := outstanding s + 1\<rparr>)) (\<lambda>s. Inr (None, s)))"

definition begin_op :: "'a logst_scheme \<Rightarrow> (bool option \<times> 'a logst_scheme) res" where
  "begin_op s = ebind (acquire Lk_log s) begin_op_round"

definition begin_op_resume :: "nat \<Rightarrow> bool \<Rightarrow> 'a logst_scheme \<Rightarrow> (bool option \<times> 'a logst_scheme) res" where
  "begin_op_resume p i s = ebind (sleep_leave p Lk_log i s) begin_op_round"

definition write_log_one :: "nat \<Rightarrow> 'a logst_scheme \<Rightarrow> 'a logst_scheme res" where
  "write_log_one tail s =
     ebind (log_bread tail s) (\<lambda>(to', s).
     ebind (home_bread tail s) (\<lambda>(from', s).
     ebind (bwrite to' (buf_copy to' from' s)) (\<lambda>s.
     ebind (brelse from' s) (brelse to'))))"

definition write_log :: "'a logst_scheme \<Rightarrow> 'a logst_scheme res" where
  "write_log s = efold write_log_one [0..<nat (lh_n s)] s"

definition commit :: "'a logst_scheme \<Rightarrow> 'a logst_scheme res" where
  "commit s =
     (if lh_n s > 0
      then ebind (write_log s) (\<lambda>s.
           ebind (write_head s) (\<lambda>s.
           ebind (install_trans False s) (\<lambda>s.
           write_head (s\<lparr>lh_n := 0\<rparr>))))
      else Inr s)"

definition end_op_body :: "'a logst_scheme \<Rightarrow> (bool \<times> 'a logst_scheme) res" where
  "end_op_body s =
     (let s = s\<lparr>outstanding := outstanding s - 1\<rparr>
      in if committing s then Inl (Panic ''log.committing'')
         else if outstanding s = 0 then Inr (True, s\<lparr>committing := True\<rparr>)
         else ebind (wakeup Ch_log s) (\<lambda>s. Inr (False, s)))"

definition end_op :: "'a logst_scheme \<Rightarrow> 'a logst_scheme res" where
  "end_op s =
     ebind (critical Lk_log end_op_body s) (\<lambda>(do_commit, s).
     if do_commit
     then ebind (commit s) (critical0 Lk_log (\<lambda>s. wakeup Ch_log (s\<lparr>committing := False\<rparr>)))
     else Inr s)"

text \<open>The index where \<^verbatim>\<open>log_write\<close> records a block: where it is already, or the end.\<close>

definition log_slot :: "'a logst_scheme \<Rightarrow> u32 \<Rightarrow> nat" where
  "log_slot s x = (case find (\<lambda>i. lh_block s i = x) [0..<nat (lh_n s)] of Some i \<Rightarrow> i | None \<Rightarrow> nat (lh_n s))"

definition log_write_body :: "nat \<Rightarrow> 'a logst_scheme \<Rightarrow> 'a logst_scheme res" where
  "log_write_body b s =
     (if lh_n s \<ge> int LOGSIZE \<or> lh_n s \<ge> log_size s - 1 then Inl (Panic ''too big a transaction'')
      else if outstanding s < 1 then Inl (Panic ''log_write outside of trans'')
      else let i = log_slot s (b_blockno (bufs s b));
               s = s\<lparr>lh_block := (lh_block s)(i := b_blockno (bufs s b))\<rparr>
           in if int i = lh_n s
              then ebind (bpin b s) (\<lambda>s. Inr (s\<lparr>lh_n := lh_n s + 1\<rparr>))
              else Inr s)"

definition log_write :: "nat \<Rightarrow> 'a logst_scheme \<Rightarrow> 'a logst_scheme res" where
  "log_write b = critical0 Lk_log (log_write_body b)"

section \<open>Lemmas on blocks\<close>

lemma blk_ld_st [simp]: "blk_ld (blk_st a k v) k = v"
proof (rule bit_word_eqI)
  fix n :: nat
  assume n: "n < LENGTH(32)"
  consider "n < 8" | "8 \<le> n" "n < 16" | "16 \<le> n" "n < 24" | "24 \<le> n" by linarith
  then show "bit (blk_ld (blk_st a k v) k) n = bit v n"
    by cases (use n in \<open>auto simp: blk_ld_def blk_st_def bit_simps\<close>)
qed

lemma blk_ld_st_other: "k + 4 \<le> j \<or> j + 4 \<le> k \<Longrightarrow> blk_ld (blk_st a k v) j = blk_ld a j"
  by (auto simp: blk_ld_def blk_st_def)

definition header :: "block \<Rightarrow> nat \<Rightarrow> (nat \<Rightarrow> u32) \<Rightarrow> block" where
  "header a n bs = fold (\<lambda>i a. blk_st a (4 + 4 * i) (bs i)) [0..<n] (blk_st a 0 (of_nat n))"

lemma header_ld:
  "blk_ld (header a n bs) 0 = of_nat n" "i < n \<Longrightarrow> blk_ld (header a n bs) (4 + 4 * i) = bs i"
proof -
  have "blk_ld (fold (\<lambda>i a. blk_st a (4 + 4 * i) (bs i)) [0..<k] (blk_st a 0 v)) 0 = v
    \<and> (\<forall>i<k. blk_ld (fold (\<lambda>i a. blk_st a (4 + 4 * i) (bs i)) [0..<k] (blk_st a 0 v)) (4 + 4 * i) = bs i)" for k v
    by (induction k) (auto simp: blk_ld_st_other less_Suc_eq)
  then show "blk_ld (header a n bs) 0 = of_nat n" "i < n \<Longrightarrow> blk_ld (header a n bs) (4 + 4 * i) = bs i"
    unfolding header_def by blast+
qed

section \<open>One block through the log\<close>

lemma within_log:
  assumes "within s t"
  shows "log_start t = log_start s" "log_size t = log_size s" "outstanding t = outstanding s"
    "committing t = committing s" "log_dev t = log_dev s" "lh_n t = lh_n s" "lh_block t = lh_block s"
  using assms by (auto simp: within_def)

text \<open>Two buffers locked one after the other.\<close>

lemma bread_two:
  assumes g: "good p d s" and x: "\<not> cv_held (view d s) x" "cv_ref (view d s) x = 0"
    and free: "\<exists>b<NBUF. b_refcnt (bufs s b) = 0"
    and y: "y \<noteq> x" "\<not> cv_held (view d s) y" "cv_ref (view d s) y + 1 \<noteq> 0"
      "cv_ref (view d s) y \<noteq> 0 \<or> (\<forall>z. cv_ref (view d s) z = 0)"
  obtains b c s1 t where "bread d x s = Inr (b, s1)" "bread d y s1 = Inr (c, t)" "within s s1" "within s t" "good p d t"
    "view d t = v_read y (v_read x (view d s))" "at_buf d t x b" "at_buf d t y c"
proof -
  have "cv_ref (view d s) x + 1 \<noteq> 0" using x(2) by simp
  then obtain b s1 where b: "bread d x s = Inr (b, s1)" "becomes p d s s1 (v_read x (view d s))" "at_buf d s1 x b"
    using bread_ok [OF g x(1)] free by blast
  note B = becomesD [OF b(2)]
  have free1: "\<exists>b<NBUF. b_refcnt (bufs s1 b) = 0" if "\<forall>z. cv_ref (view d s) z = 0"
    by (rule used_blocks [OF goodD(2) [OF B(1)], of "{x}"]) (use that in \<open>simp_all add: B(4) v_read_def split: if_splits\<close>)
  have "\<not> cv_held (view d s1) y" "cv_ref (view d s1) y + 1 \<noteq> 0"
    "cv_ref (view d s1) y \<noteq> 0 \<or> (\<exists>b<NBUF. b_refcnt (bufs s1 b) = 0)"
    using y free1 by (auto simp: B(4) v_read_def)
  then obtain c t where c: "bread d y s1 = Inr (c, t)" "becomes p d s1 t (v_read y (view d s1))" "at_buf d t y c"
    using bread_ok [OF B(1)] by blast
  note C = becomesD [OF c(2)]
  have "at_buf d t x b" using keepsD [OF C(3) b(3)] x(2) by (simp add: B(4) v_read_def)
  then show ?thesis
    using that [OF b(1) c(1) B(2) within_trans [OF B(2) C(2)] C(1) _ _ c(3)] C(4) B(4) by simp
qed

lemma buf_copy_ok:
  assumes g: "good p d s" "at_buf d s x b" "cv_ref (view d s) x \<noteq> 0" "at_buf d s y c" "cv_ref (view d s) y \<noteq> 0"
  shows "becomes p d s (buf_copy b c s) (v_set x (cv_data (view d s) y) (view d s))"
  using store_ok [OF g(1-3)] used_buf(5) [OF g(1,4,5)] by (simp add: buf_copy_def)

text \<open>Copying block \<open>y\<close> over block \<open>x\<close>, both locked, and writing it to the disk.\<close>

lemma copy_write:
  assumes g: "good p d s" and x: "at_buf d s x b" "cv_held (view d s) x" and y: "at_buf d s y c" "cv_held (view d s) y"
  obtains t where "bwrite b (buf_copy b c s) = Inr t" "within s t" "good p d t" "at_buf d t x b" "at_buf d t y c"
    "view d t = v_write d x (v_set x (cv_data (view d s) y) (view d s))"
proof -
  note r = held_used(1) [OF g x(2)] held_used(1) [OF g y(2)]
  let ?s1 = "buf_copy b c s"
  note B = becomesD [OF buf_copy_ok [OF g x(1) r(1) y(1) r(2)]]
  have a: "at_buf d ?s1 x b" "at_buf d ?s1 y c" using keepsD [OF B(3) x(1) r(1)] keepsD [OF B(3) y(1) r(2)] .
  have "cv_held (view d ?s1) x" using x(2) by (simp add: B(4) v_set_def)
  then obtain t where t: "bwrite b ?s1 = Inr t" "becomes p d ?s1 t (v_write d x (view d ?s1))"
    using bwrite_ok [OF B(1) a(1)] by blast
  note C = becomesD [OF t(2)]
  have "at_buf d t x b" "at_buf d t y c"
    using keepsD [OF C(3) a(1)] keepsD [OF C(3) a(2)] r by (simp_all add: B(4) v_set_def)
  then show ?thesis using that [OF t(1) within_trans [OF B(2) C(2)] C(1)] C(4) B(4) by simp
qed

lemma brelse_two:
  assumes g: "good p d s" and x: "at_buf d s x b" "cv_held (view d s) x" and y: "at_buf d s y c" "cv_held (view d s) y" "y \<noteq> x"
    and cl: "cv_ref (view d s) x = 1 \<Longrightarrow> cv_data (view d s) x = cv_disk (view d s) x"
      "cv_ref (view d s) y = 1 \<Longrightarrow> cv_data (view d s) y = cv_disk (view d s) y"
  obtains s1 t where "brelse c s = Inr s1" "brelse b s1 = Inr t" "within s t" "good p d t"
    "view d t = v_release x (v_release y (view d s))"
proof -
  obtain s1 where s1: "brelse c s = Inr s1" "becomes p d s s1 (v_release y (view d s))" "at_buf d s1 x b"
    using brelse_ok [OF g y(1,2) cl(2), of x b] x(1) by blast
  note B = becomesD [OF s1(2)]
  have "cv_held (view d s1) x" "cv_ref (view d s1) x = 1 \<Longrightarrow> cv_data (view d s1) x = cv_disk (view d s1) x"
    using x(2) y(3) cl(1) unfolding B(4) by (simp_all add: v_release_def)
  then obtain t where t: "brelse b s1 = Inr t" "becomes p d s1 t (v_release x (view d s1))"
    using brelse_ok [OF B(1) s1(3)] by metis
  note C = becomesD [OF t(2)]
  show ?thesis using that [OF s1(1) t(1) within_trans [OF B(2) C(2)] C(1)] C(4) B(4) by simp
qed

text \<open>The effect of writing the bytes \<open>a\<close> to block \<open>x\<close>, in the cache and on the disk.\<close>

definition v_put :: "u32 \<Rightarrow> u32 \<Rightarrow> block \<Rightarrow> cview \<Rightarrow> cview" where
  "v_put d x a v = v\<lparr>cv_data := (cv_data v)(x := a), cv_disk := (cv_disk v)(x := a), cv_writes := cv_writes v @ [(d, x, a)]\<rparr>"

lemma v_put_simps [simp]:
  "cv_data (v_put d x a v) = (cv_data v)(x := a)" "cv_disk (v_put d x a v) = (cv_disk v)(x := a)"
  "cv_writes (v_put d x a v) = cv_writes v @ [(d, x, a)]" "cv_ref (v_put d x a v) = cv_ref v"
  "cv_held (v_put d x a v) = cv_held v"
  by (simp_all add: v_put_def)

lemmas v_defs = v_read_def v_release_def v_ref_def v_set_def v_write_def v_put_def

lemma write_log_one_ok:
  assumes g: "good p (log_dev s) s" and tail: "tail < LOGSIZE"
    and xy: "x = log_start s + of_nat tail + 1" "y = lh_block s tail" "y \<noteq> x"
    and v: "v = view (log_dev s) s" "\<And>z. \<not> cv_held v z" "cv_ref v x = 0" "cv_ref v y = 1"
    and free: "\<exists>b<NBUF. b_refcnt (bufs s b) = 0"
  obtains t where "write_log_one tail s = Inr t" "good p (log_dev s) t" "within s t"
    "view (log_dev s) t = v_put (log_dev s) x (cv_data v y) v"
proof -
  let ?d = "log_dev s"
  have "\<not> cv_held (view ?d s) x" "cv_ref (view ?d s) x = 0" "\<not> cv_held (view ?d s) y" "cv_ref (view ?d s) y + 1 \<noteq> 0"
    "cv_ref (view ?d s) y \<noteq> 0 \<or> (\<forall>z. cv_ref (view ?d s) z = 0)"
    using v by simp_all
  then obtain b c s1 s2 where s2: "bread ?d x s = Inr (b, s1)" "bread ?d y s1 = Inr (c, s2)" "within s s1" "within s s2"
    "good p ?d s2" "view ?d s2 = v_read y (v_read x (view ?d s))" "at_buf ?d s2 x b" "at_buf ?d s2 y c"
    using bread_two [OF g _ _ free xy(3)] by metis
  have h: "cv_held (view ?d s2) x" "cv_held (view ?d s2) y" using xy(3) by (simp_all add: s2(6) v_defs)
  obtain s3 where s3: "bwrite b (buf_copy b c s2) = Inr s3" "within s2 s3" "good p ?d s3" "at_buf ?d s3 x b" "at_buf ?d s3 y c"
    "view ?d s3 = v_write ?d x (v_set x (cv_data (view ?d s2) y) (view ?d s2))"
    using copy_write [OF s2(5) s2(7) h(1) s2(8) h(2)] by blast
  have h3: "cv_held (view ?d s3) x" "cv_held (view ?d s3) y" "cv_data (view ?d s3) x = cv_disk (view ?d s3) x"
    "cv_ref (view ?d s3) y \<noteq> 1"
    using h xy(3) v(1,4) unfolding s3(6) s2(6) by (simp_all add: v_defs)
  obtain s4 t where t: "brelse c s3 = Inr s4" "brelse b s4 = Inr t" "within s3 t" "good p ?d t"
    "view ?d t = v_release x (v_release y (view ?d s3))"
    using brelse_two [OF s3(3) s3(4) h3(1) s3(5) h3(2) xy(3)] h3(3,4) by blast
  have "write_log_one tail s = Inr t"
    using s2 s3(1) t(1,2) tail within_log [OF s2(3)]
    by (simp add: write_log_one_def log_bread_def home_bread_def xy(1,2))
  moreover have "within s t" using within_trans [OF within_trans [OF s2(4) s3(2)] t(3)] .
  moreover have "view ?d t = v_put ?d x (cv_data v y) v"
    using v(2) xy(3) unfolding t(5) s3(6) s2(6) v(1) [symmetric]
    by (intro view_eqI) (auto simp: v_defs)
  ultimately show ?thesis using that t(4) by blast
qed

lemma unpin_unless:
  assumes g: "good p d s" "at_buf d s y c" "at_buf d s x b"
    and r: "cv_ref (view d s) y \<noteq> 0" "r \<or> cv_ref (view d s) y - 1 \<noteq> 0" "cv_ref (view d s) x \<noteq> 0"
  obtains t where "(if \<not> r then bunpin c s else Inr s) = Inr t" "within s t" "good p d t" "at_buf d t y c" "at_buf d t x b"
    "view d t = v_ref y (if r then 0 else - 1) (view d s)"
proof (cases r)
  case True
  then show ?thesis using that [of s] g by (simp add: v_ref_def)
next
  case False
  then obtain t where t: "bunpin c s = Inr t" "becomes p d s t (v_ref y (- 1) (view d s))"
    using bunpin_ok [OF g(1,2) r(1)] r(2) by blast
  note B = becomesD [OF t(2)]
  show ?thesis
    using that [of t] t(1) B keepsD [OF B(3) g(2) r(1)] keepsD [OF B(3) g(3) r(3)] False by simp
qed

lemma install_one_ok:
  assumes g: "good p (log_dev s) s" and tail: "tail < LOGSIZE"
    and xy: "x = log_start s + of_nat tail + 1" "y = lh_block s tail" "y \<noteq> x"
    and v: "v = view (log_dev s) s" "\<And>z. \<not> cv_held v z" "cv_ref v x = 0"
      "if r then \<forall>z. cv_ref v z = 0 else cv_ref v y = 1"
    and free: "\<exists>b<NBUF. b_refcnt (bufs s b) = 0"
  obtains t where "install_one r tail s = Inr t" "good p (log_dev s) t" "within s t"
    "view (log_dev s) t = (v_put (log_dev s) y (cv_data v x) v)\<lparr>cv_ref := (cv_ref v)(y := 0)\<rparr>"
proof -
  let ?d = "log_dev s"
  have "\<not> cv_held (view ?d s) x" "cv_ref (view ?d s) x = 0" "\<not> cv_held (view ?d s) y" "cv_ref (view ?d s) y + 1 \<noteq> 0"
    "cv_ref (view ?d s) y \<noteq> 0 \<or> (\<forall>z. cv_ref (view ?d s) z = 0)"
    using v by (auto split: if_splits)
  then obtain b c s1 s2 where s2: "bread ?d x s = Inr (b, s1)" "bread ?d y s1 = Inr (c, s2)" "within s s1" "within s s2"
    "good p ?d s2" "view ?d s2 = v_read y (v_read x (view ?d s))" "at_buf ?d s2 x b" "at_buf ?d s2 y c"
    using bread_two [OF g _ _ free xy(3)] by metis
  have h: "cv_held (view ?d s2) x" "cv_held (view ?d s2) y" using xy(3) by (simp_all add: s2(6) v_defs)
  obtain s3 where s3: "bwrite c (buf_copy c b s2) = Inr s3" "within s2 s3" "good p ?d s3" "at_buf ?d s3 y c" "at_buf ?d s3 x b"
    "view ?d s3 = v_write ?d y (v_set y (cv_data (view ?d s2) x) (view ?d s2))"
    using copy_write [OF s2(5) s2(8) h(2) s2(7) h(1)] by blast
  let ?k = "if r then 0 else - 1 :: u32"
  have "cv_ref (view ?d s3) y \<noteq> 0" "r \<or> cv_ref (view ?d s3) y - 1 \<noteq> 0" "cv_ref (view ?d s3) x \<noteq> 0"
    using v xy(3) unfolding s3(6) s2(6) v(1) [symmetric] by (auto simp: v_defs split: if_splits)
  then obtain s4 where s4: "(if \<not> r then bunpin c s3 else Inr s3) = Inr s4" "within s3 s4" "good p ?d s4"
    "at_buf ?d s4 y c" "at_buf ?d s4 x b"
    "view ?d s4 = v_ref y ?k (view ?d s3)"
    using unpin_unless [OF s3(3,4,5)] by metis
  have h4: "cv_held (view ?d s4) y" "cv_held (view ?d s4) x" "cv_data (view ?d s4) y = cv_disk (view ?d s4) y"
    "cv_data (view ?d s4) x = cv_disk (view ?d s4) x"
    using xy(3) view_clean [OF goodD(2) [OF g], of x] v(1,3) unfolding s4(6) s3(6) s2(6) by (simp_all add: v_defs)
  obtain s5 t where t: "brelse b s4 = Inr s5" "brelse c s5 = Inr t" "within s4 t" "good p ?d t"
    "view ?d t = v_release y (v_release x (view ?d s4))"
    using brelse_two [OF s4(3) s4(4) h4(1) s4(5) h4(2) xy(3) [symmetric]] h4(3,4) by blast
  have "install_one r tail s = Inr t"
    using s2 s3(1) s4(1) t(1,2) tail within_log [OF s2(3)]
    by (simp add: install_one_def log_bread_def home_bread_def xy(1,2))
  moreover have "within s t" using within_trans [OF within_trans [OF within_trans [OF s2(4) s3(2)] s4(2)] t(3)] .
  moreover have "view ?d t = (v_put ?d y (cv_data v x) v)\<lparr>cv_ref := (cv_ref v)(y := 0)\<rparr>"
    using v(2-4) xy(3) unfolding t(5) s4(6) s3(6) s2(6) v(1) [symmetric]
    by (intro view_eqI) (auto simp: v_defs split: if_splits)
  ultimately show ?thesis using that t(4) by blast
qed

section \<open>The loops\<close>

lemma efold_snoc: "efold f (xs @ [x]) s = ebind (efold f xs s) (f x)"
proof (induction xs arbitrary: s)
  case (Cons y ys)
  then show ?case by (cases "f y s") simp_all
next
  case Nil
  then show ?case by (cases "f x s") simp_all
qed

definition upds :: "('k \<times> 'v) list \<Rightarrow> ('k \<Rightarrow> 'v) \<Rightarrow> 'k \<Rightarrow> 'v" where
  "upds ps f = fold (\<lambda>(x, a) f. f(x := a)) ps f"

lemma upds_simps [simp]: "upds [] f = f" "upds (ps @ [(x, a)]) f = (upds ps f)(x := a)"
  by (simp_all add: upds_def)

lemma upds_append: "upds (ps @ qs) f = upds qs (upds ps f)"
  by (simp add: upds_def)

lemma upds_out: "z \<notin> fst ` set ps \<Longrightarrow> upds ps f z = f z"
  by (induction ps rule: rev_induct) auto

lemma upds_same: "z \<in> fst ` set ps \<Longrightarrow> upds ps f z = upds ps g z"
  by (induction ps rule: rev_induct) (auto simp: rev_image_eqI)

lemma upds_in:
  assumes "distinct (map fst ps)" "(z, a) \<in> set ps"
  shows "upds ps f z = a"
  using assms
proof (induction ps rule: rev_induct)
  case (snoc q ps)
  then show ?case by (cases q) (auto simp: image_iff)
qed simp

definition v_puts :: "u32 \<Rightarrow> (u32 \<times> block) list \<Rightarrow> cview \<Rightarrow> cview" where
  "v_puts d ps v = v\<lparr>cv_data := upds ps (cv_data v), cv_disk := upds ps (cv_disk v),
     cv_writes := cv_writes v @ map (Pair d) ps\<rparr>"

lemma v_puts_simps [simp]:
  "v_puts d [] v = v" "v_puts d (ps @ [(x, a)]) v = v_put d x a (v_puts d ps v)"
  "cv_data (v_puts d ps v) = upds ps (cv_data v)" "cv_disk (v_puts d ps v) = upds ps (cv_disk v)"
  "cv_writes (v_puts d ps v) = cv_writes v @ map (Pair d) ps"
  "cv_ref (v_puts d ps v) = cv_ref v" "cv_held (v_puts d ps v) = cv_held v"
  by (simp_all add: v_puts_def v_put_def)

text \<open>
  A log of \<open>n\<close> blocks from \<open>st\<close> on, with distinct home blocks \<open>bs\<close> outside the log.  At most 29 blocks
  leave a buffer for the blocks of the log.
\<close>

definition log_blk :: "u32 \<Rightarrow> nat \<Rightarrow> u32" where
  "log_blk st i = st + of_nat i + 1"

definition layout :: "u32 \<Rightarrow> nat \<Rightarrow> (nat \<Rightarrow> u32) \<Rightarrow> bool" where
  "layout st n bs \<longleftrightarrow> n < LOGSIZE \<and> inj_on bs {..<n} \<and> (\<forall>i<n. bs i \<noteq> st \<and> (\<forall>j<n. bs i \<noteq> log_blk st j))"

lemma layoutD:
  assumes "layout st n bs"
  shows "n < 30" "inj_on bs {..<n}" "i < n \<Longrightarrow> bs i \<noteq> st" "i < n \<Longrightarrow> j < n \<Longrightarrow> bs i \<noteq> log_blk st j"
  using assms by (simp_all add: layout_def)

lemma log_blk_inj:
  assumes "i < 1000" "j < 1000"
  shows "log_blk st i = log_blk st j \<longleftrightarrow> i = j" "log_blk st i \<noteq> st"
proof -
  have "of_nat i = (of_nat j :: u32) \<longleftrightarrow> i = j"
    using assms by (simp add: word_of_nat_eq_iff take_bit_nat_eq_self)
  then show "log_blk st i = log_blk st j \<longleftrightarrow> i = j" by (simp add: log_blk_def)
  have "of_nat (i + 1) \<noteq> (of_nat 0 :: u32)"
    using assms by (simp only: word_of_nat_eq_iff) (simp add: take_bit_nat_eq_self)
  then show "log_blk st i \<noteq> st" by (simp add: log_blk_def add.assoc add.commute)
qed

definition pins :: "(nat \<Rightarrow> u32) \<Rightarrow> nat set \<Rightarrow> u32 \<Rightarrow> u32" where
  "pins bs A z = (if z \<in> bs ` A then 1 else 0)"

lemma pins_empty [simp]: "pins bs {} = (\<lambda>_. 0)"
  by (simp add: pins_def fun_eq_iff)

lemma pins_drop:
  assumes "inj_on bs {..<n}" "k < n"
  shows "(pins bs {k..<n})(bs k := 0) = pins bs {Suc k..<n}"
proof -
  have "{k..<n} = insert k {Suc k..<n}" using assms(2) by auto
  moreover have "bs k \<notin> bs ` {Suc k..<n}"
    using assms(2) by (auto dest!: inj_onD [OF assms(1)])
  ultimately show ?thesis by (auto simp: pins_def fun_eq_iff)
qed

lemma free_under_pins:
  assumes "good p d s" "cv_ref (view d s) = pins bs A" "finite A" "card A < NBUF"
  shows "\<exists>b<NBUF. b_refcnt (bufs s b) = 0"
proof (rule used_blocks [OF goodD(2) [OF assms(1)], of "bs ` A"])
  show "finite (bs ` A)" "card (bs ` A) < NBUF"
    using assms(3,4) card_image_le [OF assms(3), of bs] by simp_all
qed (simp add: assms(2) pins_def split: if_splits)

lemma write_log_loop:
  assumes g: "good p (log_dev s) s" and v: "v = view (log_dev s) s" "\<And>z. \<not> cv_held v z" "cv_ref v = pins (lh_block s) {..<n}"
    and lay: "layout (log_start s) n (lh_block s)" and k: "k \<le> n"
  shows "\<exists>t. efold write_log_one [0..<k] s = Inr t \<and> good p (log_dev s) t \<and> within s t
    \<and> view (log_dev s) t = v_puts (log_dev s) (map (\<lambda>i. (log_blk (log_start s) i, cv_data v (lh_block s i))) [0..<k]) v"
  using k
proof (induction k)
  case 0
  then show ?case using g v(1) by simp
next
  case (Suc k)
  let ?d = "log_dev s" and ?bs = "lh_block s" and ?w = "\<lambda>k. map (\<lambda>i. (log_blk (log_start s) i, cv_data v (lh_block s i))) [0..<k]"
  obtain t where t: "efold write_log_one [0..<k] s = Inr t" "good p ?d t" "within s t" "view ?d t = v_puts ?d (?w k) v"
    using Suc by auto
  note L = layoutD [OF lay] and W = within_log [OF t(3)]
  have f: "\<exists>b<NBUF. b_refcnt (bufs t b) = 0"
    by (rule free_under_pins [OF t(2), of ?bs "{..<n}"]) (use L(1) v(3) in \<open>simp_all add: t(4)\<close>)
  have ne: "?bs k \<noteq> log_blk (log_start s) k" using L(4) [of k k] Suc.prems by simp
  have kn: "k < LOGSIZE" using L(1) Suc.prems by simp
  have h: "\<not> cv_held (view ?d t) z" for z using v(2) by (simp add: t(4))
  have "log_blk (log_start s) k \<notin> ?bs ` {..<n}" using L(4) [of _ k] Suc.prems by force
  then have "cv_ref (view ?d t) (log_blk (log_start s) k) = 0" "cv_ref (view ?d t) (?bs k) = 1"
    using v(3) Suc.prems by (simp_all add: t(4) pins_def)
  then obtain u where u: "write_log_one k t = Inr u" "good p ?d u" "within t u"
      "view ?d u = v_put ?d (log_blk (log_start s) k) (cv_data (view ?d t) (?bs k)) (view ?d t)"
    using write_log_one_ok [of p t k "log_blk (log_start s) k" "?bs k" "view ?d t", unfolded W, OF t(2) kn log_blk_def refl ne refl h _ _ f]
    by blast
  have "\<forall>i<k. ?bs k \<noteq> log_blk (log_start s) i"
  proof (intro allI impI)
    show "?bs k \<noteq> log_blk (log_start s) i" if "i < k" for i by (rule L(4)) (use that Suc.prems in simp_all)
  qed
  then have "cv_data (view ?d t) (?bs k) = cv_data v (?bs k)"
    unfolding t(4) v_puts_simps by (intro upds_out) (auto simp: image_iff)
  then have "view ?d u = v_puts ?d (?w (Suc k)) v" using u(4) t(4) by simp
  then show ?case using t(1,3) u(1-3) within_trans [OF t(3) u(3)] by (simp add: efold_snoc)
qed

lemma install_loop:
  assumes g: "good p (log_dev s) s" and v: "v = view (log_dev s) s" "\<And>z. \<not> cv_held v z"
      "cv_ref v = (if r then (\<lambda>_. 0) else pins (lh_block s) {..<n})"
    and lay: "layout (log_start s) n (lh_block s)" and k: "k \<le> n"
  shows "\<exists>t. efold (install_one r) [0..<k] s = Inr t \<and> good p (log_dev s) t \<and> within s t
    \<and> view (log_dev s) t = (v_puts (log_dev s) (map (\<lambda>i. (lh_block s i, cv_data v (log_blk (log_start s) i))) [0..<k]) v)
        \<lparr>cv_ref := if r then (\<lambda>_. 0) else pins (lh_block s) {k..<n}\<rparr>"
  using k
proof (induction k)
  case 0
  then show ?case using g v(1,3) by (auto simp: lessThan_atLeast0)
next
  case (Suc k)
  let ?d = "log_dev s" and ?bs = "lh_block s" and ?w = "\<lambda>k. map (\<lambda>i. (lh_block s i, cv_data v (log_blk (log_start s) i))) [0..<k]"
  let ?R = "\<lambda>k. if r then (\<lambda>_. 0) else pins ?bs {k..<n}"
  obtain t where t: "efold (install_one r) [0..<k] s = Inr t" "good p ?d t" "within s t"
    "view ?d t = (v_puts ?d (?w k) v)\<lparr>cv_ref := ?R k\<rparr>"
    using Suc by auto
  note L = layoutD [OF lay] and W = within_log [OF t(3)]
  have f: "\<exists>b<NBUF. b_refcnt (bufs t b) = 0"
    by (rule free_under_pins [OF t(2), of ?bs "if r then {} else {k..<n}"]) (use L(1) in \<open>auto simp: t(4) pins_def\<close>)
  have ne: "?bs k \<noteq> log_blk (log_start s) k" using L(4) [of k k] Suc.prems by simp
  have kn: "k < LOGSIZE" using L(1) Suc.prems by simp
  have h: "\<not> cv_held (view ?d t) z" for z using v(2) by (simp add: t(4))
  have "log_blk (log_start s) k \<notin> ?bs ` {k..<n}" using L(4) [of _ k] Suc.prems by force
  then have r: "cv_ref (view ?d t) (log_blk (log_start s) k) = 0" "if r then \<forall>z. cv_ref (view ?d t) z = 0 else cv_ref (view ?d t) (?bs k) = 1"
    using Suc.prems by (simp_all add: t(4) pins_def)
  then obtain u where u: "install_one r k t = Inr u" "good p ?d u" "within t u"
      "view ?d u = (v_put ?d (?bs k) (cv_data (view ?d t) (log_blk (log_start s) k)) (view ?d t))\<lparr>cv_ref := (cv_ref (view ?d t))(?bs k := 0)\<rparr>"
    using install_one_ok [of p t k "log_blk (log_start s) k" "?bs k" "view ?d t" r, unfolded W, OF t(2) kn log_blk_def refl ne refl h _ _ f]
    by blast
  have "log_blk (log_start s) k \<noteq> ?bs i" if "i < k" for i using L(4) [of i k] Suc.prems that by simp
  then have "upds (?w k) (cv_data v) (log_blk (log_start s) k) = cv_data v (log_blk (log_start s) k)"
    by (intro upds_out) (auto simp: image_iff)
  then have "cv_data (view ?d t) (log_blk (log_start s) k) = cv_data v (log_blk (log_start s) k)" by (simp add: t(4))
  moreover have "(?R k)(?bs k := 0) = ?R (Suc k)"
    using pins_drop [OF L(2)] Suc.prems by (auto simp: fun_eq_iff)
  ultimately have "view ?d u = (v_puts ?d (?w (Suc k)) v)\<lparr>cv_ref := ?R (Suc k)\<rparr>"
    using u(4) t(4) by (simp add: v_put_def)
  then show ?case using t(1,3) u(1-3) within_trans [OF t(3) u(3)] by (simp add: efold_snoc)
qed

lemma log_fields [simp]:
  "good p d (s\<lparr>lh_n := n\<rparr>) = good p d s" "view d (s\<lparr>lh_n := n\<rparr>) = view d s"
  "good p d (s\<lparr>lh_block := f\<rparr>) = good p d s" "view d (s\<lparr>lh_block := f\<rparr>) = view d s"
  "at_buf d (s\<lparr>lh_n := n\<rparr>) x b = at_buf d s x b" "at_buf d (s\<lparr>lh_block := f\<rparr>) x b = at_buf d s x b"
  by (simp_all add: good_def quiet_def lock_free_def mycpu_def view_def at_buf_def cong: option.case_cong if_cong)

lemma write_head_loop:
  "k \<le> LOGSIZE \<Longrightarrow> efold (write_head_one b) [0..<k] s
    = Inr (upd_buf b (\<lambda>x. x\<lparr>b_data := fold (\<lambda>i a. blk_st a (4 + 4 * i) (lh_block s i)) [0..<k] (b_data x)\<rparr>) s)"
proof (induction k)
  case 0
  then show ?case by (simp add: upd_buf_def)
next
  case (Suc k)
  then show ?case by (simp add: efold_snoc write_head_one_def upd_buf_def)
qed

lemma read_head_loop:
  "k \<le> LOGSIZE \<Longrightarrow> efold (read_head_one b) [0..<k] s
    = Inr (s\<lparr>lh_block := \<lambda>i. if i < k then blk_ld (b_data (bufs s b)) (4 + 4 * i) else lh_block s i\<rparr>)"
proof (induction k)
  case (Suc k)
  let ?f = "\<lambda>k i. if i < k then blk_ld (b_data (bufs s b)) (4 + 4 * i) else lh_block s i"
  have "(?f k)(k := blk_ld (b_data (bufs s b)) (4 + 4 * k)) = ?f (Suc k)" by (auto simp: fun_eq_iff)
  then show ?case using Suc by (simp add: efold_snoc read_head_one_def)
qed simp

lemma write_head_ok:
  assumes g: "good p d s" and d: "d = log_dev s" and n: "0 \<le> lh_n s" "lh_n s \<le> int LOGSIZE"
    and v: "\<And>z. \<not> cv_held (view d s) z" "cv_ref (view d s) (log_start s) = 0"
    and free: "\<exists>b<NBUF. b_refcnt (bufs s b) = 0"
  obtains t where "write_head s = Inr t" "good p d t" "within s t"
    "view d t = v_put d (log_start s) (header (cv_data (view d s) (log_start s)) (nat (lh_n s)) (lh_block s)) (view d s)"
proof -
  let ?st = "log_start s" and ?n = "nat (lh_n s)"
  obtain b s1 where b: "bread d ?st s = Inr (b, s1)" "becomes p d s s1 (v_read ?st (view d s))" "at_buf d s1 ?st b"
    using bread_ok [OF g v(1), of ?st] v(2) free by auto
  note B = becomesD [OF b(2)] and W = within_log [OF becomesD(2) [OF b(2)]]
  have r: "cv_ref (view d s1) ?st \<noteq> 0" using v(2) by (simp add: B(4) v_read_def)
  let ?a = "header (cv_data (view d s) ?st) ?n (lh_block s)"
  let ?s2 = "upd_buf b (\<lambda>x. x\<lparr>b_data := ?a\<rparr>) s1"
  have "b_data (bufs s1 b) = cv_data (view d s) ?st" using used_buf(5) [OF B(1) b(3) r] by (simp add: B(4) v_read_def)
  then have loop: "efold (write_head_one b) [0..<nat (lh_n s1)]
      (upd_buf b (\<lambda>x. x\<lparr>b_data := blk_st (b_data x) 0 (word_of_int (lh_n s1))\<rparr>) s1) = Inr ?s2"
    using n by (simp add: write_head_loop W upd_buf_def header_def)
  note C = becomesD [OF store_ok [OF B(1) b(3) r, of ?a]]
  have a2: "at_buf d ?s2 ?st b" "cv_held (view d ?s2) ?st"
    using keepsD [OF C(3) b(3) r] by (simp_all add: C(4) B(4) v_defs)
  obtain s3 where s3: "bwrite b ?s2 = Inr s3" "becomes p d ?s2 s3 (v_write d ?st (view d ?s2))"
    using bwrite_ok [OF C(1) a2] by blast
  note D = becomesD [OF s3(2)]
  have a3: "at_buf d s3 ?st b" "cv_held (view d s3) ?st" "cv_data (view d s3) ?st = cv_disk (view d s3) ?st"
    using keepsD [OF D(3) a2(1)] held_used(1) [OF C(1) a2(2)] a2(2) unfolding D(4) by (simp_all add: v_defs)
  obtain t where t: "brelse b s3 = Inr t" "becomes p d s3 t (v_release ?st (view d s3))"
    using brelse_ok [OF D(1) a3(1,2)] a3(3) by metis
  note E = becomesD [OF t(2)]
  have "write_head s = Inr t" using b(1) loop s3(1) t(1) by (simp add: write_head_def d [symmetric] upd_buf_def)
  moreover have "within s t" using within_trans [OF within_trans [OF within_trans [OF B(2) C(2)] D(2)] E(2)] .
  moreover have "view d t = v_put d ?st ?a (view d s)"
    using v unfolding E(4) D(4) C(4) B(4) by (intro view_eqI) (auto simp: v_defs)
  ultimately show ?thesis using that E(1) by blast
qed

lemma read_head_ok:
  assumes g: "good p d s" and d: "d = log_dev s"
    and v: "\<And>z. \<not> cv_held (view d s) z" "cv_ref (view d s) (log_start s) = 0"
    and free: "\<exists>b<NBUF. b_refcnt (bufs s b) = 0"
    and h: "a = cv_data (view d s) (log_start s)" "sint (blk_ld a 0) \<le> int LOGSIZE"
  obtains t where "read_head s = Inr t" "good p d t" "view d t = view d s" "log_dev t = d" "log_start t = log_start s"
    "lh_n t = sint (blk_ld a 0)" "\<And>i. int i < sint (blk_ld a 0) \<Longrightarrow> lh_block t i = blk_ld a (4 + 4 * i)"
proof -
  let ?st = "log_start s"
  obtain b s1 where b: "bread d ?st s = Inr (b, s1)" "becomes p d s s1 (v_read ?st (view d s))" "at_buf d s1 ?st b"
    using bread_ok [OF g v(1), of ?st] v(2) free by auto
  note B = becomesD [OF b(2)] and W = within_log [OF becomesD(2) [OF b(2)]]
  have r: "cv_ref (view d s1) ?st \<noteq> 0" using v(2) by (simp add: B(4) v_read_def)
  have a: "b_data (bufs s1 b) = a" using used_buf(5) [OF B(1) b(3) r] by (simp add: B(4) v_read_def h(1))
  let ?f = "\<lambda>i. if i < nat (sint (blk_ld a 0)) then blk_ld a (4 + 4 * i) else lh_block s1 i"
  let ?s2 = "s1\<lparr>lh_n := sint (blk_ld a 0), lh_block := ?f\<rparr>"
  have loop: "efold (read_head_one b) [0..<nat (sint (blk_ld a 0))] (s1\<lparr>lh_n := sint (blk_ld a 0)\<rparr>) = Inr ?s2"
    using h(2) a by (simp add: read_head_loop cong: if_cong)
  have c: "cv_held (view d ?s2) ?st" "cv_data (view d ?s2) ?st = cv_disk (view d ?s2) ?st"
    using view_clean [OF goodD(2) [OF g] v(2)] unfolding log_fields B(4) by (simp_all add: v_defs)
  have e: "good p d ?s2" "at_buf d ?s2 ?st b" using B(1) b(3) unfolding log_fields .
  obtain t where t: "brelse b ?s2 = Inr t" "becomes p d ?s2 t (v_release ?st (view d ?s2))"
    by (rule brelse_ok [OF e c(1) c(2)])
  note E = becomesD [OF t(2)] and X = within_log [OF becomesD(2) [OF t(2)]]
  have "read_head s = Inr t" using b(1) loop t(1) a by (simp add: read_head_def d [symmetric])
  moreover have "view d t = view d s"
    using v unfolding E(4) log_fields B(4) by (intro view_eqI) (auto simp: v_defs)
  moreover have "lh_block t i = blk_ld a (4 + 4 * i)" if "int i < sint (blk_ld a 0)" for i
    using that by (simp add: X zless_nat_eq_int_zless)
  ultimately show ?thesis using that E(1) X(1,5,6) W(1,5) d by simp
qed

section \<open>Commit and recovery\<close>

lemma v_puts_append: "v_puts d (ps @ qs) v = v_puts d qs (v_puts d ps v)"
  by (simp add: v_puts_def upds_append)

lemma v_puts_one: "v_put d x a v = v_puts d [(x, a)] v"
  by (simp add: v_puts_def v_put_def upds_def)

text \<open>The blocks a commit writes, in order, when the cache holds \<open>f\<close>.\<close>

definition log_part :: "u32 \<Rightarrow> nat \<Rightarrow> (nat \<Rightarrow> u32) \<Rightarrow> (u32 \<Rightarrow> block) \<Rightarrow> (u32 \<times> block) list" where
  "log_part st n bs f = map (\<lambda>i. (log_blk st i, f (bs i))) [0..<n]"

definition home_part :: "nat \<Rightarrow> (nat \<Rightarrow> u32) \<Rightarrow> (u32 \<Rightarrow> block) \<Rightarrow> (u32 \<times> block) list" where
  "home_part n bs f = map (\<lambda>i. (bs i, f (bs i))) [0..<n]"

definition commit_writes :: "u32 \<Rightarrow> nat \<Rightarrow> (nat \<Rightarrow> u32) \<Rightarrow> (u32 \<Rightarrow> block) \<Rightarrow> (u32 \<times> block) list" where
  "commit_writes st n bs f = log_part st n bs f @ [(st, header (f st) n bs)] @ home_part n bs f
     @ [(st, header (header (f st) n bs) 0 bs)]"

lemma upds_log_part:
  assumes "layout st n bs"
  shows "i < n \<Longrightarrow> upds (log_part st n bs f) g (log_blk st i) = f (bs i)" "upds (log_part st n bs f) g st = g st"
    "(\<forall>i<n. z \<noteq> log_blk st i) \<Longrightarrow> upds (log_part st n bs f) g z = g z"
proof -
  have n: "n < 1000" using layoutD(1) [OF assms] by simp
  have "distinct (map fst (log_part st n bs f))"
    using n log_blk_inj(1) [of _ _ st] by (auto simp: log_part_def distinct_map inj_on_def comp_def)
  then show "upds (log_part st n bs f) g (log_blk st i) = f (bs i)" if "i < n"
    using that by (intro upds_in) (auto simp: log_part_def)
  show "upds (log_part st n bs f) g z = g z" if "\<forall>i<n. z \<noteq> log_blk st i" for z
    by (rule upds_out) (use that in \<open>auto simp: log_part_def\<close>)
  moreover have "\<forall>i<n. st \<noteq> log_blk st i" using log_blk_inj(2) [where st = st] n by (metis order.strict_trans)
  ultimately show "upds (log_part st n bs f) g st = g st" by blast
qed

lemma upds_home_part:
  assumes "layout st n bs"
  shows "i < n \<Longrightarrow> upds (home_part n bs f) g (bs i) = f (bs i)" "upds (home_part n bs f) g st = g st"
    "(\<forall>i<n. z \<noteq> bs i) \<Longrightarrow> upds (home_part n bs f) g z = g z"
proof -
  have "distinct (map fst (home_part n bs f))"
    using layoutD(2) [OF assms] by (auto simp: home_part_def distinct_map comp_def lessThan_atLeast0)
  then show "upds (home_part n bs f) g (bs i) = f (bs i)" if "i < n"
    using that by (intro upds_in) (auto simp: home_part_def)
  show "upds (home_part n bs f) g z = g z" if "\<forall>i<n. z \<noteq> bs i" for z
    by (rule upds_out) (use that in \<open>auto simp: home_part_def\<close>)
  moreover have "\<forall>i<n. st \<noteq> bs i" using layoutD(3) [OF assms] by metis
  ultimately show "upds (home_part n bs f) g st = g st" by blast
qed

text \<open>The state in which \<^verbatim>\<open>commit\<close> runs: the blocks of the transaction are pinned once each, nothing else is in use.\<close>

definition tx_ready :: "nat \<Rightarrow> 'a logst_scheme \<Rightarrow> bool" where
  "tx_ready p s \<longleftrightarrow> good p (log_dev s) s \<and> (\<forall>z. \<not> cv_held (view (log_dev s) s) z) \<and> 0 \<le> lh_n s
     \<and> layout (log_start s) (nat (lh_n s)) (lh_block s) \<and> cv_ref (view (log_dev s) s) = pins (lh_block s) {..<nat (lh_n s)}"

text \<open>Up to the write of the header: the log is on the disk, the home blocks are not.\<close>

lemma commit_log_phase:
  assumes r: "tx_ready p s" and n: "0 < lh_n s" and v: "v = view (log_dev s) s"
  obtains s1 t where "write_log s = Inr s1" "write_head s1 = Inr t" "good p (log_dev s) t" "within s t"
    "view (log_dev s) t = v_put (log_dev s) (log_start s) (header (cv_data v (log_start s)) (nat (lh_n s)) (lh_block s))
       (v_puts (log_dev s) (log_part (log_start s) (nat (lh_n s)) (lh_block s) (cv_data v)) v)"
proof -
  let ?d = "log_dev s" and ?st = "log_start s" and ?n = "nat (lh_n s)" and ?bs = "lh_block s"
  have g: "good p ?d s" and h: "\<And>z. \<not> cv_held v z" and lay: "layout ?st ?n ?bs" and ref: "cv_ref v = pins ?bs {..<?n}"
    using r v by (simp_all add: tx_ready_def)
  note L = layoutD [OF lay]
  have st: "?st \<notin> ?bs ` {..<?n}" using L(3) by force
  obtain s1 where s1: "write_log s = Inr s1" "good p ?d s1" "within s s1"
    "view ?d s1 = v_puts ?d (log_part ?st ?n ?bs (cv_data v)) v"
    using write_log_loop [OF g v h ref lay order_refl] by (auto simp: write_log_def log_part_def)
  note W1 = within_log [OF s1(3)]
  have f1: "\<exists>b<NBUF. b_refcnt (bufs s1 b) = 0"
    by (rule free_under_pins [OF s1(2), of ?bs "{..<?n}"]) (use L(1) ref in \<open>simp_all add: s1(4)\<close>)
  have v1: "\<not> cv_held (view ?d s1) z" "cv_ref (view ?d s1) (log_start s1) = 0" "cv_data (view ?d s1) (log_start s1) = cv_data v ?st"
    "0 \<le> lh_n s1" "lh_n s1 \<le> int LOGSIZE" for z
    using h ref st upds_log_part(2) [OF lay] n L(1) by (simp_all add: s1(4) pins_def W1)
  obtain t where t: "write_head s1 = Inr t" "good p ?d t" "within s1 t"
    "view ?d t = v_put ?d ?st (header (cv_data v ?st) ?n ?bs) (view ?d s1)"
    by (rule write_head_ok [OF s1(2) W1(5) [symmetric] v1(4,5) v1(1,2) f1]) (use v1(3) in \<open>simp only: W1\<close>)
  show ?thesis using that [OF s1(1) t(1,2) within_trans [OF s1(3) t(3)]] t(4) s1(4) by simp
qed

text \<open>From there on: the home blocks are written and the header cleared.  Recovery runs the same steps.\<close>

lemma install_clear:
  assumes g: "good p (log_dev s) s" and v: "v = view (log_dev s) s" "\<And>z. \<not> cv_held v z"
      "cv_ref v = (if r then (\<lambda>_. 0) else pins (lh_block s) {..<nat (lh_n s)})"
    and lay: "layout (log_start s) (nat (lh_n s)) (lh_block s)"
  obtains s1 t where "install_trans r s = Inr s1" "write_head (s1\<lparr>lh_n := 0\<rparr>) = Inr t" "good p (log_dev s) t"
    "lh_n t = 0" "log_start t = log_start s" "log_dev t = log_dev s" "outstanding t = outstanding s"
    "view (log_dev s) t = v_put (log_dev s) (log_start s) (header (cv_data v (log_start s)) 0 (lh_block s))
       ((v_puts (log_dev s) (map (\<lambda>i. (lh_block s i, cv_data v (log_blk (log_start s) i))) [0..<nat (lh_n s)]) v)\<lparr>cv_ref := \<lambda>_. 0\<rparr>)"
proof -
  let ?d = "log_dev s" and ?st = "log_start s" and ?n = "nat (lh_n s)" and ?bs = "lh_block s"
  let ?w = "map (\<lambda>i. (?bs i, cv_data v (log_blk ?st i))) [0..<?n]"
  note L = layoutD [OF lay]
  obtain s1 where s1: "install_trans r s = Inr s1" "good p ?d s1" "within s s1"
    "view ?d s1 = (v_puts ?d ?w v)\<lparr>cv_ref := \<lambda>_. 0\<rparr>"
    using install_loop [OF g v lay order_refl] by (auto simp: install_trans_def)
  note W = within_log [OF s1(3)]
  let ?s2 = "s1\<lparr>lh_n := 0\<rparr>"
  have d1: "upds ?w (cv_data v) ?st = cv_data v ?st" by (rule upds_out) (use L(3) in force)
  have f: "\<exists>b<NBUF. b_refcnt (bufs ?s2 b) = 0"
    by (rule free_under_pins [of p ?d _ ?bs "{}"]) (use s1(2) in \<open>simp_all add: s1(4)\<close>)
  have g2: "good p ?d ?s2" "\<And>z. \<not> cv_held (view ?d ?s2) z" "cv_ref (view ?d ?s2) (log_start ?s2) = 0" "?d = log_dev ?s2"
    using s1(2) v(2) by (simp_all add: s1(4) W)
  obtain t where t: "write_head ?s2 = Inr t" "good p ?d t" "within ?s2 t"
    "view ?d t = v_put ?d ?st (header (cv_data v ?st) 0 ?bs) (view ?d s1)"
    by (rule write_head_ok [OF g2(1,4) _ _ g2(2,3) f]) (simp_all add: d1 s1(4) W)
  show ?thesis using that [OF s1(1) t(1,2)] within_log [OF t(3)] t(4) s1(4) by (simp add: W)
qed

lemma commit_ok:
  assumes r: "tx_ready p s" and n: "0 < lh_n s" and v: "v = view (log_dev s) s"
  obtains t where "commit s = Inr t" "good p (log_dev s) t" "lh_n t = 0" "log_start t = log_start s" "log_dev t = log_dev s"
    "outstanding t = outstanding s" "view (log_dev s) t = (v_puts (log_dev s) (commit_writes (log_start s) (nat (lh_n s)) (lh_block s) (cv_data v)) v)
       \<lparr>cv_ref := \<lambda>_. 0\<rparr>"
proof -
  let ?d = "log_dev s" and ?st = "log_start s" and ?n = "nat (lh_n s)" and ?bs = "lh_block s"
  have h: "\<And>z. \<not> cv_held v z" and lay: "layout ?st ?n ?bs" and ref: "cv_ref v = pins ?bs {..<?n}"
    using r v by (simp_all add: tx_ready_def)
  obtain s1 s2 where s2: "write_log s = Inr s1" "write_head s1 = Inr s2" "good p ?d s2" "within s s2"
    "view ?d s2 = v_put ?d ?st (header (cv_data v ?st) ?n ?bs) (v_puts ?d (log_part ?st ?n ?bs (cv_data v)) v)"
    using commit_log_phase [OF r n v] by blast
  note W = within_log [OF s2(4)]
  have "cv_data (view ?d s2) (log_blk ?st i) = cv_data v (?bs i)" if "i < ?n" for i
    using that log_blk_inj(2) [of i i ?st] layoutD(1) [OF lay] upds_log_part(1) [OF lay, of i] by (simp add: s2(5))
  then have hp: "map (\<lambda>i. (?bs i, cv_data (view ?d s2) (log_blk ?st i))) [0..<?n] = home_part ?n ?bs (cv_data v)"
    by (simp add: home_part_def)
  have v2: "\<not> cv_held (view ?d s2) z" "cv_ref (view ?d s2) = (if False then (\<lambda>_. 0) else pins ?bs {..<?n})" for z
    using h ref by (simp_all add: s2(5))
  obtain s3 t where t: "install_trans False s2 = Inr s3" "write_head (s3\<lparr>lh_n := 0\<rparr>) = Inr t" "good p ?d t"
    "lh_n t = 0" "log_start t = ?st" "log_dev t = ?d" "outstanding t = outstanding s"
    "view ?d t = v_put ?d ?st (header (cv_data (view ?d s2) ?st) 0 ?bs) ((v_puts ?d (home_part ?n ?bs (cv_data v)) (view ?d s2))\<lparr>cv_ref := \<lambda>_. 0\<rparr>)"
    using install_clear [of p s2 "view ?d s2" False, unfolded W hp, OF s2(3) refl v2 lay] by blast
  have "commit s = Inr t" using n s2(1,2) t(1,2) by (simp add: commit_def)
  moreover have "view ?d t = (v_puts ?d (commit_writes ?st ?n ?bs (cv_data v)) v)\<lparr>cv_ref := \<lambda>_. 0\<rparr>"
    unfolding t(8) commit_writes_def v_puts_append v_puts_one [symmetric] s2(5) by (simp add: v_put_def v_puts_def)
  ultimately show ?thesis using that t(3-7) by blast
qed

definition log_n :: "block \<Rightarrow> int" where
  "log_n a = sint (blk_ld a 0)"

definition log_home :: "block \<Rightarrow> nat \<Rightarrow> u32" where
  "log_home a i = blk_ld a (4 + 4 * i)"

definition recover_writes :: "u32 \<Rightarrow> (u32 \<Rightarrow> block) \<Rightarrow> (u32 \<times> block) list" where
  "recover_writes st D = map (\<lambda>i. (log_home (D st) i, D (log_blk st i))) [0..<nat (log_n (D st))] @ [(st, blk_st (D st) 0 0)]"

lemma recover_ok:
  assumes g: "good p d s" and d: "d = log_dev s" and v: "\<And>z. \<not> cv_held (view d s) z" "cv_ref (view d s) = (\<lambda>_. 0)"
    and a: "a = disk s d (log_start s)" and lay: "layout (log_start s) (nat (log_n a)) (log_home a)"
  obtains t where "recover_from_log s = Inr t" "good p d t" "lh_n t = 0" "log_start t = log_start s" "log_dev t = d"
    "view d t = v_puts d (recover_writes (log_start s) (disk s d)) (view d s)"
proof -
  let ?st = "log_start s"
  have clean: "cv_data (view d s) = disk s d" using view_clean [OF goodD(2) [OF g]] v(2) by (simp add: fun_eq_iff)
  have f: "\<exists>b<NBUF. b_refcnt (bufs s b) = 0"
    by (rule free_under_pins [OF g, of "\<lambda>_. 0" "{}"]) (simp_all add: v(2))
  have le: "sint (blk_ld a 0) \<le> int LOGSIZE" using layoutD(1) [OF lay] by (simp add: log_n_def)
  have r0: "cv_ref (view d s) ?st = 0" "a = cv_data (view d s) ?st" by (simp_all add: v(2) clean a)
  obtain s1 where s1: "read_head s = Inr s1" "good p d s1" "view d s1 = view d s" "log_dev s1 = d" "log_start s1 = ?st"
    "lh_n s1 = sint (blk_ld a 0)" "\<And>i. int i < sint (blk_ld a 0) \<Longrightarrow> lh_block s1 i = blk_ld a (4 + 4 * i)"
    using read_head_ok [OF g d v(1) r0(1) f r0(2) le] by blast
  have b: "lh_block s1 i = log_home a i" if "i < nat (log_n a)" for i using s1(7) [of i] that by (simp add: log_home_def log_n_def)
  have l1: "layout ?st (nat (lh_n s1)) (lh_block s1)"
    using lay b by (simp add: layout_def s1(5,6) log_n_def inj_on_def)
  have v1: "\<And>z. \<not> cv_held (view d s1) z" "cv_ref (view d s1) = (if True then (\<lambda>_. 0) else pins (lh_block s1) {..<nat (lh_n s1)})"
    using s1(3) v by simp_all
  obtain s2 t where t: "install_trans True s1 = Inr s2" "write_head (s2\<lparr>lh_n := 0\<rparr>) = Inr t" "good p d t"
    "lh_n t = 0" "log_start t = ?st" "log_dev t = d" "outstanding t = outstanding s1"
    "view d t = v_put d ?st (header (cv_data (view d s1) ?st) 0 (lh_block s1))
       ((v_puts d (map (\<lambda>i. (lh_block s1 i, cv_data (view d s1) (log_blk ?st i))) [0..<nat (lh_n s1)]) (view d s1))\<lparr>cv_ref := \<lambda>_. 0\<rparr>)"
    by (rule install_clear [of p s1 "view d s1" True, unfolded s1(4,5), OF s1(2) refl v1 l1])
  have "map (\<lambda>i. (lh_block s1 i, cv_data (view d s1) (log_blk ?st i))) [0..<nat (lh_n s1)]
      = map (\<lambda>i. (log_home a i, disk s d (log_blk ?st i))) [0..<nat (log_n a)]"
    using b by (simp add: s1(3,6) clean log_n_def)
  then have "view d t = v_puts d (recover_writes ?st (disk s d)) (view d s)"
    unfolding t(8) recover_writes_def v_puts_append v_puts_one [symmetric] a [symmetric] s1(3)
    using v(2) clean by (simp add: v_put_def v_puts_def header_def a)
  moreover have "recover_from_log s = Inr t" using s1(1) t(1,2) by (simp add: recover_from_log_def)
  ultimately show ?thesis using that t(3-6) by blast
qed

section \<open>Crashes\<close>

lemma layout_0 [simp]: "layout st 0 bs"
  by (simp add: layout_def)

lemma layout_mono: "layout st n bs \<Longrightarrow> k \<le> n \<Longrightarrow> layout st k bs"
  by (auto simp: layout_def inj_on_def)

lemma layout_cong: "layout st n bs \<Longrightarrow> (\<And>i. i < n \<Longrightarrow> cs i = bs i) \<Longrightarrow> layout st n cs"
  by (simp add: layout_def inj_on_def)

lemma take_parts:
  "k \<le> n \<Longrightarrow> take k (log_part st n bs f) = log_part st k bs f"
  "k \<le> n \<Longrightarrow> take k (home_part n bs f) = home_part k bs f"
  "length (log_part st n bs f) = n" "length (home_part n bs f) = n"
  by (simp_all add: log_part_def home_part_def take_map)

lemma home_part_prefix:
  assumes "layout st n bs" "j \<le> n" "\<forall>i<n. z \<noteq> bs i"
  shows "upds (home_part j bs f) E z = E z"
  using upds_home_part(3) [OF layout_mono [OF assms(1,2)], of z f E] assms(2,3) by simp

lemma log_n_header: "n < LOGSIZE \<Longrightarrow> log_n (header a n bs) = int n" "log_n (blk_st a 0 0) = 0"
proof -
  assume "n < LOGSIZE"
  then have "sint (of_nat n :: u32) = int n" by (simp add: sint_uint uint_nat unat_of_nat signed_take_bit_int_eq_self)
  then show "log_n (header a n bs) = int n" by (simp add: log_n_def header_ld)
qed (simp add: log_n_def)

lemma log_home_header: "i < n \<Longrightarrow> log_home (header a n bs) i = bs i"
  by (simp add: log_home_def header_ld)

text \<open>What recovery makes of the disk \<open>E\<close>.\<close>

definition recovered :: "u32 \<Rightarrow> (u32 \<Rightarrow> block) \<Rightarrow> u32 \<Rightarrow> block" where
  "recovered st E = upds (recover_writes st E) E"

lemma recovered_empty: "log_n (E st) = 0 \<Longrightarrow> z \<noteq> st \<Longrightarrow> recovered st E z = E z"
  by (simp add: recovered_def recover_writes_def upds_def)

lemma recovered_full:
  assumes "layout st n bs" "E st = header a n bs" "\<And>i. i < n \<Longrightarrow> E (log_blk st i) = f (bs i)"
    "\<And>z. \<lbrakk>z \<noteq> st; \<forall>i<n. z \<noteq> log_blk st i; \<forall>i<n. z \<noteq> bs i\<rbrakk> \<Longrightarrow> E z = f z" "z \<noteq> st" "\<forall>i<n. z \<noteq> log_blk st i"
  shows "recovered st E z = f z"
proof -
  have "nat (log_n (E st)) = n" using log_n_header(1) [of n a bs] layoutD(1) [OF assms(1)] by (simp add: assms(2))
  then have "map (\<lambda>i. (log_home (E st) i, E (log_blk st i))) [0..<nat (log_n (E st))] = home_part n bs f"
    using assms(3) log_home_header [of _ n a bs] by (simp add: home_part_def assms(2))
  then have "recovered st E z = upds (home_part n bs f) E z"
    using assms(5) by (simp add: recovered_def recover_writes_def)
  also have "\<dots> = f z"
  proof (cases "\<exists>i<n. z = bs i")
    case True
    then show ?thesis using upds_home_part(1) [OF assms(1)] by auto
  next
    case False
    then show ?thesis using home_part_prefix [OF assms(1) order_refl, of z f E] assms(4-6) by auto
  qed
  finally show ?thesis .
qed

lemma crash_disk:
  assumes lay: "layout st n bs" and D: "log_n (D st) = 0" and f: "\<And>z. (\<forall>i<n. z \<noteq> bs i) \<Longrightarrow> f z = D z"
    and E: "E = upds (take k (commit_writes st n bs f)) D" and z: "z \<noteq> st" "\<forall>i<n. z \<noteq> log_blk st i"
  shows "layout st (nat (log_n (E st))) (log_home (E st))" "recovered st E z = (if k \<le> n then D z else f z)"
proof -
  let ?H = "header (f st) n bs"
  note HP = upds_home_part [OF lay] and LP = upds_log_part [OF lay]
  have n30: "n < LOGSIZE" using lay by (simp add: layout_def)
  consider "k \<le> n" | j where "k = n + 1 + j" "j \<le> n" | "2 * n + 2 \<le> k"
  proof -
    have "k = n + 1 + (k - n - 1)" "k - n - 1 \<le> n" if "\<not> k \<le> n" "\<not> 2 * n + 2 \<le> k" using that by linarith+
    then show ?thesis using that by blast
  qed
  then have "layout st (nat (log_n (E st))) (log_home (E st)) \<and> recovered st E z = (if k \<le> n then D z else f z)"
  proof cases
    case 1
    then have e: "E = upds (log_part st k bs f) D" by (simp add: E commit_writes_def take_parts)
    then have "E st = D st" "E z = D z" using upds_log_part(2,3) [OF layout_mono [OF lay 1]] z(2) 1 by simp_all
    then show ?thesis using D 1 z(1) by (simp add: recovered_empty)
  next
    case (2 j)
    then have e: "E = upds (home_part j bs f) ((upds (log_part st n bs f) D)(st := ?H))"
      by (simp add: E commit_writes_def take_parts upds_append upds_def)
    have "E st = ?H" using upds_home_part(2) [OF layout_mono [OF lay 2(2)]] by (simp add: e)
    moreover have "E (log_blk st i) = f (bs i)" if i: "i < n" for i
    proof -
      have "\<forall>j<n. log_blk st i \<noteq> bs j" using layoutD(4) [OF lay _ i] by metis
      then show ?thesis
        using home_part_prefix [OF lay 2(2), of "log_blk st i"] LP(1) [OF i] log_blk_inj(2) [of i i st] n30 i by (simp add: e)
    qed
    moreover have "E y = f y" if "y \<noteq> st" "\<forall>i<n. y \<noteq> log_blk st i" "\<forall>i<n. y \<noteq> bs i" for y
      using home_part_prefix [OF lay 2(2) that(3)] LP(3) [OF that(2)] f [OF that(3)] that(1) by (simp add: e)
    ultimately have "recovered st E z = f z" "log_n (E st) = int n"
      using recovered_full [OF lay, of E "f st" f z] z log_n_header(1) [OF n30] by simp_all
    then show ?thesis using 2(1) layout_cong [OF lay] log_home_header \<open>E st = ?H\<close> by simp
  next
    case 3
    then have e: "E = (upds (home_part n bs f) ((upds (log_part st n bs f) D)(st := ?H)))(st := header ?H 0 bs)"
      by (simp add: E commit_writes_def take_parts upds_append upds_def)
    then have l: "log_n (E st) = 0" using log_n_header(1) [of 0] by simp
    have "E z = f z"
    proof (cases "\<forall>i<n. z \<noteq> bs i")
      case True
      then show ?thesis using home_part_prefix [OF lay order_refl True] LP(3) [OF z(2)] f [OF True] z(1) by (simp add: e)
    next
      case False
      then obtain i where "i < n" "z = bs i" by blast
      then show ?thesis using HP(1) [of i] z(1) by (simp add: e)
    qed
    then show ?thesis using l z(1) 3 by (simp add: recovered_empty)
  qed
  then show "layout st (nat (log_n (E st))) (log_home (E st))" "recovered st E z = (if k \<le> n then D z else f z)"
    by blast+
qed

text \<open>A machine that comes up with the disk \<open>D\<close> and an empty cache.\<close>

definition booted :: "nat \<Rightarrow> u32 \<Rightarrow> u32 \<Rightarrow> (u32 \<Rightarrow> u32 \<Rightarrow> block) \<Rightarrow> 'a logst_scheme \<Rightarrow> bool" where
  "booted q d st D r \<longleftrightarrow> good q d r \<and> log_dev r = d \<and> log_start r = st \<and> disk r = D
     \<and> cv_ref (view d r) = (\<lambda>_. 0) \<and> (\<forall>z. \<not> cv_held (view d r) z)"

definition replay :: "(u32 \<times> u32 \<times> block) list \<Rightarrow> (u32 \<Rightarrow> u32 \<Rightarrow> block) \<Rightarrow> u32 \<Rightarrow> u32 \<Rightarrow> block" where
  "replay ws D = fold (\<lambda>(d, x, a) D. D(d := (D d)(x := a))) ws D"

lemma replay_upds: "replay (map (Pair d) ps) D d = upds ps (D d)"
  by (induction ps rule: rev_induct) (auto simp: replay_def)

lemma recover_booted:
  assumes "booted q d st D r" "layout st (nat (log_n (D d st))) (log_home (D d st))"
  obtains u where "recover_from_log r = Inr u" "disk u d = recovered st (D d)" "good q d u" "lh_n u = 0"
    "dwrites u = dwrites r @ map (Pair d) (recover_writes st (D d))"
proof -
  have b: "good q d r" "d = log_dev r" "\<And>z. \<not> cv_held (view d r) z" "cv_ref (view d r) = (\<lambda>_. 0)"
    "log_start r = st" "disk r = D"
    using assms(1) by (simp_all add: booted_def)
  obtain u where u: "recover_from_log r = Inr u" "good q d u" "lh_n u = 0"
    "view d u = v_puts d (recover_writes st (D d)) (view d r)"
    using recover_ok [OF b(1-4) refl] assms(2) by (auto simp: b(5,6))
  have "cv_disk (view d u) = recovered st (D d)" "cv_writes (view d u) = dwrites r @ map (Pair d) (recover_writes st (D d))"
    unfolding u(4) by (simp_all add: recovered_def b(6))
  then show ?thesis using that u(1-3) by simp
qed

lemma clean_outside:
  assumes "tx_ready p s" "\<forall>i<nat (lh_n s). z \<noteq> lh_block s i"
  shows "cv_data (view (log_dev s) s) z = disk s (log_dev s) z"
proof -
  have "cv_ref (view (log_dev s) s) z = 0" using assms by (auto simp: tx_ready_def pins_def)
  moreover have "good p (log_dev s) s" using assms(1) by (simp add: tx_ready_def)
  ultimately show ?thesis using view_clean [OF goodD(2)] by blast
qed

text \<open>
  C4: a commit is atomic under crashes.  Let \<^verbatim>\<open>commit\<close> run on a transaction of at most 29 blocks
  that are pinned in the cache, with the log on the disk empty.  Whatever prefix \<open>take k ws\<close> of its disk writes
  reached the disk before a crash, \<^verbatim>\<open>recover_from_log\<close> returns on the machine that comes up with that disk, and
  then every block outside the log holds the bytes from before the transaction, if the header of the log had not been
  written, and otherwise the bytes that the cache held when the commit started.
\<close>

theorem commit_crash_atomic:
  assumes "tx_ready p s" "0 < lh_n s" "log_n (disk s (log_dev s) (log_start s)) = 0"
  shows "\<exists>t ws. commit s = Inr t \<and> dwrites t = dwrites s @ ws \<and>
    (\<forall>k q r. booted q (log_dev s) (log_start s) (replay (take k ws) (disk s)) (r :: 'a logst_scheme) \<longrightarrow>
       (\<exists>u. recover_from_log r = Inr u \<and>
          (\<forall>z. z \<noteq> log_start s \<and> (\<forall>i<nat (lh_n s). z \<noteq> log_blk (log_start s) i) \<longrightarrow>
             disk u (log_dev s) z = (if k \<le> nat (lh_n s) then disk s (log_dev s) z else cv_data (view (log_dev s) s) z))))"
proof -
  let ?d = "log_dev s" and ?st = "log_start s" and ?n = "nat (lh_n s)" and ?f = "cv_data (view (log_dev s) s)"
  let ?ps = "commit_writes ?st ?n (lh_block s) ?f"
  obtain t where t: "commit s = Inr t" "view ?d t = (v_puts ?d ?ps (view ?d s))\<lparr>cv_ref := \<lambda>_. 0\<rparr>"
    using commit_ok [OF assms(1,2) refl] by blast
  let ?ws = "map (Pair ?d) ?ps"
  have "cv_writes (view ?d t) = dwrites s @ ?ws" unfolding t(2) by simp
  then have w: "dwrites t = dwrites s @ ?ws" by simp
  have lay: "layout ?st ?n (lh_block s)" using assms(1) by (simp add: tx_ready_def)
  have "\<exists>u. recover_from_log r = Inr u \<and> (\<forall>z. z \<noteq> ?st \<and> (\<forall>i<?n. z \<noteq> log_blk ?st i) \<longrightarrow>
      disk u ?d z = (if k \<le> ?n then disk s ?d z else ?f z))"
    if r: "booted q ?d ?st (replay (take k ?ws) (disk s)) (r :: 'a logst_scheme)" for k q r
  proof -
    let ?E = "upds (take k ?ps) (disk s ?d)"
    have E: "replay (take k ?ws) (disk s) ?d = ?E" by (simp add: take_map replay_upds)
    note c = crash_disk [where D = "disk s ?d" and f = ?f and E = ?E, OF lay assms(3) clean_outside [OF assms(1)] refl]
    have out: "\<exists>z. z \<noteq> ?st \<and> (\<forall>i<?n. z \<noteq> log_blk ?st i)"
    proof (intro exI conjI allI impI)
      have n: "?n < 30" using layoutD(1) [OF lay] .
      show "log_blk ?st 100 \<noteq> ?st" using log_blk_inj(2) [of 100 100] by simp
      show "log_blk ?st 100 \<noteq> log_blk ?st i" if "i < ?n" for i using log_blk_inj(1) [of 100 i] n that by simp
    qed
    then have "layout ?st (nat (log_n (?E ?st))) (log_home (?E ?st))" using c(1) by blast
    then obtain u where "recover_from_log r = Inr u" "disk u ?d = recovered ?st ?E"
      using recover_booted [OF r] unfolding E by blast
    then show ?thesis using c(2) by (intro exI [of _ u]) simp
  qed
  then show ?thesis using t(1) w by blast
qed

lemma recovered_again:
  assumes lay: "layout st (nat (log_n (E st))) (log_home (E st))" and F: "F = upds (take k (recover_writes st E)) E"
  shows "layout st (nat (log_n (F st))) (log_home (F st))"
    "z \<noteq> st \<Longrightarrow> recovered st F z = recovered st E z"
proof -
  let ?n = "nat (log_n (E st))" and ?bs = "log_home (E st)"
  let ?ps = "\<lambda>k. map (\<lambda>i. (?bs i, E (log_blk st i))) [0..<k]"
  note L = layoutD [OF lay]
  have r: "recovered st E z = upds (?ps ?n) E z" if "z \<noteq> st" using that by (simp add: recovered_def recover_writes_def)
  have "layout st (nat (log_n (F st))) (log_home (F st)) \<and> (z \<noteq> st \<longrightarrow> recovered st F z = recovered st E z)"
  proof (cases "k \<le> ?n")
    case True
    then have e: "F = upds (?ps k) E" by (simp add: F recover_writes_def take_map)
    have "\<forall>i<k. st \<noteq> ?bs i" "\<forall>j<?n. \<forall>i<k. log_blk st j \<noteq> ?bs i" using L(3,4) True by (metis order.strict_trans2)+
    then have st: "F st = E st" and sl: "\<forall>j<?n. F (log_blk st j) = E (log_blk st j)"
      unfolding e by (auto intro!: upds_out)
    have "recovered st F z = recovered st E z" if "z \<noteq> st"
    proof -
      have "map (\<lambda>i. (log_home (F st) i, F (log_blk st i))) [0..<nat (log_n (F st))] = ?ps ?n" using sl by (simp add: st)
      then have "recovered st F z = upds (?ps ?n) F z" using that by (simp add: recovered_def recover_writes_def)
      also have "\<dots> = upds (?ps ?n) E z"
      proof (cases "z \<in> fst ` set (?ps ?n)")
        case True
        then show ?thesis by (rule upds_same)
      next
        case False
        moreover have "fst ` set (?ps k) \<subseteq> fst ` set (?ps ?n)" using \<open>k \<le> ?n\<close> by fastforce
        ultimately have "F z = E z" unfolding e by (intro upds_out) blast
        then show ?thesis using False by (simp add: upds_out)
      qed
      finally show ?thesis using r [OF that] by simp
    qed
    then show ?thesis using lay st by simp
  next
    case False
    then have e: "F = recovered st E" by (simp add: F recovered_def recover_writes_def)
    then have "log_n (F st) = 0" using log_n_header(2) by (simp add: recovered_def recover_writes_def)
    then show ?thesis using recovered_empty [of F st z] by (simp add: e)
  qed
  then show "layout st (nat (log_n (F st))) (log_home (F st))"
    "z \<noteq> st \<Longrightarrow> recovered st F z = recovered st E z" by blast+
qed

text \<open>
  C17: recovery may itself crash.  When the machine goes down after any prefix of the disk writes of
  \<^verbatim>\<open>recover_from_log\<close> and comes up again, the second recovery returns and leaves on the disk what the first would
  have left, had it not been interrupted, in every block but the header.
\<close>

theorem recover_crash_safe:
  assumes "booted q d st D r" "layout st (nat (log_n (D d st))) (log_home (D d st))"
  shows "\<exists>u ws. recover_from_log r = Inr u \<and> dwrites u = dwrites r @ ws \<and>
    (\<forall>k q' r'. booted q' d st (replay (take k ws) D) (r' :: 'a logst_scheme) \<longrightarrow>
       (\<exists>u'. recover_from_log r' = Inr u' \<and> (\<forall>z. z \<noteq> st \<longrightarrow> disk u' d z = disk u d z)))"
proof -
  obtain u where u: "recover_from_log r = Inr u" "disk u d = recovered st (D d)"
    "dwrites u = dwrites r @ map (Pair d) (recover_writes st (D d))"
    using recover_booted [OF assms] by blast
  let ?ws = "map (Pair d) (recover_writes st (D d))"
  have "\<exists>u'. recover_from_log r' = Inr u' \<and> (\<forall>z. z \<noteq> st \<longrightarrow> disk u' d z = disk u d z)"
    if r': "booted q' d st (replay (take k ?ws) D) (r' :: 'a logst_scheme)" for k q' r'
  proof -
    let ?F = "upds (take k (recover_writes st (D d))) (D d)"
    have E: "replay (take k ?ws) D d = ?F" by (simp add: take_map replay_upds)
    note c = recovered_again [where E = "D d" and F = ?F, OF assms(2) refl]
    obtain u' where "recover_from_log r' = Inr u'" "disk u' d = recovered st ?F"
      using recover_booted [OF r'] c(1) unfolding E by blast
    then show ?thesis using c(2) u(2) by (intro exI [of _ u']) simp
  qed
  then show ?thesis using u(1,3) by blast
qed

section \<open>Recording blocks in a transaction\<close>

lemma log_hw [simp]:
  "log_start (settled s) = log_start s" "log_size (settled s) = log_size s" "outstanding (settled s) = outstanding s"
  "committing (settled s) = committing s" "log_dev (settled s) = log_dev s" "lh_n (settled s) = lh_n s"
  "lh_block (settled s) = lh_block s"
  "log_start (entered l s) = log_start s" "log_size (entered l s) = log_size s" "outstanding (entered l s) = outstanding s"
  "committing (entered l s) = committing s" "log_dev (entered l s) = log_dev s" "lh_n (entered l s) = lh_n s"
  "lh_block (entered l s) = lh_block s"
  by (simp_all add: settled_def set_mycpu_def entered_def)

lemma view_settled [simp]: "view d (settled s) = view d s"
  by (simp add: view_def cong: option.case_cong if_cong)

lemma good_settled: "good p d s \<Longrightarrow> good p d (settled s)"
  by (simp add: good_def quiet_upd)

definition logged :: "'a logst_scheme \<Rightarrow> u32 set" where
  "logged s = lh_block s ` {..<nat (lh_n s)}"

lemma log_slot_entered [simp]: "log_slot (entered l s) x = log_slot s x"
  by (simp add: log_slot_def cong: option.case_cong)

lemma log_slot_eq:
  assumes "0 \<le> lh_n s"
  shows "x \<in> logged s \<Longrightarrow> log_slot s x < nat (lh_n s) \<and> lh_block s (log_slot s x) = x"
    "x \<notin> logged s \<Longrightarrow> log_slot s x = nat (lh_n s)"
proof -
  let ?F = "find (\<lambda>i. lh_block s i = x) [0..<nat (lh_n s)]"
  show "log_slot s x < nat (lh_n s) \<and> lh_block s (log_slot s x) = x" if x: "x \<in> logged s"
  proof (cases ?F)
    case None
    then show ?thesis using x by (auto simp: find_None_iff logged_def)
  next
    case (Some i)
    then have "i \<in> set [0..<nat (lh_n s)]" "lh_block s i = x" by (metis (mono_tags, lifting) find_Some_iff nth_mem)+
    then show ?thesis by (simp add: log_slot_def Some)
  qed
  show "log_slot s x = nat (lh_n s)" if x: "x \<notin> logged s"
  proof -
    have "?F = None" using x by (auto simp: find_None_iff logged_def)
    then show ?thesis by (simp add: log_slot_def)
  qed
qed

lemma critical0_log:
  assumes "lock_free Lk_log s" "body (entered Lk_log s) = Inr ((entered Lk_log s)\<lparr>bufs := B, lh_n := n, lh_block := f\<rparr>)"
  shows "critical0 Lk_log body s = Inr ((settled s)\<lparr>bufs := B, lh_n := n, lh_block := f\<rparr>)"
proof -
  let ?t = "(entered Lk_log s)\<lparr>bufs := B, lh_n := n, lh_block := f\<rparr>"
  have "critical0 Lk_log body s = Inr (?t\<lparr>locks := locks s, cpus := cpus (settled s)\<rparr>)"
    by (rule critical0_leaf [where t = ?t]) (use assms in simp_all)
  moreover have "?t\<lparr>locks := locks s, cpus := cpus (settled s)\<rparr> = (settled s)\<lparr>bufs := B, lh_n := n, lh_block := f\<rparr>"
    by (cases s) (simp add: entered_def settled_def set_mycpu_def)
  ultimately show ?thesis by simp
qed

lemma log_upd_same:
  "bufs t = B \<Longrightarrow> lh_n t = n \<Longrightarrow> lh_block t = f \<Longrightarrow> t\<lparr>bufs := B, lh_n := n, lh_block := f\<rparr> = (t :: 'a logst_scheme)"
  "lh_block t = f \<Longrightarrow> t\<lparr>lh_block := f\<rparr> = t"
  by (cases t; simp)+

lemma log_write_new:
  assumes q: "quiet p s" and n: "0 \<le> lh_n s" "lh_n s < int LOGSIZE" "lh_n s < log_size s - 1" "1 \<le> outstanding s"
    and x: "b_blockno (bufs s b) = x" "x \<notin> logged s"
  shows "log_write b s = Inr ((settled s)\<lparr>bufs := (bufs s)(b := (bufs s b)\<lparr>b_refcnt := b_refcnt (bufs s b) + 1\<rparr>),
    lh_n := lh_n s + 1, lh_block := (lh_block s)(nat (lh_n s) := x)\<rparr>)"
proof -
  let ?e = "(entered Lk_log s)\<lparr>lh_block := (lh_block s)(nat (lh_n s) := x)\<rparr>"
  have "bpin b ?e = Inr ((settled ?e)\<lparr>bufs := (bufs s)(b := (bufs s b)\<lparr>b_refcnt := b_refcnt (bufs s b) + 1\<rparr>)\<rparr>)"
    unfolding bpin_def
    by (rule critical0_buf1) (use quietD(4) [OF q] in \<open>simp_all add: upd_buf_def lock_free_def entered_def\<close>)
  moreover have "settled ?e = ?e" by (rule settled_nested) (simp_all add: mycpu_def entered_def push_cpu_def)
  moreover have "log_slot (entered Lk_log s) x = nat (lh_n s)"
    using log_slot_eq(2) [OF n(1) x(2)] by simp
  ultimately show ?thesis
    unfolding log_write_def
    by (intro critical0_log) (use quietD(4) [OF q] n x(1) in \<open>simp_all add: log_write_body_def\<close>)
qed

lemma log_write_absorb:
  assumes q: "quiet p s" and n: "0 \<le> lh_n s" "lh_n s < int LOGSIZE" "lh_n s < log_size s - 1" "1 \<le> outstanding s"
    and x: "b_blockno (bufs s b) = x" "x \<in> logged s"
  shows "log_write b s = Inr (settled s)"
proof -
  note i = log_slot_eq(1) [OF n(1) x(2)]
  have "(lh_block s)(log_slot s x := x) = lh_block s" using i by (simp add: fun_upd_idem)
  then have "critical0 Lk_log (log_write_body b) s = Inr ((settled s)\<lparr>bufs := bufs s, lh_n := lh_n s, lh_block := lh_block s\<rparr>)"
    by (intro critical0_log)
      (use quietD(4) [OF q] n x(1) i in \<open>auto simp: log_write_body_def log_upd_same Let_def\<close>)
  then show ?thesis by (simp add: log_write_def log_upd_same)
qed

text \<open>
  C30: \<^verbatim>\<open>log_write\<close> records each block of a transaction once.  On a locked buffer, with the log not
  full and an operation under way, it adds the block to the logged blocks; a block that is logged already is absorbed
  and nothing else changes; a new one takes the next entry and its buffer is pinned by one more reference.  The
  entries stay distinct, and no bytes change in the cache or on the disk.
\<close>

theorem log_write_spec:
  assumes "good p (log_dev s) s" "at_buf (log_dev s) s x b" "cv_held (view (log_dev s) s) x" "cv_ref (view (log_dev s) s) x + 1 \<noteq> 0"
    "0 \<le> lh_n s" "lh_n s < int LOGSIZE" "lh_n s < log_size s - 1" "1 \<le> outstanding s" "inj_on (lh_block s) {..<nat (lh_n s)}"
  shows "\<exists>t. log_write b s = Inr t \<and> good p (log_dev s) t \<and> logged t = insert x (logged s)
    \<and> lh_n t = lh_n s + (if x \<in> logged s then 0 else 1) \<and> inj_on (lh_block t) {..<nat (lh_n t)}
    \<and> view (log_dev s) t = (view (log_dev s) s)\<lparr>cv_ref := (cv_ref (view (log_dev s) s))
        (x := cv_ref (view (log_dev s) s) x + (if x \<in> logged s then 0 else 1))\<rparr>"
proof -
  let ?d = "log_dev s" and ?n = "nat (lh_n s)"
  have q: "quiet p s" using goodD [OF assms(1)] by simp
  have r: "cv_ref (view ?d s) x \<noteq> 0" by (rule held_used(1) [OF assms(1,3)])
  have bx: "b_blockno (bufs s b) = x" using assms(2) by (simp add: at_buf_def is_buf_def)
  show ?thesis
  proof (cases "x \<in> logged s")
    case True
    then show ?thesis
      using log_write_absorb [OF q assms(5-8) bx True] good_settled [OF assms(1)] assms(9)
      by (simp add: logged_def insert_absorb)
  next
    case False
    let ?u = "(settled s)\<lparr>bufs := (bufs s)(b := (bufs s b)\<lparr>b_refcnt := b_refcnt (bufs s b) + 1\<rparr>)\<rparr>"
    let ?f = "(lh_block s)(?n := x)"
    let ?t = "(?u\<lparr>lh_n := lh_n s + 1\<rparr>)\<lparr>lh_block := ?f\<rparr>"
    have w: "log_write b s = Inr ?t" using log_write_new [OF q assms(5-8) bx False] by simp
    note B = becomesD [OF bref_ok [OF assms(1,2) r assms(4) refl]]
    have n: "nat (lh_n s + 1) = Suc ?n" using assms(5) by simp
    have "logged ?t = insert x (logged s)" "inj_on ?f {..<Suc ?n}"
      using assms(9) False by (auto simp: logged_def n lessThan_Suc inj_on_def)
    moreover have "good p ?d ?t" "view ?d ?t = v_ref x 1 (view ?d s)" using B(1,4) unfolding log_fields .
    ultimately show ?thesis using w n False by (simp add: v_ref_def)
  qed
qed

lemma log_write_full:
  assumes "lock_free Lk_log s" "log_size s - 1 \<le> lh_n s \<or> int LOGSIZE \<le> lh_n s"
  shows "log_write b s = Inl (Panic ''too big a transaction'')"
  unfolding log_write_def
  by (rule critical0_fault [OF assms(1)]) (use assms(2) in \<open>auto simp: log_write_body_def\<close>)

lemma critical_log:
  assumes "lock_free Lk_log s" "body (entered Lk_log s) = Inr (r, (entered Lk_log s)\<lparr>outstanding := n, committing := c\<rparr>)"
  shows "critical Lk_log body s = Inr (r, (settled s)\<lparr>outstanding := n, committing := c\<rparr>)"
proof -
  let ?t = "(entered Lk_log s)\<lparr>outstanding := n, committing := c\<rparr>"
  have "critical Lk_log body s = Inr (r, ?t\<lparr>locks := locks s, cpus := cpus (settled s)\<rparr>)"
    by (rule critical_leaf [where t = ?t]) (use assms in simp_all)
  moreover have "?t\<lparr>locks := locks s, cpus := cpus (settled s)\<rparr> = (settled s)\<lparr>outstanding := n, committing := c\<rparr>"
    by (cases s) (simp add: entered_def settled_def set_mycpu_def)
  ultimately show ?thesis by simp
qed

lemma end_op_tail:
  assumes "quiet p s"
  shows "critical0 Lk_log (\<lambda>s. wakeup Ch_log (s\<lparr>committing := False\<rparr>)) s
    = Inr ((settled s)\<lparr>committing := False, procs := wake_set Ch_log (Some p) {..<NPROC} (procs s)\<rparr>)"
proof -
  let ?e = "(entered Lk_log s)\<lparr>committing := False\<rparr>" and ?P = "wake_set Ch_log (Some p) {..<NPROC} (procs s)"
  have f: "lock_free l s" for l using quietD(4) [OF assms] .
  have "procs_free ?e" using f by (simp add: procs_free_def lock_free_def entered_def)
  moreover have "settled ?e = ?e" by (rule settled_nested) (simp_all add: mycpu_def entered_def push_cpu_def)
  moreover have "cpu_proc (mycpu ?e) = Some p"
    using quietD(2) [OF assms] by (simp add: mycpu_def entered_def push_cpu_def)
  ultimately have w: "wakeup Ch_log ?e = Inr (?e\<lparr>procs := ?P\<rparr>)" by (simp add: wakeup_eq)
  let ?t = "?e\<lparr>procs := ?P\<rparr>"
  have "critical0 Lk_log (\<lambda>s. wakeup Ch_log (s\<lparr>committing := False\<rparr>)) s = Inr (?t\<lparr>locks := locks s, cpus := cpus (settled s)\<rparr>)"
    by (rule critical0_leaf [where t = ?t]) (use f w in simp_all)
  moreover have "?t\<lparr>locks := locks s, cpus := cpus (settled s)\<rparr> = (settled s)\<lparr>committing := False, procs := ?P\<rparr>"
    by (cases s) (simp add: entered_def settled_def set_mycpu_def)
  ultimately show ?thesis by simp
qed

lemma log_fields2 [simp]:
  "good p d (s\<lparr>outstanding := n\<rparr>) = good p d s" "view d (s\<lparr>outstanding := n\<rparr>) = view d s"
  "good p d (s\<lparr>committing := c\<rparr>) = good p d s" "view d (s\<lparr>committing := c\<rparr>) = view d s"
  by (simp_all add: good_def quiet_def lock_free_def mycpu_def view_def cong: option.case_cong if_cong)

text \<open>
  C9: when the last operation of a transaction ends, \<^verbatim>\<open>end_op\<close> makes the transaction durable: it returns with an
  empty log, no commit under way, every block outside the log on the disk as the cache held it, and no
  other process left asleep waiting for the log.
\<close>

theorem end_op_durable:
  assumes "tx_ready p s" "0 < lh_n s" "outstanding s = 1" "\<not> committing s"
  shows "\<exists>t. end_op s = Inr t \<and> lh_n t = 0 \<and> outstanding t = 0 \<and> \<not> committing t
    \<and> (\<forall>z. z \<noteq> log_start s \<and> (\<forall>i<nat (lh_n s). z \<noteq> log_blk (log_start s) i) \<longrightarrow>
         disk t (log_dev s) z = cv_data (view (log_dev s) s) z)
    \<and> (\<forall>q<NPROC. q \<noteq> p \<longrightarrow> \<not> (state (procs t q) = SLEEPING \<and> chan (procs t q) = Ch_log))"
proof -
  let ?d = "log_dev s" and ?st = "log_start s" and ?n = "nat (lh_n s)" and ?f = "cv_data (view (log_dev s) s)"
  have g: "good p ?d s" and lay: "layout ?st ?n (lh_block s)" using assms(1) by (simp_all add: tx_ready_def)
  let ?s1 = "(settled s)\<lparr>outstanding := 0, committing := True\<rparr>"
  have c: "critical Lk_log end_op_body s = Inr (True, ?s1)"
    by (rule critical_log) (use quietD(4) [OF goodD(1) [OF g]] assms(3,4) in \<open>simp_all add: end_op_body_def\<close>)
  have "tx_ready p ?s1" using assms(1) good_settled [OF g] by (simp add: tx_ready_def)
  then obtain s2 where s2: "commit ?s1 = Inr s2" "good p ?d s2" "lh_n s2 = 0" "outstanding s2 = 0"
    "view ?d s2 = (v_puts ?d (commit_writes ?st ?n (lh_block s) ?f) (view ?d s))\<lparr>cv_ref := \<lambda>_. 0\<rparr>"
    using commit_ok [of p ?s1 "view ?d s"] assms(2) by auto
  let ?t = "(settled s2)\<lparr>committing := False, procs := wake_set Ch_log (Some p) {..<NPROC} (procs s2)\<rparr>"
  have e: "end_op s = Inr ?t" using c s2(1) end_op_tail [OF goodD(1) [OF s2(2)]] by (simp add: end_op_def)
  have "disk ?t ?d z = ?f z" if z: "z \<noteq> ?st" "\<forall>i<?n. z \<noteq> log_blk ?st i" for z
  proof -
    have "cv_disk (view ?d s2) z = upds (home_part ?n (lh_block s) ?f) ((upds (log_part ?st ?n (lh_block s) ?f) (disk s ?d))(?st := header (?f ?st) ?n (lh_block s))) z"
      unfolding s2(5) using z(1) by (simp add: commit_writes_def upds_append) (simp add: upds_def)
    also have "\<dots> = ?f z"
    proof (cases "\<forall>i<?n. z \<noteq> lh_block s i")
      case True
      then show ?thesis
        using home_part_prefix [OF lay order_refl True] upds_log_part(3) [OF lay z(2)] clean_outside [OF assms(1) True] z(1) by simp
    next
      case False
      then show ?thesis using upds_home_part(1) [OF lay] by auto
    qed
    finally show ?thesis by simp
  qed
  moreover have "\<not> (state (procs ?t q) = SLEEPING \<and> chan (procs ?t q) = Ch_log)" if "q < NPROC" "q \<noteq> p" for q
    using that by (simp add: wake_set_def woken_def)
  ultimately show ?thesis using e s2(3,4) by (intro exI [of _ ?t]) simp
qed

lemma begin_op_starts:
  assumes "quiet p s" "\<not> committing s" "lh_n s + (outstanding s + 1) * MAXOPBLOCKS \<le> int LOGSIZE"
  shows "begin_op s = Inr (None, (settled s)\<lparr>outstanding := outstanding s + 1\<rparr>)"
    "quiet p ((settled s)\<lparr>outstanding := outstanding s + 1\<rparr>)"
proof -
  let ?u = "(entered Lk_log s)\<lparr>outstanding := outstanding s + 1\<rparr>"
  let ?t = "?u\<lparr>locks := locks s, cpus := cpus (settled s)\<rparr>"
  have f: "lock_free l s" for l using quietD(4) [OF assms(1)] .
  have t: "?t = (settled s)\<lparr>outstanding := outstanding s + 1\<rparr>"
    by (cases s) (simp add: entered_def settled_def set_mycpu_def)
  have "release Lk_log ?u = Inr ?t" by (rule release_entered) (use f in simp_all)
  then show "begin_op s = Inr (None, (settled s)\<lparr>outstanding := outstanding s + 1\<rparr>)"
    using assms(2,3) f unfolding t by (simp add: begin_op_def acquire_free begin_op_round_def)
  show "quiet p ((settled s)\<lparr>outstanding := outstanding s + 1\<rparr>)" by (rule quiet_cong [OF assms(1)]) simp_all
qed

text \<open>
  C31: admission of operations.  \<^verbatim>\<open>begin_op\<close> starts the operation exactly when no commit is under way
  and the log has room for ten blocks for each operation that would then be running; the count of running operations
  goes up by one and their reservations fit into \<^verbatim>\<open>LOGSIZE\<close>.  Otherwise the process goes to sleep on the log and the
  count does not change.
\<close>

theorem begin_op_admission:
  assumes "quiet p s"
  shows "\<exists>r t. begin_op s = Inr (r, t) \<and>
    (r = None \<longleftrightarrow> \<not> committing s \<and> lh_n s + (outstanding s + 1) * MAXOPBLOCKS \<le> int LOGSIZE) \<and>
    (if r = None then outstanding t = outstanding s + 1 \<and> lh_n t + outstanding t * MAXOPBLOCKS \<le> int LOGSIZE \<and> quiet p t
     else outstanding t = outstanding s \<and> state (procs t p) = SLEEPING \<and> chan (procs t p) = Ch_log \<and> lock_free Lk_log t)"
proof -
  have f: "lock_free l s" for l using quietD(4) [OF assms] .
  show ?thesis
  proof (cases "\<not> committing s \<and> lh_n s + (outstanding s + 1) * MAXOPBLOCKS \<le> int LOGSIZE")
    case True
    then show ?thesis
      using begin_op_starts [OF assms] by (intro exI [of _ None] exI [of _ "(settled s)\<lparr>outstanding := outstanding s + 1\<rparr>"])
        (simp add: algebra_simps)
  next
    case False
    let ?t = "asleep p Ch_log Lk_log s"
    obtain i where i: "sleep_enter Ch_log Lk_log (entered Lk_log s) = Inr (i, ?t)"
      using sleep_enter_eq [of s p Lk_log Ch_log] quietD [OF assms] by blast
    then have "begin_op s = Inr (Some i, ?t)"
      using False f by (auto simp: begin_op_def acquire_free begin_op_round_def)
    moreover have "outstanding ?t = outstanding s" "lock_free Lk_log ?t"
      using f [of Lk_log] by (simp_all add: asleep_def upd_proc_def set_mycpu_def clear_locked_def clear_holder_def lock_free_def entered_def)
    ultimately show ?thesis using False by (intro exI [of _ "Some i"] exI [of _ ?t]) (simp add: procs_asleep)
  qed
qed

text \<open>New blocks, logged one after the other.\<close>

lemma log_write_run:
  assumes "quiet p s" "log_size s = int LOGSIZE" "lh_n s = 0" "1 \<le> outstanding s"
    "distinct (map (\<lambda>b. b_blockno (bufs s b)) bs)" "length bs < LOGSIZE"
  shows "\<exists>t. efold log_write bs s = Inr t \<and> quiet p t \<and> log_size t = log_size s \<and> outstanding t = outstanding s
    \<and> lh_n t = int (length bs) \<and> logged t = (\<lambda>b. b_blockno (bufs s b)) ` set bs
    \<and> (\<forall>b. b_blockno (bufs t b) = b_blockno (bufs s b))"
  using assms(5,6)
proof (induction bs rule: rev_induct)
  case Nil
  then show ?case using assms by (simp add: logged_def)
next
  case (snoc b bs)
  have bs: "distinct (map (\<lambda>b. b_blockno (bufs s b)) bs)" "length bs < LOGSIZE" using snoc.prems by simp_all
  obtain t where t: "efold log_write bs s = Inr t" "quiet p t" "log_size t = log_size s" "outstanding t = outstanding s"
    "lh_n t = int (length bs)" "logged t = (\<lambda>b. b_blockno (bufs s b)) ` set bs"
    "\<And>b. b_blockno (bufs t b) = b_blockno (bufs s b)"
    using snoc.IH [OF bs] by blast
  let ?x = "b_blockno (bufs s b)"
  let ?u = "(settled t)\<lparr>bufs := (bufs t)(b := (bufs t b)\<lparr>b_refcnt := b_refcnt (bufs t b) + 1\<rparr>),
    lh_n := lh_n t + 1, lh_block := (lh_block t)(nat (lh_n t) := ?x)\<rparr>"
  have "?x \<notin> logged t" using snoc.prems(1) unfolding t(6) by auto
  then have "log_write b t = Inr ?u"
    by (intro log_write_new [OF t(2)]) (use t(3-5,7) assms(2,4) snoc.prems(2) in simp_all)
  then have "efold log_write (bs @ [b]) s = Inr ?u" using t(1) by (simp add: efold_snoc)
  moreover have "quiet p ?u" by (rule quiet_cong [OF t(2)]) simp_all
  moreover have "logged ?u = insert ?x (logged t)"
    using t(5) by (auto simp: logged_def nat_add_distrib lessThan_Suc)
  ultimately show ?case using t(3-7) by (intro exI [of _ ?u]) auto
qed

text \<open>
  C32: the log is one block too small for what \<^verbatim>\<open>begin_op\<close> admits.  On a log of \<^verbatim>\<open>LOGSIZE\<close> blocks,
  the size that \<^verbatim>\<open>mkfs\<close> makes and one of which is the header, three operations are admitted to an empty log,
  each with a reservation of \<^verbatim>\<open>MAXOPBLOCKS\<close>, 30 blocks together.  The first 29 distinct blocks that they log are recorded;
  \<^verbatim>\<open>log_write\<close> of the 30th panics.
\<close>

theorem log_overflow:
  assumes "quiet p s" "log_size s = int LOGSIZE" "lh_n s = 0" "outstanding s = 0" "\<not> committing s"
    "int (length bs) = 3 * MAXOPBLOCKS" "distinct (map (\<lambda>b. b_blockno (bufs s b)) bs)"
  shows "\<exists>s1 s2 s3 t. begin_op s = Inr (None, s1) \<and> begin_op s1 = Inr (None, s2) \<and> begin_op s2 = Inr (None, s3)
    \<and> efold log_write (butlast bs) s3 = Inr t \<and> lh_n t = 3 * MAXOPBLOCKS - 1
    \<and> log_write (last bs) t = Inl (Panic ''too big a transaction'')"
proof -
  define s1 where "s1 = (settled s)\<lparr>outstanding := outstanding s + 1\<rparr>"
  define s2 where "s2 = (settled s1)\<lparr>outstanding := outstanding s1 + 1\<rparr>"
  define s3 where "s3 = (settled s2)\<lparr>outstanding := outstanding s2 + 1\<rparr>"
  have 1: "begin_op s = Inr (None, s1)" "quiet p s1"
    using begin_op_starts [OF assms(1)] assms(2-5) by (simp_all add: s1_def)
  have 2: "begin_op s1 = Inr (None, s2)" "quiet p s2"
    using begin_op_starts [OF 1(2)] assms(2-5) by (simp_all add: s1_def s2_def)
  have 3: "begin_op s2 = Inr (None, s3)" "quiet p s3"
    using begin_op_starts [OF 2(2)] assms(2-5) by (simp_all add: s1_def s2_def s3_def)
  have f: "log_size s3 = int LOGSIZE" "lh_n s3 = 0" "1 \<le> outstanding s3" "bufs s3 = bufs s"
    using assms(2-4) by (simp_all add: s1_def s2_def s3_def)
  have "distinct (map (\<lambda>b. b_blockno (bufs s3 b)) (butlast bs))" "length (butlast bs) < LOGSIZE"
    using assms(6) distinct_butlast [OF assms(7)] unfolding f(4) by (simp_all add: map_butlast)
  from log_write_run [OF 3(2) f(1-3) this] obtain t where
    t: "efold log_write (butlast bs) s3 = Inr t" "quiet p t" "log_size t = log_size s3" "lh_n t = int (length (butlast bs))" by blast
  have "log_write (last bs) t = Inl (Panic ''too big a transaction'')"
    by (rule log_write_full) (use quietD(4) [OF t(2)] t(3,4) f(1) assms(6) in simp_all)
  then show ?thesis using 1(1) 2(1) 3(1) t(1,4) assms(6) by auto
qed

section \<open>A concrete transaction\<close>

text \<open>The log starts at block 2; one operation runs and has written block 50, which the cache holds in buffer 0.\<close>

definition logst_of :: "(u32 \<Rightarrow> u32 \<Rightarrow> block) \<Rightarrow> logst" where
  "logst_of D = biost.extend (biost_of D) \<lparr>log_start = 2, log_size = 30, outstanding = 1, committing = False,
     log_dev = 1, lh_n = 0, lh_block = (\<lambda>_. 0)\<rparr>"

lemma logst_of_simps [simp]:
  "log_start (logst_of D) = 2" "log_size (logst_of D) = 30" "outstanding (logst_of D) = 1" "\<not> committing (logst_of D)"
  "log_dev (logst_of D) = 1" "lh_n (logst_of D) = 0" "disk (logst_of D) = D" "bufs (logst_of D) = bufs (biost_of D)"
  "lru (logst_of D) = lru (biost_of D)" "sleeplocks (logst_of D) = sleeplocks (biost_of D)" "dwrites (logst_of D) = []"
  "mycpu (logst_of D) = mycpu (biost_of D)" "locks (logst_of D) = locks (biost_of D)" "procs (logst_of D) = proc_run"
  by (simp_all add: logst_of_def biost.defs biost_of_def procst.defs mycpu_def procst_of_def kst.defs)

lemma logst_of_good: "good 1 1 (logst_of D)"
  using biost_of_good [of 1 D] by (simp add: good_def quiet_def lock_free_def)

lemma logst_of_view: "view 1 (logst_of D) = view 1 (biost_of D)"
  by (simp add: view_def cong: option.case_cong if_cong)

lemma logst_of_booted: "booted 1 1 2 D (logst_of D)"
  by (simp add: booted_def logst_of_good logst_of_view biost_of_view del: One_nat_def)

definition txst :: logst where
  "txst = (logst_of (\<lambda>_ _ _. 0))\<lparr>lh_n := 1, lh_block := \<lambda>_. 50,
     bufs := (bufs (biost_of (\<lambda>_ _ _. 0)))(0 := \<lparr>b_valid = True, b_dev = 1, b_blockno = 50, b_refcnt = 1, b_data = (\<lambda>_. 9)\<rparr>)\<rparr>"

lemma txst_simps [simp]:
  "log_start txst = 2" "log_size txst = 30" "outstanding txst = 1" "\<not> committing txst" "log_dev txst = 1" "lh_n txst = 1"
  "lh_block txst = (\<lambda>_. 50)" "disk txst = (\<lambda>_ _ _. 0)" "dwrites txst = []"
  by (simp_all add: txst_def)

lemma txst_cached: "cached 1 x (bufs txst) (lru txst) = (if x = 50 then Some 0 else None)"
proof -
  have "rev [0..<30] = [29,28,27,26,25,24,23,22,21,20,19,18,17,16,15,14,13,12,11,10,9,8,7,6,5,4,3,2,1,0::nat]"
    by (simp add: upt_rec)
  then show ?thesis by (simp add: cached_def is_buf_def txst_def)
qed

lemma txst_good: "good 1 1 txst"
  using logst_of_good [of "\<lambda>_ _ _. 0"]
  by (auto simp: txst_def good_def quiet_def lock_free_def mycpu_def cache_ok_def held_ok_def)

lemma txst_view:
  "view 1 txst = \<lparr>cv_data = (\<lambda>x. if x = 50 then (\<lambda>_. 9) else (\<lambda>_. 0)), cv_ref = (\<lambda>x. if x = 50 then 1 else 0),
     cv_held = (\<lambda>_. False), cv_disk = (\<lambda>_ _. 0), cv_writes = []\<rparr>"
  unfolding view_def txst_cached by (auto simp: txst_def fun_eq_iff)

lemma txst_ready: "tx_ready 1 txst"
  by (auto simp: tx_ready_def txst_good txst_view layout_def log_blk_def pins_def fun_eq_iff inj_on_def simp del: One_nat_def)

theorem end_op_durable_witness: "\<exists>t. end_op txst = Inr t \<and> lh_n t = 0 \<and> disk t 1 50 = (\<lambda>_. 9)"
  using end_op_durable [OF txst_ready] by (auto simp: txst_view log_blk_def)

lemma log_n_zero: "log_n (\<lambda>_. 0) = 0"
  by (simp add: log_n_def blk_ld_def)

theorem commit_crash_atomic_witness:
  "\<exists>t ws. commit txst = Inr t \<and> dwrites t = ws \<and>
     (\<exists>u. recover_from_log (logst_of (replay (take 1 ws) (\<lambda>_ _ _. 0))) = Inr u \<and> disk u 1 50 = (\<lambda>_. 0)) \<and>
     (\<exists>u. recover_from_log (logst_of (replay (take 2 ws) (\<lambda>_ _ _. 0))) = Inr u \<and> disk u 1 50 = (\<lambda>_. 9))"
proof -
  obtain t ws where t: "commit txst = Inr t" "dwrites t = ws"
    "\<And>k q r. booted q 1 2 (replay (take k ws) (\<lambda>_ _ _. 0)) (r :: logst) \<Longrightarrow> \<exists>u. recover_from_log r = Inr u \<and>
       (\<forall>z. z \<noteq> 2 \<and> z \<noteq> 3 \<longrightarrow> disk u 1 z = (if k \<le> 1 then (\<lambda>_. 0) else cv_data (view 1 txst) z))"
    using commit_crash_atomic [OF txst_ready] by (auto simp: log_n_zero log_blk_def cong: if_cong)
  show ?thesis
    using t(1,2) t(3) [OF logst_of_booted, of 1] t(3) [OF logst_of_booted, of 2] by (auto simp: txst_view)
qed

theorem recover_crash_safe_witness:
  "\<exists>u ws. recover_from_log (logst_of (\<lambda>_ _ _. 0)) = Inr u \<and> dwrites u = ws \<and>
     (\<exists>u'. recover_from_log (logst_of (replay (take 1 ws) (\<lambda>_ _ _. 0))) = Inr u' \<and> disk u' 1 50 = disk u 1 50)"
proof -
  obtain u ws where u: "recover_from_log (logst_of (\<lambda>_ _ _. 0)) = Inr u" "dwrites u = ws"
    "\<And>k q r. booted q 1 2 (replay (take k ws) (\<lambda>_ _ _. 0)) (r :: logst) \<Longrightarrow>
       \<exists>u'. recover_from_log r = Inr u' \<and> (\<forall>z. z \<noteq> 2 \<longrightarrow> disk u' 1 z = disk u 1 z)"
    using recover_crash_safe [OF logst_of_booted, of "\<lambda>_ _ _. 0"] by (auto simp: log_n_zero)
  show ?thesis using u(1,2) u(3) [OF logst_of_booted, of 1] by auto
qed

theorem begin_op_admission_witness:
  "\<exists>t. begin_op (logst_of (\<lambda>_ _ _. 0)) = Inr (None, t) \<and> outstanding t = 2"
  using begin_op_admission [OF goodD(1) [OF logst_of_good], of "\<lambda>_ _ _. 0"] by auto

text \<open>Every buffer holds a block of its own.\<close>

theorem log_overflow_witness:
  "\<exists>s1 s2 s3 t. begin_op ((logst_of (\<lambda>_ _ _. 0))\<lparr>outstanding := 0,
       bufs := \<lambda>b. \<lparr>b_valid = True, b_dev = 1, b_blockno = of_nat b + 50, b_refcnt = 0, b_data = (\<lambda>_. 0)\<rparr>\<rparr>) = Inr (None, s1)
    \<and> begin_op s1 = Inr (None, s2) \<and> begin_op s2 = Inr (None, s3) \<and> efold log_write (butlast [0..<30]) s3 = Inr t
    \<and> log_write (last [0..<30]) t = Inl (Panic ''too big a transaction'')"
proof -
  let ?s = "(logst_of (\<lambda>_ _ _. 0))\<lparr>outstanding := 0,
    bufs := \<lambda>b. \<lparr>b_valid = True, b_dev = 1, b_blockno = of_nat b + 50, b_refcnt = 0, b_data = (\<lambda>_. 0)\<rparr>\<rparr>"
  have q: "quiet 1 ?s" using goodD(1) [OF logst_of_good [of "\<lambda>_ _ _. 0"]] by (simp add: quiet_def lock_free_def mycpu_def)
  have "inj_on (\<lambda>b. of_nat b + 50 :: u32) {0..<30}"
    by (rule inj_onI) (simp add: word_of_nat_eq_iff take_bit_nat_eq_self)
  then have "distinct (map (\<lambda>b. b_blockno (bufs ?s b)) [0..<30])" by (simp add: distinct_map del: upt_conv_Cons)
  from log_overflow [OF q _ _ _ _ _ this] show ?thesis by (simp del: upt_conv_Cons) blast
qed

text \<open>Buffer 0 locked by the running process.\<close>

definition txst_locked :: logst where
  "txst_locked = txst\<lparr>lh_n := 0, sleeplocks := (sleeplocks txst)(0 := \<lparr>slk_locked = True, slk_name = [], slk_pid = 7\<rparr>)\<rparr>"

lemma txst_locked_good: "good 1 1 txst_locked"
  using txst_good
  by (auto simp: txst_locked_def good_def quiet_def lock_free_def mycpu_def held_ok_def txst_def proc_run_def)

lemma txst_locked_simps [simp]:
  "log_size txst_locked = 30" "outstanding txst_locked = 1" "log_dev txst_locked = 1" "lh_n txst_locked = 0"
  by (simp_all add: txst_locked_def)

lemma txst_locked_view: "view 1 txst_locked = (view 1 txst)\<lparr>cv_held := \<lambda>x. x = 50\<rparr>"
proof -
  have "cached 1 x (bufs txst_locked) (lru txst_locked) = (if x = 50 then Some 0 else None)" for x
    using txst_cached [of x] by (simp add: txst_locked_def)
  then show ?thesis unfolding txst_view view_def by (auto simp: txst_locked_def txst_def fun_eq_iff)
qed

theorem log_write_spec_witness: "\<exists>t. log_write 0 txst_locked = Inr t \<and> lh_n t = 1 \<and> logged t = {50}"
proof -
  have "at_buf 1 txst_locked 50 0" by (simp add: at_buf_def is_buf_def txst_locked_def txst_def)
  then show ?thesis
    using log_write_spec [of 1 txst_locked 50 0] txst_locked_good
    by (auto simp: txst_locked_view txst_view logged_def simp del: One_nat_def)
qed

end
