(* ===== verification/Fs.thy ===== *)
theory Fs
  imports Log
begin

text \<open>
  The file system below directories, \<^verbatim>\<open>kernel/fs.c\<close>: the super block, the allocator of disk blocks, the
  inodes on the disk and in memory, and the contents of files.  An in-memory inode is an index into \<open>itable\<close>;
  its sleep lock has number \<open>NBUF + ip\<close>.

  \<^verbatim>\<open>readi\<close> and \<^verbatim>\<open>writei\<close> move bytes between the blocks of a file and a place in user memory, in kernel
  memory, or in a local variable of the kernel; a local variable is not part of the memory of the model, so
  \<open>readi\<close> returns the bytes it moved and \<open>writei\<close> takes them as an argument.  A process that has to wait for the sleep
  lock of an inode ends in \<open>Spin\<close>.
\<close>

definition BSIZE :: nat where BSIZE_def [simp]: "BSIZE = 1024"
definition BPB :: nat where BPB_def [simp]: "BPB = 8192"
definition IPB :: nat where IPB_def [simp]: "IPB = 16"
definition NDIRECT :: nat where NDIRECT_def [simp]: "NDIRECT = 12"
definition NINDIRECT :: nat where NINDIRECT_def [simp]: "NINDIRECT = 256"
definition MAXFILE :: nat where MAXFILE_def [simp]: "MAXFILE = 268"
definition FSMAGIC :: u32 where "FSMAGIC = 0x10203040"
definition T_DIR :: int where "T_DIR = 1"
definition T_FILE :: int where "T_FILE = 2"
definition T_DEVICE :: int where "T_DEVICE = 3"

record fsst = logst +
  sblock :: superblock

definition IBLOCK :: "u32 \<Rightarrow> superblock \<Rightarrow> u32" where
  "IBLOCK i sb = i div of_nat IPB + sb_inodestart sb"

definition BBLOCK :: "u32 \<Rightarrow> superblock \<Rightarrow> u32" where
  "BBLOCK b sb = b div of_nat BPB + sb_bmapstart sb"

definition upd_inode :: "nat \<Rightarrow> (inode \<Rightarrow> inode) \<Rightarrow> 'a filest_scheme \<Rightarrow> 'a filest_scheme" where
  "upd_inode ip f s = s\<lparr>itable := (itable s)(ip := f (itable s ip))\<rparr>"

definition set_data :: "nat \<Rightarrow> block \<Rightarrow> 'a biost_scheme \<Rightarrow> 'a biost_scheme" where
  "set_data b a s = upd_buf b (\<lambda>x. x\<lparr>b_data := a\<rparr>) s"

text \<open>16-bit integers inside a block, and the bytes from an offset on.\<close>

definition blk_ld16 :: "block \<Rightarrow> nat \<Rightarrow> u16" where
  "blk_ld16 a k = ucast (a k) OR push_bit 8 (ucast (a (k + 1)))"

definition blk_st16 :: "block \<Rightarrow> nat \<Rightarrow> u16 \<Rightarrow> block" where
  "blk_st16 a k v = a(k := ucast v, k + 1 := ucast (drop_bit 8 v))"

definition blk_get :: "block \<Rightarrow> nat \<Rightarrow> nat \<Rightarrow> u8 list" where
  "blk_get a k n = map (\<lambda>i. a (k + i)) [0..<n]"

definition blk_put :: "block \<Rightarrow> nat \<Rightarrow> u8 list \<Rightarrow> block" where
  "blk_put a k bs = (\<lambda>i. if k \<le> i \<and> i < k + length bs then bs ! (i - k) else a i)"

section \<open>Super block\<close>

definition sb_decode :: "block \<Rightarrow> superblock" where
  "sb_decode a = \<lparr>sb_magic = blk_ld a 0, sb_size = blk_ld a 4, sb_nblocks = blk_ld a 8, sb_ninodes = blk_ld a 12,
     sb_nlog = blk_ld a 16, sb_logstart = blk_ld a 20, sb_inodestart = blk_ld a 24, sb_bmapstart = blk_ld a 28\<rparr>"

definition readsb :: "u32 \<Rightarrow> 'a fsst_scheme \<Rightarrow> 'a fsst_scheme res" where
  "readsb dv s =
     ebind (bread dv 1 s) (\<lambda>(bp, s).
     brelse bp (s\<lparr>sblock := sb_decode (b_data (bufs s bp))\<rparr>))"

definition fsinit :: "u32 \<Rightarrow> 'a fsst_scheme \<Rightarrow> 'a fsst_scheme res" where
  "fsinit dv s =
     ebind (readsb dv s) (\<lambda>s.
     if sb_magic (sblock s) \<noteq> FSMAGIC then Inl (Panic ''invalid file system'')
     else initlog dv (sblock s) s)"

section \<open>Disk blocks\<close>

definition bzero :: "u32 \<Rightarrow> u32 \<Rightarrow> 'a fsst_scheme \<Rightarrow> 'a fsst_scheme res" where
  "bzero dv bno s =
     ebind (bread dv bno s) (\<lambda>(bp, s).
     ebind (log_write bp (set_data bp (\<lambda>_. 0) s)) (brelse bp))"

definition bit_mask :: "nat \<Rightarrow> u8" where
  "bit_mask bi = push_bit (bi mod 8) 1"

definition bit_free :: "block \<Rightarrow> nat \<Rightarrow> bool" where
  "bit_free a bi \<longleftrightarrow> a (bi div 8) AND bit_mask bi = 0"

fun balloc_loop :: "u32 \<Rightarrow> nat list \<Rightarrow> 'a fsst_scheme \<Rightarrow> (u32 \<times> 'a fsst_scheme) res" where
  "balloc_loop dv [] s = Inr (0, s)"
| "balloc_loop dv (b # bs) s =
     ebind (bread dv (BBLOCK (of_nat b) (sblock s)) s) (\<lambda>(bp, s).
     let a = b_data (bufs s bp)
     in case find (bit_free a) [0..<min BPB (unat (sb_size (sblock s)) - b)] of
          Some bi \<Rightarrow>
            ebind (log_write bp (set_data bp (a(bi div 8 := a (bi div 8) OR bit_mask bi)) s)) (\<lambda>s.
            ebind (brelse bp s) (\<lambda>s.
            ebind (bzero dv (of_nat (b + bi)) s) (\<lambda>s.
            Inr (of_nat (b + bi), s))))
        | None \<Rightarrow> ebind (brelse bp s) (balloc_loop dv bs))"

definition balloc :: "u32 \<Rightarrow> 'a fsst_scheme \<Rightarrow> (u32 \<times> 'a fsst_scheme) res" where
  "balloc dv s = balloc_loop dv (map (\<lambda>k. k * BPB) [0..<(unat (sb_size (sblock s)) + BPB - 1) div BPB]) s"

definition bfree :: "u32 \<Rightarrow> u32 \<Rightarrow> 'a fsst_scheme \<Rightarrow> 'a fsst_scheme res" where
  "bfree dv b s =
     ebind (bread dv (BBLOCK b (sblock s)) s) (\<lambda>(bp, s).
     let a = b_data (bufs s bp); bi = unat b mod BPB
     in if bit_free a bi then Inl (Panic ''freeing free block'')
        else ebind (log_write bp (set_data bp (a(bi div 8 := a (bi div 8) AND NOT (bit_mask bi))) s)) (brelse bp))"

section \<open>Inodes\<close>

definition iinit :: "'a fsst_scheme \<Rightarrow> 'a fsst_scheme" where
  "iinit s = fold (\<lambda>i. initsleeplock (NBUF + i) ''inode'') [0..<NINODE] (initlock Lk_itable ''itable'' s)"

definition take_sleeplock :: "nat \<Rightarrow> 'a slst_scheme \<Rightarrow> 'a slst_scheme res" where
  "take_sleeplock n s =
     ebind (acquiresleep n s) (\<lambda>(sleeping, s). case sleeping of None \<Rightarrow> Inr s | Some _ \<Rightarrow> Inl Spin)"

text \<open>The on-disk inode at byte \<open>k\<close> of a block.\<close>

definition dinode_at :: "u32 \<Rightarrow> nat" where
  "dinode_at inum = unat inum mod IPB * 64"

definition dinode_load :: "block \<Rightarrow> nat \<Rightarrow> inode \<Rightarrow> inode" where
  "dinode_load a k i = i\<lparr>i_type := sint (blk_ld16 a k), i_major := sint (blk_ld16 a (k + 2)),
     i_minor := sint (blk_ld16 a (k + 4)), i_nlink := sint (blk_ld16 a (k + 6)), i_size := blk_ld a (k + 8),
     i_addrs := (\<lambda>j. if j \<le> NDIRECT then blk_ld a (k + 12 + 4 * j) else i_addrs i j)\<rparr>"

definition dinode_store :: "inode \<Rightarrow> nat \<Rightarrow> block \<Rightarrow> block" where
  "dinode_store i k a =
     fold (\<lambda>j a. blk_st a (k + 12 + 4 * j) (i_addrs i j)) [0..<NDIRECT + 1]
       (blk_st
         (blk_st16
           (blk_st16
             (blk_st16 (blk_st16 a k (word_of_int (i_type i))) (k + 2) (word_of_int (i_major i)))
             (k + 4) (word_of_int (i_minor i)))
           (k + 6) (word_of_int (i_nlink i)))
         (k + 8) (i_size i))"

definition iget_body :: "u32 \<Rightarrow> u32 \<Rightarrow> 'a filest_scheme \<Rightarrow> (nat \<times> 'a filest_scheme) res" where
  "iget_body dv inum s =
     (case find (\<lambda>i. i_ref (itable s i) > 0 \<and> i_dev (itable s i) = dv \<and> i_inum (itable s i) = inum) [0..<NINODE] of
        Some i \<Rightarrow> Inr (i, upd_inode i (\<lambda>x. x\<lparr>i_ref := i_ref x + 1\<rparr>) s)
      | None \<Rightarrow>
          (case find (\<lambda>i. i_ref (itable s i) = 0) [0..<NINODE] of
             None \<Rightarrow> Inl (Panic ''iget: no inodes'')
           | Some i \<Rightarrow> Inr (i, upd_inode i (\<lambda>x. x\<lparr>i_dev := dv, i_inum := inum, i_ref := 1, i_valid := False\<rparr>) s)))"

definition iget :: "u32 \<Rightarrow> u32 \<Rightarrow> 'a filest_scheme \<Rightarrow> (nat \<times> 'a filest_scheme) res" where
  "iget dv inum = critical Lk_itable (iget_body dv inum)"

fun ialloc_loop :: "u32 \<Rightarrow> int \<Rightarrow> nat list \<Rightarrow> 'a fsst_scheme \<Rightarrow> (nat option \<times> 'a fsst_scheme) res" where
  "ialloc_loop dv ty [] s = Inr (None, s)"
| "ialloc_loop dv ty (inum # inums) s =
     ebind (bread dv (IBLOCK (of_nat inum) (sblock s)) s) (\<lambda>(bp, s).
     let a = b_data (bufs s bp); k = dinode_at (of_nat inum)
     in if blk_ld16 a k = 0
        then ebind (log_write bp (set_data bp (blk_st16 (blk_put a k (replicate 64 0)) k (word_of_int ty)) s)) (\<lambda>s.
             ebind (brelse bp s) (\<lambda>s.
             ebind (iget dv (of_nat inum) s) (\<lambda>(ip, s). Inr (Some ip, s))))
        else ebind (brelse bp s) (ialloc_loop dv ty inums))"

definition ialloc :: "u32 \<Rightarrow> int \<Rightarrow> 'a fsst_scheme \<Rightarrow> (nat option \<times> 'a fsst_scheme) res" where
  "ialloc dv ty s = ialloc_loop dv ty [1..<unat (sb_ninodes (sblock s))] s"

definition iupdate :: "nat \<Rightarrow> 'a fsst_scheme \<Rightarrow> 'a fsst_scheme res" where
  "iupdate ip s =
     ebind (bread (i_dev (itable s ip)) (IBLOCK (i_inum (itable s ip)) (sblock s)) s) (\<lambda>(bp, s).
     ebind (log_write bp
       (set_data bp (dinode_store (itable s ip) (dinode_at (i_inum (itable s ip))) (b_data (bufs s bp))) s)) (brelse bp))"

definition ilock_read :: "nat \<Rightarrow> 'a fsst_scheme \<Rightarrow> 'a fsst_scheme res" where
  "ilock_read ip s =
     ebind (bread (i_dev (itable s ip)) (IBLOCK (i_inum (itable s ip)) (sblock s)) s) (\<lambda>(bp, s).
     ebind (brelse bp (upd_inode ip (dinode_load (b_data (bufs s bp)) (dinode_at (i_inum (itable s ip)))) s)) (\<lambda>s.
     let s = upd_inode ip (\<lambda>x. x\<lparr>i_valid := True\<rparr>) s
     in if i_type (itable s ip) = 0 then Inl (Panic ''ilock: no type'') else Inr s))"

definition ilock :: "nat option \<Rightarrow> 'a fsst_scheme \<Rightarrow> 'a fsst_scheme res" where
  "ilock ipo s =
     (case ipo of
        None \<Rightarrow> Inl (Panic ''ilock'')
      | Some ip \<Rightarrow>
          if i_ref (itable s ip) < 1 then Inl (Panic ''ilock'')
          else ebind (take_sleeplock (NBUF + ip) s) (\<lambda>s.
               if \<not> i_valid (itable s ip) then ilock_read ip s else Inr s))"

definition iunlock :: "nat option \<Rightarrow> 'a fsst_scheme \<Rightarrow> 'a fsst_scheme res" where
  "iunlock ipo s =
     (case ipo of
        None \<Rightarrow> Inl (Panic ''iunlock'')
      | Some ip \<Rightarrow>
          ebind (holdingsleep (NBUF + ip) s) (\<lambda>(h, s).
          if \<not> h \<or> i_ref (itable s ip) < 1 then Inl (Panic ''iunlock'') else releasesleep (NBUF + ip) s))"

section \<open>Contents\<close>

definition bmap_direct :: "nat \<Rightarrow> nat \<Rightarrow> 'a fsst_scheme \<Rightarrow> (u32 \<times> 'a fsst_scheme) res" where
  "bmap_direct ip bn s =
     (let addr = i_addrs (itable s ip) bn
      in if addr = 0
         then ebind (balloc (i_dev (itable s ip)) s) (\<lambda>(addr, s).
              if addr = 0 then Inr (0, s)
              else Inr (addr, upd_inode ip (\<lambda>x. x\<lparr>i_addrs := (i_addrs x)(bn := addr)\<rparr>) s))
         else Inr (addr, s))"

text \<open>Entry \<open>k\<close> of the block \<open>addr\<close> of indirect addresses.\<close>

definition bmap_indirect :: "nat \<Rightarrow> nat \<Rightarrow> u32 \<Rightarrow> 'a fsst_scheme \<Rightarrow> (u32 \<times> 'a fsst_scheme) res" where
  "bmap_indirect ip k addr s =
     ebind (bread (i_dev (itable s ip)) addr s) (\<lambda>(bp, s).
     let addr = blk_ld (b_data (bufs s bp)) (4 * k)
     in if addr = 0
        then ebind (balloc (i_dev (itable s ip)) s) (\<lambda>(addr, s).
             ebind (if addr \<noteq> 0
                    then log_write bp (set_data bp (blk_st (b_data (bufs s bp)) (4 * k) addr) s)
                    else Inr s) (\<lambda>s.
             ebind (brelse bp s) (\<lambda>s. Inr (addr, s))))
        else ebind (brelse bp s) (\<lambda>s. Inr (addr, s)))"

definition bmap :: "nat \<Rightarrow> u32 \<Rightarrow> 'a fsst_scheme \<Rightarrow> (u32 \<times> 'a fsst_scheme) res" where
  "bmap ip bn s =
     (if unat bn < NDIRECT then bmap_direct ip (unat bn) s
      else let k = unat bn - NDIRECT
      in if k < NINDIRECT
      then ebind (bmap_direct ip NDIRECT s) (\<lambda>(addr, s).
           if addr = 0 then Inr (0, s) else bmap_indirect ip k addr s)
      else Inl (Panic ''bmap: out of range''))"

definition itrunc_direct :: "nat \<Rightarrow> nat \<Rightarrow> 'a fsst_scheme \<Rightarrow> 'a fsst_scheme res" where
  "itrunc_direct ip i s =
     (if i_addrs (itable s ip) i \<noteq> 0
      then ebind (bfree (i_dev (itable s ip)) (i_addrs (itable s ip) i) s) (\<lambda>s.
           Inr (upd_inode ip (\<lambda>x. x\<lparr>i_addrs := (i_addrs x)(i := 0)\<rparr>) s))
      else Inr s)"

definition itrunc_entry :: "nat \<Rightarrow> nat \<Rightarrow> nat \<Rightarrow> 'a fsst_scheme \<Rightarrow> 'a fsst_scheme res" where
  "itrunc_entry ip bp j s =
     (let a = blk_ld (b_data (bufs s bp)) (4 * j)
      in if a \<noteq> 0 then bfree (i_dev (itable s ip)) a s else Inr s)"

definition itrunc_indirect :: "nat \<Rightarrow> 'a fsst_scheme \<Rightarrow> 'a fsst_scheme res" where
  "itrunc_indirect ip s =
     (if i_addrs (itable s ip) NDIRECT \<noteq> 0
      then ebind (bread (i_dev (itable s ip)) (i_addrs (itable s ip) NDIRECT) s) (\<lambda>(bp, s).
           ebind (efold (itrunc_entry ip bp) [0..<NINDIRECT] s) (\<lambda>s.
           ebind (brelse bp s) (itrunc_direct ip NDIRECT)))
      else Inr s)"

definition itrunc :: "nat \<Rightarrow> 'a fsst_scheme \<Rightarrow> 'a fsst_scheme res" where
  "itrunc ip s =
     ebind (efold (itrunc_direct ip) [0..<NDIRECT] s) (\<lambda>s.
     ebind (itrunc_indirect ip s) (\<lambda>s.
     iupdate ip (upd_inode ip (\<lambda>x. x\<lparr>i_size := 0\<rparr>) s)))"

definition iput_last :: "nat \<Rightarrow> 'a fsst_scheme \<Rightarrow> 'a fsst_scheme res" where
  "iput_last ip s =
     ebind (take_sleeplock (NBUF + ip) s) (\<lambda>s.
     ebind (release Lk_itable s) (\<lambda>s.
     ebind (itrunc ip s) (\<lambda>s.
     ebind (iupdate ip (upd_inode ip (\<lambda>x. x\<lparr>i_type := 0\<rparr>) s)) (\<lambda>s.
     ebind (releasesleep (NBUF + ip) (upd_inode ip (\<lambda>x. x\<lparr>i_valid := False\<rparr>) s)) (acquire Lk_itable)))))"

definition iput :: "nat \<Rightarrow> 'a fsst_scheme \<Rightarrow> 'a fsst_scheme res" where
  "iput ip s =
     ebind (acquire Lk_itable s) (\<lambda>s.
     ebind (if i_ref (itable s ip) = 1 \<and> i_valid (itable s ip) \<and> i_nlink (itable s ip) = 0
            then iput_last ip s else Inr s) (\<lambda>s.
     release Lk_itable (upd_inode ip (\<lambda>x. x\<lparr>i_ref := i_ref x - 1\<rparr>) s)))"

definition iunlockput :: "nat \<Rightarrow> 'a fsst_scheme \<Rightarrow> 'a fsst_scheme res" where
  "iunlockput ip s = ebind (iunlock (Some ip) s) (iput ip)"

record stat =
  st_dev :: u32
  st_ino :: u32
  st_type :: int
  st_nlink :: int
  st_size :: u64

definition stati :: "nat \<Rightarrow> 'a fsst_scheme \<Rightarrow> stat" where
  "stati ip s = (let i = itable s ip
     in \<lparr>st_dev = i_dev i, st_ino = i_inum i, st_type = i_type i, st_nlink = i_nlink i, st_size = ucast (i_size i)\<rparr>)"

text \<open>Where \<^verbatim>\<open>readi\<close> puts the bytes, and where \<^verbatim>\<open>writei\<close> takes them from.\<close>

datatype place = User u64 | Kernel u64 | Local

primrec place_add :: "place \<Rightarrow> nat \<Rightarrow> place" where
  "place_add (User a) m = User (a + of_nat m)"
| "place_add (Kernel a) m = Kernel (a + of_nat m)"
| "place_add Local m = Local"

primrec copy_to :: "place \<Rightarrow> u8 list \<Rightarrow> 'a procst_scheme \<Rightarrow> (int \<times> 'a procst_scheme) res" where
  "copy_to (User a) bs s = either_copyout True a bs s"
| "copy_to (Kernel a) bs s = either_copyout False a bs s"
| "copy_to Local bs s = ebind (myproc s) (\<lambda>(_, s). Inr (0, s))"

primrec copy_from :: "place \<Rightarrow> u8 list \<Rightarrow> nat \<Rightarrow> 'a procst_scheme \<Rightarrow> ((int \<times> u8 list) \<times> 'a procst_scheme) res" where
  "copy_from (User a) bs m s = either_copyin True a m s"
| "copy_from (Kernel a) bs m s = either_copyin False a m s"
| "copy_from Local bs m s = ebind (myproc s) (\<lambda>(_, s). Inr ((0, take m bs), s))"

lemma chunk_pos: "0 < rem \<Longrightarrow> 0 < min rem (1024 - unat (off :: u32) mod 1024)"
  by simp

text \<open>The loops: \<open>rem\<close> bytes are left, \<open>tot\<close> are done.\<close>

function readi_loop ::
  "nat \<Rightarrow> place \<Rightarrow> u32 \<Rightarrow> nat \<Rightarrow> nat \<Rightarrow> 'a fsst_scheme \<Rightarrow> ((int \<times> u8 list) \<times> 'a fsst_scheme) res"
where
  "readi_loop ip dst off rem tot s =
     (if 0 < rem
      then ebind (bmap ip (off div of_nat BSIZE) s) (\<lambda>(addr, s).
           if addr = 0 then Inr ((int tot, []), s)
           else ebind (bread (i_dev (itable s ip)) addr s) (\<lambda>(bp, s).
                let m = min rem (BSIZE - unat off mod BSIZE);
                    bs = blk_get (b_data (bufs s bp)) (unat off mod BSIZE) m
                in ebind (copy_to dst bs s) (\<lambda>(r, s).
                   ebind (brelse bp s) (\<lambda>s.
                   if r = -1 then Inr ((-1, []), s)
                   else ebind (readi_loop ip (place_add dst m) (off + of_nat m) (rem - m) (tot + m) s) (\<lambda>((r, cs), s).
                        Inr ((r, bs @ cs), s))))))
      else Inr ((int tot, []), s))"
  by pat_completeness auto
termination
  by (relation "measure (\<lambda>(ip, dst, off, rem, tot, s). rem)") auto

declare readi_loop.simps [simp del]

definition readi :: "nat \<Rightarrow> place \<Rightarrow> u32 \<Rightarrow> u32 \<Rightarrow> 'a fsst_scheme \<Rightarrow> ((int \<times> u8 list) \<times> 'a fsst_scheme) res" where
  "readi ip dst off n s =
     (let sz = i_size (itable s ip)
      in if sz < off \<or> off + n < off then Inr ((0, []), s)
         else readi_loop ip dst off (unat (if sz < off + n then sz - off else n)) 0 s)"

function writei_loop ::
  "nat \<Rightarrow> place \<Rightarrow> u8 list \<Rightarrow> u32 \<Rightarrow> nat \<Rightarrow> nat \<Rightarrow> 'a fsst_scheme \<Rightarrow> ((nat \<times> u32) \<times> 'a fsst_scheme) res"
where
  "writei_loop ip src bs off rem tot s =
     (if 0 < rem
      then ebind (bmap ip (off div of_nat BSIZE) s) (\<lambda>(addr, s).
           if addr = 0 then Inr ((tot, off), s)
           else ebind (bread (i_dev (itable s ip)) addr s) (\<lambda>(bp, s).
                let m = min rem (BSIZE - unat off mod BSIZE)
                in ebind (copy_from src bs m s) (\<lambda>((r, cs), s).
                   let s = set_data bp (blk_put (b_data (bufs s bp)) (unat off mod BSIZE) cs) s
                   in if r = -1 then ebind (brelse bp s) (\<lambda>s. Inr ((tot, off), s))
                      else ebind (log_write bp s) (\<lambda>s.
                           ebind (brelse bp s) (
                           writei_loop ip (place_add src m) (drop m bs) (off + of_nat m) (rem - m) (tot + m))))))
      else Inr ((tot, off), s))"
  by pat_completeness auto
termination
  by (relation "measure (\<lambda>(ip, src, bs, off, rem, tot, s). rem)") auto

declare writei_loop.simps [simp del]

definition writei :: "nat \<Rightarrow> place \<Rightarrow> u8 list \<Rightarrow> u32 \<Rightarrow> u32 \<Rightarrow> 'a fsst_scheme \<Rightarrow> (int \<times> 'a fsst_scheme) res" where
  "writei ip src bs off n s =
     (if i_size (itable s ip) < off \<or> off + n < off then Inr (-1, s)
      else if of_nat (MAXFILE * BSIZE) < off + n then Inr (-1, s)
      else ebind (writei_loop ip src bs off (unat n) 0 s) (\<lambda>((tot, off), s).
           let s = (if i_size (itable s ip) < off then upd_inode ip (\<lambda>x. x\<lparr>i_size := off\<rparr>) s else s)
           in ebind (iupdate ip s) (\<lambda>s. Inr (int tot, s))))"

end
