(* ===== verification/Dir.thy ===== *)
theory Dir
  imports Fs
begin

text \<open>
  Directories and path names, \<^verbatim>\<open>kernel/fs.c\<close>.  A C string is the list of its bytes without the final null byte;
  a name of a path element has at most \<^verbatim>\<open>DIRSIZ\<close> bytes.  A directory is a file of 16-byte entries: an inode
  number of two bytes, null for a free entry, and the name, filled up with null bytes.  The loops over a
  directory visit the offsets below the size of the directory, which \<^verbatim>\<open>readi\<close> does not change.
\<close>

definition DIRSIZ :: nat where DIRSIZ_def [simp]: "DIRSIZ = 14"
definition ROOTDEV :: u32 where "ROOTDEV = 1"
definition ROOTINO :: u32 where "ROOTINO = 1"
definition SLASH :: u8 where "SLASH = 47"

definition de_inum :: "u8 list \<Rightarrow> u16" where
  "de_inum de = ucast (de ! 0) OR push_bit 8 (ucast (de ! 1))"

definition de_name :: "u8 list \<Rightarrow> u8 list" where
  "de_name de = take DIRSIZ (drop 2 de)"

text \<open>The byte at the start of a C string.\<close>

definition chr :: "u8 list \<Rightarrow> u8" where
  "chr s = (case s of [] \<Rightarrow> 0 | c # _ \<Rightarrow> c)"

primrec strncmp_bytes :: "nat \<Rightarrow> u8 list \<Rightarrow> u8 list \<Rightarrow> int" where
  "strncmp_bytes 0 p q = 0"
| "strncmp_bytes (Suc n) p q =
     (if chr p \<noteq> 0 \<and> chr p = chr q then strncmp_bytes n (tl p) (tl q) else uint (chr p) - uint (chr q))"

definition namecmp :: "u8 list \<Rightarrow> u8 list \<Rightarrow> int" where
  "namecmp s t = strncmp_bytes DIRSIZ s t"

definition strncpy_name :: "u8 list \<Rightarrow> u8 list" where
  "strncpy_name t = (let u = take DIRSIZ (takeWhile (\<lambda>c. c \<noteq> 0) t) in u @ replicate (DIRSIZ - length u) 0)"

definition de_make :: "u32 \<Rightarrow> u8 list \<Rightarrow> u8 list" where
  "de_make inum nm = [ucast inum, ucast (drop_bit 8 inum)] @ strncpy_name nm"

definition dir_offsets :: "u32 \<Rightarrow> u32 list" where
  "dir_offsets n = map (\<lambda>k. of_nat (16 * k)) [0..<(unat n + 15) div 16]"

fun dirlookup_loop :: "nat \<Rightarrow> u8 list \<Rightarrow> u32 list \<Rightarrow> 'a fsst_scheme \<Rightarrow> ((nat \<times> u32) option \<times> 'a fsst_scheme) res" where
  "dirlookup_loop dp nm [] s = Inr (None, s)"
| "dirlookup_loop dp nm (off # offs) s =
     ebind (readi dp Local off 16 s) (\<lambda>((r, de), s).
     if r \<noteq> 16 then Inl (Panic ''dirlookup read'')
     else if de_inum de = 0 then dirlookup_loop dp nm offs s
     else if namecmp nm (de_name de) = 0
     then ebind (iget (i_dev (itable s dp)) (ucast (de_inum de)) s) (\<lambda>(ip, s). Inr (Some (ip, off), s))
     else dirlookup_loop dp nm offs s)"

definition dirlookup :: "nat \<Rightarrow> u8 list \<Rightarrow> 'a fsst_scheme \<Rightarrow> ((nat \<times> u32) option \<times> 'a fsst_scheme) res" where
  "dirlookup dp nm s =
     (if i_type (itable s dp) \<noteq> T_DIR then Inl (Panic ''dirlookup not DIR'')
      else dirlookup_loop dp nm (dir_offsets (i_size (itable s dp))) s)"

text \<open>The offset of the first free entry, or the end of the directory.\<close>

fun dirlink_loop :: "nat \<Rightarrow> u32 list \<Rightarrow> 'a fsst_scheme \<Rightarrow> (u32 option \<times> 'a fsst_scheme) res" where
  "dirlink_loop dp [] s = Inr (None, s)"
| "dirlink_loop dp (off # offs) s =
     ebind (readi dp Local off 16 s) (\<lambda>((r, de), s).
     if r \<noteq> 16 then Inl (Panic ''dirlink read'')
     else if de_inum de = 0 then Inr (Some off, s)
     else dirlink_loop dp offs s)"

definition dirlink :: "nat \<Rightarrow> u8 list \<Rightarrow> u32 \<Rightarrow> 'a fsst_scheme \<Rightarrow> (int \<times> 'a fsst_scheme) res" where
  "dirlink dp nm inum s =
     ebind (dirlookup dp nm s) (\<lambda>(found, s).
     case found of
       Some (ip, _) \<Rightarrow> ebind (iput ip s) (\<lambda>s. Inr (-1, s))
     | None \<Rightarrow>
         let offs = dir_offsets (i_size (itable s dp))
         in ebind (dirlink_loop dp offs s) (\<lambda>(free, s).
            let off = (case free of Some off \<Rightarrow> off | None \<Rightarrow> of_nat (16 * length offs))
            in ebind (writei dp Local (de_make inum nm) off 16 s) (\<lambda>(r, s).
               Inr (if r \<noteq> 16 then -1 else 0, s))))"

section \<open>Paths\<close>

definition skip_slashes :: "u8 list \<Rightarrow> u8 list" where
  "skip_slashes p = dropWhile (\<lambda>c. c = SLASH) p"

definition skipelem :: "u8 list \<Rightarrow> (u8 list \<times> u8 list) option" where
  "skipelem path =
     (let path = skip_slashes path
      in if path = [] then None
         else let el = takeWhile (\<lambda>c. c \<noteq> SLASH) path
              in Some (skip_slashes (dropWhile (\<lambda>c. c \<noteq> SLASH) path),
                       if length el \<ge> DIRSIZ then take DIRSIZ el else el))"

lemma skipelem_shorter: "skipelem p = Some (rest, nm) \<Longrightarrow> length rest < length p"
proof -
  assume a: "skipelem p = Some (rest, nm)"
  let ?q = "skip_slashes p"
  have q: "?q \<noteq> []" "rest = skip_slashes (dropWhile (\<lambda>c. c \<noteq> SLASH) ?q)"
    using a by (auto simp: skipelem_def Let_def split: if_splits)
  then have "hd ?q \<noteq> SLASH" using hd_dropWhile [of "\<lambda>c. c = SLASH" p] by (simp add: skip_slashes_def)
  then have "length (dropWhile (\<lambda>c. c \<noteq> SLASH) ?q) < length ?q"
    using q(1) by (cases ?q) (auto simp: le_imp_less_Suc length_dropWhile_le)
  also have "length ?q \<le> length p" by (simp add: skip_slashes_def length_dropWhile_le)
  finally show ?thesis
    using q(2) by (metis skip_slashes_def length_dropWhile_le le_less_trans)
qed

text \<open>The result: the inode, and the last path element copied to \<^verbatim>\<open>name\<close>.\<close>

function namex_loop ::
  "nat \<Rightarrow> u8 list \<Rightarrow> u8 list \<Rightarrow> bool \<Rightarrow> 'a fsst_scheme \<Rightarrow> ((nat option \<times> u8 list) \<times> 'a fsst_scheme) res"
where
  "namex_loop ip path nm pflag s =
     (case skipelem path of
        None \<Rightarrow> if pflag then ebind (iput ip s) (\<lambda>s. Inr ((None, nm), s)) else Inr ((Some ip, nm), s)
      | Some (rest, nm) \<Rightarrow>
          ebind (ilock (Some ip) s) (\<lambda>s.
          if i_type (itable s ip) \<noteq> T_DIR then ebind (iunlockput ip s) (\<lambda>s. Inr ((None, nm), s))
          else if pflag \<and> rest = [] then ebind (iunlock (Some ip) s) (\<lambda>s. Inr ((Some ip, nm), s))
          else ebind (dirlookup ip nm s) (\<lambda>(found, s).
               case found of
                 None \<Rightarrow> ebind (iunlockput ip s) (\<lambda>s. Inr ((None, nm), s))
               | Some (nx, _) \<Rightarrow> ebind (iunlockput ip s) (namex_loop nx rest nm pflag))))"
  by pat_completeness auto
termination
  by (relation "measure (\<lambda>(ip, path, nm, pflag, s). length path)") (auto dest: skipelem_shorter)

declare namex_loop.simps [simp del]

definition namex :: "u8 list \<Rightarrow> bool \<Rightarrow> 'a fsst_scheme \<Rightarrow> ((nat option \<times> u8 list) \<times> 'a fsst_scheme) res" where
  "namex path pflag s =
     ebind (if chr path = SLASH then iget ROOTDEV ROOTINO s
            else ebind (this_proc s) (\<lambda>(p, s). ebind (deref (cwd (procs s p))) (\<lambda>ip. idup ip s))) (\<lambda>(ip, s).
     namex_loop ip path [] pflag s)"

definition namei :: "u8 list \<Rightarrow> 'a fsst_scheme \<Rightarrow> (nat option \<times> 'a fsst_scheme) res" where
  "namei path s = ebind (namex path False s) (\<lambda>((ip, _), s). Inr (ip, s))"

definition nameiparent :: "u8 list \<Rightarrow> 'a fsst_scheme \<Rightarrow> ((nat option \<times> u8 list) \<times> 'a fsst_scheme) res" where
  "nameiparent path s = namex path True s"

end
