(* ===== verification/Sysfile.thy ===== *)
theory Sysfile
  imports Dir
begin

text \<open>
  Open files (the rest of \<^verbatim>\<open>kernel/file.c\<close>), \<^verbatim>\<open>pipealloc\<close> of \<^verbatim>\<open>kernel/pipe.c\<close>, and the system
  calls on files, \<^verbatim>\<open>kernel/sysfile.c\<close> without \<^verbatim>\<open>sys_exec\<close>.  A handler returns the value that the
  dispatcher stores in register \<^verbatim>\<open>a0\<close>.  The table \<^verbatim>\<open>devsw\<close> of device drivers is an argument
  of the operations that call a driver.  An operation that would sleep ends in \<open>Spin\<close>.
\<close>

definition NDEV :: int where NDEV_def [simp]: "NDEV = 10"
definition MAXPATH :: nat where MAXPATH_def [simp]: "MAXPATH = 128"

type_synonym 'a driver = "u64 \<Rightarrow> int \<Rightarrow> 'a fsst_scheme \<Rightarrow> (int \<times> 'a fsst_scheme) res"
type_synonym 'a devsw = "int \<Rightarrow> 'a driver option"

definition upd_file :: "nat \<Rightarrow> (kfile \<Rightarrow> kfile) \<Rightarrow> 'a filest_scheme \<Rightarrow> 'a filest_scheme" where
  "upd_file f g s = s\<lparr>ftable := (ftable s)(f := g (ftable s f))\<rparr>"

definition op_begin :: "'a logst_scheme \<Rightarrow> 'a logst_scheme res" where
  "op_begin s = ebind (begin_op s) (\<lambda>(r, s). case r of None \<Rightarrow> Inr s | Some _ \<Rightarrow> Inl Spin)"

text \<open>End of an operation that returns \<open>r\<close>.\<close>

definition op_return :: "'r \<Rightarrow> 'a fsst_scheme \<Rightarrow> ('r \<times> 'a fsst_scheme) res" where
  "op_return r s = ebind (end_op s) (\<lambda>s. Inr (r, s))"

section \<open>Open files\<close>

definition fileclose_body :: "nat \<Rightarrow> 'a filest_scheme \<Rightarrow> (kfile option \<times> 'a filest_scheme) res" where
  "fileclose_body f s =
     (if f_ref (ftable s f) < 1 then Inl (Panic ''fileclose'')
      else let s = upd_file f (\<lambda>x. x\<lparr>f_ref := f_ref x - 1\<rparr>) s
           in if f_ref (ftable s f) > 0 then Inr (None, s)
              else Inr (Some (ftable s f), upd_file f (\<lambda>x. x\<lparr>f_ref := 0, f_type := FD_NONE\<rparr>) s))"

definition fileclose :: "nat \<Rightarrow> 'a fsst_scheme \<Rightarrow> 'a fsst_scheme res" where
  "fileclose f s =
     ebind (critical Lk_ftable (fileclose_body f) s) (\<lambda>(ffo, s).
     case ffo of
       None \<Rightarrow> Inr s
     | Some ff \<Rightarrow>
         if f_type ff = FD_PIPE then pipeclose (f_pipe ff) (f_writable ff) s
         else if f_type ff = FD_INODE \<or> f_type ff = FD_DEVICE
         then ebind (op_begin s) (\<lambda>s.
              ebind (deref (f_ip ff)) (\<lambda>ip.
              ebind (iput ip s) end_op))
         else Inr s)"

text \<open>
  The bytes of a \<^verbatim>\<open>struct stat\<close>.  Four bytes of padding in front of the size are never set: \<open>pad\<close> is what the
  kernel stack holds there.
\<close>

definition le_bytes :: "nat \<Rightarrow> 'a::len word \<Rightarrow> u8 list" where
  "le_bytes n v = map (\<lambda>i. ucast (drop_bit (8 * i) v)) [0..<n]"

definition stat_bytes :: "u8 list \<Rightarrow> stat \<Rightarrow> u8 list" where
  "stat_bytes pad st = le_bytes 4 (st_dev st) @ le_bytes 4 (st_ino st) @ le_bytes 2 (word_of_int (st_type st) :: u16)
     @ le_bytes 2 (word_of_int (st_nlink st) :: u16) @ pad @ le_bytes 8 (st_size st)"

definition filestat :: "u8 list \<Rightarrow> nat \<Rightarrow> u64 \<Rightarrow> 'a fsst_scheme \<Rightarrow> (int \<times> 'a fsst_scheme) res" where
  "filestat pad f addr s =
     ebind (this_proc s) (\<lambda>(p, s).
     if f_type (ftable s f) = FD_INODE \<or> f_type (ftable s f) = FD_DEVICE
     then ebind (ilock (f_ip (ftable s f)) s) (\<lambda>s.
          ebind (deref (f_ip (ftable s f))) (\<lambda>ip.
          let st = stati ip s
          in ebind (iunlock (f_ip (ftable s f)) s) (\<lambda>s.
             ebind (copyout (pagetable (procs s p)) addr (stat_bytes pad st) s) (\<lambda>(r, s).
             Inr (if r < 0 then -1 else 0, s)))))
     else Inr (-1, s))"

definition pipe_result :: "pipe_out \<times> 'a fsst_scheme \<Rightarrow> (int \<times> 'a fsst_scheme) res" where
  "pipe_result r = (case r of (Finished n, s) \<Rightarrow> Inr (n, s) | (Blocked _ _, _) \<Rightarrow> Inl Spin)"

definition fileread :: "'a devsw \<Rightarrow> nat \<Rightarrow> u64 \<Rightarrow> int \<Rightarrow> 'a fsst_scheme \<Rightarrow> (int \<times> 'a fsst_scheme) res" where
  "fileread devread f addr n s =
     (let fl = ftable s f
      in if \<not> f_readable fl then Inr (-1, s)
         else if f_type fl = FD_PIPE then ebind (piperead (f_pipe fl) addr n s) pipe_result
         else if f_type fl = FD_DEVICE
         then if f_major fl < 0 \<or> NDEV \<le> f_major fl then Inr (-1, s)
              else (case devread (f_major fl) of None \<Rightarrow> Inr (-1, s) | Some rd \<Rightarrow> rd addr n s)
         else if f_type fl = FD_INODE
         then ebind (ilock (f_ip fl) s) (\<lambda>s.
              ebind (deref (f_ip fl)) (\<lambda>ip.
              ebind (readi ip (User addr) (f_off (ftable s f)) (word_of_int n) s) (\<lambda>((r, _), s).
              let s = (if r > 0 then upd_file f (\<lambda>x. x\<lparr>f_off := f_off x + word_of_int r\<rparr>) s else s)
              in ebind (iunlock (f_ip fl) s) (\<lambda>s. Inr (r, s)))))
         else Inl (Panic ''fileread''))"

text \<open>A write goes to the log in pieces of at most three blocks.\<close>

definition filewrite_piece :: "nat \<Rightarrow> u64 \<Rightarrow> int \<Rightarrow> 'a fsst_scheme \<Rightarrow> (int \<times> 'a fsst_scheme) res" where
  "filewrite_piece f addr n1 s =
     ebind (op_begin s) (\<lambda>s.
     ebind (ilock (f_ip (ftable s f)) s) (\<lambda>s.
     ebind (deref (f_ip (ftable s f))) (\<lambda>ip.
     ebind (writei ip (User addr) [] (f_off (ftable s f)) (word_of_int n1) s) (\<lambda>(r, s).
     let s = (if r > 0 then upd_file f (\<lambda>x. x\<lparr>f_off := f_off x + word_of_int r\<rparr>) s else s)
     in ebind (iunlock (Some ip) s) (op_return r)))))"

function filewrite_loop :: "nat \<Rightarrow> u64 \<Rightarrow> int \<Rightarrow> int \<Rightarrow> 'a fsst_scheme \<Rightarrow> (int \<times> 'a fsst_scheme) res" where
  "filewrite_loop f addr i n s =
     (if i < n
      then let n1 = min (n - i) ((MAXOPBLOCKS - 1 - 1 - 2) div 2 * int BSIZE)
           in ebind (filewrite_piece f (addr + word_of_int i) n1 s) (\<lambda>(r, s).
              if r \<noteq> n1 then Inr (i, s) else filewrite_loop f addr (i + r) n s)
      else Inr (i, s))"
  by pat_completeness auto
termination
  by (relation "measure (\<lambda>(f, addr, i, n, s). nat (n - i))") auto

declare filewrite_loop.simps [simp del]

definition filewrite :: "'a devsw \<Rightarrow> nat \<Rightarrow> u64 \<Rightarrow> int \<Rightarrow> 'a fsst_scheme \<Rightarrow> (int \<times> 'a fsst_scheme) res" where
  "filewrite devwrite f addr n s =
     (let fl = ftable s f
      in if \<not> f_writable fl then Inr (-1, s)
         else if f_type fl = FD_PIPE then ebind (pipewrite (f_pipe fl) addr n s) pipe_result
         else if f_type fl = FD_DEVICE
         then if f_major fl < 0 \<or> NDEV \<le> f_major fl then Inr (-1, s)
              else (case devwrite (f_major fl) of None \<Rightarrow> Inr (-1, s) | Some wr \<Rightarrow> wr addr n s)
         else if f_type fl = FD_INODE
         then ebind (filewrite_loop f addr 0 n s) (\<lambda>(i, s). Inr (if i = n then n else -1, s))
         else Inl (Panic ''filewrite''))"

definition pipealloc_bad :: "nat option \<Rightarrow> nat option \<Rightarrow> 'a fsst_scheme \<Rightarrow> ((nat \<times> nat) option \<times> 'a fsst_scheme) res" where
  "pipealloc_bad f0 f1 s =
     ebind (case f0 of Some f \<Rightarrow> fileclose f s | None \<Rightarrow> Inr s) (\<lambda>s.
     ebind (case f1 of Some f \<Rightarrow> fileclose f s | None \<Rightarrow> Inr s) (\<lambda>s. Inr (None, s)))"

definition pipealloc :: "'a fsst_scheme \<Rightarrow> ((nat \<times> nat) option \<times> 'a fsst_scheme) res" where
  "pipealloc s =
     ebind (filealloc s) (\<lambda>(f0, s).
     case f0 of
       None \<Rightarrow> pipealloc_bad None None s
     | Some r \<Rightarrow>
         ebind (filealloc s) (\<lambda>(f1, s).
         case f1 of
           None \<Rightarrow> pipealloc_bad f0 None s
         | Some w \<Rightarrow>
             ebind (kalloc s) (\<lambda>(pi, s).
             if pi = 0 then pipealloc_bad f0 f1 s
             else let s = upd_pipe pi (\<lambda>q. q\<lparr>readopen := True, writeopen := True, nwrite := 0, nread := 0\<rparr>) s;
                      s = initlock (Lk_pipe pi) ''pipe'' s;
                      s = upd_file r (\<lambda>x. x\<lparr>f_type := FD_PIPE, f_readable := True, f_writable := False, f_pipe := pi\<rparr>) s;
                      s = upd_file w (\<lambda>x. x\<lparr>f_type := FD_PIPE, f_readable := False, f_writable := True, f_pipe := pi\<rparr>) s
                  in Inr (Some (r, w), s))))"

section \<open>File descriptors\<close>

definition argfd :: "nat \<Rightarrow> 'a fsst_scheme \<Rightarrow> ((nat \<times> nat) option \<times> 'a fsst_scheme) res" where
  "argfd n s =
     ebind (argint n s) (\<lambda>(fd, s).
     if fd < 0 \<or> int NOFILE \<le> fd then Inr (None, s)
     else ebind (this_proc s) (\<lambda>(p, s).
          Inr (case ofile (procs s p) (nat fd) of None \<Rightarrow> None | Some f \<Rightarrow> Some (nat fd, f), s)))"

definition set_ofile :: "nat \<Rightarrow> nat \<Rightarrow> nat option \<Rightarrow> 'a procst_scheme \<Rightarrow> 'a procst_scheme" where
  "set_ofile p fd fo s = upd_proc p (\<lambda>q. q\<lparr>ofile := (ofile q)(fd := fo)\<rparr>) s"

definition fdalloc :: "nat \<Rightarrow> 'a fsst_scheme \<Rightarrow> (nat option \<times> 'a fsst_scheme) res" where
  "fdalloc f s =
     ebind (this_proc s) (\<lambda>(p, s).
     case find (\<lambda>fd. ofile (procs s p) fd = None) [0..<NOFILE] of
       Some fd \<Rightarrow> Inr (Some fd, set_ofile p fd (Some f) s)
     | None \<Rightarrow> Inr (None, s))"

definition sys_dup :: "'a fsst_scheme \<Rightarrow> (u64 \<times> 'a fsst_scheme) res" where
  "sys_dup s =
     ebind (argfd 0 s) (\<lambda>(a, s).
     case a of None \<Rightarrow> Inr (-1, s)
     | Some (_, f) \<Rightarrow>
         ebind (fdalloc f s) (\<lambda>(fdo, s).
         case fdo of None \<Rightarrow> Inr (-1, s)
         | Some fd \<Rightarrow> ebind (filedup f s) (\<lambda>(_, s). Inr (of_nat fd, s))))"

definition sys_read :: "'a devsw \<Rightarrow> 'a fsst_scheme \<Rightarrow> (u64 \<times> 'a fsst_scheme) res" where
  "sys_read devread s =
     ebind (argaddr 1 s) (\<lambda>(p, s).
     ebind (argint 2 s) (\<lambda>(n, s).
     ebind (argfd 0 s) (\<lambda>(a, s).
     case a of None \<Rightarrow> Inr (-1, s)
     | Some (_, f) \<Rightarrow> ebind (fileread devread f p n s) (\<lambda>(r, s). Inr (of_int r, s)))))"

definition sys_write :: "'a devsw \<Rightarrow> 'a fsst_scheme \<Rightarrow> (u64 \<times> 'a fsst_scheme) res" where
  "sys_write devwrite s =
     ebind (argaddr 1 s) (\<lambda>(p, s).
     ebind (argint 2 s) (\<lambda>(n, s).
     ebind (argfd 0 s) (\<lambda>(a, s).
     case a of None \<Rightarrow> Inr (-1, s)
     | Some (_, f) \<Rightarrow> ebind (filewrite devwrite f p n s) (\<lambda>(r, s). Inr (of_int r, s)))))"

definition sys_close :: "'a fsst_scheme \<Rightarrow> (u64 \<times> 'a fsst_scheme) res" where
  "sys_close s =
     ebind (argfd 0 s) (\<lambda>(a, s).
     case a of None \<Rightarrow> Inr (-1, s)
     | Some (fd, f) \<Rightarrow>
         ebind (this_proc s) (\<lambda>(p, s).
         ebind (fileclose f (set_ofile p fd None s)) (\<lambda>s. Inr (0, s))))"

definition sys_fstat :: "u8 list \<Rightarrow> 'a fsst_scheme \<Rightarrow> (u64 \<times> 'a fsst_scheme) res" where
  "sys_fstat pad s =
     ebind (argaddr 1 s) (\<lambda>(st, s).
     ebind (argfd 0 s) (\<lambda>(a, s).
     case a of None \<Rightarrow> Inr (-1, s)
     | Some (_, f) \<Rightarrow> ebind (filestat pad f st s) (\<lambda>(r, s). Inr (of_int r, s))))"

section \<open>Links\<close>

definition set_nlink :: "nat \<Rightarrow> (int \<Rightarrow> int) \<Rightarrow> 'a filest_scheme \<Rightarrow> 'a filest_scheme" where
  "set_nlink ip g s = upd_inode ip (\<lambda>x. x\<lparr>i_nlink := g (i_nlink x)\<rparr>) s"

definition link_bad :: "nat \<Rightarrow> 'a fsst_scheme \<Rightarrow> (u64 \<times> 'a fsst_scheme) res" where
  "link_bad ip s =
     ebind (ilock (Some ip) s) (\<lambda>s.
     ebind (iupdate ip (set_nlink ip (\<lambda>n. n - 1) s)) (\<lambda>s.
     ebind (iunlockput ip s) (op_return (-1))))"

definition link_enter :: "nat \<Rightarrow> u8 list \<Rightarrow> 'a fsst_scheme \<Rightarrow> (u64 \<times> 'a fsst_scheme) res" where
  "link_enter ip path s =
     ebind (nameiparent path s) (\<lambda>((dpo, nm), s).
     case dpo of
       None \<Rightarrow> link_bad ip s
     | Some dp \<Rightarrow>
         ebind (ilock (Some dp) s) (\<lambda>s.
         ebind (if i_dev (itable s dp) \<noteq> i_dev (itable s ip) then Inr (-1, s)
                else dirlink dp nm (i_inum (itable s ip)) s) (\<lambda>(r, s).
         ebind (iunlockput dp s) (\<lambda>s.
         if r < 0 then link_bad ip s else ebind (iput ip s) (op_return 0)))))"

definition sys_link :: "'a fsst_scheme \<Rightarrow> (u64 \<times> 'a fsst_scheme) res" where
  "sys_link s =
     ebind (argstr 0 MAXPATH s) (\<lambda>(old, s).
     case old of None \<Rightarrow> Inr (-1, s)
     | Some old \<Rightarrow>
     ebind (argstr 1 MAXPATH s) (\<lambda>(new, s).
     case new of None \<Rightarrow> Inr (-1, s)
     | Some new \<Rightarrow>
     ebind (op_begin s) (\<lambda>s.
     ebind (namei old s) (\<lambda>(ipo, s).
     case ipo of None \<Rightarrow> op_return (-1) s
     | Some ip \<Rightarrow>
         ebind (ilock (Some ip) s) (\<lambda>s.
         if i_type (itable s ip) = T_DIR then ebind (iunlockput ip s) (op_return (-1))
         else ebind (iupdate ip (set_nlink ip (\<lambda>n. n + 1) s)) (\<lambda>s.
              ebind (iunlock (Some ip) s) (link_enter ip new)))))))"

text \<open>The offsets from the third entry on.\<close>

fun isdirempty_loop :: "nat \<Rightarrow> u32 list \<Rightarrow> 'a fsst_scheme \<Rightarrow> (bool \<times> 'a fsst_scheme) res" where
  "isdirempty_loop dp [] s = Inr (True, s)"
| "isdirempty_loop dp (off # offs) s =
     ebind (readi dp Local off 16 s) (\<lambda>((r, de), s).
     if r \<noteq> 16 then Inl (Panic ''isdirempty: readi'')
     else if de_inum de \<noteq> 0 then Inr (False, s)
     else isdirempty_loop dp offs s)"

definition isdirempty :: "nat \<Rightarrow> 'a fsst_scheme \<Rightarrow> (bool \<times> 'a fsst_scheme) res" where
  "isdirempty dp s = isdirempty_loop dp (drop 2 (dir_offsets (i_size (itable s dp)))) s"

definition unlink_bad :: "nat \<Rightarrow> 'a fsst_scheme \<Rightarrow> (u64 \<times> 'a fsst_scheme) res" where
  "unlink_bad dp s = ebind (iunlockput dp s) (op_return (-1))"

definition unlink_entry :: "nat \<Rightarrow> nat \<Rightarrow> u32 \<Rightarrow> 'a fsst_scheme \<Rightarrow> (u64 \<times> 'a fsst_scheme) res" where
  "unlink_entry dp ip off s =
     ebind (writei dp Local (replicate 16 0) off 16 s) (\<lambda>(r, s).
     if r \<noteq> 16 then Inl (Panic ''unlink: writei'')
     else ebind (if i_type (itable s ip) = T_DIR then iupdate dp (set_nlink dp (\<lambda>n. n - 1) s) else Inr s) (\<lambda>s.
          ebind (iunlockput dp s) (\<lambda>s.
          ebind (iupdate ip (set_nlink ip (\<lambda>n. n - 1) s)) (\<lambda>s.
          ebind (iunlockput ip s) (op_return 0)))))"

definition sys_unlink :: "'a fsst_scheme \<Rightarrow> (u64 \<times> 'a fsst_scheme) res" where
  "sys_unlink s =
     ebind (argstr 0 MAXPATH s) (\<lambda>(path, s).
     case path of None \<Rightarrow> Inr (-1, s)
     | Some path \<Rightarrow>
     ebind (op_begin s) (\<lambda>s.
     ebind (nameiparent path s) (\<lambda>((dpo, nm), s).
     case dpo of None \<Rightarrow> op_return (-1) s
     | Some dp \<Rightarrow>
         ebind (ilock (Some dp) s) (\<lambda>s.
         if namecmp nm [46] = 0 \<or> namecmp nm [46, 46] = 0 then unlink_bad dp s
         else ebind (dirlookup dp nm s) (\<lambda>(found, s).
              case found of None \<Rightarrow> unlink_bad dp s
              | Some (ip, off) \<Rightarrow>
                  ebind (ilock (Some ip) s) (\<lambda>s.
                  if i_nlink (itable s ip) < 1 then Inl (Panic ''unlink: nlink < 1'')
                  else ebind (if i_type (itable s ip) = T_DIR then isdirempty ip s else Inr (True, s)) (\<lambda>(ok, s).
                       if \<not> ok then ebind (iunlockput ip s) (unlink_bad dp)
                       else unlink_entry dp ip off s)))))))"

section \<open>Creation\<close>

definition create_fail :: "nat \<Rightarrow> nat \<Rightarrow> 'a fsst_scheme \<Rightarrow> (nat option \<times> 'a fsst_scheme) res" where
  "create_fail dp ip s =
     ebind (iupdate ip (set_nlink ip (\<lambda>_. 0) s)) (\<lambda>s.
     ebind (iunlockput ip s) (\<lambda>s.
     ebind (iunlockput dp s) (\<lambda>s. Inr (None, s))))"

definition create_dots :: "nat \<Rightarrow> nat \<Rightarrow> 'a fsst_scheme \<Rightarrow> (int \<times> 'a fsst_scheme) res" where
  "create_dots dp ip s =
     ebind (dirlink ip [46] (i_inum (itable s ip)) s) (\<lambda>(r, s).
     if r < 0 then Inr (r, s) else dirlink ip [46, 46] (i_inum (itable s dp)) s)"

definition create_new :: "nat \<Rightarrow> u8 list \<Rightarrow> int \<Rightarrow> int \<Rightarrow> int \<Rightarrow> 'a fsst_scheme \<Rightarrow> (nat option \<times> 'a fsst_scheme) res" where
  "create_new dp nm ty mj mn s =
     ebind (ialloc (i_dev (itable s dp)) ty s) (\<lambda>(ipo, s).
     case ipo of None \<Rightarrow> ebind (iunlockput dp s) (\<lambda>s. Inr (None, s))
     | Some ip \<Rightarrow>
         ebind (ilock (Some ip) s) (\<lambda>s.
         ebind (iupdate ip (upd_inode ip (\<lambda>x. x\<lparr>i_major := mj, i_minor := mn, i_nlink := 1\<rparr>) s)) (\<lambda>s.
         ebind (if ty = T_DIR then create_dots dp ip s else Inr (0, s)) (\<lambda>(r, s).
         if r < 0 then create_fail dp ip s
         else ebind (dirlink dp nm (i_inum (itable s ip)) s) (\<lambda>(r, s).
              if r < 0 then create_fail dp ip s
              else ebind (if ty = T_DIR then iupdate dp (set_nlink dp (\<lambda>n. n + 1) s) else Inr s) (\<lambda>s.
                   ebind (iunlockput dp s) (\<lambda>s. Inr (Some ip, s))))))))"

definition create :: "u8 list \<Rightarrow> int \<Rightarrow> int \<Rightarrow> int \<Rightarrow> 'a fsst_scheme \<Rightarrow> (nat option \<times> 'a fsst_scheme) res" where
  "create path ty mj mn s =
     ebind (nameiparent path s) (\<lambda>((dpo, nm), s).
     case dpo of None \<Rightarrow> Inr (None, s)
     | Some dp \<Rightarrow>
         ebind (ilock (Some dp) s) (\<lambda>s.
         ebind (dirlookup dp nm s) (\<lambda>(found, s).
         case found of
           Some (ip, _) \<Rightarrow>
             ebind (iunlockput dp s) (\<lambda>s.
             ebind (ilock (Some ip) s) (\<lambda>s.
             if ty = T_FILE \<and> (i_type (itable s ip) = T_FILE \<or> i_type (itable s ip) = T_DEVICE) then Inr (Some ip, s)
             else ebind (iunlockput ip s) (\<lambda>s. Inr (None, s))))
         | None \<Rightarrow> create_new dp nm ty mj mn s)))"

definition open_inode :: "u8 list \<Rightarrow> u32 \<Rightarrow> 'a fsst_scheme \<Rightarrow> (nat option \<times> 'a fsst_scheme) res" where
  "open_inode path omode s =
     (if omode AND O_CREATE \<noteq> 0 then create path T_FILE 0 0 s
      else ebind (namei path s) (\<lambda>(ipo, s).
           case ipo of None \<Rightarrow> Inr (None, s)
           | Some ip \<Rightarrow>
               ebind (ilock (Some ip) s) (\<lambda>s.
               if i_type (itable s ip) = T_DIR \<and> omode \<noteq> 0 then ebind (iunlockput ip s) (\<lambda>s. Inr (None, s))
               else Inr (Some ip, s))))"

definition open_fill :: "nat \<Rightarrow> nat \<Rightarrow> u32 \<Rightarrow> 'a fsst_scheme \<Rightarrow> 'a fsst_scheme" where
  "open_fill f ip omode s =
     (let s = (if i_type (itable s ip) = T_DEVICE
               then upd_file f (\<lambda>x. x\<lparr>f_type := FD_DEVICE, f_major := i_major (itable s ip)\<rparr>) s
               else upd_file f (\<lambda>x. x\<lparr>f_type := FD_INODE, f_off := 0\<rparr>) s)
      in upd_file f (\<lambda>x. x\<lparr>f_ip := Some ip, f_readable := omode AND O_WRONLY = 0,
           f_writable := omode AND O_WRONLY \<noteq> 0 \<or> omode AND O_RDWR \<noteq> 0\<rparr>) s)"

definition open_bad :: "nat \<Rightarrow> nat option \<Rightarrow> 'a fsst_scheme \<Rightarrow> (u64 \<times> 'a fsst_scheme) res" where
  "open_bad ip fo s =
     ebind (case fo of Some f \<Rightarrow> fileclose f s | None \<Rightarrow> Inr s) (\<lambda>s.
     ebind (iunlockput ip s) (op_return (-1)))"

definition sys_open :: "'a fsst_scheme \<Rightarrow> (u64 \<times> 'a fsst_scheme) res" where
  "sys_open s =
     ebind (argint 1 s) (\<lambda>(om, s).
     let omode = word_of_int om
     in ebind (argstr 0 MAXPATH s) (\<lambda>(path, s).
     case path of None \<Rightarrow> Inr (-1, s)
     | Some path \<Rightarrow>
     ebind (op_begin s) (\<lambda>s.
     ebind (open_inode path omode s) (\<lambda>(ipo, s).
     case ipo of None \<Rightarrow> op_return (-1) s
     | Some ip \<Rightarrow>
         if i_type (itable s ip) = T_DEVICE \<and> (i_major (itable s ip) < 0 \<or> NDEV \<le> i_major (itable s ip))
         then ebind (iunlockput ip s) (op_return (-1))
         else ebind (filealloc s) (\<lambda>(fo, s).
              case fo of None \<Rightarrow> open_bad ip None s
              | Some f \<Rightarrow>
                  ebind (fdalloc f s) (\<lambda>(fdo, s).
                  case fdo of None \<Rightarrow> open_bad ip (Some f) s
                  | Some fd \<Rightarrow>
                      ebind (let s = open_fill f ip omode s
                             in if omode AND O_TRUNC \<noteq> 0 \<and> i_type (itable s ip) = T_FILE then itrunc ip s else Inr s) (\<lambda>s.
                      ebind (iunlock (Some ip) s) (op_return (of_nat fd)))))))))"

definition mk_finish :: "nat option \<times> 'a fsst_scheme \<Rightarrow> (u64 \<times> 'a fsst_scheme) res" where
  "mk_finish r = (case r of (None, s) \<Rightarrow> op_return (-1) s | (Some ip, s) \<Rightarrow> ebind (iunlockput ip s) (op_return 0))"

definition sys_mkdir :: "'a fsst_scheme \<Rightarrow> (u64 \<times> 'a fsst_scheme) res" where
  "sys_mkdir s =
     ebind (op_begin s) (\<lambda>s.
     ebind (argstr 0 MAXPATH s) (\<lambda>(path, s).
     case path of None \<Rightarrow> op_return (-1) s
     | Some path \<Rightarrow> ebind (create path T_DIR 0 0 s) mk_finish))"

text \<open>The device numbers are passed as \<^verbatim>\<open>short\<close>.\<close>

definition to_short :: "int \<Rightarrow> int" where
  "to_short n = sint (word_of_int n :: u16)"

definition sys_mknod :: "'a fsst_scheme \<Rightarrow> (u64 \<times> 'a fsst_scheme) res" where
  "sys_mknod s =
     ebind (op_begin s) (\<lambda>s.
     ebind (argint 1 s) (\<lambda>(mj, s).
     ebind (argint 2 s) (\<lambda>(mn, s).
     ebind (argstr 0 MAXPATH s) (\<lambda>(path, s).
     case path of None \<Rightarrow> op_return (-1) s
     | Some path \<Rightarrow> ebind (create path T_DEVICE (to_short mj) (to_short mn) s) mk_finish))))"

definition sys_chdir :: "'a fsst_scheme \<Rightarrow> (u64 \<times> 'a fsst_scheme) res" where
  "sys_chdir s =
     ebind (this_proc s) (\<lambda>(p, s).
     ebind (op_begin s) (\<lambda>s.
     ebind (argstr 0 MAXPATH s) (\<lambda>(path, s).
     case path of None \<Rightarrow> op_return (-1) s
     | Some path \<Rightarrow>
     ebind (namei path s) (\<lambda>(ipo, s).
     case ipo of None \<Rightarrow> op_return (-1) s
     | Some ip \<Rightarrow>
         ebind (ilock (Some ip) s) (\<lambda>s.
         if i_type (itable s ip) \<noteq> T_DIR then ebind (iunlockput ip s) (op_return (-1))
         else ebind (iunlock (Some ip) s) (\<lambda>s.
              ebind (deref (cwd (procs s p))) (\<lambda>old.
              ebind (iput old s) (\<lambda>s.
              ebind (end_op s) (\<lambda>s.
              Inr (0, upd_proc p (\<lambda>q. q\<lparr>cwd := Some ip\<rparr>) s))))))))))"

definition pipe_close_both :: "nat \<Rightarrow> nat \<Rightarrow> 'a fsst_scheme \<Rightarrow> (u64 \<times> 'a fsst_scheme) res" where
  "pipe_close_both rfile wfile s = ebind (fileclose rfile s) (\<lambda>s. ebind (fileclose wfile s) (\<lambda>s. Inr (-1, s)))"

definition sys_pipe :: "'a fsst_scheme \<Rightarrow> (u64 \<times> 'a fsst_scheme) res" where
  "sys_pipe s =
     ebind (this_proc s) (\<lambda>(p, s).
     ebind (argaddr 0 s) (\<lambda>(fdarray, s).
     ebind (pipealloc s) (\<lambda>(r, s).
     case r of None \<Rightarrow> Inr (-1, s)
     | Some (rfile, wfile) \<Rightarrow>
         ebind (fdalloc rfile s) (\<lambda>(fd0, s).
         case fd0 of None \<Rightarrow> pipe_close_both rfile wfile s
         | Some fd0 \<Rightarrow>
             ebind (fdalloc wfile s) (\<lambda>(fd1, s).
             case fd1 of None \<Rightarrow> pipe_close_both rfile wfile (set_ofile p fd0 None s)
             | Some fd1 \<Rightarrow>
                 ebind (copyout (pagetable (procs s p)) fdarray (le_bytes 4 (of_nat fd0 :: u32)) s) (\<lambda>(r0, s).
                 ebind (if r0 < 0 then Inr (r0, s)
                        else copyout (pagetable (procs s p)) (fdarray + 4) (le_bytes 4 (of_nat fd1 :: u32)) s) (\<lambda>(r1, s).
                 if r1 < 0 then pipe_close_both rfile wfile (set_ofile p fd1 None (set_ofile p fd0 None s))
                 else Inr (0, s))))))))"

end
