(* ===== verification/Exec.thy ===== *)
theory Exec
  imports Sysfile
begin

text \<open>
  \<^verbatim>\<open>kernel/exec.c\<close>, \<^verbatim>\<open>sys_exec\<close> of \<^verbatim>\<open>kernel/sysfile.c\<close> and \<^verbatim>\<open>exit\<close> of \<^verbatim>\<open>kernel/proc.c\<close>.
  The headers of an ELF file are read into local variables: \<open>elf_u16\<close>, \<open>elf_u32\<close> and \<open>elf_u64\<close> are the fields at a byte
  offset.  The argument strings of \<^verbatim>\<open>exec\<close> are in kernel memory, addressed by the pointers in \<open>argv\<close>.
\<close>

definition ELF_MAGIC :: u32 where "ELF_MAGIC = 0x464C457F"
definition ELF_PROG_LOAD :: u32 where "ELF_PROG_LOAD = 1"
definition MAXARG :: nat where MAXARG_def [simp]: "MAXARG = 32"

definition elf_u64 :: "u8 list \<Rightarrow> nat \<Rightarrow> u64" where
  "elf_u64 bs k = bytes_u64 (take 8 (drop k bs))"

definition elf_u32 :: "u8 list \<Rightarrow> nat \<Rightarrow> u32" where
  "elf_u32 bs k = ucast (bytes_u64 (take 4 (drop k bs)))"

definition elf_u16 :: "u8 list \<Rightarrow> nat \<Rightarrow> u16" where
  "elf_u16 bs k = ucast (bytes_u64 (take 2 (drop k bs)))"

definition flags2perm :: "u32 \<Rightarrow> u64" where
  "flags2perm fl =
     (let perm = (if fl AND 1 \<noteq> 0 then PTE_X else 0)
      in if fl AND 2 \<noteq> 0 then perm OR PTE_W else perm)"

text \<open>
  The offsets of the pages of a segment; a segment of 4 GiB or more, where the counter of the code would wrap around,
  is larger than any file, so the loop has ended with an error before.
\<close>

fun loadseg_loop :: "u64 \<Rightarrow> u64 \<Rightarrow> nat \<Rightarrow> u32 \<Rightarrow> nat \<Rightarrow> nat list \<Rightarrow> 'a fsst_scheme \<Rightarrow> (int \<times> 'a fsst_scheme) res" where
  "loadseg_loop pt va ip offset n [] s = Inr (0, s)"
| "loadseg_loop pt va ip offset n (i # is) s =
     ebind (walkaddr pt (va + of_nat i) s) (\<lambda>(pa, s).
     if pa = 0 then Inl (Panic ''loadseg: address should exist'')
     else let m = min (n - i) 4096
          in ebind (readi ip (Kernel pa) (offset + of_nat i) (of_nat m) s) (\<lambda>((r, _), s).
             if r \<noteq> int m then Inr (-1, s) else loadseg_loop pt va ip offset n is s))"

definition loadseg :: "u64 \<Rightarrow> u64 \<Rightarrow> nat \<Rightarrow> u32 \<Rightarrow> u32 \<Rightarrow> 'a fsst_scheme \<Rightarrow> (int \<times> 'a fsst_scheme) res" where
  "loadseg pt va ip offset n =
     loadseg_loop pt va ip offset (unat n) (map (\<lambda>k. 4096 * k) [0..<(unat n + 4095) div 4096])"

text \<open>The result: whether every header was good, and the size of the image so far.\<close>

primrec exec_load :: "nat \<Rightarrow> nat \<Rightarrow> u64 \<Rightarrow> u32 \<Rightarrow> u64 \<Rightarrow> 'a fsst_scheme \<Rightarrow> ((bool \<times> u64) \<times> 'a fsst_scheme) res" where
  "exec_load 0 ip pt off z s = Inr ((True, z), s)"
| "exec_load (Suc k) ip pt off z s =
     ebind (readi ip Local off 56 s) (\<lambda>((r, ph), s).
     let vaddr = elf_u64 ph 16; filesz = elf_u64 ph 32; memsz = elf_u64 ph 40
     in if r \<noteq> 56 then Inr ((False, z), s)
        else if elf_u32 ph 0 \<noteq> ELF_PROG_LOAD then exec_load k ip pt (off + 56) z s
        else if memsz < filesz then Inr ((False, z), s)
        else if vaddr + memsz < vaddr then Inr ((False, z), s)
        else if vaddr mod PGSIZE \<noteq> 0 then Inr ((False, z), s)
        else ebind (uvmalloc pt z (vaddr + memsz) (flags2perm (elf_u32 ph 4)) s) (\<lambda>(z1, s).
             if z1 = 0 then Inr ((False, z), s)
             else ebind (loadseg pt vaddr ip (ucast (elf_u64 ph 8)) (ucast filesz) s) (\<lambda>(r, s).
                  if r < 0 then Inr ((False, z1), s)
                  else exec_load k ip pt (off + 56) z1 s)))"

definition exec_bad :: "nat \<Rightarrow> u64 \<Rightarrow> u64 \<Rightarrow> nat option \<Rightarrow> 'a fsst_scheme \<Rightarrow> (int \<times> 'a fsst_scheme) res" where
  "exec_bad p pt z ipo s =
     ebind (if pt \<noteq> 0 then proc_freepagetable pt z p s else Inr s) (\<lambda>s.
     case ipo of Some ip \<Rightarrow> ebind (iunlockput ip s) (op_return (-1)) | None \<Rightarrow> Inr (-1, s))"

text \<open>The string at an address; \<open>strlen\<close> of a string without a null byte does not return.\<close>

definition kstring :: "u64 \<Rightarrow> 'a kst_scheme \<Rightarrow> u8 list res" where
  "kstring a s = (case strlen (mem s) a of None \<Rightarrow> Inl Wild | Some n \<Rightarrow> Inr (get_bytes (mem s) a n))"

definition align16 :: "u64 \<Rightarrow> u64" where
  "align16 sp = sp - sp mod 16"

text \<open>Pushing the argument strings: the stack pointer and the addresses of the strings, or \<open>None\<close> on an error.\<close>

fun push_args :: "u64 \<Rightarrow> u64 \<Rightarrow> u64 \<Rightarrow> u64 list \<Rightarrow> u64 list \<Rightarrow> 'a fsst_scheme \<Rightarrow> ((u64 \<times> u64 list) option \<times> 'a fsst_scheme) res" where
  "push_args pt base sp us [] s = Inr (Some (sp, us), s)"
| "push_args pt base sp us (a # as) s =
     (if length us \<ge> MAXARG then Inr (None, s)
      else ebind (kstring a s) (\<lambda>str.
           let sp = align16 (sp - (of_nat (length str) + 1))
           in if sp < base then Inr (None, s)
              else ebind (copyout pt sp (str @ [0]) s) (\<lambda>(r, s).
                   if r < 0 then Inr (None, s) else push_args pt base sp (us @ [sp]) as s)))"

definition base_name :: "u8 list \<Rightarrow> u8 list" where
  "base_name path = rev (takeWhile (\<lambda>c. c \<noteq> SLASH) (rev path))"

definition exec_commit ::
  "nat \<Rightarrow> u8 list \<Rightarrow> u64 \<Rightarrow> u64 \<Rightarrow> u64 \<Rightarrow> u64 \<Rightarrow> u64 \<Rightarrow> nat \<Rightarrow> 'a fsst_scheme \<Rightarrow> (int \<times> 'a fsst_scheme) res"
where
  "exec_commit p path pt z oldsz entry sp argc s =
     ebind (tf_st p (TF_a 1) sp s) (\<lambda>s.
     let oldpt = pagetable (procs s p);
         s = upd_proc p (\<lambda>q. q\<lparr>pname := str_fit 16 (base_name path), pagetable := pt, sz := z\<rparr>) s
     in ebind (tf_st p TF_epc entry s) (\<lambda>s.
        ebind (tf_st p TF_sp sp s) (\<lambda>s.
        ebind (proc_freepagetable oldpt oldsz p s) (\<lambda>s.
        Inr (int argc, s)))))"

definition exec_stack :: "u8 list \<Rightarrow> u64 list \<Rightarrow> u64 \<Rightarrow> u64 \<Rightarrow> u64 \<Rightarrow> 'a fsst_scheme \<Rightarrow> (int \<times> 'a fsst_scheme) res" where
  "exec_stack path argv pt z entry s =
     ebind (this_proc s) (\<lambda>(p, s).
     let oldsz = sz (procs s p); z = PGROUNDUP z
     in ebind (uvmalloc pt z (z + 2 * PGSIZE) PTE_W s) (\<lambda>(z1, s).
        if z1 = 0 then exec_bad p pt z None s
        else ebind (uvmclear pt (z1 - 2 * PGSIZE) s) (\<lambda>s.
             ebind (push_args pt (z1 - PGSIZE) z1 [] argv s) (\<lambda>(r, s).
             case r of None \<Rightarrow> exec_bad p pt z1 None s
             | Some (sp, us) \<Rightarrow>
                 if length us \<ge> MAXARG then Inl Wild
                 else let sp = align16 (sp - (of_nat (length us) + 1) * 8)
                      in if sp < z1 - PGSIZE then exec_bad p pt z1 None s
                         else ebind (copyout pt sp (concat (map (le_bytes 8) (us @ [0]))) s) (\<lambda>(r, s).
                              if r < 0 then exec_bad p pt z1 None s
                              else exec_commit p path pt z1 oldsz entry sp (length us) s)))))"

definition exec :: "u8 list \<Rightarrow> u64 list \<Rightarrow> 'a fsst_scheme \<Rightarrow> (int \<times> 'a fsst_scheme) res" where
  "exec path argv s =
     ebind (this_proc s) (\<lambda>(p, s).
     ebind (op_begin s) (\<lambda>s.
     ebind (namei path s) (\<lambda>(ipo, s).
     case ipo of None \<Rightarrow> op_return (-1) s
     | Some ip \<Rightarrow>
         ebind (ilock ipo s) (\<lambda>s.
         ebind (readi ip Local 0 64 s) (\<lambda>((r, elf), s).
         if r \<noteq> 64 \<or> elf_u32 elf 0 \<noteq> ELF_MAGIC then exec_bad p 0 0 ipo s
         else ebind (proc_pagetable p s) (\<lambda>(pt, s).
              if pt = 0 then exec_bad p 0 0 ipo s
              else ebind (exec_load (unat (elf_u16 elf 56)) ip pt (ucast (elf_u64 elf 32)) 0 s) (\<lambda>((ok, z), s).
                   if \<not> ok then exec_bad p pt z ipo s
                   else ebind (iunlockput ip s) (\<lambda>s.
                        ebind (end_op s) (exec_stack path argv pt z (elf_u64 elf 24))))))))))"

section \<open>The system call\<close>

definition fetchstr_to :: "u64 \<Rightarrow> u64 \<Rightarrow> 'a procst_scheme \<Rightarrow> (bool \<times> 'a procst_scheme) res" where
  "fetchstr_to uarg page s =
     ebind (this_proc s) (\<lambda>(p, s).
     ebind (copyinstr (pagetable (procs s p)) uarg 4096 s) (\<lambda>((r, bs), s).
     Inr (0 \<le> r, s\<lparr>mem := put_bytes (mem s) page bs\<rparr>)))"

text \<open>The pages fetched so far, and whether the loop ended well.\<close>

primrec sys_exec_args :: "nat \<Rightarrow> nat \<Rightarrow> u64 \<Rightarrow> u64 list \<Rightarrow> 'a fsst_scheme \<Rightarrow> ((bool \<times> u64 list) \<times> 'a fsst_scheme) res" where
  "sys_exec_args 0 i uargv pages s = Inr ((False, pages), s)"
| "sys_exec_args (Suc k) i uargv pages s =
     ebind (fetchaddr (uargv + 8 * of_nat i) s) (\<lambda>(uarg, s).
     case uarg of None \<Rightarrow> Inr ((False, pages), s)
     | Some uarg \<Rightarrow>
         if uarg = 0 then Inr ((True, pages), s)
         else ebind (kalloc s) (\<lambda>(page, s).
              if page = 0 then Inr ((False, pages), s)
              else ebind (fetchstr_to uarg page s) (\<lambda>(ok, s).
                   if \<not> ok then Inr ((False, pages @ [page]), s)
                   else sys_exec_args k (Suc i) uargv (pages @ [page]) s)))"

definition sys_exec :: "'a fsst_scheme \<Rightarrow> (u64 \<times> 'a fsst_scheme) res" where
  "sys_exec s =
     ebind (argaddr 1 s) (\<lambda>(uargv, s).
     ebind (argstr 0 MAXPATH s) (\<lambda>(path, s).
     case path of None \<Rightarrow> Inr (-1, s)
     | Some path \<Rightarrow>
         ebind (sys_exec_args MAXARG 0 uargv [] s) (\<lambda>((ok, pages), s).
         ebind (if ok then exec path pages s else Inr (-1, s)) (\<lambda>(r, s).
         ebind (efold kfree pages s) (\<lambda>s. Inr (of_int r, s))))))"

section \<open>Exit\<close>

definition exit_close :: "nat \<Rightarrow> nat \<Rightarrow> 'a fsst_scheme \<Rightarrow> 'a fsst_scheme res" where
  "exit_close p fd s =
     (case ofile (procs s p) fd of
        None \<Rightarrow> Inr s
      | Some f \<Rightarrow> ebind (fileclose f s) (\<lambda>s. Inr (set_ofile p fd None s)))"

definition exit :: "int \<Rightarrow> 'a fsst_scheme \<Rightarrow> (bool \<times> 'a fsst_scheme) res" where
  "exit status s =
     ebind (this_proc s) (\<lambda>(p, s).
     if initproc s = Some p then Inl (Panic ''init exiting'')
     else ebind (efold (exit_close p) [0..<NOFILE] s) (\<lambda>s.
          ebind (op_begin s) (\<lambda>s.
          ebind (deref (cwd (procs s p))) (\<lambda>ip.
          ebind (iput ip s) (\<lambda>s.
          ebind (end_op s) (\<lambda>s.
          exit_zombie p status (upd_proc p (\<lambda>q. q\<lparr>cwd := None\<rparr>) s)))))))"

definition sys_exit :: "'a fsst_scheme \<Rightarrow> (bool \<times> 'a fsst_scheme) res" where
  "sys_exit s = ebind (argint 0 s) (\<lambda>(n, s). exit n s)"

end
