(* ===== verification/Tx.thy ===== *)
theory Tx
  imports Fs
begin

text \<open>
  Inside a transaction: what the file system may assume of the buffer cache and the log between \<^verbatim>\<open>begin_op\<close> and
  \<^verbatim>\<open>end_op\<close>.  The blocks form a memory \<open>contents\<close> that every reader sees; \<^verbatim>\<open>bread\<close> locks a block,
  \<^verbatim>\<open>log_write\<close> makes a new content of a locked block part of the transaction, and \<^verbatim>\<open>brelse\<close> unlocks it.
\<close>

definition contents :: "'a logst_scheme \<Rightarrow> u32 \<Rightarrow> block" where
  "contents s = cv_data (view (log_dev s) s)"

text \<open>
  Process \<open>p\<close> has the blocks \<open>H\<close> locked.  A block is referred to once when it is logged and once when it is locked;
  blocks that are not logged agree with the disk.
\<close>

definition in_tx :: "nat \<Rightarrow> u32 set \<Rightarrow> 'a logst_scheme \<Rightarrow> bool" where
  "in_tx p H s \<longleftrightarrow>
     good p (log_dev s) s \<and> finite H \<and> (\<forall>z. cv_held (view (log_dev s) s) z \<longleftrightarrow> z \<in> H)
     \<and> (\<forall>z. cv_ref (view (log_dev s) s) z = (if z \<in> logged s then 1 else 0) + (if z \<in> H then 1 else 0))
     \<and> (\<forall>z. z \<notin> logged s \<longrightarrow> contents s z = disk s (log_dev s) z)
     \<and> inj_on (lh_block s) {..<nat (lh_n s)} \<and> 0 \<le> lh_n s \<and> log_size s \<le> int LOGSIZE"

text \<open>
  Room for \<open>k\<close> more blocks in the log, while \<open>h\<close> more buffers are locked.  Only an operation that has been admitted by
  \<^verbatim>\<open>begin_op\<close> may log blocks.
\<close>

definition room :: "nat \<Rightarrow> nat \<Rightarrow> u32 set \<Rightarrow> 'a logst_scheme \<Rightarrow> bool" where
  "room k h H s \<longleftrightarrow> lh_n s + int k < log_size s \<and> lh_n s + int k + int (card H) + int h \<le> int NBUF
     \<and> (0 < k \<longrightarrow> 1 \<le> outstanding s)"

lemma in_txD:
  assumes "in_tx p H s"
  shows "good p (log_dev s) s" "finite H" "cv_held (view (log_dev s) s) z \<longleftrightarrow> z \<in> H"
    "cv_ref (view (log_dev s) s) z = (if z \<in> logged s then 1 else 0) + (if z \<in> H then 1 else 0)"
    "z \<notin> logged s \<Longrightarrow> contents s z = disk s (log_dev s) z" "inj_on (lh_block s) {..<nat (lh_n s)}" "0 \<le> lh_n s"
    "log_size s \<le> int LOGSIZE"
  using assms by (simp_all add: in_tx_def)

lemma card_logged: "inj_on (lh_block s) {..<nat (lh_n s)} \<Longrightarrow> card (logged s) = nat (lh_n s)"
  by (simp add: logged_def card_image)

lemma finite_logged [simp]: "finite (logged s)"
  by (simp add: logged_def)

text \<open>What the operations of the cache and the log leave alone.\<close>

definition beside :: "'a logst_scheme \<Rightarrow> 'a logst_scheme \<Rightarrow> bool" where
  "beside s t \<longleftrightarrow> ident \<circ> procs t = ident \<circ> procs s \<and>
     (\<exists>C P S B L D W n f. t = s\<lparr>cpus := C, procs := P, sleeplocks := S, bufs := B, lru := L, disk := D, dwrites := W,
        lh_n := n, lh_block := f\<rparr>)"

lemma within_beside: "within s t \<Longrightarrow> beside s t"
proof -
  assume a: "within s t"
  then obtain C P S B L D W where
    t: "t = s\<lparr>cpus := C, procs := P, sleeplocks := S, bufs := B, lru := L, disk := D, dwrites := W\<rparr>"
    unfolding within_def by blast
  then have "t = s\<lparr>cpus := C, procs := P, sleeplocks := S, bufs := B, lru := L, disk := D, dwrites := W,
      lh_n := lh_n s, lh_block := lh_block s\<rparr>"
    by (cases s) simp
  then show ?thesis using a unfolding within_def beside_def by blast
qed

lemma beside_refl [simp]: "beside s s"
  by (rule within_beside) simp

lemma beside_trans:
  assumes "beside s t" "beside t u"
  shows "beside s u"
proof -
  obtain C P S B L D W n f where "t = s\<lparr>cpus := C, procs := P, sleeplocks := S, bufs := B, lru := L, disk := D, dwrites := W,
      lh_n := n, lh_block := f\<rparr>"
    using assms(1) unfolding beside_def by blast
  moreover obtain C' P' S' B' L' D' W' n' f' where "u = t\<lparr>cpus := C', procs := P', sleeplocks := S', bufs := B', lru := L',
      disk := D', dwrites := W', lh_n := n', lh_block := f'\<rparr>"
    using assms(2) unfolding beside_def by blast
  ultimately have "u = s\<lparr>cpus := C', procs := P', sleeplocks := S', bufs := B', lru := L',
      disk := D', dwrites := W', lh_n := n', lh_block := f'\<rparr>" by simp
  then show ?thesis using assms unfolding beside_def by metis
qed

lemma beside_fields:
  assumes "beside s t"
  shows "log_dev t = log_dev s" "log_start t = log_start s" "log_size t = log_size s" "outstanding t = outstanding s"
    "itable t = itable s" "ftable t = ftable s" "mem t = mem s"
  using assms by (auto simp: beside_def)

lemma beside_sblock: "beside s t \<Longrightarrow> sblock t = sblock s"
  by (auto simp: beside_def)

section \<open>The three operations\<close>

lemma tx_bread:
  assumes tx: "in_tx p H s" and x: "x \<notin> H" and r: "room 0 1 H s"
  obtains b t where "bread (log_dev s) x s = Inr (b, t)" "in_tx p (insert x H) t" "at_buf (log_dev s) t x b"
    "within s t" "contents t = contents s" "b_data (bufs t b) = contents s x" "disk t (log_dev s) = disk s (log_dev s)"
    "\<And>y c. at_buf (log_dev s) s y c \<Longrightarrow> y \<in> H \<Longrightarrow> at_buf (log_dev s) t y c"
proof -
  let ?d = "log_dev s" and ?v = "view (log_dev s) s"
  note T = in_txD [OF tx]
  have ref: "cv_ref ?v x + 1 \<noteq> 0" using T(4) [of x] x by simp
  have "\<exists>b<NBUF. b_refcnt (bufs s b) = 0"
  proof (rule used_blocks [OF goodD(2) [OF T(1)], of "logged s \<union> H"])
    show "finite (logged s \<union> H)" using T(2) by simp
    show "z \<in> logged s \<union> H" if "cv_ref ?v z \<noteq> 0" for z using that T(4) [of z] by (auto split: if_splits)
    have "card (logged s \<union> H) \<le> nat (lh_n s) + card H" using card_Un_le [of "logged s" H] card_logged [OF T(6)] by simp
    moreover have "int (nat (lh_n s)) = lh_n s" using T(7) by simp
    ultimately show "card (logged s \<union> H) < NBUF" using r unfolding room_def NBUF_def by linarith
  qed
  then obtain b t where b: "bread ?d x s = Inr (b, t)" "becomes p ?d s t (v_read x ?v)" "at_buf ?d t x b"
    using bread_ok [OF T(1) _ ref] T(3) [of x] x by blast
  note B = becomesD [OF b(2)] and W = within_log [OF becomesD(2) [OF b(2)]]
  have lg: "logged t = logged s" by (simp add: logged_def W)
  have c: "contents t = contents s" by (simp add: contents_def W B(4) v_read_def)
  have dsk: "disk t ?d = disk s ?d" using B(4) view_disk(1) [of ?d t] by (simp add: v_read_def)
  have "in_tx p (insert x H) t"
    using T B(1) x unfolding in_tx_def W lg c dsk B(4) by (auto simp: v_read_def)
  moreover have "b_data (bufs t b) = contents s x"
  proof -
    have "cv_ref (view ?d t) x \<noteq> 0" using T(4) [of x] x by (simp add: B(4) v_read_def)
    then show ?thesis using used_buf(5) [OF B(1) b(3)] by (simp add: B(4) v_read_def contents_def)
  qed
  moreover have "at_buf ?d t y c" if "at_buf ?d s y c" "y \<in> H" for y c
    using keepsD [OF B(3) that(1)] T(4) [of y] that(2) by simp
  ultimately show ?thesis using that b(1,3) B(2) c dsk by blast
qed

lemma within_settled [simp]: "within s (settled s)"
  by (rule withinI) (cases s, simp add: settled_def set_mycpu_def, simp)

lemma beside_log: "beside s (s\<lparr>lh_n := n, lh_block := f\<rparr>)"
proof -
  have "s\<lparr>lh_n := n, lh_block := f\<rparr> = s\<lparr>cpus := cpus s, procs := procs s, sleeplocks := sleeplocks s, bufs := bufs s,
      lru := lru s, disk := disk s, dwrites := dwrites s, lh_n := n, lh_block := f\<rparr>"
    by (cases s) simp
  then show ?thesis unfolding beside_def by (intro conjI exI) (simp, assumption)
qed

lemma at_buf_settled [simp]: "at_buf d (settled s) x b = at_buf d s x b"
  by (simp add: at_buf_def)

lemma tx_put:
  assumes tx: "in_tx p H s" and x: "x \<in> H" "at_buf (log_dev s) s x b" and n: "lh_n s < log_size s - 1" "1 \<le> outstanding s"
  obtains t where "log_write b (set_data b a s) = Inr t" "in_tx p H t" "beside s t" "contents t = (contents s)(x := a)"
    "logged t = insert x (logged s)" "lh_n t \<le> lh_n s + 1" "\<And>y c. at_buf (log_dev s) t y c = at_buf (log_dev s) s y c"
    "disk t (log_dev s) = disk s (log_dev s)"
proof -
  let ?d = "log_dev s" and ?s1 = "set_data b a s"
  note T = in_txD [OF tx]
  have r: "cv_ref (view ?d s) x \<noteq> 0" using T(4) [of x] x(1) by simp
  note S = becomesD [OF store_ok [OF T(1) x(2) r, of a, folded set_data_def]] and W = within_log [OF becomesD(2) [OF store_ok [OF T(1) x(2) r, of a, folded set_data_def]]]
  have at1: "at_buf ?d ?s1 y c = at_buf ?d s y c" for y c
    by (auto simp: at_buf_def is_buf_def set_data_def upd_buf_def)
  have bx: "b_blockno (bufs ?s1 b) = x" using x(2) at1 [of x b] by (simp add: at_buf_def is_buf_def)
  have q: "quiet p ?s1" using goodD(1) [OF S(1)] .
  have g: "0 \<le> lh_n ?s1" "lh_n ?s1 < int LOGSIZE" "lh_n ?s1 < log_size ?s1 - 1" "1 \<le> outstanding ?s1"
    using T(7,8) n by (simp_all add: W)
  have l1: "logged ?s1 = logged s" by (simp add: logged_def W)
  show ?thesis
  proof (cases "x \<in> logged s")
    case True
    let ?t = "settled ?s1"
    have w: "log_write b ?s1 = Inr ?t" by (rule log_write_absorb [OF q g bx]) (simp add: l1 True)
    have c: "contents ?t = (contents s)(x := a)" by (simp add: contents_def W S(4) v_set_def)
    have "in_tx p H ?t"
      using T good_settled [OF S(1)] True unfolding in_tx_def c
      by (auto simp: W logged_def S(4) v_set_def view_disk(1) [of ?d ?s1, symmetric])
    moreover have "beside s ?t" using within_beside [OF within_trans [OF S(2) within_settled]] .
    moreover have "logged ?t = insert x (logged s)" using True by (simp add: logged_def W insert_absorb)
    ultimately show ?thesis
      using that [of ?t] w c at1 view_disk(1) [of ?d ?s1] by (simp add: W S(4) v_set_def)
  next
    case False
    let ?u = "(settled ?s1)\<lparr>bufs := (bufs ?s1)(b := (bufs ?s1 b)\<lparr>b_refcnt := b_refcnt (bufs ?s1 b) + 1\<rparr>)\<rparr>"
    let ?f = "(lh_block s)(nat (lh_n s) := x)"
    let ?t = "(?u\<lparr>lh_n := lh_n s + 1\<rparr>)\<lparr>lh_block := ?f\<rparr>"
    have w: "log_write b ?s1 = Inr ?t" using log_write_new [OF q g bx] False by (simp add: l1 W)
    have r1: "cv_ref (view ?d ?s1) x \<noteq> 0" "cv_ref (view ?d ?s1) x + 1 \<noteq> 0"
      using r T(4) [of x] False x(1) by (simp_all add: S(4) v_set_def)
    have atx: "at_buf ?d ?s1 x b" using x(2) at1 by simp
    note B = becomesD [OF bref_ok [OF S(1) atx r1 refl]]
    have vu: "view ?d ?u = v_ref x 1 (v_set x a (view ?d s))" using B(4) unfolding S(4) .
    then have vt: "view ?d ?t = v_ref x 1 (v_set x a (view ?d s))" by simp
    have c: "contents ?t = (contents s)(x := a)" by (simp add: contents_def W vu v_set_def v_ref_def)
    have lg: "logged ?t = insert x (logged s)" "inj_on ?f {..<Suc (nat (lh_n s))}"
      using T(6,7) False by (auto simp: logged_def nat_add_distrib lessThan_Suc inj_on_def)
    have dsk: "disk ?t ?d = disk s ?d" using view_disk(1) [of ?d ?t] by (simp only: vt) (simp add: v_ref_def v_set_def)
    have "in_tx p H ?t"
      using T B(1) x False unfolding in_tx_def c lg(1)
      by (auto simp: W vu v_ref_def v_set_def dsk [simplified] lg(2) [simplified] nat_add_distrib)
    moreover have "beside s ?t"
      using beside_trans [OF within_beside [OF within_trans [OF S(2) B(2)]] beside_log] by simp
    moreover have "at_buf ?d ?t y c = at_buf ?d s y c" for y c
      using at1 [of y c] by (auto simp: at_buf_def is_buf_def)
    ultimately show ?thesis using that [of ?t] w c lg(1) dsk by simp
  qed
qed

lemma tx_brelse:
  assumes tx: "in_tx p H s" and x: "x \<in> H" "at_buf (log_dev s) s x b"
    and c: "x \<in> logged s \<or> contents s x = disk s (log_dev s) x"
  obtains t where "brelse b s = Inr t" "in_tx p (H - {x}) t" "within s t" "contents t = contents s"
    "\<And>y c. at_buf (log_dev s) t y c = at_buf (log_dev s) s y c" "disk t (log_dev s) = disk s (log_dev s)"
proof -
  let ?d = "log_dev s" and ?v = "view (log_dev s) s"
  note T = in_txD [OF tx]
  have h: "cv_held ?v x" using T(3) x(1) by simp
  have k: "cv_ref ?v x = 1 \<Longrightarrow> cv_data ?v x = cv_disk ?v x"
    using c x(1) T(4) [of x] by (auto simp: contents_def view_disk(1))
  then obtain t where t: "brelse b s = Inr t" "becomes p ?d s t (v_release x ?v)"
    using brelse_ok [OF T(1) x(2) h] by blast
  have at: "at_buf ?d t y e = at_buf ?d s y e" for y e
    using brelse_ok [OF T(1) x(2) h k, of y e "at_buf ?d t y e = at_buf ?d s y e"] t(1) by simp
  note B = becomesD [OF t(2)] and W = within_log [OF becomesD(2) [OF t(2)]]
  have lg: "logged t = logged s" by (simp add: logged_def W)
  have ct: "contents t = contents s" by (simp add: contents_def W B(4) v_release_def)
  have dsk: "disk t ?d = disk s ?d" using B(4) view_disk(1) [of ?d t] by (simp add: v_release_def)
  have "in_tx p (H - {x}) t"
    using T B(1) x unfolding in_tx_def W lg ct dsk B(4) by (auto simp: v_release_def)
  then show ?thesis using that t(1) B(2) ct at dsk by blast
qed

section \<open>Steps of a transaction\<close>

text \<open>
  A step of process \<open>p\<close> from \<open>s\<close> to \<open>t\<close>: the locked blocks go from \<open>H\<close> to \<open>H'\<close>, the memory of blocks becomes
  \<open>c\<close>, and no blocks but those of \<open>L\<close> become logged.
\<close>

definition tx_frame :: "'a fsst_scheme \<Rightarrow> 'a fsst_scheme \<Rightarrow> bool" where
  "tx_frame s t \<longleftrightarrow> log_dev t = log_dev s \<and> log_start t = log_start s \<and> log_size t = log_size s
     \<and> outstanding t = outstanding s \<and> sblock t = sblock s \<and> mem t = mem s \<and> ident \<circ> procs t = ident \<circ> procs s
     \<and> disk t (log_dev s) = disk s (log_dev s) \<and> logged s \<subseteq> logged t"

definition tx_step ::
  "nat \<Rightarrow> u32 set \<Rightarrow> 'a fsst_scheme \<Rightarrow> u32 set \<Rightarrow> 'a fsst_scheme \<Rightarrow> (u32 \<Rightarrow> block) \<Rightarrow> u32 set \<Rightarrow> bool"
where
  "tx_step p H s H' t c L \<longleftrightarrow> in_tx p H s \<and> in_tx p H' t \<and> tx_frame s t \<and> contents t = c
     \<and> finite L \<and> logged t \<subseteq> logged s \<union> L
     \<and> (\<forall>y\<in>H \<inter> H'. \<forall>b. at_buf (log_dev s) s y b \<longrightarrow> at_buf (log_dev s) t y b)"

lemma lh_n_logged: "in_tx p H s \<Longrightarrow> lh_n s = int (card (logged s))"
  using in_txD(6,7) [of p H s] card_logged [of s] by simp

lemma tx_stepD:
  assumes "tx_step p H s H' t c L"
  shows "in_tx p H' t" "contents t = c" "lh_n t \<le> lh_n s + int (card L)" "log_dev t = log_dev s" "log_size t = log_size s"
    "sblock t = sblock s" "disk t (log_dev s) = disk s (log_dev s)" "logged s \<subseteq> logged t"
    "at_buf (log_dev s) s y b \<Longrightarrow> y \<in> H \<Longrightarrow> y \<in> H' \<Longrightarrow> at_buf (log_dev s) t y b" "mem t = mem s"
    "finite L" "logged t \<subseteq> logged s \<union> L" "in_tx p H s" "outstanding t = outstanding s"
proof -
  show L: "finite L" "logged t \<subseteq> logged s \<union> L" and tx: "in_tx p H' t" "in_tx p H s" using assms by (simp_all add: tx_step_def)
  have "card (logged t) \<le> card (logged s \<union> L)" by (rule card_mono) (use L in auto)
  also have "\<dots> \<le> card (logged s) + card L" by (rule card_Un_le)
  finally show "lh_n t \<le> lh_n s + int (card L)" using lh_n_logged [OF tx(1)] lh_n_logged [OF tx(2)] by simp
qed (use assms in \<open>auto simp: tx_step_def tx_frame_def\<close>)

lemma tx_step_refl: "in_tx p H s \<Longrightarrow> tx_step p H s H s (contents s) {}"
  by (simp add: tx_step_def tx_frame_def)

lemma tx_step_mono: "tx_step p H s H' t c L \<Longrightarrow> L \<subseteq> L' \<Longrightarrow> finite L' \<Longrightarrow> tx_step p H s H' t c L'"
  by (auto simp: tx_step_def)

lemma tx_step_trans:
  assumes "tx_step p H s H' t c L" "tx_step p H' t H'' u c' L'" "H \<inter> H'' \<subseteq> H'"
  shows "tx_step p H s H'' u c' (L \<union> L')"
proof -
  have f: "tx_frame s u" using assms(1,2) unfolding tx_step_def tx_frame_def by auto
  have "at_buf (log_dev s) u y b" if "y \<in> H" "y \<in> H''" "at_buf (log_dev s) s y b" for y b
    using tx_stepD(9) [OF assms(1) that(3,1)] tx_stepD(9) [OF assms(2), of y b] tx_stepD(4) [OF assms(1)] that assms(3) by auto
  then show ?thesis
    using f tx_stepD(1,2,11,12) [OF assms(2)] tx_stepD(11-13) [OF assms(1)] by (auto simp: tx_step_def)
qed

lemma room_step:
  assumes "tx_step p H s H' t c L" "room (card L + n) (h + card H') {} s"
  shows "room n h H' t"
  using assms(2) tx_stepD(3,5,14) [OF assms(1)] by (auto simp: room_def)

lemma room_after:
  assumes "tx_step p H s H t c L" "card L \<le> m" "room (m + n) h H s"
  shows "room n h H t"
  using assms(2,3) tx_stepD(3,5,14) [OF assms(1)] by (auto simp: room_def)

lemma card_two: "card {a, b} \<le> 2"
  by (simp add: card_insert_if)

lemma room_card: "room k h H s = room k (h + card H) {} s"
  by (auto simp: room_def)

lemma frame_beside:
  assumes "beside s t" "disk t (log_dev s) = disk s (log_dev s)" "logged s \<subseteq> logged t"
  shows "tx_frame s t" "itable t = itable s"
  using assms beside_fields [OF assms(1)] beside_sblock [OF assms(1)] unfolding tx_frame_def beside_def by auto

lemma bread_step:
  assumes tx: "in_tx p H s" and x: "x \<notin> H" and r: "room 0 1 H s"
  obtains b t where "bread (log_dev s) x s = Inr (b, t)" "tx_step p H s (insert x H) t (contents s) {}"
    "at_buf (log_dev s) t x b" "b_data (bufs t b) = contents s x" "itable t = itable s"
proof -
  obtain b t where t: "bread (log_dev s) x s = Inr (b, t)" "in_tx p (insert x H) t" "at_buf (log_dev s) t x b"
    "within s t" "contents t = contents s" "b_data (bufs t b) = contents s x" "disk t (log_dev s) = disk s (log_dev s)"
    "\<And>y c. at_buf (log_dev s) s y c \<Longrightarrow> y \<in> H \<Longrightarrow> at_buf (log_dev s) t y c"
    using tx_bread [OF tx x r] by blast
  note W = within_log [OF t(4)]
  have lg: "logged t = logged s" by (simp add: logged_def W)
  note F = frame_beside [OF within_beside [OF t(4)] t(7)]
  have "tx_step p H s (insert x H) t (contents s) {}"
    using tx t(2,5,8) F(1) lg by (auto simp: tx_step_def)
  then show ?thesis using that t(1,3,6) F(2) lg by simp
qed

lemma put_step:
  assumes tx: "in_tx p H s" and x: "x \<in> H" "at_buf (log_dev s) s x b" and n: "room 1 h H s"
  obtains t where "log_write b (set_data b a s) = Inr t" "tx_step p H s H t ((contents s)(x := a)) {x}" "x \<in> logged t"
    "itable t = itable s"
proof -
  have n': "lh_n s < log_size s - 1" "1 \<le> outstanding s" using n by (simp_all add: room_def)
  obtain t where t: "log_write b (set_data b a s) = Inr t" "in_tx p H t" "beside s t" "contents t = (contents s)(x := a)"
    "logged t = insert x (logged s)" "lh_n t \<le> lh_n s + 1" "\<And>y c. at_buf (log_dev s) t y c = at_buf (log_dev s) s y c"
    "disk t (log_dev s) = disk s (log_dev s)"
    using tx_put [OF tx x n', of a] by blast
  have lg: "logged s \<subseteq> logged t" using t(5) by auto
  note F = frame_beside [OF t(3,8) lg]
  have "tx_step p H s H t ((contents s)(x := a)) {x}"
    using tx t(2,4,5,7) F(1) by (auto simp: tx_step_def)
  then show ?thesis using that t(1,5) F(2) by simp
qed

lemma brelse_step:
  assumes tx: "in_tx p H s" and x: "x \<in> H" "at_buf (log_dev s) s x b"
    and c: "x \<in> logged s \<or> contents s x = disk s (log_dev s) x"
  obtains t where "brelse b s = Inr t" "tx_step p H s (H - {x}) t (contents s) {}" "itable t = itable s"
proof -
  obtain t where t: "brelse b s = Inr t" "in_tx p (H - {x}) t" "within s t" "contents t = contents s"
    "\<And>y c. at_buf (log_dev s) t y c = at_buf (log_dev s) s y c" "disk t (log_dev s) = disk s (log_dev s)"
    using tx_brelse [OF tx x c] by blast
  note W = within_log [OF t(3)]
  have lg: "logged t = logged s" by (simp add: logged_def W)
  note F = frame_beside [OF within_beside [OF t(3)] t(6)]
  have "tx_step p H s (H - {x}) t (contents s) {}"
    using tx t(2,4,5) F(1) lg by (auto simp: tx_step_def)
  then show ?thesis using that t(1) F(2) lg by simp
qed

lemma modify_step:
  assumes tx: "in_tx p H s" and x: "x \<notin> H" and r: "room 1 1 H s"
  obtains b s1 t where "bread (log_dev s) x s = Inr (b, s1)" "b_data (bufs s1 b) = contents s x" "itable s1 = itable s"
    "sblock s1 = sblock s" "ebind (log_write b (set_data b a s1)) (brelse b) = Inr t"
    "tx_step p H s H t ((contents s)(x := a)) {x}" "itable t = itable s"
proof -
  have "room 0 1 H s" using r by (simp add: room_def)
  then obtain b s1 where s1: "bread (log_dev s) x s = Inr (b, s1)" "tx_step p H s (insert x H) s1 (contents s) {}"
    "at_buf (log_dev s) s1 x b" "b_data (bufs s1 b) = contents s x" "itable s1 = itable s"
    using bread_step [OF tx x] by blast
  note S = tx_stepD [OF s1(2)]
  have at1: "at_buf (log_dev s1) s1 x b" and r1: "room 1 0 (insert x H) s1"
    using s1(3) S(4) room_step [OF s1(2), of 1 0] r x in_txD(2) [OF tx] by (auto simp: room_def)
  obtain s2 where s2: "log_write b (set_data b a s1) = Inr s2"
    "tx_step p (insert x H) s1 (insert x H) s2 ((contents s1)(x := a)) {x}" "x \<in> logged s2" "itable s2 = itable s1"
    by (rule put_step [OF S(1) insertI1 at1 r1, of a])
  note S2 = tx_stepD [OF s2(2)]
  have at2: "at_buf (log_dev s2) s2 x b" using S2(9) [OF at1 insertI1 insertI1] S2(4) by simp
  obtain t where t: "brelse b s2 = Inr t" "tx_step p (insert x H) s2 (insert x H - {x}) t (contents s2) {}" "itable t = itable s2"
    by (rule brelse_step [OF S2(1) insertI1 at2 disjI1 [OF s2(3)]])
  have "tx_step p (insert x H) s1 (insert x H - {x}) t (contents s2) ({x} \<union> {})"
    by (rule tx_step_trans [OF s2(2) t(2)]) auto
  then have "tx_step p H s (insert x H - {x}) t (contents s2) ({} \<union> ({x} \<union> {}))"
    by (rule tx_step_trans [OF s1(2)]) auto
  then have "tx_step p H s H t ((contents s)(x := a)) {x}" using x S(2) S2(2) by simp
  then show ?thesis using that s1(1,4,5) S(6) s2(1,4) t(1,3) by simp
qed

lemma peek_step:
  assumes tx: "in_tx p H s" and x: "x \<notin> H" and r: "room 0 1 H s"
  obtains b s1 t where "bread (log_dev s) x s = Inr (b, s1)" "b_data (bufs s1 b) = contents s x" "itable s1 = itable s"
    "sblock s1 = sblock s" "brelse b s1 = Inr t" "tx_step p H s H t (contents s) {}" "itable t = itable s"
proof -
  obtain b s1 where s1: "bread (log_dev s) x s = Inr (b, s1)" "tx_step p H s (insert x H) s1 (contents s) {}"
    "at_buf (log_dev s) s1 x b" "b_data (bufs s1 b) = contents s x" "itable s1 = itable s"
    by (rule bread_step [OF tx x r])
  note S = tx_stepD [OF s1(2)]
  have at1: "at_buf (log_dev s1) s1 x b" using s1(3) S(4) by simp
  have "x \<in> logged s1 \<or> contents s1 x = disk s1 (log_dev s1) x" using in_txD(5) [OF S(1)] by blast
  then obtain t where t: "brelse b s1 = Inr t" "tx_step p (insert x H) s1 (insert x H - {x}) t (contents s1) {}" "itable t = itable s1"
    by (rule brelse_step [OF S(1) insertI1 at1])
  have "tx_step p H s (insert x H - {x}) t (contents s1) ({} \<union> {})"
    by (rule tx_step_trans [OF s1(2) t(2)]) auto
  then have "tx_step p H s H t (contents s) {}" using x S(2) by simp
  then show ?thesis using that s1(1,4,5) S(6) t(1,3) by simp
qed

lemma held_data:
  assumes "in_tx p H s" "x \<in> H" "at_buf (log_dev s) s x b"
  shows "b_data (bufs s b) = contents s x"
proof -
  have "cv_ref (view (log_dev s) s) x \<noteq> 0" using in_txD(4) [OF assms(1), of x] assms(2) by simp
  then show ?thesis using used_buf(5) [OF in_txD(1) [OF assms(1)] assms(3)] by (simp add: contents_def)
qed

lemma card_logged_Un: "in_tx p H s \<Longrightarrow> finite L \<Longrightarrow> lh_n s \<le> int (card (logged s \<union> L))"
  using lh_n_logged [of p H s] card_mono [of "logged s \<union> L" "logged s"] by simp

section \<open>A concrete file system\<close>

text \<open>
  Forty blocks: the log from block 2 on, inodes in block 32, the bitmap in block 33.  One operation is running, nothing is
  logged and no buffer is in use.
\<close>

definition fs_sb :: superblock where
  "fs_sb = \<lparr>sb_magic = FSMAGIC, sb_size = 40, sb_nblocks = 6, sb_ninodes = 16, sb_nlog = 30, sb_logstart = 2,
     sb_inodestart = 32, sb_bmapstart = 33\<rparr>"

definition fsst_of :: "(u32 \<Rightarrow> block) \<Rightarrow> (nat \<Rightarrow> inode) \<Rightarrow> fsst" where
  "fsst_of c T = (logst.extend (logst_of (\<lambda>_. c)) \<lparr>sblock = fs_sb\<rparr>)\<lparr>itable := T\<rparr>"

lemma fsst_of_simps [simp]:
  "log_dev (fsst_of c T) = 1" "log_size (fsst_of c T) = 30" "outstanding (fsst_of c T) = 1" "lh_n (fsst_of c T) = 0"
  "sblock (fsst_of c T) = fs_sb" "itable (fsst_of c T) = T" "disk (fsst_of c T) = (\<lambda>_. c)"
  by (simp_all add: fsst_of_def logst.defs)

lemma fsst_of_parts:
  "bufs (fsst_of c T) = bufs (logst_of (\<lambda>_. c))" "lru (fsst_of c T) = lru (logst_of (\<lambda>_. c))"
  "sleeplocks (fsst_of c T) = sleeplocks (logst_of (\<lambda>_. c))" "procs (fsst_of c T) = procs (logst_of (\<lambda>_. c))"
  "locks (fsst_of c T) = locks (logst_of (\<lambda>_. c))" "cpus (fsst_of c T) = cpus (logst_of (\<lambda>_. c))"
  "hartid (fsst_of c T) = hartid (logst_of (\<lambda>_. c))" "dwrites (fsst_of c T) = dwrites (logst_of (\<lambda>_. c))"
  by (simp_all add: fsst_of_def logst.defs logst_of_def biost.defs)

lemma fsst_of_view: "view 1 (fsst_of c T) = view 1 (biost_of (\<lambda>_. c))"
  by (simp add: view_def fsst_of_parts cong: option.case_cong if_cong)

lemma fsst_of_contents [simp]: "contents (fsst_of c T) = c"
  by (simp add: contents_def fsst_of_view biost_of_view)

lemma fsst_of_tx: "in_tx 1 {} (fsst_of c T)"
proof -
  have "good 1 1 (fsst_of c T)"
    using logst_of_good [of "\<lambda>_. c"] by (simp add: good_def quiet_def lock_free_def mycpu_def fsst_of_parts)
  then show ?thesis by (simp add: in_tx_def logged_def fsst_of_view biost_of_view del: One_nat_def)
qed

lemma fsst_of_room: "k + h < 30 \<Longrightarrow> room k h {} (fsst_of c T)"
  by (simp add: room_def)

end
