(* ===== verification/Blocks.thy ===== *)
theory Blocks
  imports Tx
begin

text \<open>
  The allocator of disk blocks inside a transaction: \<^verbatim>\<open>bzero\<close>, \<^verbatim>\<open>balloc\<close> and \<^verbatim>\<open>bfree\<close> of
  \<^verbatim>\<open>kernel/fs.c\<close> as operations on the memory of blocks, with the bitmap as the set of the blocks in use.
\<close>

section \<open>Block numbers and bits of a bitmap block\<close>

lemma unat_u32_less [simp]: "unat (a :: u32) < 4294967296"
  using unsigned_less [of a] by simp

lemma unat_of_nat_u32 [simp]: "n < 4294967296 \<Longrightarrow> unat (of_nat n :: u32) = n"
  by (simp add: unat_of_nat)

lemma u32_eq_iff: "a = b \<longleftrightarrow> unat (a :: u32) = unat b"
  by (metis word_unat_eq_iff)

lemma of_nat_unat_u32 [simp]: "of_nat (unat a) = (a :: u32)"
  by simp

definition bit_set :: "block \<Rightarrow> nat \<Rightarrow> block" where
  "bit_set a bi = a(bi div 8 := a (bi div 8) OR bit_mask bi)"

definition bit_clear :: "block \<Rightarrow> nat \<Rightarrow> block" where
  "bit_clear a bi = a(bi div 8 := a (bi div 8) AND NOT (bit_mask bi))"

lemma bit_mask_bit: "bit (bit_mask bi) k \<longleftrightarrow> k = bi mod 8"
  by (auto simp: bit_mask_def bit_simps)

lemma bit_word_eq_iff: "a = b \<longleftrightarrow> (\<forall>k < LENGTH('a). bit a k = bit b k)" for a b :: "'a::len word"
  using bit_word_eqI [of a b] by auto

lemma bit_free_iff: "bit_free a bi \<longleftrightarrow> \<not> bit (a (bi div 8)) (bi mod 8)"
  using mod_less_divisor [of 8 bi] by (auto simp: bit_free_def bit_word_eq_iff bit_and_iff bit_mask_bit simp del: mod_less_divisor)

lemma bit_free_set [simp]: "bit_free (bit_set a bi) bj \<longleftrightarrow> bj \<noteq> bi \<and> bit_free a bj"
proof -
  have "bj = bi \<longleftrightarrow> bj div 8 = bi div 8 \<and> bj mod 8 = bi mod 8" by (metis div_mult_mod_eq)
  then show ?thesis by (auto simp: bit_free_iff bit_set_def bit_or_iff bit_mask_bit)
qed

lemma bit_free_clear [simp]: "bit_free (bit_clear a bi) bj \<longleftrightarrow> bj = bi \<or> bit_free a bj"
proof -
  have "bj = bi \<longleftrightarrow> bj div 8 = bi div 8 \<and> bj mod 8 = bi mod 8" by (metis div_mult_mod_eq)
  then show ?thesis by (auto simp: bit_free_iff bit_clear_def bit_and_iff bit_not_iff bit_mask_bit)
qed

lemma bit_clear_set: "bit_free a bi \<Longrightarrow> bit_clear (bit_set a bi) bi = a"
  by (auto simp: bit_free_iff bit_clear_def bit_set_def fun_eq_iff bit_word_eq_iff bit_and_iff bit_or_iff bit_not_iff bit_mask_bit)

section \<open>The bitmap\<close>

text \<open>The blocks that the bitmap has as free, and the memory after block \<open>b\<close> is allocated.\<close>

definition blk_free :: "superblock \<Rightarrow> (u32 \<Rightarrow> block) \<Rightarrow> u32 \<Rightarrow> bool" where
  "blk_free sb c b \<longleftrightarrow> bit_free (c (BBLOCK b sb)) (unat b mod BPB)"

definition taken :: "superblock \<Rightarrow> u32 \<Rightarrow> (u32 \<Rightarrow> block) \<Rightarrow> u32 \<Rightarrow> block" where
  "taken sb b c = c(BBLOCK b sb := bit_set (c (BBLOCK b sb)) (unat b mod BPB), b := \<lambda>_. 0)"

definition given :: "superblock \<Rightarrow> u32 \<Rightarrow> (u32 \<Rightarrow> block) \<Rightarrow> u32 \<Rightarrow> block" where
  "given sb b c = c(BBLOCK b sb := bit_clear (c (BBLOCK b sb)) (unat b mod BPB))"

lemma BBLOCK_eq:
  assumes "i < BPB" "k * BPB + i < 2 ^ 32"
  shows "BBLOCK (of_nat (k * BPB + i)) sb = of_nat k + sb_bmapstart sb" "unat (of_nat (k * BPB + i) :: u32) mod BPB = i"
proof -
  have u: "unat (of_nat (k * BPB + i) :: u32) = k * 8192 + i"
    using assms(2) unat_of_nat_u32 [of "k * 8192 + i"] by simp
  show "unat (of_nat (k * BPB + i) :: u32) mod BPB = i" using assms(1) unfolding u by simp
  have "unat ((of_nat (k * BPB + i) :: u32) div of_nat BPB) = (k * 8192 + i) div 8192"
    unfolding unat_div u by simp
  also have "\<dots> = k" using assms(1) by simp
  also have "\<dots> = unat (of_nat k :: u32)" using assms(2) by simp
  finally have "(of_nat (k * BPB + i) :: u32) div of_nat BPB = of_nat k" by (simp add: u32_eq_iff)
  then show "BBLOCK (of_nat (k * BPB + i)) sb = of_nat k + sb_bmapstart sb" by (simp add: BBLOCK_def)
qed

lemma BBLOCK_same: "BBLOCK b sb = BBLOCK b' sb \<Longrightarrow> unat b mod BPB = unat b' mod BPB \<Longrightarrow> b = b'"
proof -
  assume a: "BBLOCK b sb = BBLOCK b' sb" "unat b mod BPB = unat b' mod BPB"
  then have "unat (b div of_nat BPB) = unat (b' div of_nat BPB)" by (simp add: BBLOCK_def)
  then have "unat b div 8192 = unat b' div 8192" by (simp add: unat_div)
  then have "unat b = unat b'" using a(2) unfolding BPB_def by (metis div_mult_mod_eq)
  then show ?thesis by (simp add: u32_eq_iff)
qed

lemma blk_free_given: "blk_free sb (given sb b c) b' \<longleftrightarrow> b' = b \<or> blk_free sb c b'"
  using BBLOCK_same [of b' sb b] by (auto simp: blk_free_def given_def)

lemma blk_free_taken:
  "BBLOCK b' sb \<noteq> b \<Longrightarrow> blk_free sb (taken sb b c) b' \<longleftrightarrow> b' \<noteq> b \<and> blk_free sb c b'"
  using BBLOCK_same [of b' sb b] by (auto simp: blk_free_def taken_def)

section \<open>Allocation\<close>

lemma bzero_step:
  assumes "in_tx p H s" "x \<notin> H" "room 1 1 H s"
  obtains t where "bzero (log_dev s) x s = Inr t" "tx_step p H s H t ((contents s)(x := \<lambda>_. 0)) {x}" "itable t = itable s"
  by (rule modify_step [OF assms, of "\<lambda>_. 0"]) (simp add: bzero_def)

text \<open>
  What \<^verbatim>\<open>balloc\<close> does: with no free block it returns 0 and changes nothing; otherwise it returns the first free
  block, now taken and zeroed.
\<close>

definition no_free :: "superblock \<Rightarrow> (u32 \<Rightarrow> block) \<Rightarrow> nat \<Rightarrow> bool" where
  "no_free sb c n \<longleftrightarrow> (\<forall>b<n. \<not> blk_free sb c (of_nat b))"

definition balloc_result :: "nat \<Rightarrow> u32 set \<Rightarrow> 'a fsst_scheme \<Rightarrow> u32 \<Rightarrow> 'a fsst_scheme \<Rightarrow> bool" where
  "balloc_result p H s r t \<longleftrightarrow> itable t = itable s \<and>
     (no_free (sblock s) (contents s) (unat (sb_size (sblock s))) \<and> r = 0 \<and> tx_step p H s H t (contents s) {} \<or>
      r < sb_size (sblock s) \<and> blk_free (sblock s) (contents s) r \<and> no_free (sblock s) (contents s) (unat r)
        \<and> tx_step p H s H t (taken (sblock s) r (contents s)) {BBLOCK r (sblock s), r})"

text \<open>The bitmap and the free blocks are not locked.\<close>

definition bitmap_unlocked :: "u32 set \<Rightarrow> 'a fsst_scheme \<Rightarrow> bool" where
  "bitmap_unlocked H s \<longleftrightarrow> (\<forall>b < sb_size (sblock s).
     BBLOCK b (sblock s) \<notin> H \<and> (blk_free (sblock s) (contents s) b \<longrightarrow> b \<notin> H))"

lemma balloc_result_trans:
  assumes "tx_step p H s H t (contents s) {}" "itable t = itable s" "balloc_result p H t r u"
  shows "balloc_result p H s r u"
  using assms(2,3) tx_step_trans [OF assms(1)] tx_stepD(2,6) [OF assms(1)] unfolding balloc_result_def by auto

lemma bitmap_slot:
  assumes n: "n = unat (sb_size sb)" and i: "i < BPB" "k * BPB + i < n"
  shows "BBLOCK (of_nat (k * BPB + i)) sb = BBLOCK (of_nat (k * BPB)) sb" "unat (of_nat (k * BPB + i) :: u32) mod BPB = i"
    "blk_free sb c (of_nat (k * BPB + i)) = bit_free (c (BBLOCK (of_nat (k * BPB)) sb)) i"
    "unat (of_nat (k * BPB + i) :: u32) = k * BPB + i"
proof -
  have "k * 8192 + i < 4294967296" using i n unat_u32_less [of "sb_size sb"] unfolding BPB_def by linarith
  then have l: "k * BPB + i < 2 ^ 32" "0 < BPB" "k * BPB + 0 < 2 ^ 32" by simp_all
  show x: "BBLOCK (of_nat (k * BPB + i)) sb = BBLOCK (of_nat (k * BPB)) sb"
    using BBLOCK_eq(1) [OF i(1) l(1), of sb] BBLOCK_eq(1) [OF l(2,3), of sb] by (simp only: add_0_right)
  show u: "unat (of_nat (k * BPB + i) :: u32) mod BPB = i" by (rule BBLOCK_eq(2) [OF i(1) l(1)])
  show "blk_free sb c (of_nat (k * BPB + i)) = bit_free (c (BBLOCK (of_nat (k * BPB)) sb)) i"
    unfolding blk_free_def x u ..
  show "unat (of_nat (k * BPB + i) :: u32) = k * BPB + i" by (rule unat_of_nat_u32) (use l(1) in simp)
qed

text \<open>The scan: no block of the bitmap before the \<open>j\<close>th has a free bit.\<close>

lemma balloc_scan:
  assumes "in_tx p H s" "room 2 1 H s" "bitmap_unlocked H s" "n = unat (sb_size (sblock s))" "m = (n + BPB - 1) div BPB" "j \<le> m"
    and "no_free (sblock s) (contents s) (min n (j * BPB))"
  shows "\<exists>r t. balloc_loop (log_dev s) (map (\<lambda>k. k * BPB) [j..<m]) s = Inr (r, t) \<and> balloc_result p H s r t"
  using assms
proof (induction "m - j" arbitrary: j s)
  case 0
  then have "n \<le> j * BPB" by simp
  then show ?case using 0 tx_step_refl [OF 0(2)] by (auto simp: balloc_result_def intro: exI [of _ s])
next
  case (Suc d)
  let ?sb = "sblock s" and ?c = "contents s" and ?b0 = "j * BPB"
  have jm: "j < m" using Suc(2) by simp
  have b0: "?b0 < n" using jm Suc(7) by simp
  let ?x = "BBLOCK (of_nat ?b0) ?sb" and ?l = "min BPB (n - ?b0)"
  have slot: "i < BPB" "?b0 + i < n" if "i < ?l" for i using that unfolding BPB_def by linarith+
  note slot = bitmap_slot [OF Suc(6) slot]
  have xH: "?x \<notin> H"
    using Suc(5) bitmap_slot(4) [OF Suc(6), of 0 j] b0 Suc(6) by (simp add: bitmap_unlocked_def word_less_nat_alt)
  have up: "map (\<lambda>k. k * BPB) [j..<m] = ?b0 # map (\<lambda>k. k * BPB) [Suc j..<m]" using jm by (simp add: upt_conv_Cons)
  show ?case
  proof (cases "find (bit_free (?c ?x)) [0..<?l]")
    case None
    obtain b s1 t where b: "bread (log_dev s) ?x s = Inr (b, s1)" "b_data (bufs s1 b) = ?c ?x" "itable s1 = itable s"
      "sblock s1 = ?sb" "brelse b s1 = Inr t" "tx_step p H s H t ?c {}" "itable t = itable s"
      by (rule peek_step [OF Suc(3) xH]) (use Suc(4) in \<open>simp add: room_def\<close>)
    note T = tx_stepD [OF b(6)]
    have nf: "no_free ?sb ?c (min n (Suc j * BPB))"
      unfolding no_free_def
    proof (intro allI impI)
      fix b assume b: "b < min n (Suc j * BPB)"
      show "\<not> blk_free ?sb ?c (of_nat b)"
      proof (cases "b < ?b0")
        case False
        moreover have "b < n" "b < ?b0 + BPB" using b by simp_all
        ultimately have e: "b = ?b0 + (b - ?b0)" and "b - ?b0 < BPB" "b - ?b0 < n - ?b0" by simp_all
        then have l: "b - ?b0 < ?l" by simp
        show ?thesis using slot(3) [OF l l, of ?c] None e l by (simp add: find_None_iff del: BPB_def)
      qed (use Suc(9) b in \<open>simp add: no_free_def\<close>)
    qed
    have "\<exists>r u. balloc_loop (log_dev t) (map (\<lambda>k. k * BPB) [Suc j..<m]) t = Inr (r, u) \<and> balloc_result p H t r u"
    proof (rule Suc(1) [OF _ T(1) _ _ _ Suc(7)])
      show "room 2 1 H t" using room_step [OF b(6), of 2 1] Suc(4) by (simp add: room_def)
      show "bitmap_unlocked H t" using Suc(5) T(2,6) by (simp add: bitmap_unlocked_def)
    qed (use Suc(2,6) jm T(2,6) nf in simp_all)
    then show ?thesis
      using up b(1,2,4,5) None Suc(6) balloc_result_trans [OF b(6,7)] T(4) by (auto simp: Let_def)
  next
    case (Some bi)
    then have bi: "bi < ?l" "bit_free (?c ?x) bi" "\<And>i. i < bi \<Longrightarrow> \<not> bit_free (?c ?x) i"
      by (auto simp: find_Some_iff nth_append simp del: BPB_def)
    let ?r = "of_nat (?b0 + bi) :: u32" and ?a = "bit_set (?c ?x) bi"
    note slot = slot [OF bi(1) bi(1)]
    have l: "?b0 + bi < n" using bi(1) by linarith
    then have r: "?r < sb_size ?sb" "blk_free ?sb ?c ?r" using slot(3,4) bi(2) Suc(6) by (simp_all add: word_less_nat_alt)
    obtain b s1 t where b: "bread (log_dev s) ?x s = Inr (b, s1)" "b_data (bufs s1 b) = ?c ?x" "itable s1 = itable s"
      "sblock s1 = ?sb" "ebind (log_write b (set_data b ?a s1)) (brelse b) = Inr t" "tx_step p H s H t (?c(?x := ?a)) {?x}"
      "itable t = itable s"
      by (rule modify_step [OF Suc(3) xH, of ?a]) (use Suc(4) in \<open>simp add: room_def\<close>)
    note T = tx_stepD [OF b(6)]
    have "?r \<notin> H" "room 1 1 H t"
      using Suc(5) r room_step [OF b(6), of 1 1] Suc(4) by (simp_all add: bitmap_unlocked_def room_def del: of_nat_add)
    then obtain u where u: "bzero (log_dev s) ?r t = Inr u" "tx_step p H t H u ((contents t)(?r := \<lambda>_. 0)) {?r}" "itable u = itable t"
      using bzero_step [OF T(1)] T(4) by metis
    have "tx_step p H s H u (taken ?sb ?r ?c) {BBLOCK ?r ?sb, ?r}"
      using tx_step_trans [OF b(6) u(2)] T(2) slot(1,2) by (simp add: taken_def insert_commute del: of_nat_add BPB_def)
    moreover have "no_free ?sb ?c (unat ?r)"
      unfolding no_free_def slot(4)
    proof (intro allI impI)
      fix b assume b: "b < ?b0 + bi"
      show "\<not> blk_free ?sb ?c (of_nat b)"
      proof (cases "b < ?b0")
        case False
        then have e: "b = ?b0 + (b - ?b0)" and k: "b - ?b0 < bi" using b by simp_all
        then show ?thesis using bitmap_slot(3) [OF Suc(6), of "b - ?b0" j ?c] bi(1,3) l e by (simp del: BPB_def)
      qed (use Suc(9) b b0 in \<open>simp add: no_free_def\<close>)
    qed
    moreover have "balloc_loop (log_dev s) (map (\<lambda>k. k * BPB) [j..<m]) s = Inr (?r, u)"
      unfolding up using b(1,2,4,5) u(1) Some Suc(6)
      by (simp add: Let_def ebind_assoc [symmetric] bit_set_def del: of_nat_add BPB_def)
    ultimately show ?thesis using r u(3) b(7) unfolding balloc_result_def by auto
  qed
qed

lemma balloc_ok:
  assumes "in_tx p H s" "room 2 1 H s" "bitmap_unlocked H s"
  obtains r t where "balloc (log_dev s) s = Inr (r, t)" "balloc_result p H s r t"
  using balloc_scan [OF assms refl refl, of 0] that by (auto simp: balloc_def no_free_def simp del: BPB_def)

text \<open>
  C11: \<^verbatim>\<open>balloc\<close> in a transaction.  With room for two blocks in the log it always returns.  If the bitmap has a
  free block below the size of the file system, the first one is returned, its bit is set, the block is zeroed, and no
  other bit or block changes; otherwise it returns 0 and changes nothing.
\<close>

theorem balloc_spec:
  assumes "in_tx p H s" "room 2 1 H s" "bitmap_unlocked H s"
  shows "\<exists>r t. balloc (log_dev s) s = Inr (r, t) \<and> itable t = itable s \<and>
    (no_free (sblock s) (contents s) (unat (sb_size (sblock s))) \<and> r = 0 \<and> tx_step p H s H t (contents s) {} \<or>
     r < sb_size (sblock s) \<and> blk_free (sblock s) (contents s) r \<and> no_free (sblock s) (contents s) (unat r)
       \<and> tx_step p H s H t ((contents s)
            (BBLOCK r (sblock s) := bit_set (contents s (BBLOCK r (sblock s))) (unat r mod BPB), r := \<lambda>_. 0)) {BBLOCK r (sblock s), r})"
  using balloc_ok [OF assms] unfolding balloc_result_def taken_def by metis

section \<open>Freeing\<close>

lemma bfree_ok:
  assumes "in_tx p H s" "BBLOCK b (sblock s) \<notin> H" "room 1 1 H s" "\<not> blk_free (sblock s) (contents s) b"
  obtains t where "bfree (log_dev s) b s = Inr t" "tx_step p H s H t (given (sblock s) b (contents s)) {BBLOCK b (sblock s)}" "itable t = itable s"
proof -
  let ?x = "BBLOCK b (sblock s)" and ?c = "contents s"
  let ?a = "bit_clear (?c ?x) (unat b mod BPB)"
  obtain bp s1 t where t: "bread (log_dev s) ?x s = Inr (bp, s1)" "b_data (bufs s1 bp) = ?c ?x" "itable s1 = itable s"
    "sblock s1 = sblock s" "ebind (log_write bp (set_data bp ?a s1)) (brelse bp) = Inr t" "tx_step p H s H t (?c(?x := ?a)) {?x}"
    "itable t = itable s"
    by (rule modify_step [OF assms(1-3), of ?a])
  then have "bfree (log_dev s) b s = Inr t"
    using assms(4) unfolding bfree_def by (simp add: Let_def blk_free_def bit_clear_def del: BPB_def)
  then show ?thesis using that t(6,7) by (simp add: given_def)
qed

lemma bfree_panics:
  assumes "in_tx p H s" "BBLOCK b (sblock s) \<notin> H" "room 0 1 H s" "blk_free (sblock s) (contents s) b"
  shows "bfree (log_dev s) b s = Inl (Panic ''freeing free block'')"
  by (rule peek_step [OF assms(1-3)]) (use assms(4) in \<open>simp add: bfree_def blk_free_def Let_def\<close>)

lemma given_taken:
  assumes "blk_free sb c b" "BBLOCK b sb \<noteq> b"
  shows "given sb b (taken sb b c) = c(b := \<lambda>_. 0)"
  using assms bit_clear_set [of "c (BBLOCK b sb)" "unat b mod BPB"]
  by (auto simp: given_def taken_def blk_free_def fun_upd_twist simp del: BPB_def)

text \<open>
  C29: allocation and freeing are inverse on the bitmap.  With a free block, \<^verbatim>\<open>balloc\<close> returns a block that
  was free, \<^verbatim>\<open>bfree\<close> of that block succeeds and leaves the memory as it was before, but for the block itself, which
  is zero; freeing it once more panics.
\<close>

theorem balloc_bfree:
  assumes tx: "in_tx p H s" and r: "room 3 1 H s" and b: "bitmap_unlocked H s"
    and f: "\<not> no_free (sblock s) (contents s) (unat (sb_size (sblock s)))"
    and m: "\<And>b. b < sb_size (sblock s) \<Longrightarrow> blk_free (sblock s) (contents s) b \<Longrightarrow> BBLOCK b (sblock s) \<noteq> b"
  shows "\<exists>r t u. balloc (log_dev s) s = Inr (r, t) \<and> blk_free (sblock s) (contents s) r \<and> \<not> blk_free (sblock s) (contents t) r
    \<and> bfree (log_dev s) r t = Inr u \<and> contents u = (contents s)(r := \<lambda>_. 0)
    \<and> bfree (log_dev s) r u = Inl (Panic ''freeing free block'')"
proof -
  have "room 2 1 H s" using r by (simp add: room_def)
  then obtain r t where t: "balloc (log_dev s) s = Inr (r, t)" "balloc_result p H s r t" using balloc_ok [OF tx _ b] by blast
  then have a: "r < sb_size (sblock s)" "blk_free (sblock s) (contents s) r" "tx_step p H s H t (taken (sblock s) r (contents s)) {BBLOCK r (sblock s), r}"
    using f by (auto simp: balloc_result_def)
  note T = tx_stepD [OF a(3)] and ne = m [OF a(1,2)]
  have nf: "\<not> blk_free (sblock t) (contents t) r" using blk_free_taken [OF ne] T(2,6) by simp
  have x: "BBLOCK r (sblock t) \<notin> H" using a(1) b T(6) by (simp add: bitmap_unlocked_def)
  have r1: "room 1 1 H t" by (rule room_after [OF a(3) card_two]) (use r in simp)
  obtain u where u: "bfree (log_dev t) r t = Inr u" "tx_step p H t H u (given (sblock t) r (contents t)) {BBLOCK r (sblock t)}"
    using bfree_ok [OF T(1) x r1 nf] by blast
  note U = tx_stepD [OF u(2)]
  have c: "contents u = (contents s)(r := \<lambda>_. 0)" using U(2) T(2,6) given_taken [OF a(2) ne] by simp
  have "room 0 1 H u" by (rule room_after [OF u(2), of 1]) (use r1 in simp_all)
  moreover have "blk_free (sblock u) (contents u) r" using U(2,6) by (simp add: blk_free_given)
  ultimately have "bfree (log_dev u) r u = Inl (Panic ''freeing free block'')"
    using bfree_panics [OF U(1)] x U(6) by simp
  then show ?thesis using t(1) a(2) nf u(1) c T(4,6) U(4) by auto
qed

section \<open>Witnesses\<close>

text \<open>Blocks 0 to 35 of the concrete file system are in use.\<close>

definition fs_bitmap :: block where
  "fs_bitmap k = (if k < 4 then 255 else if k = 4 then 15 else 0)"

definition fs_disk :: "block \<Rightarrow> u32 \<Rightarrow> block" where
  "fs_disk a x = (if x = 33 then fs_bitmap else if x = 35 then a else (\<lambda>_. 0))"

definition no_inode :: inode where
  "no_inode = \<lparr>i_dev = 0, i_inum = 0, i_ref = 0, i_valid = False, i_type = 0, i_major = 0, i_minor = 0, i_nlink = 0,
     i_size = 0, i_addrs = (\<lambda>_. 0)\<rparr>"

lemma fs_sb_simps [simp]: "sb_size fs_sb = 40" "sb_ninodes fs_sb = 16"
  by (simp_all add: fs_sb_def)

lemma fs_blocks:
  assumes "b < 40"
  shows "BBLOCK b fs_sb = 33" "blk_free fs_sb (fs_disk a) b \<longleftrightarrow> 36 \<le> unat b"
proof -
  have u: "unat b < 40" using assms by (simp add: word_less_nat_alt)
  then have "unat (b div 8192) = 0" by (simp add: unat_div)
  then have "b div 8192 = 0" by (simp add: u32_eq_iff)
  then show B: "BBLOCK b fs_sb = 33" by (simp add: BBLOCK_def fs_sb_def)
  have "\<forall>n\<in>set [0..<40]. bit_free fs_bitmap n = (36 \<le> n)" by code_simp
  then show "blk_free fs_sb (fs_disk a) b \<longleftrightarrow> 36 \<le> unat b" using u B by (simp add: blk_free_def fs_disk_def)
qed

lemma fs_first: "\<not> no_free fs_sb (fs_disk a) 40" "no_free fs_sb (fs_disk a) n \<Longrightarrow> n \<le> 36"
proof -
  have f: "blk_free fs_sb (fs_disk a) (of_nat 36)" using fs_blocks(2) [of 36] by simp
  then show "\<not> no_free fs_sb (fs_disk a) 40" unfolding no_free_def by (intro notI) (drule spec [of _ 36], simp)
  show "n \<le> 36" if "no_free fs_sb (fs_disk a) n" using that f unfolding no_free_def by (meson not_le)
qed

lemma fs_first_free:
  assumes "r < 40" "blk_free fs_sb (fs_disk a) r" "no_free fs_sb (fs_disk a) (unat r)"
  shows "r = 36"
  using fs_first(2) [OF assms(3)] fs_blocks(2) [OF assms(1)] assms(2) by (simp add: u32_eq_iff)

theorem balloc_spec_witness:
  "\<exists>t. balloc 1 (fsst_of (fs_disk (\<lambda>_. 0)) (\<lambda>_. no_inode)) = Inr (36, t) \<and> contents t 33 = bit_set fs_bitmap 36"
proof -
  let ?s = "fsst_of (fs_disk (\<lambda>_. 0)) (\<lambda>_. no_inode)"
  have b: "bitmap_unlocked {} ?s" by (simp add: bitmap_unlocked_def)
  obtain r t where t: "balloc 1 ?s = Inr (r, t)" "r < 40" "blk_free fs_sb (fs_disk (\<lambda>_. 0)) r" "no_free fs_sb (fs_disk (\<lambda>_. 0)) (unat r)"
    "tx_step 1 {} ?s {} t ((fs_disk (\<lambda>_. 0))(BBLOCK r fs_sb := bit_set (fs_disk (\<lambda>_. 0) (BBLOCK r fs_sb)) (unat r mod BPB), r := \<lambda>_. 0))
       {BBLOCK r fs_sb, r}"
    using balloc_spec [OF fsst_of_tx fsst_of_room b] fs_first(1) by (auto simp del: BPB_def One_nat_def)
  have "r = 36" by (rule fs_first_free [OF t(2-4)])
  then show ?thesis using t(1) tx_stepD(2) [OF t(5)] fs_blocks(1) [OF t(2)] by (simp add: fs_disk_def)
qed

theorem balloc_bfree_witness:
  "\<exists>r t u. balloc 1 (fsst_of (fs_disk (\<lambda>_. 0)) (\<lambda>_. no_inode)) = Inr (r, t) \<and> bfree 1 r t = Inr u
    \<and> bfree 1 r u = Inl (Panic ''freeing free block'')"
proof -
  let ?s = "fsst_of (fs_disk (\<lambda>_. 0)) (\<lambda>_. no_inode)"
  have b: "bitmap_unlocked {} ?s" by (simp add: bitmap_unlocked_def)
  have f: "\<not> no_free (sblock ?s) (contents ?s) (unat (sb_size (sblock ?s)))" using fs_first(1) by simp
  have m: "BBLOCK b (sblock ?s) \<noteq> b" if "b < sb_size (sblock ?s)" "blk_free (sblock ?s) (contents ?s) b" for b
    using fs_blocks [of b] that by auto
  show ?thesis using balloc_bfree [OF fsst_of_tx fsst_of_room b f m] by auto
qed

end
