(* ===== verification/Inodes.thy ===== *)
theory Inodes
  imports Blocks
begin

text \<open>
  Inodes inside a transaction: the layout of the inode blocks, \<^verbatim>\<open>iupdate\<close> against the read of
  \<^verbatim>\<open>ilock\<close>, and the table of inodes in memory.
\<close>

section \<open>The inode on the disk\<close>

lemma blk_ld16_st16 [simp]: "blk_ld16 (blk_st16 a k v) k = v"
proof (rule bit_word_eqI)
  fix n :: nat
  assume n: "n < LENGTH(16)"
  consider "n < 8" | "8 \<le> n" by linarith
  then show "bit (blk_ld16 (blk_st16 a k v) k) n = bit v n"
    by cases (use n in \<open>auto simp: blk_ld16_def blk_st16_def bit_simps\<close>)
qed

lemma blk_other:
  "k + 2 \<le> j \<or> j + 2 \<le> k \<Longrightarrow> blk_ld16 (blk_st16 a k v) j = blk_ld16 a j"
  "k + 4 \<le> j \<or> j + 2 \<le> k \<Longrightarrow> blk_ld16 (blk_st a k w) j = blk_ld16 a j"
  "k + 2 \<le> j \<or> j + 4 \<le> k \<Longrightarrow> blk_ld (blk_st16 a k v) j = blk_ld a j"
  by (auto simp: blk_ld16_def blk_st16_def blk_ld_def blk_st_def)

lemma blk_st_out: "l < k \<or> k + 4 \<le> l \<Longrightarrow> blk_st a k w l = a l"
  by (auto simp: blk_st_def)

text \<open>The addresses of a file are stored last; they do not touch the bytes before them or beyond byte 64.\<close>

definition put_addrs :: "(nat \<Rightarrow> u32) \<Rightarrow> nat \<Rightarrow> nat \<Rightarrow> block \<Rightarrow> block" where
  "put_addrs f k m a = fold (\<lambda>j a. blk_st a (k + 12 + 4 * j) (f j)) [0..<m] a"

lemma put_addrs_ld:
  "j < m \<Longrightarrow> blk_ld (put_addrs f k m a) (k + 12 + 4 * j) = f j"
  "l + 4 \<le> k + 12 \<Longrightarrow> blk_ld (put_addrs f k m a) l = blk_ld a l"
  "l + 2 \<le> k + 12 \<Longrightarrow> blk_ld16 (put_addrs f k m a) l = blk_ld16 a l"
  "l < k + 12 \<or> k + 12 + 4 * m \<le> l \<Longrightarrow> put_addrs f k m a l = a l"
proof -
  have *: "(\<forall>j<m. blk_ld (put_addrs f k m a) (k + 12 + 4 * j) = f j)
    \<and> (\<forall>l. l + 4 \<le> k + 12 \<longrightarrow> blk_ld (put_addrs f k m a) l = blk_ld a l)
    \<and> (\<forall>l. l + 2 \<le> k + 12 \<longrightarrow> blk_ld16 (put_addrs f k m a) l = blk_ld16 a l)
    \<and> (\<forall>l. l < k + 12 \<or> k + 12 + 4 * m \<le> l \<longrightarrow> put_addrs f k m a l = a l)"
    unfolding put_addrs_def
    by (induction m) (auto simp: blk_ld_st_other blk_other less_Suc_eq blk_st_out)
  show "j < m \<Longrightarrow> blk_ld (put_addrs f k m a) (k + 12 + 4 * j) = f j"
    "l + 4 \<le> k + 12 \<Longrightarrow> blk_ld (put_addrs f k m a) l = blk_ld a l"
    "l + 2 \<le> k + 12 \<Longrightarrow> blk_ld16 (put_addrs f k m a) l = blk_ld16 a l"
    "l < k + 12 \<or> k + 12 + 4 * m \<le> l \<Longrightarrow> put_addrs f k m a l = a l"
    using * by blast+
qed

text \<open>The fields that fit in the 16 bits they have on the disk.\<close>

definition short_ok :: "int \<Rightarrow> bool" where
  "short_ok v \<longleftrightarrow> - 32768 \<le> v \<and> v < 32768"

definition dinode_ok :: "inode \<Rightarrow> bool" where
  "dinode_ok i \<longleftrightarrow> short_ok (i_type i) \<and> short_ok (i_major i) \<and> short_ok (i_minor i) \<and> short_ok (i_nlink i)"

lemma sint_short: "short_ok v \<Longrightarrow> sint (word_of_int v :: u16) = v"
  by (simp add: short_ok_def sint_uint uint_word_of_int_eq signed_take_bit_take_bit signed_take_bit_int_eq_self)

text \<open>Two inodes have the same fields on the disk.\<close>

definition same_dinode :: "inode \<Rightarrow> inode \<Rightarrow> bool" where
  "same_dinode i j \<longleftrightarrow> i_type i = i_type j \<and> i_major i = i_major j \<and> i_minor i = i_minor j \<and> i_nlink i = i_nlink j
     \<and> i_size i = i_size j \<and> (\<forall>k\<le>NDIRECT. i_addrs i k = i_addrs j k)"

lemma dinode_load_store:
  assumes "dinode_ok i"
  shows "same_dinode (dinode_load (dinode_store i k a) k j) i"
proof -
  let ?b = "blk_st (blk_st16 (blk_st16 (blk_st16 (blk_st16 a k (word_of_int (i_type i))) (k + 2) (word_of_int (i_major i)))
      (k + 4) (word_of_int (i_minor i))) (k + 6) (word_of_int (i_nlink i))) (k + 8) (i_size i)"
  have d: "dinode_store i k a = put_addrs (i_addrs i) k (NDIRECT + 1) ?b" by (simp only: dinode_store_def put_addrs_def)
  show ?thesis
    using assms put_addrs_ld(1) [of _ "NDIRECT + 1" "i_addrs i" k ?b] unfolding d same_dinode_def dinode_load_def
    by (simp add: put_addrs_ld(2-3) blk_other sint_short dinode_ok_def del: NDIRECT_def)
qed

lemma dinode_store_out:
  assumes "l < k \<or> k + 64 \<le> l"
  shows "dinode_store i k a l = a l"
proof -
  let ?b = "blk_st (blk_st16 (blk_st16 (blk_st16 (blk_st16 a k (word_of_int (i_type i))) (k + 2) (word_of_int (i_major i)))
      (k + 4) (word_of_int (i_minor i))) (k + 6) (word_of_int (i_nlink i))) (k + 8) (i_size i)"
  have "dinode_store i k a = put_addrs (i_addrs i) k (NDIRECT + 1) ?b" by (simp only: dinode_store_def put_addrs_def)
  then show ?thesis using assms put_addrs_ld(4) [of l k "NDIRECT + 1"] by (auto simp: blk_st_def blk_st16_def)
qed

lemma dinode_load_cong:
  assumes "\<And>l. k \<le> l \<Longrightarrow> l < k + 64 \<Longrightarrow> a l = b l"
  shows "dinode_load a k i = dinode_load b k i"
proof -
  have w: "blk_ld a l = blk_ld b l" if "k \<le> l" "l + 4 \<le> k + 64" for l using that assms by (simp add: blk_ld_def)
  have h: "blk_ld16 a l = blk_ld16 b l" if "k \<le> l" "l + 2 \<le> k + 64" for l using that assms by (simp add: blk_ld16_def)
  show ?thesis using w h by (simp add: dinode_load_def cong: if_cong)
qed

lemma inode_place:
  assumes "inum' \<noteq> inum" "IBLOCK inum' sb = IBLOCK inum sb"
  shows "dinode_at inum' + 64 \<le> dinode_at inum \<or> dinode_at inum + 64 \<le> dinode_at inum'"
proof -
  have "unat (inum' div of_nat IPB) = unat (inum div of_nat IPB)" using assms(2) by (simp add: IBLOCK_def)
  then have "unat inum' div 16 = unat inum div 16" by (simp add: unat_div)
  moreover have "unat inum' \<noteq> unat inum" using assms(1) by (simp add: u32_eq_iff)
  ultimately have "unat inum' mod 16 \<noteq> unat inum mod 16" by (metis div_mult_mod_eq)
  then show ?thesis by (simp add: dinode_at_def) linarith
qed

text \<open>The inode with number \<open>inum\<close> as the memory of blocks has it, read into the entry \<open>i\<close>.\<close>

definition dinode_of :: "superblock \<Rightarrow> (u32 \<Rightarrow> block) \<Rightarrow> u32 \<Rightarrow> inode \<Rightarrow> inode" where
  "dinode_of sb c inum i = dinode_load (c (IBLOCK inum sb)) (dinode_at inum) i"

definition inode_written :: "superblock \<Rightarrow> inode \<Rightarrow> (u32 \<Rightarrow> block) \<Rightarrow> u32 \<Rightarrow> block" where
  "inode_written sb i c = c(IBLOCK (i_inum i) sb := dinode_store i (dinode_at (i_inum i)) (c (IBLOCK (i_inum i) sb)))"

lemma dinode_of_written:
  "dinode_ok i \<Longrightarrow> same_dinode (dinode_of sb (inode_written sb i c) (i_inum i) j) i"
  "inum \<noteq> i_inum i \<Longrightarrow> dinode_of sb (inode_written sb i c) inum j = dinode_of sb c inum j"
proof -
  show "dinode_ok i \<Longrightarrow> same_dinode (dinode_of sb (inode_written sb i c) (i_inum i) j) i"
    by (simp add: dinode_of_def inode_written_def dinode_load_store)
  assume "inum \<noteq> i_inum i"
  then show "dinode_of sb (inode_written sb i c) inum j = dinode_of sb c inum j"
    using inode_place [of inum "i_inum i" sb]
    by (auto simp: dinode_of_def inode_written_def intro!: dinode_load_cong dinode_store_out)
qed

lemma iupdate_ok:
  assumes "in_tx p H s" "IBLOCK (i_inum (itable s ip)) (sblock s) \<notin> H" "room 1 1 H s" "i_dev (itable s ip) = log_dev s"
  obtains t where "iupdate ip s = Inr t" "tx_step p H s H t (inode_written (sblock s) (itable s ip) (contents s))
      {IBLOCK (i_inum (itable s ip)) (sblock s)}"
    "itable t = itable s"
proof -
  let ?i = "itable s ip" and ?c = "contents s"
  let ?x = "IBLOCK (i_inum ?i) (sblock s)"
  let ?a = "dinode_store ?i (dinode_at (i_inum ?i)) (?c ?x)"
  obtain b s1 t where "bread (log_dev s) ?x s = Inr (b, s1)" "b_data (bufs s1 b) = ?c ?x" "itable s1 = itable s"
    "sblock s1 = sblock s" "ebind (log_write b (set_data b ?a s1)) (brelse b) = Inr t" "tx_step p H s H t (?c(?x := ?a)) {?x}"
    "itable t = itable s"
    by (rule modify_step [OF assms(1-3), of ?a])
  then show ?thesis using that assms(4) by (simp add: iupdate_def inode_written_def)
qed

lemma upd_inode_fields [simp]:
  "bufs (upd_inode ip f s) = bufs s" "log_dev (upd_inode ip f s) = log_dev s" "log_size (upd_inode ip f s) = log_size s"
  "outstanding (upd_inode ip f s) = outstanding s"
  "lh_n (upd_inode ip f s) = lh_n s" "disk (upd_inode ip f s) = disk s" "sleeplocks (upd_inode ip f s) = sleeplocks s"
  "itable (upd_inode ip f s) = (itable s)(ip := f (itable s ip))" "contents (upd_inode ip f s) = contents s"
  "logged (upd_inode ip f s) = logged s" "at_buf d (upd_inode ip f s) x b = at_buf d s x b"
  "room k h H (upd_inode ip f s) = room k h H s" "in_tx p H (upd_inode ip f s) = in_tx p H s"
  by (simp_all add: upd_inode_def contents_def view_def logged_def at_buf_def room_def in_tx_def good_def quiet_def lock_free_def
      mycpu_def cong: option.case_cong if_cong)

lemma upd_inode_sblock [simp]: "sblock (upd_inode ip f s) = sblock s" "bitmap_unlocked H (upd_inode ip f s) = bitmap_unlocked H s"
  by (simp_all add: upd_inode_def bitmap_unlocked_def)
    (simp add: contents_def view_def cong: option.case_cong if_cong)

lemma tx_step_itable [simp]:
  "tx_step p H (upd_inode ip f s) H' t c L = tx_step p H s H' t c L"
  "tx_step p H s H' (upd_inode ip f t) c L = tx_step p H s H' t c L"
  by (simp_all add: tx_step_def tx_frame_def) (simp_all add: upd_inode_def)

lemma ilock_read_ok:
  assumes tx: "in_tx p H s" and x: "IBLOCK (i_inum (itable s ip)) (sblock s) \<notin> H" and r: "room 0 1 H s"
    and d: "i_dev (itable s ip) = log_dev s"
    and i: "i = dinode_of (sblock s) (contents s) (i_inum (itable s ip)) (itable s ip)"
  obtains t where "ilock_read ip s = (if i_type i = 0 then Inl (Panic ''ilock: no type'') else Inr t)"
    "tx_step p H s H t (contents s) {}" "itable t = (itable s)(ip := i\<lparr>i_valid := True\<rparr>)"
proof -
  let ?x = "IBLOCK (i_inum (itable s ip)) (sblock s)"
  obtain b s1 where s1: "bread (log_dev s) ?x s = Inr (b, s1)" "tx_step p H s (insert ?x H) s1 (contents s) {}"
    "at_buf (log_dev s) s1 ?x b" "b_data (bufs s1 b) = contents s ?x" "itable s1 = itable s"
    by (rule bread_step [OF tx x r])
  note S = tx_stepD [OF s1(2)]
  let ?s2 = "upd_inode ip (dinode_load (contents s ?x) (dinode_at (i_inum (itable s ip)))) s1"
  have tx2: "in_tx p (insert ?x H) ?s2" and at2: "at_buf (log_dev ?s2) ?s2 ?x b" using S(1,4) s1(3) by simp_all
  have "?x \<in> logged ?s2 \<or> contents ?s2 ?x = disk ?s2 (log_dev ?s2) ?x" using in_txD(5) [OF tx2] by blast
  then obtain t where t: "brelse b ?s2 = Inr t" "tx_step p (insert ?x H) ?s2 (insert ?x H - {?x}) t (contents ?s2) {}"
    "itable t = itable ?s2"
    by (rule brelse_step [OF tx2 insertI1 at2])
  have "tx_step p H s (insert ?x H - {?x}) t (contents ?s2) ({} \<union> {})"
    by (rule tx_step_trans [OF s1(2)]) (use t(2) in auto)
  then have st: "tx_step p H s H (upd_inode ip (\<lambda>x. x\<lparr>i_valid := True\<rparr>) t) (contents s) {}" using x S(2) by simp
  show ?thesis
    by (rule that [OF _ st])
      (use s1(1,4,5) t(1,3) d i in \<open>simp_all add: ilock_read_def dinode_of_def Let_def\<close>)
qed

text \<open>
  C15: an inode survives the way to the disk and back.  \<^verbatim>\<open>iupdate\<close> of an inode whose fields fit their 16 bits
  returns; then the read of \<^verbatim>\<open>ilock\<close> into any entry of the table for the same inode number gives an entry with the same
  type, device numbers, link count, size and block addresses, and every other inode reads as before, also those of
  the same block.
\<close>

theorem iupdate_ilock:
  assumes tx: "in_tx p H s" and x: "IBLOCK (i_inum (itable s ip)) (sblock s) \<notin> H" and r: "room 1 1 H s"
    and d: "i_dev (itable s ip) = log_dev s" and i: "dinode_ok (itable s ip)" "i_type (itable s ip) \<noteq> 0"
  shows "\<exists>t. iupdate ip s = Inr t \<and> itable t = itable s
    \<and> (\<forall>jp. i_dev (itable s jp) = log_dev s \<and> i_inum (itable s jp) = i_inum (itable s ip) \<longrightarrow>
         (\<exists>u. ilock_read jp t = Inr u \<and> same_dinode (itable u jp) (itable s ip) \<and> i_valid (itable u jp)))
    \<and> (\<forall>inum j. inum \<noteq> i_inum (itable s ip) \<longrightarrow>
         dinode_of (sblock t) (contents t) inum j = dinode_of (sblock s) (contents s) inum j)"
proof -
  obtain t where t: "iupdate ip s = Inr t" "tx_step p H s H t (inode_written (sblock s) (itable s ip) (contents s))
      {IBLOCK (i_inum (itable s ip)) (sblock s)}"
    "itable t = itable s"
    by (rule iupdate_ok [OF tx x r d])
  note T = tx_stepD [OF t(2)]
  have r0: "room 0 1 H t" using room_step [OF t(2), of 0 1] r by (simp add: room_def)
  have "\<exists>u. ilock_read jp t = Inr u \<and> same_dinode (itable u jp) (itable s ip) \<and> i_valid (itable u jp)"
    if "i_dev (itable s jp) = log_dev s" "i_inum (itable s jp) = i_inum (itable s ip)" for jp
  proof -
    let ?j = "dinode_of (sblock t) (contents t) (i_inum (itable t jp)) (itable t jp)"
    have xj: "IBLOCK (i_inum (itable t jp)) (sblock t) \<notin> H" and dj: "i_dev (itable t jp) = log_dev t"
      using x that t(3) T(4,6) by simp_all
    have same: "same_dinode ?j (itable s ip)"
      using dinode_of_written(1) [OF i(1), of "sblock s" "contents s"] that(2) t(3) T(2,6) by simp
    obtain u where "ilock_read jp t = (if i_type ?j = 0 then Inl (Panic ''ilock: no type'') else Inr u)"
      "itable u = (itable t)(jp := ?j\<lparr>i_valid := True\<rparr>)"
      by (rule ilock_read_ok [OF T(1) xj r0 dj refl])
    then show ?thesis using same i(2) by (auto simp: same_dinode_def)
  qed
  then show ?thesis using t(1,3) dinode_of_written(2) [of _ "itable s ip"] T(2,6) by auto
qed

section \<open>The table of inodes in memory\<close>

lemma upd_inode_itable [simp]: "itable (upd_inode ip f s) = (itable s)(ip := f (itable s ip))"
  by (simp add: upd_inode_def)

lemma itable_hw [simp]: "itable (entered l s) = itable s" "itable (settled s) = itable s"
  by (simp_all add: entered_def settled_def set_mycpu_def)

lemma upd_inode_settled:
  "(upd_inode i f (entered l s))\<lparr>locks := locks s, cpus := cpus (settled s)\<rparr> = upd_inode i f (settled s)"
  by (cases s) (simp add: upd_inode_def entered_def settled_def set_mycpu_def)

lemma critical_itable:
  assumes "lock_free Lk_itable s" "body (entered Lk_itable s) = Inr (r, upd_inode i f (entered Lk_itable s))"
  shows "critical Lk_itable body s = Inr (r, upd_inode i f (settled s))"
proof -
  let ?t = "upd_inode i f (entered Lk_itable s)"
  have "critical Lk_itable body s = Inr (r, ?t\<lparr>locks := locks s, cpus := cpus (settled s)\<rparr>)"
    by (rule critical_leaf [where t = ?t]) (use assms in \<open>simp_all add: upd_inode_def\<close>)
  then show ?thesis by (simp only: upd_inode_settled)
qed

text \<open>
  At most one entry in use for an inode, and no negative reference count.  The entry of an inode, and whether an entry
  is left for one more.
\<close>

definition itable_ok :: "(nat \<Rightarrow> inode) \<Rightarrow> bool" where
  "itable_ok T \<longleftrightarrow> (\<forall>i<NINODE. 0 \<le> i_ref (T i)) \<and>
     (\<forall>i<NINODE. \<forall>j<NINODE. 0 < i_ref (T i) \<and> 0 < i_ref (T j) \<and> i_dev (T i) = i_dev (T j) \<and> i_inum (T i) = i_inum (T j) \<longrightarrow> i = j)"

definition entry_of :: "(nat \<Rightarrow> inode) \<Rightarrow> u32 \<Rightarrow> u32 \<Rightarrow> nat \<Rightarrow> bool" where
  "entry_of T d n i \<longleftrightarrow> i < NINODE \<and> 0 < i_ref (T i) \<and> i_dev (T i) = d \<and> i_inum (T i) = n"

definition refs :: "(nat \<Rightarrow> inode) \<Rightarrow> u32 \<Rightarrow> u32 \<Rightarrow> int" where
  "refs T d n = (\<Sum>i | entry_of T d n i. i_ref (T i))"

lemma refs_entry:
  assumes "itable_ok T" "entry_of T d n i"
  shows "refs T d n = i_ref (T i)"
proof -
  have "{i. entry_of T d n i} = {i}" using assms unfolding itable_ok_def entry_of_def by auto
  then show ?thesis by (simp add: refs_def)
qed

lemma refs_none: "(\<And>i. \<not> entry_of T d n i) \<Longrightarrow> refs T d n = 0"
  by (simp add: refs_def)

lemma refs_cases:
  assumes "itable_ok T"
  obtains i where "entry_of T d n i" "refs T d n = i_ref (T i)" | "\<And>i. \<not> entry_of T d n i" "refs T d n = 0"
  using refs_entry [OF assms] refs_none by metis

lemma iget_ok:
  assumes l: "lock_free Lk_itable s"
  shows "if (\<exists>i. entry_of (itable s) d n i) then
      \<exists>i. entry_of (itable s) d n i \<and> iget d n s = Inr (i, upd_inode i (\<lambda>x. x\<lparr>i_ref := i_ref x + 1\<rparr>) (settled s))
    else if (\<exists>i<NINODE. i_ref (itable s i) = 0) then
      \<exists>i<NINODE. i_ref (itable s i) = 0 \<and>
        iget d n s = Inr (i, upd_inode i (\<lambda>x. x\<lparr>i_dev := d, i_inum := n, i_ref := 1, i_valid := False\<rparr>) (settled s))
    else iget d n s = Inl (Panic ''iget: no inodes'')"
proof -
  let ?P = "\<lambda>i. i_ref (itable s i) > 0 \<and> i_dev (itable s i) = d \<and> i_inum (itable s i) = n"
  let ?Q = "\<lambda>i. i_ref (itable s i) = 0"
  have found: "i < NINODE \<and> P i" if "find P [0..<NINODE] = Some i" for P i using that by (auto simp: find_Some_iff)
  show ?thesis
  proof (cases "find ?P [0..<NINODE]")
    case (Some i)
    then have "entry_of (itable s) d n i" using found [OF Some] by (simp add: entry_of_def)
    moreover have "iget d n s = Inr (i, upd_inode i (\<lambda>x. x\<lparr>i_ref := i_ref x + 1\<rparr>) (settled s))"
      unfolding iget_def by (rule critical_itable [OF l]) (use Some in \<open>simp add: iget_body_def\<close>)
    ultimately show ?thesis by auto
  next
    case none: None
    then have e: "\<not> (\<exists>i. entry_of (itable s) d n i)" by (auto simp: entry_of_def find_None_iff)
    show ?thesis
    proof (cases "find ?Q [0..<NINODE]")
      case (Some i)
      have "i < NINODE \<and> ?Q i" using found [OF Some] by simp
      moreover have "iget d n s = Inr (i, upd_inode i (\<lambda>x. x\<lparr>i_dev := d, i_inum := n, i_ref := 1, i_valid := False\<rparr>) (settled s))"
        unfolding iget_def by (rule critical_itable [OF l]) (use none Some in \<open>simp add: iget_body_def\<close>)
      ultimately show ?thesis using e by auto
    next
      case None
      have "iget d n s = Inl (Panic ''iget: no inodes'')"
        unfolding iget_def by (rule critical_fault [OF l]) (use none None in \<open>simp add: iget_body_def\<close>)
      moreover have "\<not> (\<exists>i<NINODE. ?Q i)" using None by (auto simp: find_None_iff)
      ultimately show ?thesis using e by auto
    qed
  qed
qed

lemma itable_okD:
  assumes "itable_ok T" "entry_of T d n i" "entry_of T d n j"
  shows "i = j"
proof -
  have "\<forall>i<NINODE. \<forall>j<NINODE. 0 < i_ref (T i) \<and> 0 < i_ref (T j) \<and> i_dev (T i) = i_dev (T j)
    \<and> i_inum (T i) = i_inum (T j) \<longrightarrow> i = j"
    using assms(1) unfolding itable_ok_def by (rule conjunct2)
  then show ?thesis using assms(2,3) by (simp add: entry_of_def)
qed

lemma itable_ok_upd:
  assumes T: "itable_ok T" and x: "0 \<le> i_ref x" "\<And>j. entry_of T (i_dev x) (i_inum x) j \<Longrightarrow> j = i"
  shows "itable_ok (T(i := x))"
  unfolding itable_ok_def
proof (intro conjI allI impI)
  fix j assume "j < NINODE"
  then show "0 \<le> i_ref ((T(i := x)) j)" using T x(1) by (simp add: itable_ok_def)
next
  fix j k
  assume jk: "j < NINODE" "k < NINODE" and a: "0 < i_ref ((T(i := x)) j) \<and> 0 < i_ref ((T(i := x)) k)
    \<and> i_dev ((T(i := x)) j) = i_dev ((T(i := x)) k) \<and> i_inum ((T(i := x)) j) = i_inum ((T(i := x)) k)"
  consider "j = k" | "j = i" "k \<noteq> i" | "j \<noteq> i" "k = i" | "j \<noteq> i" "k \<noteq> i" by blast
  then show "j = k"
  proof cases
    case 2
    then have "entry_of T (i_dev x) (i_inum x) k" using a jk unfolding entry_of_def by simp
    then show ?thesis using x(2) 2 by blast
  next
    case 3
    then have "entry_of T (i_dev x) (i_inum x) j" using a jk unfolding entry_of_def by simp
    then show ?thesis using x(2) 3 by blast
  next
    case 4
    then have "entry_of T (i_dev (T j)) (i_inum (T j)) j" "entry_of T (i_dev (T j)) (i_inum (T j)) k"
      using a jk unfolding entry_of_def by simp_all
    then show ?thesis by (rule itable_okD [OF T])
  qed
qed

lemma refs_upd:
  assumes T: "itable_ok T" "itable_ok (T(i := x))" and i: "i < NINODE"
    and x: "0 < i_ref x" "0 < i_ref (T i) \<Longrightarrow> i_dev x = i_dev (T i) \<and> i_inum x = i_inum (T i)"
    and new: "i_ref (T i) = 0 \<Longrightarrow> (\<And>j. \<not> entry_of T (i_dev x) (i_inum x) j)"
  shows "refs (T(i := x)) d n = (if d = i_dev x \<and> n = i_inum x then refs T d n + i_ref x - i_ref (T i) else refs T d n)"
proof (cases "d = i_dev x \<and> n = i_inum x")
  case True
  have e: "entry_of (T(i := x)) d n i" using True i x(1) by (simp add: entry_of_def)
  have "refs T d n = i_ref (T i)"
  proof (cases "i_ref (T i) = 0")
    case False
    then have "0 < i_ref (T i)" using T(1) i by (auto simp: itable_ok_def order_less_le)
    then have "entry_of T d n i" using True i x(2) by (simp add: entry_of_def)
    then show ?thesis by (rule refs_entry [OF T(1)])
  qed (use new True refs_none in auto)
  then show ?thesis using refs_entry [OF T(2) e] True by simp
next
  case False
  have "entry_of (T(i := x)) d n j = entry_of T d n j" for j
    using False x(2) T(1) i by (auto simp: entry_of_def itable_ok_def)
  moreover have "i_ref ((T(i := x)) j) = i_ref (T j)" if "entry_of T d n j" for j
    using that False x(2) by (auto simp: entry_of_def)
  ultimately have "refs (T(i := x)) d n = refs T d n" unfolding refs_def by (intro sum.cong) auto
  then show ?thesis using False by auto
qed

lemma iget_ref:
  assumes l: "lock_free Lk_itable s" and T: "itable_ok (itable s)"
  shows "if (\<forall>i. \<not> entry_of (itable s) d n i) \<and> (\<forall>i<NINODE. i_ref (itable s i) \<noteq> 0)
    then iget d n s = Inl (Panic ''iget: no inodes'')
    else \<exists>i t. iget d n s = Inr (i, t) \<and> (\<exists>f. t = upd_inode i f (settled s)) \<and> itable_ok (itable t) \<and> entry_of (itable t) d n i
      \<and> (\<forall>d' n'. refs (itable t) d' n' = refs (itable s) d' n' + (if d' = d \<and> n' = n then 1 else 0))"
proof (cases "\<exists>i. entry_of (itable s) d n i")
  case True
  then obtain i where i: "entry_of (itable s) d n i" "iget d n s = Inr (i, upd_inode i (\<lambda>x. x\<lparr>i_ref := i_ref x + 1\<rparr>) (settled s))"
    using iget_ok [OF l, of d n] by auto
  let ?T = "(itable s)(i := (itable s i)\<lparr>i_ref := i_ref (itable s i) + 1\<rparr>)"
  have ok: "itable_ok ?T"
    by (rule itable_ok_upd [OF T]) (use T i(1) in \<open>auto simp: itable_ok_def entry_of_def\<close>)
  have "refs ?T d' n' = refs (itable s) d' n' + (if d' = d \<and> n' = n then 1 else 0)" for d' n'
    using refs_upd [OF T ok] i(1) by (auto simp: entry_of_def)
  moreover have "entry_of ?T d n i" using i(1) by (simp add: entry_of_def)
  ultimately show ?thesis using True i(2) ok by auto
next
  case no: False
  show ?thesis
  proof (cases "\<exists>i<NINODE. i_ref (itable s i) = 0")
    case True
    then obtain i where i: "i < NINODE" "i_ref (itable s i) = 0"
      "iget d n s = Inr (i, upd_inode i (\<lambda>x. x\<lparr>i_dev := d, i_inum := n, i_ref := 1, i_valid := False\<rparr>) (settled s))"
      using iget_ok [OF l, of d n] no by auto
    let ?T = "(itable s)(i := (itable s i)\<lparr>i_dev := d, i_inum := n, i_ref := 1, i_valid := False\<rparr>)"
    have ok: "itable_ok ?T" by (rule itable_ok_upd [OF T]) (use no in auto)
    have "refs ?T d' n' = refs (itable s) d' n' + (if d' = d \<and> n' = n then 1 else 0)" for d' n'
      using refs_upd [OF T ok i(1)] i(2) no by auto
    moreover have "entry_of ?T d n i" using i(1) by (simp add: entry_of_def)
    ultimately show ?thesis using True i(3) ok by auto
  next
    case False
    then have "iget d n s = Inl (Panic ''iget: no inodes'')" using iget_ok [OF l, of d n] no by (simp only: if_False)
    then show ?thesis using no False by simp
  qed
qed

text \<open>
  C28: the table of inodes in memory stays well formed: at most one entry in use for an inode, so that the lock in the
  entry protects the inode.  \<^verbatim>\<open>iget\<close> panics exactly when the inode has no entry and every entry is in
  use; otherwise it returns the entry of the inode, with one reference more for this inode and the same number for every
  other, and the table is well formed again.
\<close>

theorem iget_table:
  assumes l: "lock_free Lk_itable s" and T: "itable_ok (itable s)"
  shows "if (\<forall>i. \<not> entry_of (itable s) d n i) \<and> (\<forall>i<NINODE. i_ref (itable s i) \<noteq> 0)
    then iget d n s = Inl (Panic ''iget: no inodes'')
    else \<exists>i t. iget d n s = Inr (i, t) \<and> itable_ok (itable t) \<and> entry_of (itable t) d n i
      \<and> (\<forall>d' n'. refs (itable t) d' n' = refs (itable s) d' n' + (if d' = d \<and> n' = n then 1 else 0))"
  using iget_ref [OF assms, of d n] by (auto split: if_splits)

section \<open>Witnesses\<close>

text \<open>The root directory, with two entries in block 35, in entry 0 of the table.\<close>

definition dir_inode :: inode where
  "dir_inode = \<lparr>i_dev = 1, i_inum = 1, i_ref = 1, i_valid = True, i_type = 1, i_major = 0, i_minor = 0, i_nlink = 1,
     i_size = 32, i_addrs = (\<lambda>n. if n = 0 then 35 else 0)\<rparr>"

definition fs_table :: "nat \<Rightarrow> inode" where
  "fs_table ip = (if ip = 0 then dir_inode else no_inode)"

definition fs_dirblk :: block where
  "fs_dirblk k = (if k = 0 then 1 else if k = 2 then 46 else if k = 16 then 7 else if k = 18 then 97 else 0)"

abbreviation fs_state :: fsst where
  "fs_state \<equiv> fsst_of (fs_disk fs_dirblk) fs_table"

lemma fs_table_0 [simp]: "fs_table 0 = dir_inode"
  by (simp add: fs_table_def)

lemma fs_table_ok: "itable_ok fs_table"
  by (auto simp: itable_ok_def fs_table_def dir_inode_def no_inode_def)

lemma fs_IBLOCK: "n < 16 \<Longrightarrow> IBLOCK n fs_sb = 32"
proof -
  assume "n < 16"
  then have "unat (n div 16) = 0" by (simp add: unat_div word_less_nat_alt)
  then have "n div 16 = 0" by (simp add: u32_eq_iff)
  then show ?thesis by (simp add: IBLOCK_def fs_sb_def)
qed

theorem iupdate_ilock_witness:
  "\<exists>t u. iupdate 0 fs_state = Inr t \<and> ilock_read 0 t = Inr u \<and> i_size (itable u 0) = 32"
proof -
  have d: "i_dev (itable fs_state 0) = log_dev fs_state" "dinode_ok (itable fs_state 0)" "i_type (itable fs_state 0) \<noteq> 0"
    by (simp_all add: dir_inode_def dinode_ok_def short_ok_def)
  have x: "IBLOCK (i_inum (itable fs_state 0)) (sblock fs_state) \<notin> {}" and r: "room 1 1 {} fs_state" by (simp, rule fsst_of_room, simp)
  obtain t where t: "iupdate 0 fs_state = Inr t"
    "\<forall>jp. i_dev (itable fs_state jp) = log_dev fs_state \<and> i_inum (itable fs_state jp) = i_inum (itable fs_state 0) \<longrightarrow>
      (\<exists>u. ilock_read jp t = Inr u \<and> same_dinode (itable u jp) (itable fs_state 0) \<and> i_valid (itable u jp))"
    using iupdate_ilock [OF fsst_of_tx x r d] by blast
  then obtain u where u: "ilock_read 0 t = Inr u" "same_dinode (itable u 0) (itable fs_state 0)" using d(1) by blast
  have "i_size (itable u 0) = 32" using u(2) by (simp add: same_dinode_def dir_inode_def)
  then show ?thesis using t(1) u(1) by blast
qed

theorem iget_table_witness:
  "\<exists>i t. iget 1 1 fs_state = Inr (i, t) \<and> itable_ok (itable t) \<and> refs (itable t) 1 1 = 2"
proof -
  have l: "lock_free Lk_itable fs_state" using quietD(4) [OF goodD(1) [OF in_txD(1) [OF fsst_of_tx]]] .
  have e: "entry_of fs_table 1 1 0" by (simp add: entry_of_def dir_inode_def)
  then have "refs fs_table 1 1 = 1" using refs_entry [OF fs_table_ok] by (simp add: dir_inode_def)
  moreover obtain i t where "iget 1 1 fs_state = Inr (i, t)" "itable_ok (itable t)"
      "refs (itable t) 1 1 = refs fs_table 1 1 + 1"
    using iget_table [OF l, of 1 1] fs_table_ok e unfolding fsst_of_simps by (auto simp del: NINODE_def split: if_splits)
  ultimately show ?thesis by auto
qed

end
