(* ===== verification/Filedata.thy ===== *)
theory Filedata
  imports Inodes
begin

text \<open>
  The contents of a file inside a transaction: \<^verbatim>\<open>bmap\<close>, \<^verbatim>\<open>readi\<close> and \<^verbatim>\<open>writei\<close> of
  \<^verbatim>\<open>kernel/fs.c\<close> as operations on an array of bytes.
\<close>

section \<open>The blocks of a file\<close>

text \<open>
  The block that the inode \<open>i\<close> has for the \<open>n\<close>th block of its file, 0 for none; as number \<open>MAXFILE\<close> the block of
  indirect addresses.
\<close>

definition file_blk :: "(u32 \<Rightarrow> block) \<Rightarrow> inode \<Rightarrow> nat \<Rightarrow> u32" where
  "file_blk c i n =
     (if n < NDIRECT then i_addrs i n
      else if n = MAXFILE then i_addrs i NDIRECT
      else if i_addrs i NDIRECT = 0 then 0
      else blk_ld (c (i_addrs i NDIRECT)) (4 * (n - NDIRECT)))"

text \<open>
  The blocks that hold the bitmap and the inodes; none of them is free, and none holds both.  The blocks of a file are in
  use, they are distinct, and none of them belongs to the bitmap or the inodes.
\<close>

definition meta :: "superblock \<Rightarrow> u32 \<Rightarrow> bool" where
  "meta sb b \<longleftrightarrow> (\<exists>x < sb_size sb. BBLOCK x sb = b) \<or> (\<exists>n < sb_ninodes sb. IBLOCK n sb = b)"

definition fs_ok :: "superblock \<Rightarrow> (u32 \<Rightarrow> block) \<Rightarrow> bool" where
  "fs_ok sb c \<longleftrightarrow> (\<forall>b < sb_size sb. blk_free sb c b \<longrightarrow> b \<noteq> 0 \<and> \<not> meta sb b) \<and>
     (\<forall>b < sb_size sb. \<forall>n < sb_ninodes sb. BBLOCK b sb \<noteq> IBLOCK n sb)"

definition in_use :: "superblock \<Rightarrow> (u32 \<Rightarrow> block) \<Rightarrow> u32 \<Rightarrow> bool" where
  "in_use sb c b \<longleftrightarrow> b < sb_size sb \<and> \<not> blk_free sb c b \<and> \<not> meta sb b"

definition file_ok :: "superblock \<Rightarrow> (u32 \<Rightarrow> block) \<Rightarrow> inode \<Rightarrow> bool" where
  "file_ok sb c i \<longleftrightarrow> (\<forall>n\<le>MAXFILE. file_blk c i n \<noteq> 0 \<longrightarrow> in_use sb c (file_blk c i n)) \<and>
     (\<forall>m\<le>MAXFILE. \<forall>n\<le>MAXFILE. file_blk c i m = file_blk c i n \<and> file_blk c i m \<noteq> 0 \<longrightarrow> m = n)"

lemma file_okD:
  assumes "file_ok sb c i"
  shows "n \<le> MAXFILE \<Longrightarrow> file_blk c i n \<noteq> 0 \<Longrightarrow> in_use sb c (file_blk c i n)"
    "m \<le> MAXFILE \<Longrightarrow> n \<le> MAXFILE \<Longrightarrow> file_blk c i m = file_blk c i n \<Longrightarrow> file_blk c i m \<noteq> 0 \<Longrightarrow> m = n"
  using assms unfolding file_ok_def by blast+

lemma file_blk_simps:
  "n < NDIRECT \<Longrightarrow> file_blk c i n = i_addrs i n" "file_blk c i MAXFILE = i_addrs i NDIRECT"
  "k < NINDIRECT \<Longrightarrow> file_blk c i (NDIRECT + k) = (if i_addrs i NDIRECT = 0 then 0 else blk_ld (c (i_addrs i NDIRECT)) (4 * k))"
  by (simp_all add: file_blk_def)

lemma file_blk_cases:
  assumes "n \<le> MAXFILE"
  obtains "n < NDIRECT" | k where "n = NDIRECT + k" "k < NINDIRECT" | "n = MAXFILE"
proof -
  consider "n < 12" | "12 \<le> n" "n < 268" | "n = 268" using assms by (simp, linarith)
  then show thesis
  proof cases
    case 2
    then have "n = NDIRECT + (n - 12)" "n - 12 < NINDIRECT" by simp_all
    then show ?thesis by (rule that(2))
  qed (use that in simp_all)
qed

text \<open>Linking the block \<open>r\<close>, free before, as the \<open>m\<close>th block of a file.\<close>

lemma file_ok_link:
  assumes f: "file_ok sb c i" "fs_ok sb c" and r: "r < sb_size sb" "blk_free sb c r"
    and b: "\<And>n. n \<le> MAXFILE \<Longrightarrow> file_blk c' i' n = (if n = m then r else file_blk c i n)"
    and u: "\<And>b. b < sb_size sb \<Longrightarrow> blk_free sb c' b \<longleftrightarrow> b \<noteq> r \<and> blk_free sb c b"
  shows "file_ok sb c' i'" "fs_ok sb c'"
proof -
  have nr: "file_blk c i n \<noteq> r" if "n \<le> MAXFILE" "file_blk c i n \<noteq> 0" for n
    using file_okD(1) [OF f(1) that] r by (auto simp: in_use_def)
  have rr: "in_use sb c' r" using r u f(2) by (auto simp: in_use_def fs_ok_def)
  have "in_use sb c' (file_blk c i n)" if "n \<le> MAXFILE" "file_blk c i n \<noteq> 0" for n
    using file_okD(1) [OF f(1) that] u by (auto simp: in_use_def)
  moreover have "r \<noteq> 0" using f(2) r by (auto simp: fs_ok_def)
  ultimately show "file_ok sb c' i'"
    unfolding file_ok_def using b nr rr file_okD(2) [OF f(1)] by (auto simp del: MAXFILE_def)
  show "fs_ok sb c'" using f(2) u by (auto simp: fs_ok_def)
qed

lemma taken_effect:
  assumes "fs_ok sb c" "r < sb_size sb" "blk_free sb c r"
  shows "\<And>b. b < sb_size sb \<Longrightarrow> blk_free sb (taken sb r c) b \<longleftrightarrow> b \<noteq> r \<and> blk_free sb c b"
    "taken sb r c r = (\<lambda>_. 0)" "\<And>b. in_use sb c b \<Longrightarrow> taken sb r c b = c b" "r \<noteq> 0"
    "\<And>n. n < sb_ninodes sb \<Longrightarrow> taken sb r c (IBLOCK n sb) = c (IBLOCK n sb)"
proof -
  have m: "\<not> meta sb r" "r \<noteq> 0" using assms by (auto simp: fs_ok_def)
  then show "blk_free sb (taken sb r c) b \<longleftrightarrow> b \<noteq> r \<and> blk_free sb c b" if "b < sb_size sb" for b
    using that by (intro blk_free_taken) (auto simp: meta_def)
  show "taken sb r c r = (\<lambda>_. 0)" "r \<noteq> 0" using m by (simp_all add: taken_def)
  show "taken sb r c b = c b" if "in_use sb c b" for b
    using that assms(2,3) by (auto simp: taken_def in_use_def meta_def)
  show "taken sb r c (IBLOCK n sb) = c (IBLOCK n sb)" if "n < sb_ninodes sb" for n
  proof -
    have "IBLOCK n sb \<noteq> BBLOCK r sb" using assms(1,2) that unfolding fs_ok_def by metis
    moreover have "IBLOCK n sb \<noteq> r" using m(1) that by (auto simp: meta_def)
    ultimately show ?thesis by (simp add: taken_def)
  qed
qed

section \<open>Finding or allocating the block of a file\<close>

lemma bmap_direct_ok:
  assumes tx: "in_tx p {} s" and r: "i_addrs (itable s ip) m = 0 \<Longrightarrow> room 2 1 {} s" and d: "i_dev (itable s ip) = log_dev s"
    and f: "fs_ok (sblock s) (contents s)"
  obtains
    (mapped) "i_addrs (itable s ip) m \<noteq> 0" "bmap_direct ip m s = Inr (i_addrs (itable s ip) m, s)"
  | (full) t where "i_addrs (itable s ip) m = 0" "bmap_direct ip m s = Inr (0, t)" "itable t = itable s"
      "no_free (sblock s) (contents s) (unat (sb_size (sblock s)))" "tx_step p {} s {} t (contents s) {}"
  | (new) b t where "i_addrs (itable s ip) m = 0" "bmap_direct ip m s = Inr (b, t)"
      "itable t = (itable s)(ip := (itable s ip)\<lparr>i_addrs := (i_addrs (itable s ip))(m := b)\<rparr>)"
      "b < sb_size (sblock s)" "blk_free (sblock s) (contents s) b"
      "tx_step p {} s {} t (taken (sblock s) b (contents s)) {BBLOCK b (sblock s), b}"
proof (cases "i_addrs (itable s ip) m = 0")
  case False
  then show ?thesis using mapped by (simp add: bmap_direct_def Let_def)
next
  case True
  obtain b t where b: "balloc (log_dev s) s = Inr (b, t)" "balloc_result p {} s b t"
    by (rule balloc_ok [OF tx r [OF True]]) (simp add: bitmap_unlocked_def)
  consider "no_free (sblock s) (contents s) (unat (sb_size (sblock s)))" "b = 0" "tx_step p {} s {} t (contents s) {}"
    | "b < sb_size (sblock s)" "blk_free (sblock s) (contents s) b"
      "tx_step p {} s {} t (taken (sblock s) b (contents s)) {BBLOCK b (sblock s), b}"
    using b(2) unfolding balloc_result_def by blast
  then show ?thesis
  proof cases
    case 1
    then show ?thesis using full True b d by (simp add: bmap_direct_def balloc_result_def Let_def)
  next
    case 2
    have nz: "b \<noteq> 0" using taken_effect(4) [OF f 2(1,2)] .
    let ?t = "upd_inode ip (\<lambda>x. x\<lparr>i_addrs := (i_addrs x)(m := b)\<rparr>) t"
    have "bmap_direct ip m s = Inr (b, ?t)" using True b d nz by (simp add: bmap_direct_def Let_def)
    moreover have "itable ?t = (itable s)(ip := (itable s ip)\<lparr>i_addrs := (i_addrs (itable s ip))(m := b)\<rparr>)"
      using b(2) by (simp add: balloc_result_def)
    ultimately show ?thesis using new True 2 by simp
  qed
qed

lemma blk_ld_zero [simp]: "blk_ld (\<lambda>_. 0) k = 0"
  by (simp add: blk_ld_def)

lemma file_blk_addr:
  assumes f: "file_ok sb c i" "fs_ok sb c" and r: "r < sb_size sb" "blk_free sb c r" and m: "m \<le> NDIRECT" "i_addrs i m = 0"
    and n: "n \<le> MAXFILE"
  shows "file_blk (taken sb r c) (i\<lparr>i_addrs := (i_addrs i)(m := r)\<rparr>) n =
    (if n = (if m = NDIRECT then MAXFILE else m) then r else file_blk c i n)"
proof -
  note T = taken_effect [OF f(2) r]
  have ind: "taken sb r c (i_addrs i NDIRECT) = c (i_addrs i NDIRECT)" if "i_addrs i NDIRECT \<noteq> 0"
    using file_okD(1) [OF f(1), of MAXFILE] that by (intro T(3)) (simp add: file_blk_def)
  from n show ?thesis
  proof (cases rule: file_blk_cases)
    case (2 k)
    then show ?thesis using m ind T(2,4) by (cases "m = NDIRECT") (auto simp: file_blk_def)
  qed (use m in \<open>auto simp: file_blk_def\<close>)
qed

text \<open>A new address stored in the block of indirect addresses.\<close>

definition ind_put :: "inode \<Rightarrow> nat \<Rightarrow> u32 \<Rightarrow> (u32 \<Rightarrow> block) \<Rightarrow> u32 \<Rightarrow> block" where
  "ind_put i k r c = c(i_addrs i NDIRECT := blk_st (c (i_addrs i NDIRECT)) (4 * k) r)"

lemma file_blk_ind:
  assumes f: "file_ok sb c i" "fs_ok sb c" and r: "r < sb_size sb" "blk_free sb c r" and k: "k < NINDIRECT"
    and d: "i_addrs i NDIRECT \<noteq> 0"
  shows "n \<le> MAXFILE \<Longrightarrow> file_blk (ind_put i k r (taken sb r c)) i n = (if n = NDIRECT + k then r else file_blk c i n)"
    "b < sb_size sb \<Longrightarrow> blk_free sb (ind_put i k r (taken sb r c)) b \<longleftrightarrow> b \<noteq> r \<and> blk_free sb c b"
    "in_use sb c b \<Longrightarrow> b \<noteq> i_addrs i NDIRECT \<Longrightarrow> ind_put i k r (taken sb r c) b = c b"
    "ind_put i k r (taken sb r c) r = (\<lambda>_. 0)"
    "m < sb_ninodes sb \<Longrightarrow> ind_put i k r (taken sb r c) (IBLOCK m sb) = c (IBLOCK m sb)"
proof -
  note T = taken_effect [OF f(2) r]
  let ?d = "i_addrs i NDIRECT"
  have u: "in_use sb c ?d" using file_okD(1) [OF f(1), of MAXFILE] d by (simp add: file_blk_def)
  note e = T(3) [OF u]
  show "file_blk (ind_put i k r (taken sb r c)) i n = (if n = NDIRECT + k then r else file_blk c i n)" if n: "n \<le> MAXFILE"
    using n
  proof (cases rule: file_blk_cases)
    case (2 j)
    have "blk_ld (blk_st (c ?d) (4 * k) r) (4 * j) = blk_ld (c ?d) (4 * j)" if "j \<noteq> k"
      by (rule blk_ld_st_other) (use that in linarith)
    then show ?thesis using 2 d e k by (auto simp: file_blk_simps ind_put_def simp del: NDIRECT_def NINDIRECT_def)
  qed (use k in \<open>auto simp: file_blk_def\<close>)
  show "blk_free sb (ind_put i k r (taken sb r c)) b \<longleftrightarrow> b \<noteq> r \<and> blk_free sb c b" if "b < sb_size sb"
  proof -
    have "BBLOCK b sb \<noteq> ?d" using u that by (auto simp: in_use_def meta_def)
    then show ?thesis using T(1) [OF that] by (simp add: blk_free_def ind_put_def)
  qed
  show "in_use sb c b \<Longrightarrow> b \<noteq> ?d \<Longrightarrow> ind_put i k r (taken sb r c) b = c b" using T(3) by (simp add: ind_put_def)
  have "r \<noteq> ?d" using u r by (auto simp: in_use_def)
  then show "ind_put i k r (taken sb r c) r = (\<lambda>_. 0)" using T(2) by (simp add: ind_put_def)
  show "ind_put i k r (taken sb r c) (IBLOCK m sb) = c (IBLOCK m sb)" if "m < sb_ninodes sb"
    using T(5) [OF that] u that by (auto simp: ind_put_def in_use_def meta_def)
qed

text \<open>
  What \<^verbatim>\<open>bmap\<close> does to the file system, for block \<open>n\<close> of a file and the result \<open>r\<close>: the file has \<open>r\<close> as its
  \<open>n\<close>th block afterwards, every other block of the file is what it was, a block that was there already is returned with
  nothing changed, new blocks were free, a new block of data is zero, no block that was in use changes but for the block of indirect addresses,
  no inode changes on the disk, and the result is 0 only when no block is free.
\<close>

definition inode_grows :: "superblock \<Rightarrow> (u32 \<Rightarrow> block) \<Rightarrow> inode \<Rightarrow> nat \<Rightarrow> (u32 \<Rightarrow> block) \<Rightarrow> inode \<Rightarrow> u32 \<Rightarrow> bool" where
  "inode_grows sb c i n c' i' r \<longleftrightarrow>
     fs_ok sb c' \<and> file_ok sb c' i' \<and> i' = i\<lparr>i_addrs := i_addrs i'\<rparr> \<and> r = file_blk c' i' n
     \<and> (\<forall>m<MAXFILE. m \<noteq> n \<longrightarrow> file_blk c' i' m = file_blk c i m)
     \<and> (file_blk c i n \<noteq> 0 \<longrightarrow> r = file_blk c i n \<and> c' = c \<and> i' = i)
     \<and> (file_blk c i n = 0 \<and> r \<noteq> 0 \<longrightarrow> c' r = (\<lambda>_. 0))
     \<and> (\<forall>m\<le>MAXFILE. file_blk c' i' m \<noteq> file_blk c i m \<longrightarrow> blk_free sb c (file_blk c' i' m))
     \<and> (r = 0 \<longrightarrow> no_free sb c' (unat (sb_size sb)))
     \<and> (\<forall>b. in_use sb c b \<longrightarrow> in_use sb c' b \<and> (b \<noteq> i_addrs i NDIRECT \<longrightarrow> c' b = c b))
     \<and> (\<forall>m < sb_ninodes sb. c' (IBLOCK m sb) = c (IBLOCK m sb))
     \<and> (i_addrs i NDIRECT \<noteq> 0 \<longrightarrow> i_addrs i' NDIRECT = i_addrs i NDIRECT)"

lemma inode_grows_refl:
  assumes "fs_ok sb c" "file_ok sb c i" "file_blk c i n \<noteq> 0 \<or> no_free sb c (unat (sb_size sb))"
  shows "inode_grows sb c i n c i (file_blk c i n)"
  using assms by (auto simp: inode_grows_def)

lemma inode_grows_direct:
  assumes f: "file_ok sb c i" "fs_ok sb c" and r: "r < sb_size sb" "blk_free sb c r" and n: "n < NDIRECT" "i_addrs i n = 0"
  shows "inode_grows sb c i n (taken sb r c) (i\<lparr>i_addrs := (i_addrs i)(n := r)\<rparr>) r"
proof -
  let ?c = "taken sb r c" and ?i = "i\<lparr>i_addrs := (i_addrs i)(n := r)\<rparr>"
  note T = taken_effect [OF f(2) r]
  have b: "file_blk ?c ?i m = (if m = n then r else file_blk c i m)" if "m \<le> MAXFILE" for m
    using file_blk_addr [OF f r _ n(2) that] n(1) by simp
  have "file_ok sb ?c ?i" "fs_ok sb ?c" using file_ok_link [OF f r b T(1)] by simp_all
  moreover have "in_use sb ?c b" if "in_use sb c b" for b using that T(1) by (auto simp: in_use_def)
  ultimately show ?thesis
    using T(2-5) b n r by (auto simp: inode_grows_def file_blk_simps(1))
qed

lemma inode_grows_ind:
  assumes f: "file_ok sb c i" "fs_ok sb c" and r: "r < sb_size sb" "blk_free sb c r" and k: "k < NINDIRECT"
    and d: "i_addrs i NDIRECT \<noteq> 0" and z: "file_blk c i (NDIRECT + k) = 0"
  shows "inode_grows sb c i (NDIRECT + k) (ind_put i k r (taken sb r c)) i r"
proof -
  let ?c = "ind_put i k r (taken sb r c)"
  note I = file_blk_ind [OF f r k d]
  have "file_ok sb ?c i" "fs_ok sb ?c" using file_ok_link [OF f r, of ?c i "NDIRECT + k"] I(1,2) by auto
  moreover have "in_use sb ?c b" if "in_use sb c b" for b using that I(2) by (auto simp: in_use_def)
  moreover have "r \<noteq> 0" using taken_effect(4) [OF f(2) r] .
  moreover have "NDIRECT + k \<le> MAXFILE" using k by simp
  ultimately show ?thesis
    unfolding inode_grows_def using I(1,3,4,5) z r(2) by (auto simp del: NDIRECT_def MAXFILE_def)
qed

lemma inode_grows_new_ind:
  assumes f: "file_ok sb c i" "fs_ok sb c" and d: "d < sb_size sb" "blk_free sb c d" and k: "k < NINDIRECT"
    and z: "i_addrs i NDIRECT = 0"
    and g: "inode_grows sb (taken sb d c) (i\<lparr>i_addrs := (i_addrs i)(NDIRECT := d)\<rparr>) (NDIRECT + k) c' i' r"
  shows "inode_grows sb c i (NDIRECT + k) c' i' r"
proof -
  let ?c = "taken sb d c" and ?i = "i\<lparr>i_addrs := (i_addrs i)(NDIRECT := d)\<rparr>"
  note T = taken_effect [OF f(2) d]
  have b: "file_blk ?c ?i m = file_blk c i m" if "m < MAXFILE" for m
    using file_blk_addr [OF f d order_refl z, of m] that by simp
  have n: "NDIRECT + k < MAXFILE" using k by simp
  have u: "in_use sb ?c b \<and> ?c b = c b \<and> b \<noteq> d" if "in_use sb c b" for b
    using that T(1,3) d(2) by (auto simp: in_use_def)
  have fc: "file_ok sb c' i'" "i_addrs i' NDIRECT = d"
    "\<And>m. m \<le> MAXFILE \<Longrightarrow> file_blk c' i' m \<noteq> file_blk ?c ?i m \<Longrightarrow> blk_free sb ?c (file_blk c' i' m)"
    using g T(4) by (auto simp: inode_grows_def simp del: MAXFILE_def)
  have fr: "blk_free sb c (file_blk c' i' m)" if m: "m \<le> MAXFILE" "file_blk c' i' m \<noteq> file_blk c i m" for m
  proof (cases "m = MAXFILE")
    case True
    then show ?thesis using fc(2) d(2) by (simp add: file_blk_simps(2) del: MAXFILE_def)
  next
    case False
    let ?x = "file_blk c' i' m"
    have "?x < sb_size sb"
      using file_okD(1) [OF fc(1) m(1)] d(1) by (cases "?x = 0") (auto simp: in_use_def word_neq_0_conv [symmetric])
    then show ?thesis using T(1) fc(3) [OF m(1)] b [of m] m False by auto
  qed
  have z': "file_blk c i (NDIRECT + k) = 0" using z k by (simp add: file_blk_def)
  have "\<And>m. m < MAXFILE \<Longrightarrow> m \<noteq> NDIRECT + k \<Longrightarrow> file_blk c' i' m = file_blk c i m" "file_blk c' i' (NDIRECT + k) = r"
    "fs_ok sb c'" "i' = i\<lparr>i_addrs := i_addrs i'\<rparr>" "r \<noteq> 0 \<Longrightarrow> c' r = (\<lambda>_. 0)" "r = 0 \<Longrightarrow> no_free sb c' (unat (sb_size sb))"
    using g b n z' by (auto simp: inode_grows_def simp del: MAXFILE_def NDIRECT_def)
  moreover have "in_use sb c' b \<and> c' b = c b" if "in_use sb c b" for b
    using g u [OF that] by (auto simp: inode_grows_def)
  moreover have "c' (IBLOCK m sb) = c (IBLOCK m sb)" if "m < sb_ninodes sb" for m
    using g T(5) that by (simp add: inode_grows_def)
  ultimately show ?thesis using fc(1) fr z z' unfolding inode_grows_def by (auto simp del: NDIRECT_def MAXFILE_def)
qed

lemma bmap_indirect_ok:
  assumes tx: "in_tx p {} s" and d: "i_dev (itable s ip) = log_dev s"
    and i: "i = itable s ip" and c: "c = contents s" and sb: "sb = sblock s"
    and f: "file_ok sb c i" "fs_ok sb c" and a: "i_addrs i NDIRECT \<noteq> 0" and k: "k < NINDIRECT"
    and r0: "room 0 1 {} s"
    and r: "file_blk c i (NDIRECT + k) = 0 \<Longrightarrow> int (card (logged s \<union> {i_addrs i NDIRECT})) + 3 < log_size s \<and> 1 \<le> outstanding s"
  obtains r t c' L where "bmap_indirect ip k (i_addrs i NDIRECT) s = Inr (r, t)" "tx_step p {} s {} t c' L" "itable t = itable s"
    "inode_grows sb c i (NDIRECT + k) c' i r" "L \<subseteq> (if file_blk c i (NDIRECT + k) = 0 then {BBLOCK r sb, r, i_addrs i NDIRECT} else {})"
proof -
  let ?x = "i_addrs i NDIRECT" and ?d = "log_dev s"
  have fb: "file_blk c i (NDIRECT + k) = blk_ld (c ?x) (4 * k)" using file_blk_simps(3) [OF k] a by simp
  have u: "in_use sb c ?x" using file_okD(1) [OF f(1), of MAXFILE] a by (simp add: file_blk_def)
  show ?thesis
  proof (cases "file_blk c i (NDIRECT + k) = 0")
    case False
    obtain b s1 t where b: "bread ?d ?x s = Inr (b, s1)" "b_data (bufs s1 b) = contents s ?x" "itable s1 = itable s"
      "sblock s1 = sblock s" "brelse b s1 = Inr t" "tx_step p {} s {} t (contents s) {}" "itable t = itable s"
      by (rule peek_step [OF tx _ r0]) simp
    then have "bmap_indirect ip k ?x s = Inr (file_blk c i (NDIRECT + k), t)"
      using False d c fb by (simp add: bmap_indirect_def i Let_def)
    moreover have "inode_grows sb c i (NDIRECT + k) c i (file_blk c i (NDIRECT + k))" by (rule inode_grows_refl) (use f False in auto)
    ultimately show ?thesis using that b(6,7) c by blast
  next
    case True
    obtain b s1 where s1: "bread ?d ?x s = Inr (b, s1)" "tx_step p {} s {?x} s1 c {}" "at_buf ?d s1 ?x b"
      "b_data (bufs s1 b) = c ?x" "itable s1 = itable s"
      using bread_step [OF tx _ r0, of ?x] c by auto
    note S = tx_stepD [OF s1(2)]
    have lg: "int (card (logged s \<union> {?x})) + 3 < log_size s" "1 \<le> outstanding s" "log_size s \<le> 30" using r [OF True] in_txD(8) [OF tx] by simp_all
    have "room 2 1 {?x} s1"
      using lg S(3,5,14) card_logged_Un [OF tx, of "{?x}"] by (simp add: room_def)
    moreover have "bitmap_unlocked {?x} s1"
      using u S(2,6) c sb by (auto simp: bitmap_unlocked_def in_use_def meta_def)
    ultimately obtain r s2 where s2: "balloc (log_dev s1) s1 = Inr (r, s2)" "balloc_result p {?x} s1 r s2"
      using balloc_ok [OF S(1)] by blast
    then consider "no_free sb c (unat (sb_size sb))" "r = 0" "tx_step p {?x} s1 {?x} s2 c {}" "itable s2 = itable s"
      | "r < sb_size sb" "blk_free sb c r" "tx_step p {?x} s1 {?x} s2 (taken sb r c) {BBLOCK r sb, r}" "itable s2 = itable s"
      using S(2,6) s1(5) c sb unfolding balloc_result_def by auto
    then show ?thesis
    proof cases
      case 1
      note S2 = tx_stepD [OF 1(3)]
      have at2: "at_buf (log_dev s2) s2 ?x b" using S2(9) [of ?x b] S2(4) s1(3) S(4) by simp
      have "?x \<in> logged s2 \<or> contents s2 ?x = disk s2 (log_dev s2) ?x" using in_txD(5) [OF S2(1)] by blast
      then obtain t where t: "brelse b s2 = Inr t" "tx_step p {?x} s2 ({?x} - {?x}) t (contents s2) {}" "itable t = itable s2"
        by (rule brelse_step [OF S2(1) singletonI at2])
      have "tx_step p {?x} s1 {} t c ({} \<union> {})" by (rule tx_step_trans [OF 1(3)]) (use t(2) S2(2) in auto)
      then have "tx_step p {} s {} t c ({} \<union> ({} \<union> {}))" by (rule tx_step_trans [OF s1(2)]) auto
      moreover have "bmap_indirect ip k ?x s = Inr (0, t)"
        using True d fb s1(1,4,5) s2(1) S(4) 1(2) t(1) by (simp add: bmap_indirect_def i Let_def)
      moreover have "inode_grows sb c i (NDIRECT + k) c i (file_blk c i (NDIRECT + k))" by (rule inode_grows_refl) (use f 1(1) in auto)
      ultimately show ?thesis using that [of 0 t c "{}"] True t(3) 1(4) by simp
    next
      case 2
      note S2 = tx_stepD [OF 2(3)]
      have at2: "at_buf (log_dev s2) s2 ?x b" using S2(9) [of ?x b] S2(4) s1(3) S(4) by simp
      let ?a = "blk_st (contents s2 ?x) (4 * k) r"
      have nz: "r \<noteq> 0" using taken_effect(4) [OF f(2) 2(1,2)] .
      have dat: "b_data (bufs s2 b) = contents s2 ?x" by (rule held_data [OF S2(1) singletonI at2])
      have "room 1 0 {?x} s2"
        using lg S(3,5,14) S2(3,5,14) card_two [of "BBLOCK r sb" r] card_logged_Un [OF tx, of "{?x}"] by (simp add: room_def)
      then obtain s3 where s3: "log_write b (set_data b ?a s2) = Inr s3" "tx_step p {?x} s2 {?x} s3 ((contents s2)(?x := ?a)) {?x}"
        "?x \<in> logged s3" "itable s3 = itable s2"
        by (rule put_step [OF S2(1) singletonI at2])
      note S3 = tx_stepD [OF s3(2)]
      have at3: "at_buf (log_dev s3) s3 ?x b" using S3(9) [of ?x b] S3(4) at2 by simp
      obtain t where t: "brelse b s3 = Inr t" "tx_step p {?x} s3 ({?x} - {?x}) t (contents s3) {}" "itable t = itable s3"
        by (rule brelse_step [OF S3(1) singletonI at3 disjI1 [OF s3(3)]])
      have c3: "contents s3 = ind_put i k r (taken sb r c)" using S3(2) S2(2) by (simp add: ind_put_def)
      have "tx_step p {?x} s2 {} t (contents s3) ({?x} \<union> {})" by (rule tx_step_trans [OF s3(2)]) (use t(2) in auto)
      then have "tx_step p {?x} s1 {} t (contents s3) ({BBLOCK r sb, r} \<union> ({?x} \<union> {}))" by (rule tx_step_trans [OF 2(3)]) auto
      then have "tx_step p {} s {} t (contents s3) ({} \<union> ({BBLOCK r sb, r} \<union> ({?x} \<union> {})))"
        by (rule tx_step_trans [OF s1(2)]) auto
      then have st: "tx_step p {} s {} t (ind_put i k r (taken sb r c)) {BBLOCK r sb, r, ?x}" using c3 by (simp add: insert_commute)
      have e: "bmap_indirect ip k ?x s = Inr (r, t)"
        using True d fb s1(1,4,5) s2(1) S(4) nz dat s3(1) t(1) by (simp add: bmap_indirect_def i Let_def)
      show ?thesis
        by (rule that [OF e st _ inode_grows_ind [OF f 2(1,2) k a True]]) (use True t(3) s3(4) 2(4) in auto)
    qed
  qed
qed

text \<open>
  The room in the log that one block of a file needs: the block itself, its bitmap block when it is new, and
  the block of indirect addresses, with its bitmap block when it is new.
\<close>

definition inds :: "inode \<Rightarrow> u32 set" where
  "inds i = (if i_addrs i NDIRECT = 0 then {} else {i_addrs i NDIRECT})"

definition ind_cost :: "inode \<Rightarrow> nat" where
  "ind_cost i = (if i_addrs i NDIRECT = 0 then 2 else 0)"

definition blk_cost :: "(u32 \<Rightarrow> block) \<Rightarrow> inode \<Rightarrow> nat \<Rightarrow> nat" where
  "blk_cost c i n = (if file_blk c i n = 0 then 2 else 1)"

definition log_need :: "inode \<Rightarrow> 'a logst_scheme \<Rightarrow> nat" where
  "log_need i s = card (logged s \<union> inds i) + ind_cost i"

definition bmap_logs :: "superblock \<Rightarrow> inode \<Rightarrow> inode \<Rightarrow> u32 \<Rightarrow> u32 set" where
  "bmap_logs sb i i' r = {BBLOCK r sb, r} \<union> inds i' \<union> (if i_addrs i NDIRECT = 0 then (\<lambda>d. BBLOCK d sb) ` inds i' else {})"

lemma finite_inds [simp]: "finite (inds i)"
  by (simp add: inds_def)

lemma lh_n_need: "in_tx p H s \<Longrightarrow> lh_n s + int (ind_cost i) \<le> int (log_need i s)"
  using card_logged_Un [of p H s "inds i"] by (simp add: log_need_def)

lemma bmap_direct_grows:
  assumes tx: "in_tx p {} s" and d: "i_dev (itable s ip) = log_dev s"
    and i: "i = itable s ip" and c: "c = contents s" and sb: "sb = sblock s"
    and f: "file_ok sb c i" "fs_ok sb c" and n: "n < NDIRECT" and r: "i_addrs i n = 0 \<Longrightarrow> room 2 1 {} s"
  obtains r t c' i' L where "bmap_direct ip n s = Inr (r, t)" "tx_step p {} s {} t c' L" "itable t = (itable s)(ip := i')"
    "inode_grows sb c i n c' i' r" "L \<subseteq> (if file_blk c i n = 0 then bmap_logs sb i i' r else {})"
proof -
  note b = file_blk_simps(1) [OF n, of c i]
  have r': "room 2 1 {} s" if "i_addrs (itable s ip) n = 0" using r that i by simp
  show ?thesis
  proof (rule bmap_direct_ok [OF tx r' d f(2) [unfolded c sb], where m = n])
    assume m: "i_addrs (itable s ip) n \<noteq> 0" "bmap_direct ip n s = Inr (i_addrs (itable s ip) n, s)"
    have "inode_grows sb c i n c i (file_blk c i n)" by (rule inode_grows_refl) (use f m b i in auto)
    then show ?thesis using that [of _ s c "{}" i] m b i c tx_step_refl [OF tx] by simp
  next
    fix t
    assume m: "i_addrs (itable s ip) n = 0" "bmap_direct ip n s = Inr (0, t)" "itable t = itable s"
      "no_free (sblock s) (contents s) (unat (sb_size (sblock s)))" "tx_step p {} s {} t (contents s) {}"
    have "inode_grows sb c i n c i (file_blk c i n)" by (rule inode_grows_refl) (use f m(4) c sb in auto)
    then show ?thesis using that [of 0 t c "{}" i] m b i c by simp
  next
    fix r t
    assume m: "i_addrs (itable s ip) n = 0" "bmap_direct ip n s = Inr (r, t)"
      "itable t = (itable s)(ip := (itable s ip)\<lparr>i_addrs := (i_addrs (itable s ip))(n := r)\<rparr>)"
      "r < sb_size (sblock s)" "blk_free (sblock s) (contents s) r"
      "tx_step p {} s {} t (taken (sblock s) r (contents s)) {BBLOCK r (sblock s), r}"
    note g = inode_grows_direct [OF f, of r n]
    show ?thesis
      by (rule that [OF m(2,6,3)]) (use m(1,4,5) g n b i c sb in \<open>auto simp: bmap_logs_def simp del: NDIRECT_def\<close>)
  qed
qed

text \<open>Allocation of the block of indirect addresses.\<close>

lemma file_ok_new_ind:
  assumes "file_ok sb c i" "fs_ok sb c" "d < sb_size sb" "blk_free sb c d" "i_addrs i NDIRECT = 0"
  shows "file_ok sb (taken sb d c) (i\<lparr>i_addrs := (i_addrs i)(NDIRECT := d)\<rparr>)" "fs_ok sb (taken sb d c)"
  using file_ok_link [OF assms(1-4), of "taken sb d c" "i\<lparr>i_addrs := (i_addrs i)(NDIRECT := d)\<rparr>" MAXFILE]
    file_blk_addr [OF assms(1-4) order_refl assms(5)] taken_effect(1) [OF assms(2-4)] by auto

lemma bmap_ok:
  assumes tx: "in_tx p {} s" and d: "i_dev (itable s ip) = log_dev s"
    and i: "i = itable s ip" and c: "c = contents s" and sb: "sb = sblock s"
    and f: "file_ok sb c i" "fs_ok sb c" and n: "n = unat bn" "n < MAXFILE"
    and r0: "room 0 1 {} s" and r: "file_blk c i n = 0 \<Longrightarrow> int (log_need i s) + 3 < log_size s \<and> 1 \<le> outstanding s"
  obtains r t c' i' L where "bmap ip bn s = Inr (r, t)" "tx_step p {} s {} t c' L" "itable t = (itable s)(ip := i')"
    "inode_grows sb c i n c' i' r" "L \<subseteq> (if file_blk c i n = 0 then bmap_logs sb i i' r else {})"
proof (cases "n < NDIRECT")
  have ls: "log_size s \<le> 30" using in_txD(8) [OF tx] by simp
  note lh = lh_n_need [OF tx, of i]
  case True
  then have b: "bmap ip bn s = bmap_direct ip n s" "file_blk c i n = i_addrs i n" using n by (simp_all add: bmap_def file_blk_simps)
  have "room 2 1 {} s" if "i_addrs i n = 0" using r ls lh b(2) that by (simp add: room_def)
  then show ?thesis using bmap_direct_grows [OF tx d i c sb f True] that b(1) by metis
next
  have ls: "log_size s \<le> 30" using in_txD(8) [OF tx] by simp
  note lh = lh_n_need [OF tx, of i]
  case False
  then obtain k where k: "n = NDIRECT + k" "k < NINDIRECT" using n(2) file_blk_cases [of n] by (auto simp del: NDIRECT_def)
  then have b: "bmap ip bn s = ebind (bmap_direct ip NDIRECT s) (\<lambda>(addr, s). if addr = 0 then Inr (0, s) else bmap_indirect ip k addr s)"
    using n by (simp add: bmap_def)
  have z: "file_blk c i n = 0" if "i_addrs i NDIRECT = 0" using file_blk_simps(3) [OF k(2)] that k(1) by simp
  have r': "room 2 1 {} s" if "i_addrs (itable s ip) NDIRECT = 0"
    using r ls lh that z i by (simp add: room_def ind_cost_def)
  show ?thesis
  proof (rule bmap_direct_ok [OF tx r' d f(2) [unfolded c sb], where m = NDIRECT])
    assume m: "i_addrs (itable s ip) NDIRECT \<noteq> 0" "bmap_direct ip NDIRECT s = Inr (i_addrs (itable s ip) NDIRECT, s)"
    have "i_addrs i NDIRECT \<noteq> 0" using m(1) i by simp
    moreover have "int (card (logged s \<union> {i_addrs i NDIRECT})) + 3 < log_size s \<and> 1 \<le> outstanding s" if "file_blk c i (NDIRECT + k) = 0"
      using r that k m i by (simp add: log_need_def inds_def ind_cost_def)
    ultimately obtain r t c' L where "bmap_indirect ip k (i_addrs i NDIRECT) s = Inr (r, t)" "tx_step p {} s {} t c' L"
      "itable t = itable s" "inode_grows sb c i (NDIRECT + k) c' i r"
      "L \<subseteq> (if file_blk c i (NDIRECT + k) = 0 then {BBLOCK r sb, r, i_addrs i NDIRECT} else {})"
      using bmap_indirect_ok [OF tx d i c sb f _ k(2) r0] by metis
    then show ?thesis
      using that [of r t c' L i] b m i k(1) by (auto simp: bmap_logs_def inds_def split: if_splits)
  next
    fix t
    assume m: "i_addrs (itable s ip) NDIRECT = 0" "bmap_direct ip NDIRECT s = Inr (0, t)" "itable t = itable s"
      "no_free (sblock s) (contents s) (unat (sb_size (sblock s)))" "tx_step p {} s {} t (contents s) {}"
    have "inode_grows sb c i n c i (file_blk c i n)" by (rule inode_grows_refl) (use f m(4) c sb in auto)
    then show ?thesis using that [of 0 t c "{}" i] m b z i c by simp
  next
    fix x t
    assume m: "i_addrs (itable s ip) NDIRECT = 0" "bmap_direct ip NDIRECT s = Inr (x, t)"
      "itable t = (itable s)(ip := (itable s ip)\<lparr>i_addrs := (i_addrs (itable s ip))(NDIRECT := x)\<rparr>)"
      "x < sb_size (sblock s)" "blk_free (sblock s) (contents s) x"
      "tx_step p {} s {} t (taken (sblock s) x (contents s)) {BBLOCK x (sblock s), x}"
    let ?i = "i\<lparr>i_addrs := (i_addrs i)(NDIRECT := x)\<rparr>"
    note T = tx_stepD [OF m(6)]
    have z0: "i_addrs i NDIRECT = 0" using m(1) i by simp
    have x: "x < sb_size sb" "blk_free sb c x" using m(4,5) c sb by simp_all
    note F = file_ok_new_ind [OF f x z0] and nz = taken_effect(4) [OF f(2) x]
    have cs: "int (card (logged s)) + 5 < log_size s" "1 \<le> outstanding s"
      using r z [OF z0] z0 by (simp_all add: log_need_def inds_def ind_cost_def)
    have "card (logged t \<union> {x}) \<le> card (logged s \<union> {BBLOCK x sb, x})" by (rule card_mono) (use T(12) sb in auto)
    also have "\<dots> \<le> card (logged s) + 2" using card_Un_le [of "logged s" "{BBLOCK x sb, x}"] card_two [of "BBLOCK x sb" x] by linarith
    finally have lg: "int (card (logged t \<union> {x})) + 3 < log_size t \<and> 1 \<le> outstanding t" using cs T(5,14) by simp
    have ax: "i_addrs ?i NDIRECT = x" by simp
    have r1: "room 0 1 {} t" using lg card_logged_Un [OF T(1), of "{x}"] in_txD(8) [OF T(1)] by (simp add: room_def)
    have e: "i_dev (itable t ip) = log_dev t" "?i = itable t ip" "taken sb x c = contents t" "sb = sblock t"
      using m(3) T(2,4,6) i c sb d by simp_all
    obtain r u c' L where u: "bmap_indirect ip k x t = Inr (r, u)" "tx_step p {} t {} u c' L" "itable u = itable t"
      "inode_grows sb (taken sb x c) ?i (NDIRECT + k) c' ?i r"
      "L \<subseteq> (if file_blk (taken sb x c) ?i (NDIRECT + k) = 0 then {BBLOCK r sb, r, x} else {})"
      by (rule bmap_indirect_ok [OF T(1) e F _ k(2) r1, unfolded ax, OF nz lg])
    have st: "tx_step p {} s {} u c' ({BBLOCK x (sblock s), x} \<union> L)" by (rule tx_step_trans [OF m(6) u(2)]) simp
    have g: "inode_grows sb c i n c' ?i r" using inode_grows_new_ind [OF f x k(2) z0 u(4)] k(1) by simp
    have "bmap ip bn s = Inr (r, u)" using b m(2) nz u(1) by simp
    then show ?thesis
      by (rule that [OF _ st _ g])
        (use u(3,5) m(3) i z [OF z0] z0 sb nz in \<open>auto simp: bmap_logs_def inds_def simp del: NDIRECT_def split: if_splits\<close>)
  qed
qed

section \<open>Reading\<close>

definition file_byte :: "(u32 \<Rightarrow> block) \<Rightarrow> inode \<Rightarrow> nat \<Rightarrow> u8" where
  "file_byte c i k = c (file_blk c i (k div BSIZE)) (k mod BSIZE)"

text \<open>The blocks of the bytes from \<open>a\<close> up to \<open>b\<close> are allocated.\<close>

definition filled :: "(u32 \<Rightarrow> block) \<Rightarrow> inode \<Rightarrow> nat \<Rightarrow> nat \<Rightarrow> bool" where
  "filled c i a b \<longleftrightarrow> (\<forall>k. a \<le> k \<and> k < b \<longrightarrow> file_blk c i (k div BSIZE) \<noteq> 0)"

lemma blk_get_file:
  assumes "m \<le> BSIZE - a mod BSIZE"
  shows "blk_get (c (file_blk c i (a div BSIZE))) (a mod BSIZE) m = map (file_byte c i) [a..<a + m]"
proof (rule nth_equalityI)
  fix j assume "j < length (blk_get (c (file_blk c i (a div BSIZE))) (a mod BSIZE) m)"
  then have j: "j < m" by (simp add: blk_get_def)
  have x: "a mod 1024 + j < 1024" using j assms by simp
  have "a + j = a div 1024 * 1024 + (a mod 1024 + j)" by simp
  moreover have "(q * 1024 + x) div 1024 = q" "(q * 1024 + x) mod 1024 = x" if "x < 1024" for q x :: nat using that by simp_all
  ultimately have "(a + j) div 1024 = a div 1024" "(a + j) mod 1024 = a mod 1024 + j" using x by metis+
  then show "blk_get (c (file_blk c i (a div BSIZE))) (a mod BSIZE) m ! j = map (file_byte c i) [a..<a + m] ! j"
    using j by (simp add: blk_get_def file_byte_def)
qed (simp add: blk_get_def)

text \<open>A change of the memory of the machine does not touch the blocks.\<close>

lemma sblock_settled [simp]: "sblock (settled s) = sblock s"
  by (simp add: settled_def set_mycpu_def)

lemma in_tx_mem [simp]: "in_tx p H (s\<lparr>mem := m\<rparr>) = in_tx p H s" "contents (s\<lparr>mem := m\<rparr>) = contents s" "logged (s\<lparr>mem := m\<rparr>) = logged s"
  by (simp_all add: in_tx_def contents_def good_def quiet_def lock_free_def mycpu_def view_def logged_def at_buf_def cong: option.case_cong if_cong)

lemma tx_step_mem: "tx_step p H s H' t c L \<Longrightarrow> tx_step p H (s\<lparr>mem := m\<rparr>) H' (t\<lparr>mem := m\<rparr>) c L"
  by (simp add: tx_step_def tx_frame_def at_buf_def)

lemma settled_step0:
  assumes "in_tx p H s"
  shows "tx_step p H s H (settled s) (contents s) {}"
proof -
  have v: "view d (settled s) = view d s" for d by (simp add: view_def cong: option.case_cong if_cong)
  have g: "good p (log_dev s) (settled s)" using good_settled [OF in_txD(1) [OF assms]] .
  have lg: "logged (settled s) = logged s" by (simp add: logged_def)
  have "in_tx p H (settled s)" using assms g by (simp add: in_tx_def v lg contents_def)
  then show ?thesis
    using assms lg by (simp add: tx_step_def tx_frame_def contents_def v)
qed

lemmas settled_step = tx_step_mem [OF settled_step0]

text \<open>How many bytes a read of \<open>n\<close> bytes at offset \<open>off\<close> gives in a file of \<open>z\<close> bytes.\<close>

definition read_len :: "u32 \<Rightarrow> u32 \<Rightarrow> u32 \<Rightarrow> nat" where
  "read_len z off n = (if unat z < unat off \<or> 2 ^ 32 \<le> unat off + unat n then 0 else min (unat n) (unat z - unat off))"

lemma u32_add_less: "(a :: u32) + b < a \<longleftrightarrow> 2 ^ 32 \<le> unat a + unat b"
proof -
  have l: "unat a < 4294967296" "unat b < 4294967296" by simp_all
  have e: "unat (a + b) = (unat a + unat b) mod 4294967296" by (simp add: unat_word_ariths)
  show ?thesis
  proof (cases "unat a + unat b < 4294967296")
    case True
    then show ?thesis using e by (simp add: word_less_nat_alt)
  next
    case False
    then have "(unat a + unat b) mod 4294967296 = (unat a + unat b - 4294967296) mod 4294967296" by (intro le_mod_geq) linarith
    also have "\<dots> = unat a + unat b - 4294967296" by (rule mod_less) (use l in linarith)
    finally have "unat (a + b) < unat a" using e l False by linarith
    then show ?thesis using False by (simp add: word_less_nat_alt)
  qed
qed

lemma u32_add_nowrap: "unat a + unat b < 2 ^ 32 \<Longrightarrow> unat ((a :: u32) + b) = unat a + unat b"
  by (simp add: unat_word_ariths)

lemma u32_diff: "(b :: u32) \<le> a \<Longrightarrow> unat (a - b) = unat a - unat b"
  by (simp add: unat_sub)

lemma readi_unfold:
  "readi ip dst off n s =
     (if i_size (itable s ip) < off \<or> off + n < off then Inr ((0, []), s)
      else readi_loop ip dst off (read_len (i_size (itable s ip)) off n) 0 s)"
proof (cases "i_size (itable s ip) < off \<or> off + n < off")
  case False
  let ?z = "i_size (itable s ip)"
  have a: "unat off \<le> unat ?z" "unat off + unat n < 2 ^ 32" "off \<le> ?z"
    using False unfolding u32_add_less by (simp_all add: word_less_nat_alt not_less word_le_nat_alt)
  have "unat (if ?z < off + n then ?z - off else n) = read_len ?z off n"
    using a u32_add_nowrap [OF a(2)] u32_diff [OF a(3)] by (simp add: read_len_def word_less_nat_alt)
  then show ?thesis using False by (simp only: readi_def Let_def if_False)
qed (simp add: readi_def Let_def)

text \<open>
  What \<^verbatim>\<open>readi\<close> relies on for the place it copies to: a copy of \<open>bs\<close> at distance \<open>k\<close> succeeds and changes at
  most the memory of the machine, in a way that pieces add up.
\<close>

lemma place_add_simps [simp]: "place_add dst 0 = dst" "place_add (place_add dst k) m = place_add dst (k + m)"
  by (cases dst; simp add: add.assoc)+

locale sink =
  fixes dst :: place and copy :: "nat \<Rightarrow> u8 list \<Rightarrow> 'a fsst_scheme \<Rightarrow> (int \<times> 'a fsst_scheme) res"
    and sput :: "nat \<Rightarrow> u8 list \<Rightarrow> memory \<Rightarrow> memory"
  assumes copy_at: "copy_to (place_add dst k) = copy k"
    and copy_ok: "copy k bs s = Inr (0, (settled s)\<lparr>mem := sput k bs (mem s)\<rparr>)"
    and sput_append: "sput k (bs @ cs) m = sput (k + length bs) cs (sput k bs m)"
    and sput_Nil: "sput k [] m = m"
begin

lemma readi_piece:
  assumes tx: "in_tx p {} s" and d: "i_dev (itable s ip) = log_dev s"
    and i: "i = itable s ip" and c: "c = contents s" and sb: "sb = sblock s"
    and f: "file_ok sb c i" "fs_ok sb c" and n: "unat off div BSIZE < MAXFILE" "file_blk c i (unat off div BSIZE) \<noteq> 0"
    and r0: "room 0 1 {} s" and m: "m \<le> BSIZE - unat off mod BSIZE"
  obtains b s1 s2 s3 t where "bmap ip (off div of_nat BSIZE) s = Inr (file_blk c i (unat off div BSIZE), s1)" "itable s1 = itable s"
    "bread (log_dev s) (file_blk c i (unat off div BSIZE)) s1 = Inr (b, s2)"
    "blk_get (b_data (bufs s2 b)) (unat off mod BSIZE) m = map (file_byte c i) [unat off..<unat off + m]"
    "copy k (map (file_byte c i) [unat off..<unat off + m]) s2 = Inr (0, s3)" "brelse b s3 = Inr t" "itable s2 = itable s"
    "tx_step p {} (s\<lparr>mem := sput k (map (file_byte c i) [unat off..<unat off + m]) (mem s)\<rparr>) {} t c {}" "itable t = itable s"
proof -
  let ?n = "unat off div BSIZE" and ?bs = "map (file_byte c i) [unat off..<unat off + m]"
  let ?x = "file_blk c i ?n" and ?m = "sput k ?bs (mem s)"
  have o: "unat (off div of_nat BSIZE) = ?n" by (simp add: unat_div)
  obtain r s1 c' i' L where s1: "bmap ip (off div of_nat BSIZE) s = Inr (r, s1)" "tx_step p {} s {} s1 c' L"
    "itable s1 = (itable s)(ip := i')" "inode_grows sb c i ?n c' i' r" "L \<subseteq> (if ?x = 0 then bmap_logs sb i i' r else {})"
    by (rule bmap_ok [OF tx d i c sb f o [symmetric] n(1) r0]) (use n(2) in auto)
  then have g: "r = ?x" "c' = c" "i' = i" "L = {}" using n(2) by (auto simp: inode_grows_def)
  note S1 = tx_stepD [OF s1(2)[unfolded g]]
  have r1: "room 0 1 {} s1" using room_after [OF s1(2), of 0 0 1] r0 g(4) by simp
  obtain b s2 where s2: "bread (log_dev s1) ?x s1 = Inr (b, s2)" "tx_step p {} s1 {?x} s2 (contents s1) {}"
    "at_buf (log_dev s1) s2 ?x b" "b_data (bufs s2 b) = contents s1 ?x" "itable s2 = itable s1"
    by (rule bread_step [OF S1(1) _ r1]) auto
  note S2 = tx_stepD [OF s2(2)]
  let ?s3 = "(settled s2)\<lparr>mem := ?m\<rparr>"
  have m2: "mem s2 = mem s" using S2(10) S1(10) by simp
  note s3 = settled_step [OF S2(1), of ?m]
  note S3 = tx_stepD [OF s3]
  have at3: "at_buf (log_dev ?s3) ?s3 ?x b" using s2(3) S2(4) by (simp add: at_buf_def)
  have "?x \<in> logged ?s3 \<or> contents ?s3 ?x = disk ?s3 (log_dev ?s3) ?x" using in_txD(5) [OF S3(1)] by blast
  then obtain t where t: "brelse b ?s3 = Inr t" "tx_step p {?x} ?s3 ({?x} - {?x}) t (contents ?s3) {}" "itable t = itable ?s3"
    by (rule brelse_step [OF S3(1) singletonI at3])
  have "tx_step p {?x} (s2\<lparr>mem := ?m\<rparr>) {} t c ({} \<union> {})" by (rule tx_step_trans [OF s3]) (use t(2) S3(2) S2(2) S1(2) in auto)
  then have "tx_step p {} (s1\<lparr>mem := ?m\<rparr>) {} t c ({} \<union> ({} \<union> {}))" by (rule tx_step_trans [OF tx_step_mem [OF s2(2)]]) auto
  then have st: "tx_step p {} (s\<lparr>mem := ?m\<rparr>) {} t c ({} \<union> ({} \<union> ({} \<union> {})))"
    by (rule tx_step_trans [OF tx_step_mem [OF s1(2) [unfolded g]]]) auto
  show ?thesis
    by (rule that [of s1 b s2 ?s3 t])
      (use s1(1,3) g s2(1,4,5) S1(2,4) m2 blk_get_file [OF m] copy_ok t(1,3) st i in simp_all)
qed

lemma readi_loop_ok:
  fixes s :: "'a fsst_scheme"
  assumes "in_tx p {} s" "i_dev (itable s ip) = log_dev s" "i = itable s ip" "c = contents s" "sb = sblock s"
    "file_ok sb c i" "fs_ok sb c" "room 0 1 {} s" "unat off + rem \<le> MAXFILE * BSIZE" "filled c i (unat off) (unat off + rem)"
  shows "\<exists>t. readi_loop ip (place_add dst k) off rem tot s = Inr ((int (tot + rem), map (file_byte c i) [unat off..<unat off + rem]), t)
    \<and> tx_step p {} (s\<lparr>mem := sput k (map (file_byte c i) [unat off..<unat off + rem]) (mem s)\<rparr>) {} t c {} \<and> itable t = itable s"
  using assms
proof (induction rem arbitrary: off k tot s rule: less_induct)
  case (less rem)
  show ?case
  proof (cases "rem = 0")
    case True
    then show ?thesis using tx_step_refl [OF less(2)] less(5) by (simp add: readi_loop.simps sput_Nil)
  next
    case False
    let ?m = "min rem (BSIZE - unat off mod BSIZE)"
    let ?bs = "map (file_byte c i) [unat off..<unat off + ?m]"
    have n: "unat off div BSIZE < MAXFILE" using less(10) False by simp
    have x: "file_blk c i (unat off div BSIZE) \<noteq> 0" using less(11) False by (simp add: filled_def)
    obtain b s1 s2 s3 t where b: "bmap ip (off div of_nat BSIZE) s = Inr (file_blk c i (unat off div BSIZE), s1)" "itable s1 = itable s"
      "bread (log_dev s) (file_blk c i (unat off div BSIZE)) s1 = Inr (b, s2)"
      "blk_get (b_data (bufs s2 b)) (unat off mod BSIZE) ?m = ?bs"
      "copy k ?bs s2 = Inr (0, s3)" "brelse b s3 = Inr t" "itable s2 = itable s"
      "tx_step p {} (s\<lparr>mem := sput k ?bs (mem s)\<rparr>) {} t c {}" "itable t = itable s"
      by (rule readi_piece [OF less(2-8) n x less(9), of ?m k]) simp
    note T = tx_stepD [OF b(8)]
    let ?off = "off + of_nat ?m" and ?ds = "map (file_byte c i) [unat off + ?m..<unat off + rem]"
    have m: "0 < ?m" "?m \<le> rem" using False by simp_all
    have o: "unat ?off = unat off + ?m"
      using less(10) m(2) by (subst unat_word_ariths(1)) (simp add: unat_of_nat)
    have mt: "mem t = sput k ?bs (mem s)" using T(10) by simp
    have r: "room 0 1 {} t" using room_after [OF b(8), of 0 0 1] less(9) by (simp add: room_def)
    have "\<exists>u. readi_loop ip (place_add dst (k + ?m)) ?off (rem - ?m) (tot + ?m) t = Inr ((int (tot + ?m + (rem - ?m)),
          map (file_byte c i) [unat ?off..<unat ?off + (rem - ?m)]), u)
        \<and> tx_step p {} (t\<lparr>mem := sput (k + ?m) (map (file_byte c i) [unat ?off..<unat ?off + (rem - ?m)]) (mem t)\<rparr>) {} u c {}
        \<and> itable u = itable t"
      by (rule less(1) [OF _ T(1) _ _ _ _ less(7,8) r])
        (use m o b(9) T(2,4,6) less(3-6) less(10,11) in \<open>simp_all add: filled_def\<close>)
    then obtain u where u: "readi_loop ip (place_add dst (k + ?m)) ?off (rem - ?m) (tot + ?m) t = Inr ((int (tot + rem), ?ds), u)"
      "tx_step p {} (t\<lparr>mem := sput (k + ?m) ?ds (mem t)\<rparr>) {} u c {}" "itable u = itable t"
      using m(2) unfolding o by auto
    have ap: "map (file_byte c i) [unat off..<unat off + rem] = ?bs @ ?ds"
      using m(2) upt_add_eq_append [of "unat off" "unat off + ?m" "rem - ?m"] by simp
    have "tx_step p {} (s\<lparr>mem := sput (k + ?m) ?ds (mem t)\<rparr>) {} u c ({} \<union> {})"
      using tx_step_trans [OF tx_step_mem [OF b(8)] u(2)] by simp
    then have st: "tx_step p {} (s\<lparr>mem := sput k (?bs @ ?ds) (mem s)\<rparr>) {} u c {}" by (simp add: sput_append mt)
    have "readi_loop ip (place_add dst k) off rem tot s = Inr ((int (tot + rem), ?bs @ ?ds), u)"
      using False x b(1-7) u(1) less(3) by (subst readi_loop.simps) (simp add: copy_at Let_def min.commute del: BSIZE_def)
    then show ?thesis using st u(3) b(9) ap by simp
  qed
qed

lemma readi_ok:
  fixes s :: "'a fsst_scheme"
  assumes tx: "in_tx p {} s" "i_dev (itable s ip) = log_dev s" "i = itable s ip" "c = contents s" "sb = sblock s"
    "file_ok sb c i" "fs_ok sb c" "room 0 1 {} s" and z: "unat (i_size i) \<le> MAXFILE * BSIZE" "filled c i 0 (unat (i_size i))"
    and l: "len = read_len (i_size i) off n" and b: "bs = map (file_byte c i) [unat off..<unat off + len]"
  shows "\<exists>t. readi ip dst off n s = Inr ((int len, bs), t)
    \<and> tx_step p {} (s\<lparr>mem := sput 0 bs (mem s)\<rparr>) {} t c {} \<and> itable t = itable s"
proof (cases "i_size i < off \<or> off + n < off")
  case True
  then have len: "len = 0" unfolding u32_add_less by (auto simp: l read_len_def word_less_nat_alt)
  have "readi ip dst off n s = Inr ((0, []), s)" using True tx(3) by (simp only: readi_unfold if_True)
  then show ?thesis using tx_step_refl [OF tx(1)] tx(4) len b by (simp add: sput_Nil)
next
  case False
  then have "unat off + len \<le> unat (i_size i) \<or> len = 0" by (auto simp: l read_len_def word_less_nat_alt)
  moreover have "unat off \<le> unat (i_size i)" using False by (simp add: word_less_nat_alt)
  ultimately have k: "unat off + len \<le> unat (i_size i)" by auto
  have "\<exists>t. readi_loop ip (place_add dst 0) off len 0 s = Inr ((int (0 + len), map (file_byte c i) [unat off..<unat off + len]), t)
    \<and> tx_step p {} (s\<lparr>mem := sput 0 (map (file_byte c i) [unat off..<unat off + len]) (mem s)\<rparr>) {} t c {} \<and> itable t = itable s"
    by (rule readi_loop_ok [OF tx]) (use k z in \<open>auto simp: filled_def\<close>)
  then show ?thesis using False tx(3) l b unfolding readi_unfold by auto
qed

end

lemma put_bytes_append: "put_bytes m a (bs @ cs) = put_bytes (put_bytes m a bs) (a + of_nat (length bs)) cs"
  by (induction bs arbitrary: m a) (simp_all add: add.assoc add.commute)

interpretation loc: sink Local "\<lambda>_. copy_to Local" "\<lambda>_ _ m. m"
  by unfold_locales (simp_all add: myproc_eq)

interpretation kern: sink "Kernel a" "\<lambda>k. copy_to (Kernel (a + of_nat k))" "\<lambda>k bs m. put_bytes m (a + of_nat k) bs" for a
  by unfold_locales (simp_all add: either_copyout_def myproc_eq put_bytes_append add.assoc)

end
