(* ===== verification/Filewrite.thy ===== *)
theory Filewrite
  imports Filedata
begin

text \<open>
  Writing to a file inside a transaction: \<^verbatim>\<open>writei\<close> of \<^verbatim>\<open>kernel/fs.c\<close> as the update of an array of bytes,
  and the number of blocks that it logs.
\<close>

section \<open>The bytes of a file after a write\<close>

text \<open>
  The bytes \<open>ds\<close> have been written at offset \<open>a\<close> of the file \<open>i\<close>.  Blocks of the file stay where they are, new blocks were free and
  are zero where nothing has been written, and nothing outside the file changes.
\<close>

definition wrote :: "superblock \<Rightarrow> (u32 \<Rightarrow> block) \<Rightarrow> inode \<Rightarrow> (u32 \<Rightarrow> block) \<Rightarrow> inode \<Rightarrow> nat \<Rightarrow> u8 list \<Rightarrow> bool" where
  "wrote sb c i c' i' a ds \<longleftrightarrow>
     fs_ok sb c' \<and> file_ok sb c' i' \<and> i' = i\<lparr>i_addrs := i_addrs i'\<rparr>
     \<and> (\<forall>n\<le>MAXFILE. file_blk c i n \<noteq> 0 \<longrightarrow> file_blk c' i' n = file_blk c i n)
     \<and> (\<forall>n\<le>MAXFILE. file_blk c' i' n \<noteq> file_blk c i n \<longrightarrow> \<not> in_use sb c (file_blk c' i' n))
     \<and> filled c' i' a (a + length ds)
     \<and> (\<forall>k. k div BSIZE < MAXFILE \<longrightarrow> file_blk c' i' (k div BSIZE) \<noteq> 0 \<longrightarrow> file_byte c' i' k =
          (if a \<le> k \<and> k < a + length ds then ds ! (k - a)
           else if file_blk c i (k div BSIZE) = 0 then 0 else file_byte c i k))
     \<and> (\<forall>b. in_use sb c b \<longrightarrow> in_use sb c' b \<and> ((\<forall>n\<le>MAXFILE. file_blk c i n \<noteq> b) \<longrightarrow> c' b = c b))
     \<and> (\<forall>m < sb_ninodes sb. c' (IBLOCK m sb) = c (IBLOCK m sb))"

lemma wroteD:
  assumes "wrote sb c i c' i' a ds"
  shows "fs_ok sb c'" "file_ok sb c' i'" "i' = i\<lparr>i_addrs := i_addrs i'\<rparr>"
    "n \<le> MAXFILE \<Longrightarrow> file_blk c i n \<noteq> 0 \<Longrightarrow> file_blk c' i' n = file_blk c i n"
    "n \<le> MAXFILE \<Longrightarrow> file_blk c' i' n \<noteq> file_blk c i n \<Longrightarrow> \<not> in_use sb c (file_blk c' i' n)"
    "filled c' i' a (a + length ds)"
    "k div BSIZE < MAXFILE \<Longrightarrow> file_blk c' i' (k div BSIZE) \<noteq> 0 \<Longrightarrow> file_byte c' i' k =
          (if a \<le> k \<and> k < a + length ds then ds ! (k - a)
           else if file_blk c i (k div BSIZE) = 0 then 0 else file_byte c i k)"
    "in_use sb c b \<Longrightarrow> in_use sb c' b"
    "in_use sb c b \<Longrightarrow> (\<And>n. n \<le> MAXFILE \<Longrightarrow> file_blk c i n \<noteq> b) \<Longrightarrow> c' b = c b"
    "m < sb_ninodes sb \<Longrightarrow> c' (IBLOCK m sb) = c (IBLOCK m sb)"
proof -
  note w = assms [unfolded wrote_def]
  show "fs_ok sb c'" "file_ok sb c' i'" "i' = i\<lparr>i_addrs := i_addrs i'\<rparr>" "filled c' i' a (a + length ds)"
    using w by blast+
  show "n \<le> MAXFILE \<Longrightarrow> file_blk c i n \<noteq> 0 \<Longrightarrow> file_blk c' i' n = file_blk c i n"
    "n \<le> MAXFILE \<Longrightarrow> file_blk c' i' n \<noteq> file_blk c i n \<Longrightarrow> \<not> in_use sb c (file_blk c' i' n)"
    "in_use sb c b \<Longrightarrow> in_use sb c' b"
    "in_use sb c b \<Longrightarrow> (\<And>n. n \<le> MAXFILE \<Longrightarrow> file_blk c i n \<noteq> b) \<Longrightarrow> c' b = c b"
    "m < sb_ninodes sb \<Longrightarrow> c' (IBLOCK m sb) = c (IBLOCK m sb)"
    using w by blast+
  show "k div BSIZE < MAXFILE \<Longrightarrow> file_blk c' i' (k div BSIZE) \<noteq> 0 \<Longrightarrow> file_byte c' i' k =
          (if a \<le> k \<and> k < a + length ds then ds ! (k - a)
           else if file_blk c i (k div BSIZE) = 0 then 0 else file_byte c i k)"
    using w by blast
qed

lemma wrote_refl: "fs_ok sb c \<Longrightarrow> file_ok sb c i \<Longrightarrow> wrote sb c i c i a []"
  by (auto simp: wrote_def filled_def)

lemma inode_growsD:
  assumes "inode_grows sb c i n c' i' r"
  shows "fs_ok sb c'" "file_ok sb c' i'" "i' = i\<lparr>i_addrs := i_addrs i'\<rparr>" "r = file_blk c' i' n"
    "m < MAXFILE \<Longrightarrow> m \<noteq> n \<Longrightarrow> file_blk c' i' m = file_blk c i m"
    "file_blk c i n \<noteq> 0 \<Longrightarrow> r = file_blk c i n \<and> c' = c \<and> i' = i"
    "file_blk c i n = 0 \<Longrightarrow> r \<noteq> 0 \<Longrightarrow> c' r = (\<lambda>_. 0)"
    "m \<le> MAXFILE \<Longrightarrow> file_blk c' i' m \<noteq> file_blk c i m \<Longrightarrow> blk_free sb c (file_blk c' i' m)"
    "in_use sb c b \<Longrightarrow> in_use sb c' b" "in_use sb c b \<Longrightarrow> b \<noteq> i_addrs i NDIRECT \<Longrightarrow> c' b = c b"
    "inum < sb_ninodes sb \<Longrightarrow> c' (IBLOCK inum sb) = c (IBLOCK inum sb)"
    "i_addrs i NDIRECT \<noteq> 0 \<Longrightarrow> i_addrs i' NDIRECT = i_addrs i NDIRECT"
    "r = 0 \<Longrightarrow> no_free sb c' (unat (sb_size sb))"
proof -
  note g = assms [unfolded inode_grows_def]
  show "fs_ok sb c'" "file_ok sb c' i'" "i' = i\<lparr>i_addrs := i_addrs i'\<rparr>" "r = file_blk c' i' n" using g by blast+
  show "m < MAXFILE \<Longrightarrow> m \<noteq> n \<Longrightarrow> file_blk c' i' m = file_blk c i m"
    "file_blk c i n \<noteq> 0 \<Longrightarrow> r = file_blk c i n \<and> c' = c \<and> i' = i"
    "file_blk c i n = 0 \<Longrightarrow> r \<noteq> 0 \<Longrightarrow> c' r = (\<lambda>_. 0)"
    "m \<le> MAXFILE \<Longrightarrow> file_blk c' i' m \<noteq> file_blk c i m \<Longrightarrow> blk_free sb c (file_blk c' i' m)"
    using g by blast+
  show "in_use sb c b \<Longrightarrow> in_use sb c' b" "in_use sb c b \<Longrightarrow> b \<noteq> i_addrs i NDIRECT \<Longrightarrow> c' b = c b"
    "inum < sb_ninodes sb \<Longrightarrow> c' (IBLOCK inum sb) = c (IBLOCK inum sb)"
    "i_addrs i NDIRECT \<noteq> 0 \<Longrightarrow> i_addrs i' NDIRECT = i_addrs i NDIRECT"
    "r = 0 \<Longrightarrow> no_free sb c' (unat (sb_size sb))"
    using g by blast+
qed

lemma inode_grows_keeps:
  assumes "inode_grows sb c i n c' i' r" "m \<le> MAXFILE" "file_blk c i m \<noteq> 0"
  shows "file_blk c' i' m = file_blk c i m"
proof -
  note G = inode_growsD [OF assms(1)]
  consider "m = MAXFILE" | "m < MAXFILE" "m \<noteq> n" | "m = n" using assms(2) by linarith
  then show ?thesis
    by cases (use assms(3) G(4-6,12) in \<open>auto simp: file_blk_simps(2) simp del: MAXFILE_def\<close>)
qed

text \<open>New contents for the block \<open>r\<close> of a file.\<close>

lemma put_block:
  assumes f: "file_ok sb c i" "fs_ok sb c" and r: "r = file_blk c i n" "r \<noteq> 0" "n < MAXFILE"
  shows "m \<le> MAXFILE \<Longrightarrow> file_blk (c(r := x)) i m = file_blk c i m" "file_ok sb (c(r := x)) i" "fs_ok sb (c(r := x))"
    "in_use sb (c(r := x)) b \<longleftrightarrow> in_use sb c b" "inum < sb_ninodes sb \<Longrightarrow> (c(r := x)) (IBLOCK inum sb) = c (IBLOCK inum sb)"
proof -
  have u: "in_use sb c r" using file_okD(1) [OF f(1), of n] r by simp
  have "i_addrs i NDIRECT \<noteq> r"
    using file_okD(2) [OF f(1), of MAXFILE n] r by (auto simp: file_blk_simps(2) simp del: MAXFILE_def)
  then have b: "file_blk (c(r := x)) i m = file_blk c i m" for m by (simp add: file_blk_def)
  then show "file_blk (c(r := x)) i m = file_blk c i m" .
  have fr: "blk_free sb (c(r := x)) b = blk_free sb c b" if "b < sb_size sb" for b
    using u that by (auto simp: blk_free_def in_use_def meta_def)
  then show "fs_ok sb (c(r := x))" using f(2) by (auto simp: fs_ok_def)
  have iu: "in_use sb (c(r := x)) b \<longleftrightarrow> in_use sb c b" for b using fr by (auto simp: in_use_def)
  then show "in_use sb (c(r := x)) b \<longleftrightarrow> in_use sb c b" .
  show "file_ok sb (c(r := x)) i" using f(1) by (simp only: file_ok_def b iu)
  show "inum < sb_ninodes sb \<Longrightarrow> (c(r := x)) (IBLOCK inum sb) = c (IBLOCK inum sb)"
    using u by (auto simp: in_use_def meta_def)
qed

lemma piece_index:
  assumes "length ds \<le> BSIZE - a mod BSIZE"
  shows "k div BSIZE = a div BSIZE \<Longrightarrow> a mod BSIZE \<le> k mod BSIZE \<and> k mod BSIZE < a mod BSIZE + length ds \<longleftrightarrow> a \<le> k \<and> k < a + length ds"
    "k div BSIZE = a div BSIZE \<Longrightarrow> k mod BSIZE - a mod BSIZE = k - a"
    "a \<le> k \<Longrightarrow> k < a + length ds \<Longrightarrow> k div BSIZE = a div BSIZE"
proof -
  have a: "a = a div 1024 * 1024 + a mod 1024" and k: "k = k div 1024 * 1024 + k mod 1024" by simp_all
  show "a mod BSIZE \<le> k mod BSIZE \<and> k mod BSIZE < a mod BSIZE + length ds \<longleftrightarrow> a \<le> k \<and> k < a + length ds"
    "k mod BSIZE - a mod BSIZE = k - a" if "k div BSIZE = a div BSIZE"
    using a k that unfolding BSIZE_def by linarith+
  assume "a \<le> k" "k < a + length ds"
  then obtain j where j: "k = a + j" "j < length ds" using le_Suc_ex by auto
  then have x: "a mod 1024 + j < 1024" using assms by simp
  have "k = a div 1024 * 1024 + (a mod 1024 + j)" using j(1) a by linarith
  moreover have "(q * 1024 + x) div 1024 = q" if "x < 1024" for q x :: nat using that by simp
  ultimately show "k div BSIZE = a div BSIZE" using x unfolding BSIZE_def by metis
qed

lemma wrote_piece:
  assumes f: "file_ok sb c i" and g: "inode_grows sb c i n c' i' r" and r: "r \<noteq> 0" "n = a div BSIZE" "n < MAXFILE"
    and l: "length ds \<le> BSIZE - a mod BSIZE" and e: "e = c'(r := blk_put (c' r) (a mod BSIZE) ds)"
  shows "wrote sb c i e i' a ds"
proof -
  note G = inode_growsD [OF g]
  note P = put_block [OF G(2,1,4) r(1,3), where x = "blk_put (c' r) (a mod BSIZE) ds", folded e]
  have old: "e b = c b" if "in_use sb c b" "\<And>n. n \<le> MAXFILE \<Longrightarrow> file_blk c i n \<noteq> b" for b
  proof -
    have "b \<noteq> i_addrs i NDIRECT" using that(2) [of MAXFILE] by (simp add: file_blk_simps(2) del: MAXFILE_def)
    moreover have "b \<noteq> r" using that(1) that(2) [of n] G(4) G(8) [of n] r(3) by (auto simp: in_use_def simp del: MAXFILE_def)
    ultimately show ?thesis using G(10) that(1) e by simp
  qed
  have byte: "file_byte e i' k = (if a \<le> k \<and> k < a + length ds then ds ! (k - a)
      else if file_blk c i (k div BSIZE) = 0 then 0 else file_byte c i k)"
    if k: "k div BSIZE < MAXFILE" "file_blk e i' (k div BSIZE) \<noteq> 0" for k
  proof (cases "k div BSIZE = n")
    case True
    have "file_byte e i' k = (if a \<le> k \<and> k < a + length ds then ds ! (k - a) else c' r (k mod BSIZE))"
      using True P(1) [of n] G(4) r(2,3) piece_index(1,2) [OF l, of k] by (simp add: file_byte_def e blk_put_def del: BSIZE_def)
    then show ?thesis using G(6,7) r(1) True by (auto simp: file_byte_def)
  next
    case False
    have b: "file_blk e i' (k div BSIZE) = file_blk c i (k div BSIZE)" using P(1) [of "k div BSIZE"] G(5) k(1) False by simp
    let ?x = "file_blk c i (k div BSIZE)"
    have x: "in_use sb c ?x" using file_okD(1) [OF f, of "k div BSIZE"] k b by simp
    have "?x \<noteq> r" using file_okD(2) [OF P(2), of "k div BSIZE" n] P(1) [of n] G(4) k b r(3) False by auto
    moreover have "?x \<noteq> i_addrs i NDIRECT"
      using file_okD(2) [OF f, of "k div BSIZE" MAXFILE] k b by (auto simp: file_blk_simps(2) simp del: MAXFILE_def)
    moreover have "\<not> (a \<le> k \<and> k < a + length ds)" using piece_index(3) [OF l, of k] False r(2) by auto
    ultimately show ?thesis using G(10) [OF x] k b by (auto simp: file_byte_def e)
  qed
  have "filled e i' a (a + length ds)"
    using piece_index(3) [OF l] P(1) [of n] G(4) r by (auto simp: filled_def simp del: BSIZE_def)
  then show ?thesis
    unfolding wrote_def
    using P(1-5) G(3,9,11) G(8) inode_grows_keeps [OF g] old byte by (auto simp: in_use_def simp del: MAXFILE_def BSIZE_def)
qed

lemma wrote_trans:
  assumes w1: "wrote sb c i c1 i1 a ds" and w2: "wrote sb c1 i1 c2 i2 (a + length ds) es"
    and l: "a + length ds + length es \<le> MAXFILE * BSIZE"
  shows "wrote sb c i c2 i2 a (ds @ es)"
proof -
  note W1 = wroteD [OF w1] and W2 = wroteD [OF w2]
  have i: "i2 = i\<lparr>i_addrs := i_addrs i2\<rparr>"
  proof -
    have "i2 = i1\<lparr>i_addrs := i_addrs i2\<rparr>" by (rule W2(3))
    also have "\<dots> = (i\<lparr>i_addrs := i_addrs i1\<rparr>)\<lparr>i_addrs := i_addrs i2\<rparr>" using W1(3) by (rule arg_cong)
    finally show ?thesis by simp
  qed
  have k1: "file_blk c2 i2 n = file_blk c i n" if "n \<le> MAXFILE" "file_blk c i n \<noteq> 0" for n
    using W1(4) [OF that] W2(4) [OF that(1)] that(2) by simp
  have k2: "\<not> in_use sb c (file_blk c2 i2 n)" if "n \<le> MAXFILE" "file_blk c2 i2 n \<noteq> file_blk c i n" for n
    using W1(5) [OF that(1)] W2(5) [OF that(1)] W1(8) that(2) by (cases "file_blk c2 i2 n = file_blk c1 i1 n") auto
  have lt: "k div BSIZE < MAXFILE" if "k < a + length ds + length es" for k
    using that l by (simp add: less_mult_imp_div_less)
  have fl: "filled c2 i2 a (a + length (ds @ es))"
    unfolding filled_def
  proof (intro allI impI)
    fix k assume k: "a \<le> k \<and> k < a + length (ds @ es)"
    show "file_blk c2 i2 (k div BSIZE) \<noteq> 0"
    proof (cases "k < a + length ds")
      case True
      then have "file_blk c1 i1 (k div BSIZE) \<noteq> 0" using W1(6) k unfolding filled_def by blast
      then show ?thesis using W2(4) [of "k div BSIZE"] lt [of k] k by (simp del: BSIZE_def MAXFILE_def)
    next
      case False
      then show ?thesis using W2(6) k unfolding filled_def by auto
    qed
  qed
  have byte: "file_byte c2 i2 k = (if a \<le> k \<and> k < a + length (ds @ es) then (ds @ es) ! (k - a)
      else if file_blk c i (k div BSIZE) = 0 then 0 else file_byte c i k)"
    if k: "k div BSIZE < MAXFILE" "file_blk c2 i2 (k div BSIZE) \<noteq> 0" for k
  proof -
    consider "a + length ds \<le> k" "k < a + length ds + length es" | "\<not> (a + length ds \<le> k \<and> k < a + length ds + length es)" "file_blk c1 i1 (k div BSIZE) = 0"
      | "\<not> (a + length ds \<le> k \<and> k < a + length ds + length es)" "file_blk c1 i1 (k div BSIZE) \<noteq> 0" by blast
    then show ?thesis
    proof cases
      case 1
      then have "\<not> k - a < length ds" "k - a - length ds = k - (a + length ds)" by linarith+
      then show ?thesis using 1 W2(7) [OF k] by (simp add: nth_append del: BSIZE_def)
    next
      case 2
      then have "\<not> (a \<le> k \<and> k < a + length ds)" using W1(6) by (auto simp: filled_def)
      moreover have "file_blk c i (k div BSIZE) = 0" using W1(4) [of "k div BSIZE"] 2(2) k(1) by auto
      ultimately show ?thesis using W2(7) [OF k] 2 by (auto simp del: BSIZE_def)
    next
      case 3
      then show ?thesis using W2(7) [OF k] W1(7) [OF k(1)] by (auto simp: nth_append simp del: BSIZE_def)
    qed
  qed
  have fr: "c2 b = c b" if "in_use sb c b" "\<And>n. n \<le> MAXFILE \<Longrightarrow> file_blk c i n \<noteq> b" for b
  proof -
    have "file_blk c1 i1 n \<noteq> b" if "n \<le> MAXFILE" for n
      using W1(5) [OF that] \<open>in_use sb c b\<close> \<open>\<And>n. n \<le> MAXFILE \<Longrightarrow> file_blk c i n \<noteq> b\<close> [OF that] by auto
    then show ?thesis using W1(8,9) W2(9) that by metis
  qed
  show ?thesis
    unfolding wrote_def using W2(1,2) i k1 k2 fl byte fr W1(8,10) W2(8,10) by (auto simp del: MAXFILE_def BSIZE_def)
qed

text \<open>When the disk is full, \<^verbatim>\<open>bmap\<close> may have allocated a block of indirect addresses, without effect on the file.\<close>

lemma wrote_full:
  assumes f: "file_ok sb c i" and g: "inode_grows sb c i n c' i' 0" and n: "n < MAXFILE"
  shows "wrote sb c i c' i' a []"
proof -
  note G = inode_growsD [OF g]
  have z: "file_blk c i n = 0" "file_blk c' i' n = 0" using G(4,6) by auto
  have b: "file_blk c' i' m = file_blk c i m" if "m < MAXFILE" for m using G(5) [OF that] z by (cases "m = n") auto
  have byte: "file_byte c' i' k = (if file_blk c i (k div BSIZE) = 0 then 0 else file_byte c i k)"
    if k: "k div BSIZE < MAXFILE" "file_blk c' i' (k div BSIZE) \<noteq> 0" for k
  proof -
    let ?x = "file_blk c i (k div BSIZE)"
    have x: "in_use sb c ?x" using file_okD(1) [OF f, of "k div BSIZE"] k b by simp
    moreover have "?x \<noteq> i_addrs i NDIRECT"
      using file_okD(2) [OF f, of "k div BSIZE" MAXFILE] k b by (auto simp: file_blk_simps(2) simp del: MAXFILE_def)
    ultimately show ?thesis using G(10) k b by (simp add: file_byte_def)
  qed
  have "c' b = c b" if "in_use sb c b" "\<And>n. n \<le> MAXFILE \<Longrightarrow> file_blk c i n \<noteq> b" for b
    using G(10) [OF that(1)] that(2) [of MAXFILE] by (simp add: file_blk_simps(2) del: MAXFILE_def)
  then show ?thesis
    unfolding wrote_def using G(1,2,3,8,9,11) inode_grows_keeps [OF g] byte
    by (auto simp: filled_def in_use_def simp del: MAXFILE_def BSIZE_def)
qed

section \<open>Room in the log\<close>

text \<open>The blocks of a file that a range of bytes touches, and what they cost.\<close>

definition blk_span :: "nat \<Rightarrow> nat \<Rightarrow> nat list" where
  "blk_span a n = (if n = 0 then [] else [a div BSIZE..<Suc ((a + n - 1) div BSIZE)])"

definition span_cost :: "(u32 \<Rightarrow> block) \<Rightarrow> inode \<Rightarrow> nat \<Rightarrow> nat \<Rightarrow> nat" where
  "span_cost c i a n = sum_list (map (blk_cost c i) (blk_span a n))"

lemma span_step:
  assumes "0 < n" "m = min n (BSIZE - a mod BSIZE)"
  shows "blk_span a n = a div BSIZE # blk_span (a + m) (n - m)"
proof -
  have a: "a = a div 1024 * 1024 + a mod 1024" by simp
  have d: "(q * 1024 + x) div 1024 = q" if "x < 1024" for q x :: nat using that by simp
  have low: "a div 1024 \<le> (a + n - 1) div 1024" by (rule div_le_mono) (use assms(1) in linarith)
  show ?thesis
  proof (cases "m = n")
    case True
    have "a + n - 1 = a div 1024 * 1024 + (a mod 1024 + n - 1)" "a mod 1024 + n - 1 < 1024"
      using assms True a unfolding BSIZE_def by linarith+
    then have "(a + n - 1) div 1024 = a div 1024" using d by metis
    then show ?thesis using assms(1) True by (simp add: blk_span_def)
  next
    case False
    then have m: "m = 1024 - a mod 1024" "m < n" using assms unfolding BSIZE_def by linarith+
    have "a mod 1024 < 1024" by simp
    then have "a + m = a div 1024 * 1024 + 1024" using m(1) a by linarith
    then have "(a + m) div 1024 = Suc (a div 1024)" by simp
    moreover have "a + m + (n - m) - 1 = a + n - 1" using m by linarith
    ultimately show ?thesis using assms(1) m(2) low by (simp add: blk_span_def upt_conv_Cons)
  qed
qed

lemma log_need_step:
  assumes g: "inode_grows sb c i n c' i' r" and L: "logged t \<subseteq> logged s \<union> (if file_blk c i n = 0 then bmap_logs sb i i' r else {r})"
  shows "log_need i' t \<le> log_need i s + blk_cost c i n"
proof -
  note G = inode_growsD [OF g]
  let ?U = "logged s \<union> inds i"
  have fin: "finite ?U" by simp
  show ?thesis
  proof (cases "file_blk c i n = 0")
    case False
    then have "logged t \<union> inds i' \<subseteq> ?U \<union> {r}" using L G(6) by auto
    then have "card (logged t \<union> inds i') \<le> card (?U \<union> {r})" by (rule card_mono [rotated]) simp
    also have "\<dots> \<le> card ?U + 1" using card_Un_le [of ?U "{r}"] by simp
    finally show ?thesis using G(6) False by (simp add: log_need_def blk_cost_def)
  next
    case True
    consider "i_addrs i NDIRECT \<noteq> 0" | "i_addrs i NDIRECT = 0" "i_addrs i' NDIRECT = 0"
      | "i_addrs i NDIRECT = 0" "i_addrs i' NDIRECT \<noteq> 0" by blast
    then show ?thesis
    proof cases
      case 3
      let ?d = "i_addrs i' NDIRECT"
      have "logged t \<union> inds i' \<subseteq> logged s \<union> ({BBLOCK r sb, r} \<union> {BBLOCK ?d sb, ?d})"
        using L True 3 by (auto simp: bmap_logs_def inds_def)
      then have "card (logged t \<union> inds i') \<le> card (logged s \<union> ({BBLOCK r sb, r} \<union> {BBLOCK ?d sb, ?d}))"
        by (rule card_mono [rotated]) simp
      also have "\<dots> \<le> card (logged s) + (2 + 2)"
        using card_Un_le [of "logged s" "{BBLOCK r sb, r} \<union> {BBLOCK ?d sb, ?d}"] card_Un_le [of "{BBLOCK r sb, r}" "{BBLOCK ?d sb, ?d}"]
          card_two [of "BBLOCK r sb" r] card_two [of "BBLOCK ?d sb" ?d] by linarith
      finally show ?thesis using True 3 by (simp add: log_need_def blk_cost_def ind_cost_def inds_def)
    qed (use card_mono [of "?U \<union> {BBLOCK r sb, r}" "logged t \<union> inds i'"] card_Un_le [of ?U "{BBLOCK r sb, r}"]
        card_two [of "BBLOCK r sb" r] L True G(12) in \<open>auto simp: log_need_def blk_cost_def ind_cost_def inds_def bmap_logs_def\<close>)
  qed
qed

section \<open>The loop\<close>

text \<open>
  What \<^verbatim>\<open>writei\<close> relies on for the place it copies from: in a state that is ready for it, at distance \<open>k\<close> it finds the bytes
  of \<open>ds\<close> from \<open>k\<close> on, and the steps of a transaction keep the state ready.
\<close>

locale source =
  fixes src :: place and bs :: "u8 list" and p :: nat and ready :: "'a fsst_scheme \<Rightarrow> bool" and ds :: "u8 list"
    and fetch :: "nat \<Rightarrow> nat \<Rightarrow> 'a fsst_scheme \<Rightarrow> ((int \<times> u8 list) \<times> 'a fsst_scheme) res"
  assumes fetch_at: "copy_from (place_add src k) (drop k bs) = fetch k"
    and ready_step: "ready s \<Longrightarrow> tx_step p H s H' t c L \<Longrightarrow> ready t"
    and fetch_ok: "ready s \<Longrightarrow> k + m \<le> length ds \<Longrightarrow> fetch k m s = Inr ((0, take m (drop k ds)), settled s)"
begin

lemma writei_piece:
  fixes s :: "'a fsst_scheme"
  assumes tx: "in_tx p {} s" and d: "i_dev (itable s ip) = log_dev s"
    and i: "i = itable s ip" and c: "c = contents s" and sb: "sb = sblock s"
    and f: "file_ok sb c i" "fs_ok sb c" and n: "n = unat off div BSIZE" "n < MAXFILE"
    and r: "int (log_need i s + blk_cost c i n) + 1 < log_size s" "1 \<le> outstanding s" and M: "ready s"
    and m: "m \<le> BSIZE - unat off mod BSIZE" "k + m \<le> length ds"
  obtains
    (full) t c' i' where "bmap ip (off div of_nat BSIZE) s = Inr (0, t)" "itable t = (itable s)(ip := i')"
      "contents t = c'" "inode_grows sb c i n c' i' 0" "tx_step p {} s {} t c' (logged t)" "log_need i' t \<le> log_need i s + blk_cost c i n"
  | (put) x s1 b s2 s3 s4 t c' i' where "x \<noteq> 0" "bmap ip (off div of_nat BSIZE) s = Inr (x, s1)" "i_dev (itable s1 ip) = log_dev s"
      "bread (log_dev s) x s1 = Inr (b, s2)" "fetch k m s2 = Inr ((0, take m (drop k ds)), s3)"
      "log_write b (set_data b (blk_put (b_data (bufs s3 b)) (unat off mod BSIZE) (take m (drop k ds))) s3) = Inr s4"
      "brelse b s4 = Inr t" "itable t = (itable s)(ip := i')" "tx_step p {} s {} t c' (logged t)"
      "wrote sb c i c' i' (unat off) (take m (drop k ds))" "log_need i' t \<le> log_need i s + blk_cost c i n"
      "\<And>j. j < MAXFILE \<Longrightarrow> j \<noteq> n \<Longrightarrow> file_blk c' i' j = file_blk c i j"
proof -
  have o: "n = unat (off div of_nat BSIZE)" using n(1) by (simp add: unat_div)
  have ls: "log_size s \<le> 30" using in_txD(8) [OF tx] by simp
  note lh = lh_n_need [OF tx, of i]
  have pos: "1 \<le> blk_cost c i n" by (simp add: blk_cost_def)
  have r0: "room 0 1 {} s" using r(1) ls lh pos by (simp add: room_def)
  have need: "int (log_need i s) + 3 < log_size s \<and> 1 \<le> outstanding s" if "file_blk c i n = 0"
    using r that by (simp add: blk_cost_def)
  obtain x s1 c1 i' L where s1: "bmap ip (off div of_nat BSIZE) s = Inr (x, s1)" "tx_step p {} s {} s1 c1 L"
    "itable s1 = (itable s)(ip := i')" "inode_grows sb c i n c1 i' x" "L \<subseteq> (if file_blk c i n = 0 then bmap_logs sb i i' x else {})"
    by (rule bmap_ok [OF tx d i c sb f o n(2) r0 need])
  note S1 = tx_stepD [OF s1(2)] and G = inode_growsD [OF s1(4)]
  show ?thesis
  proof (cases "x = 0")
    case True
    have "log_need i' s1 \<le> log_need i s + blk_cost c i n"
      by (rule log_need_step [OF s1(4)]) (use S1(12) s1(5) in \<open>auto split: if_splits\<close>)
    moreover have "tx_step p {} s {} s1 c1 (logged s1)" using s1(2) by (auto simp: tx_step_def)
    ultimately show ?thesis using full s1(1,3,4) S1(2) True by simp
  next
    case False
    let ?ds = "take m (drop k ds)"
    let ?a = "blk_put (c1 x) (unat off mod BSIZE) ?ds"
    have "log_need i' s1 \<le> log_need i s + blk_cost c i n"
      by (rule log_need_step [OF s1(4)]) (use S1(12) s1(5) in \<open>auto split: if_splits\<close>)
    then have lh1: "lh_n s1 + 1 < log_size s1" using lh_n_need [OF S1(1), of i'] r(1) S1(5) by linarith
    then have r1: "room 0 1 {} s1" using ls S1(5) by (simp add: room_def)
    obtain b s2 where s2: "bread (log_dev s1) x s1 = Inr (b, s2)" "tx_step p {} s1 {x} s2 (contents s1) {}"
      "at_buf (log_dev s1) s2 x b" "b_data (bufs s2 b) = contents s1 x" "itable s2 = itable s1"
      by (rule bread_step [OF S1(1) _ r1]) auto
    note S2 = tx_stepD [OF s2(2)]
    have fe: "fetch k m s2 = Inr ((0, ?ds), settled s2)" by (rule fetch_ok [OF ready_step [OF ready_step [OF M s1(2)] s2(2)] m(2)])
    let ?s3 = "settled s2"
    note s3 = settled_step0 [OF S2(1)]
    note S3 = tx_stepD [OF s3]
    have at3: "at_buf (log_dev ?s3) ?s3 x b" using s2(3) S2(4) by simp
    have dat: "b_data (bufs ?s3 b) = c1 x" using s2(4) S1(2) by simp
    have "room 1 0 {x} ?s3" using lh1 S2(3,5,14) S3(3,5,14) r(2) S1(5,14) ls by (simp add: room_def)
    then obtain s4 where s4: "log_write b (set_data b ?a ?s3) = Inr s4" "tx_step p {x} ?s3 {x} s4 ((contents ?s3)(x := ?a)) {x}"
      "x \<in> logged s4" "itable s4 = itable ?s3"
      by (rule put_step [OF S3(1) singletonI at3])
    note S4 = tx_stepD [OF s4(2)]
    have at4: "at_buf (log_dev s4) s4 x b" using S4(9) [of x b] S4(4) at3 by simp
    obtain t where t: "brelse b s4 = Inr t" "tx_step p {x} s4 ({x} - {x}) t (contents s4) {}" "itable t = itable s4"
      by (rule brelse_step [OF S4(1) singletonI at4 disjI1 [OF s4(3)]])
    let ?c = "c1(x := ?a)"
    have c4: "contents s4 = ?c" using S4(2) S3(2) S2(2) S1(2) by simp
    have "tx_step p {x} ?s3 {} t ?c ({x} \<union> {})" by (rule tx_step_trans [OF s4(2)]) (use t(2) c4 in auto)
    then have "tx_step p {x} s2 {} t ?c ({} \<union> ({x} \<union> {}))" by (rule tx_step_trans [OF s3]) auto
    then have "tx_step p {} s1 {} t ?c ({} \<union> ({} \<union> ({x} \<union> {})))" by (rule tx_step_trans [OF s2(2)]) auto
    then have st: "tx_step p {} s {} t ?c (L \<union> ({} \<union> ({} \<union> ({x} \<union> {}))))" by (rule tx_step_trans [OF s1(2)]) auto
    have fin: "log_need i' t \<le> log_need i s + blk_cost c i n"
      by (rule log_need_step [OF s1(4)])
        (use tx_stepD(12) [OF st] s1(5) in \<open>auto simp: bmap_logs_def split: if_splits\<close>)
    have w: "wrote sb c i ?c i' (unat off) ?ds" by (rule wrote_piece [OF f(1) s1(4) False n _ refl]) (use m(1) in simp)
    have b': "file_blk ?c i' j = file_blk c i j" if "j < MAXFILE" "j \<noteq> n" for j
      using put_block(1) [OF G(2,1,4) False n(2), of j ?a] G(5) that by simp
    have st': "tx_step p {} s {} t ?c (logged t)" using st by (auto simp: tx_step_def)
    have "i_dev i' = i_dev i" by (subst G(3)) simp
    then show ?thesis
      by (intro put [OF False s1(1) _ _ fe _ t(1) _ st' w fin b'])
        (use s1(3) s2(1,5) s4 t(3) S1(4) dat d G(3) i in simp_all)
  qed
qed

lemma span_cost_step:
  assumes "0 < rem" "m = min rem (BSIZE - a mod BSIZE)" "a + rem \<le> MAXFILE * BSIZE"
    and "\<And>j. j < MAXFILE \<Longrightarrow> j \<noteq> a div BSIZE \<Longrightarrow> file_blk c' i' j = file_blk c i j"
  shows "span_cost c i a rem = blk_cost c i (a div BSIZE) + span_cost c' i' (a + m) (rem - m)"
proof -
  have "blk_cost c' i' j = blk_cost c i j" if "j \<in> set (blk_span (a + m) (rem - m))" for j
  proof -
    note e = span_step [OF assms(1,2)]
    have d: "distinct (blk_span a rem)" by (simp add: blk_span_def)
    have j: "j \<in> set (blk_span a rem)" using that unfolding e by simp
    have "j \<noteq> a div BSIZE" using d that unfolding e by auto
    moreover have "j \<le> (a + rem - 1) div BSIZE" using j assms(1) by (auto simp: blk_span_def)
    moreover have "(a + rem - 1) div BSIZE < MAXFILE" using assms(1,3) by (simp add: less_mult_imp_div_less)
    ultimately have "j < MAXFILE \<and> j \<noteq> a div BSIZE" by linarith
    then show ?thesis using assms(4) [of j] by (simp add: blk_cost_def)
  qed
  then have e: "map (blk_cost c' i') (blk_span (a + m) (rem - m)) = map (blk_cost c i) (blk_span (a + m) (rem - m))" by simp
  show ?thesis unfolding span_cost_def e span_step [OF assms(1,2)] by (simp del: BSIZE_def)
qed

lemma writei_loop_ok:
  fixes s :: "'a fsst_scheme"
  assumes "in_tx p {} s" "i_dev (itable s ip) = log_dev s" "i = itable s ip" "c = contents s" "sb = sblock s"
    "file_ok sb c i" "fs_ok sb c" "int (log_need i s + span_cost c i (unat off) rem) + 1 < log_size s" "1 \<le> outstanding s"
    "ready s" "k + rem \<le> length ds" "unat off + rem \<le> MAXFILE * BSIZE"
  shows "\<exists>w t c' i'. writei_loop ip (place_add src k) (drop k bs) off rem tot s = Inr ((tot + w, off + of_nat w), t) \<and> w \<le> rem
    \<and> (w < rem \<longrightarrow> no_free sb c' (unat (sb_size sb))) \<and> wrote sb c i c' i' (unat off) (take w (drop k ds))
    \<and> itable t = (itable s)(ip := i') \<and> tx_step p {} s {} t c' (logged t)
    \<and> log_need i' t \<le> log_need i s + span_cost c i (unat off) rem"
  using assms
proof (induction rem arbitrary: off k tot s i c rule: less_induct)
  case (less rem)
  show ?case
  proof (cases "rem = 0")
    case True
    have "wrote sb c i c i (unat off) (take 0 (drop k ds))" using wrote_refl [OF less(8,7)] by simp
    moreover have "tx_step p {} s {} s c (logged s)" using less(2,5) by (auto simp: tx_step_def tx_frame_def)
    ultimately show ?thesis using True less(4)
      by (intro exI [of _ 0] exI [of _ s] exI [of _ c] exI [of _ i]) (auto simp: writei_loop.simps)
  next
    case False
    let ?n = "unat off div BSIZE" and ?m = "min rem (BSIZE - unat off mod BSIZE)"
    have n: "?n < MAXFILE" using less(13) False by (simp add: less_mult_imp_div_less)
    have m: "0 < ?m" "?m \<le> rem" "k + ?m \<le> length ds" using False less(12) by simp_all
    have cost: "blk_cost c i ?n \<le> span_cost c i (unat off) rem"
      using span_cost_step [of rem ?m "unat off" c i c i] False less(13) by simp
    have r: "int (log_need i s + blk_cost c i ?n) + 1 < log_size s" using less(9) cost by linarith
    have ml: "?m \<le> BSIZE - unat off mod BSIZE" by simp
    show ?thesis
    proof (rule writei_piece [OF less(2-8) refl n r less(10,11) ml m(3)])
      fix t c' i'
      assume t: "bmap ip (off div of_nat BSIZE) s = Inr (0, t)" "itable t = (itable s)(ip := i')" "contents t = c'"
        "inode_grows sb c i ?n c' i' 0" "tx_step p {} s {} t c' (logged t)" "log_need i' t \<le> log_need i s + blk_cost c i ?n"
      have "writei_loop ip (place_add src k) (drop k bs) off rem tot s = Inr ((tot, off), t)"
        using t(1) False by (subst writei_loop.simps) simp
      then show ?thesis
        using wrote_full [OF less(7) t(4) n] inode_growsD(13) [OF t(4)] t(2,5,6) cost
        by (intro exI [of _ 0] exI [of _ t] exI [of _ c'] exI [of _ i']) simp
    next
      fix x s1 b s2 s3 s4 t c' i'
      let ?ds = "take ?m (drop k ds)" and ?off = "off + of_nat ?m"
      assume x: "x \<noteq> 0" "bmap ip (off div of_nat BSIZE) s = Inr (x, s1)" "i_dev (itable s1 ip) = log_dev s"
        "bread (log_dev s) x s1 = Inr (b, s2)" "fetch k ?m s2 = Inr ((0, ?ds), s3)"
        "log_write b (set_data b (blk_put (b_data (bufs s3 b)) (unat off mod BSIZE) ?ds) s3) = Inr s4"
        "brelse b s4 = Inr t" "itable t = (itable s)(ip := i')" "tx_step p {} s {} t c' (logged t)"
        "wrote sb c i c' i' (unat off) ?ds" "log_need i' t \<le> log_need i s + blk_cost c i ?n"
        "\<And>j. j < MAXFILE \<Longrightarrow> j \<noteq> ?n \<Longrightarrow> file_blk c' i' j = file_blk c i j"
      note T = tx_stepD [OF x(9)] and W = wroteD [OF x(10)]
      have o: "unat ?off = unat off + ?m" using less(13) m(2) by (subst unat_word_ariths(1)) (simp add: unat_of_nat)
      have d: "i_dev (itable t ip) = log_dev t" using less(3,4) T(4) x(8) by (subst x(8), subst fun_upd_same, subst W(3)) simp
      have sc: "span_cost c i (unat off) rem = blk_cost c i ?n + span_cost c' i' (unat off + ?m) (rem - ?m)"
        by (rule span_cost_step [OF _ refl less(13) x(12)]) (use False in simp)
      have len: "length ?ds = ?m" using m(3) by simp
      have h1: "rem - ?m < rem" "i' = itable t ip" "sb = sblock t" "1 \<le> outstanding t" "ready t"
        using m(1,2) x(8) T(6,14) less(6,10) ready_step [OF less(11) x(9)] by (simp_all del: BSIZE_def)
      have h2: "int (log_need i' t + span_cost c' i' (unat ?off) (rem - ?m)) + 1 < log_size t"
        using less(9) x(11) T(5) unfolding o sc by linarith
      have h3: "k + ?m + (rem - ?m) \<le> length ds" "unat ?off + (rem - ?m) \<le> MAXFILE * BSIZE"
        using less(12,13) m(2) unfolding o by linarith+
      have "\<exists>w u c2 i2. writei_loop ip (place_add src (k + ?m)) (drop (k + ?m) bs) ?off (rem - ?m) (tot + ?m) t
            = Inr ((tot + ?m + w, ?off + of_nat w), u) \<and> w \<le> rem - ?m
          \<and> (w < rem - ?m \<longrightarrow> no_free sb c2 (unat (sb_size sb))) \<and> wrote sb c' i' c2 i2 (unat ?off) (take w (drop (k + ?m) ds))
          \<and> itable u = (itable t)(ip := i2) \<and> tx_step p {} t {} u c2 (logged u)
          \<and> log_need i2 u \<le> log_need i' t + span_cost c' i' (unat ?off) (rem - ?m)"
        by (rule less(1) [OF h1(1) T(1) d h1(2) T(2) [symmetric] h1(3) W(2,1) h2 h1(4,5) h3])
      then obtain w u c2 i2 where u: "writei_loop ip (place_add src (k + ?m)) (drop (k + ?m) bs) ?off (rem - ?m) (tot + ?m) t
            = Inr ((tot + ?m + w, ?off + of_nat w), u)" "w \<le> rem - ?m" "w < rem - ?m \<longrightarrow> no_free sb c2 (unat (sb_size sb))"
          "wrote sb c' i' c2 i2 (unat off + ?m) (take w (drop (k + ?m) ds))" "itable u = (itable t)(ip := i2)"
          "tx_step p {} t {} u c2 (logged u)" "log_need i2 u \<le> log_need i' t + span_cost c' i' (unat off + ?m) (rem - ?m)"
        unfolding o by blast
      have e: "tot + ?m + w = tot + (?m + w)" "?off + of_nat w = off + of_nat (?m + w)" by (simp_all only: add.assoc of_nat_add)
      have c1: "writei_loop ip (place_add src k) (drop k bs) off rem tot s = Inr ((tot + (?m + w), off + of_nat (?m + w)), u)"
        using False x(1-7) u(1) unfolding e
        by (subst writei_loop.simps) (simp add: fetch_at Let_def add.commute [of ?m k] del: BSIZE_def of_nat_add)
      have "drop ?m (drop k ds) = drop (k + ?m) ds" by (simp only: drop_drop add.commute)
      then have tk: "take (?m + w) (drop k ds) = ?ds @ take w (drop (k + ?m) ds)" by (simp only: take_add)
      have "length (take w (drop (k + ?m) ds)) \<le> w" by simp
      then have "length (take w (drop (k + ?m) ds)) \<le> rem - ?m" using u(2) by (rule order_trans)
      then have "unat off + length ?ds + length (take w (drop (k + ?m) ds)) \<le> MAXFILE * BSIZE"
        using h3(2) unfolding o len by linarith
      then have c2: "wrote sb c i c2 i2 (unat off) (take (?m + w) (drop k ds))"
        unfolding tk using wrote_trans [OF x(10), of c2 i2 "take w (drop (k + ?m) ds)"] u(4) unfolding len by blast
      have c3: "tx_step p {} s {} u c2 (logged u)"
        using tx_step_trans [OF x(9) u(6)] by (auto simp: tx_step_def)
      have c4: "itable u = (itable s)(ip := i2)" using u(5) x(8) by simp
      have c5: "log_need i2 u \<le> log_need i s + span_cost c i (unat off) rem" using u(7) x(11) unfolding sc by linarith
      have c6: "?m + w \<le> rem" "?m + w < rem \<longrightarrow> no_free sb c2 (unat (sb_size sb))" using u(2,3) m(2) by linarith+
      show ?thesis using c1 c2 c3 c4 c5 c6 by blast
    qed
  qed
qed

lemma writei_ok:
  fixes s :: "'a fsst_scheme"
  assumes tx: "in_tx p {} s" "i_dev (itable s ip) = log_dev s" "i = itable s ip" "c = contents s" "sb = sblock s"
    "file_ok sb c i" "fs_ok sb c" and r: "int (log_need i s + span_cost c i (unat off) (unat n)) + 1 < log_size s" "1 \<le> outstanding s"
    and M: "ready s" "unat n \<le> length ds"
    and ok: "unat off \<le> unat (i_size i)" "unat off + unat n \<le> MAXFILE * BSIZE"
  shows "\<exists>w t c' i' i''. writei ip src bs off n s = Inr (int w, t) \<and> w \<le> unat n
    \<and> (w < unat n \<longrightarrow> no_free sb c' (unat (sb_size sb))) \<and> wrote sb c i c' i' (unat off) (take w ds)
    \<and> i'' = i'\<lparr>i_size := of_nat (max (unat (i_size i)) (unat off + w))\<rparr>
    \<and> itable t = (itable s)(ip := i'') \<and> tx_step p {} s {} t (inode_written sb i'' c') (logged t)
    \<and> lh_n t \<le> int (log_need i s + span_cost c i (unat off) (unat n)) + 1"
proof -
  have "\<exists>w t c' i'. writei_loop ip (place_add src 0) (drop 0 bs) off (unat n) 0 s = Inr ((0 + w, off + of_nat w), t) \<and> w \<le> unat n
    \<and> (w < unat n \<longrightarrow> no_free sb c' (unat (sb_size sb))) \<and> wrote sb c i c' i' (unat off) (take w (drop 0 ds))
    \<and> itable t = (itable s)(ip := i') \<and> tx_step p {} s {} t c' (logged t)
    \<and> log_need i' t \<le> log_need i s + span_cost c i (unat off) (unat n)"
    by (rule writei_loop_ok [OF tx r M(1) _ ok(2)]) (use M(2) in simp)
  then obtain w t c' i' where w: "writei_loop ip src bs off (unat n) 0 s = Inr ((w, off + of_nat w), t)" "w \<le> unat n"
    "w < unat n \<longrightarrow> no_free sb c' (unat (sb_size sb))" "wrote sb c i c' i' (unat off) (take w ds)"
    "itable t = (itable s)(ip := i')" "tx_step p {} s {} t c' (logged t)"
    "log_need i' t \<le> log_need i s + span_cost c i (unat off) (unat n)"
    by auto
  note T = tx_stepD [OF w(6)]
  let ?i = "i'\<lparr>i_size := of_nat (max (unat (i_size i)) (unat off + w))\<rparr>"
  have sz: "i_size i' = i_size i" "i_dev i' = i_dev i" by (subst wroteD(3) [OF w(4)], simp)+
  have ow: "unat (off + of_nat w) = unat off + w" using ok(2) w(2) by (subst unat_word_ariths(1)) (simp add: unat_of_nat)
  define u where "u = (if i_size (itable t ip) < off + of_nat w then upd_inode ip (\<lambda>x. x\<lparr>i_size := off + of_nat w\<rparr>) t else t)"
  have iu: "itable u = (itable s)(ip := ?i)"
  proof (cases "i_size i < off + of_nat w")
    case True
    then have "unat (i_size i) < unat off + w" unfolding word_less_nat_alt ow .
    then have "of_nat (max (unat (i_size i)) (unat off + w)) = off + of_nat w" by simp
    then show ?thesis using True w(5) sz(1) unfolding u_def by (simp del: of_nat_add)
  next
    case False
    then have "\<not> unat (i_size i) < unat off + w" unfolding word_less_nat_alt ow .
    then have "?i = i'" using sz(1) by simp
    then show ?thesis using False w(5) sz(1) unfolding u_def by simp
  qed
  have su: "tx_step p {} s {} u c' (logged u)" "log_dev u = log_dev s" "sblock u = sb" "lh_n u = lh_n t"
    unfolding u_def using w(6) T(4,6) tx(5) by auto
  note U = tx_stepD [OF su(1)]
  have lh: "lh_n u \<le> int (log_need i s + span_cost c i (unat off) (unat n))" using lh_n_need [OF T(1), of i'] w(7) su(4) by linarith
  have rm: "room 1 1 {} u" using lh r U(5,14) in_txD(8) [OF tx(1)] by (simp add: room_def)
  have dev: "i_dev (itable u ip) = log_dev u" using iu sz(2) tx(2,3) su(2) by simp
  obtain v where v: "iupdate ip u = Inr v" "tx_step p {} u {} v (inode_written (sblock u) (itable u ip) (contents u))
      {IBLOCK (i_inum (itable u ip)) (sblock u)}" "itable v = itable u"
    by (rule iupdate_ok [OF U(1) _ rm dev]) simp_all
  have ne: "\<not> i_size (itable s ip) < off" "\<not> off + n < off" "\<not> of_nat (MAXFILE * BSIZE) < off + n"
  proof -
    have "unat off + unat n < 2 ^ 32" using ok(2) by simp
    moreover from this have "unat (off + n) = unat off + unat n" by (rule u32_add_nowrap)
    ultimately show "\<not> i_size (itable s ip) < off" "\<not> off + n < off" "\<not> of_nat (MAXFILE * BSIZE) < off + n"
      using ok tx(3) unfolding u32_add_less by (simp_all add: word_less_nat_alt)
  qed
  have wr: "writei ip src bs off n s = Inr (int w, v)"
    using ne w(1) v(1) by (simp add: writei_def u_def Let_def del: MAXFILE_def BSIZE_def)
  have st: "tx_step p {} s {} v (inode_written sb ?i c') (logged v)"
    using tx_step_trans [OF su(1) v(2)] iu su(3) U(2) by (auto simp: tx_step_def)
  have lv: "lh_n v \<le> int (log_need i s + span_cost c i (unat off) (unat n)) + 1" using tx_stepD(3) [OF v(2)] lh by simp
  have iv: "itable v = (itable s)(ip := ?i)" using v(3) iu by simp
  show ?thesis using wr w(2,3,4) iv st lv by blast
qed

end

text \<open>A buffer of the kernel, a place in kernel memory, and a place in the memory of the running process.\<close>

interpretation buf: source Local ds p "\<lambda>_. True" ds "\<lambda>k m. copy_from Local (drop k ds) m" for ds p
  by unfold_locales (simp_all add: myproc_eq)

lemma length_get_bytes [simp]: "length (get_bytes M a n) = n"
  by (simp add: get_bytes_def)

lemma get_bytes_drop: "k + m \<le> n \<Longrightarrow> take m (drop k (get_bytes M a n)) = get_bytes M (a + of_nat k) m"
  by (rule nth_equalityI) (simp_all add: get_bytes_def add.assoc)

interpretation kmem: source "Kernel a" bs p "\<lambda>s. mem s = M" "get_bytes M a n"
  "\<lambda>k m. copy_from (Kernel (a + of_nat k)) (drop k bs) m" for a bs p M n
  by unfold_locales (simp_all add: either_copyin_def myproc_eq get_bytes_drop tx_stepD(10))

text \<open>
  The memory of the running process: its page table is well formed, without huge leaves, and maps the \<open>n\<close> bytes from \<open>a\<close>
  on for the user.
\<close>

definition umem_at :: "nat \<Rightarrow> memory \<Rightarrow> u64 \<Rightarrow> u64 \<Rightarrow> nat \<Rightarrow> 'a procst_scheme \<Rightarrow> bool" where
  "umem_at p M pt a n s \<longleftrightarrow> mem s = M \<and> cpu_proc (mycpu s) = Some p \<and> pagetable (procs s p) = pt
     \<and> pt_wf M pt \<and> base_only M pt \<and> all_mapped M pt a n"

lemma length_uread [simp]: "length (uread M pt a n) = n"
  by (simp add: uread_def)

lemma uread_drop: "k + m \<le> n \<Longrightarrow> take m (drop k (uread M pt a n)) = uread M pt (a + of_nat k) m"
  by (rule nth_equalityI) (simp_all add: uread_def add.assoc)

lemma all_mapped_part:
  assumes "all_mapped M pt a n" "k + m \<le> n"
  shows "all_mapped M pt (a + of_nat k) m"
proof -
  have "upage M pt (a + of_nat (k + i)) \<noteq> 0" if "i < m" for i
  proof -
    have "k + i < n" using assms(2) that by linarith
    then show ?thesis using assms(1) unfolding all_mapped_def by blast
  qed
  then show ?thesis by (simp add: all_mapped_def add.assoc)
qed

lemma copyin_user:
  assumes "umem_at p M pt a n s" "k + m \<le> n"
  shows "either_copyin True (a + of_nat k) m s = Inr ((0, uread M pt (a + of_nat k) m), settled s)"
proof -
  note A = assms(1) [unfolded umem_at_def]
  have "\<exists>r bs. copyin pt (a + of_nat k) m (settled s) = Inr ((r, bs), settled s)
    \<and> (if all_mapped (mem (settled s)) pt (a + of_nat k) m then r = 0 \<and> bs = uread (mem (settled s)) pt (a + of_nat k) m else r = -1)"
    by (rule copyin_ok) (use A in simp_all)
  then have "copyin pt (a + of_nat k) m (settled s) = Inr ((0, uread M pt (a + of_nat k) m), settled s)"
    using A all_mapped_part [OF _ assms(2)] by auto
  then show ?thesis using A by (simp add: either_copyin_def myproc_eq deref_def)
qed

lemma umem_at_step:
  assumes "umem_at p M pt a n s" "tx_step p H s H' t c L"
  shows "umem_at p M pt a n t"
proof -
  have "ident \<circ> procs t = ident \<circ> procs s" using assms(2) by (simp add: tx_step_def tx_frame_def)
  from fun_cong [OF this, of p] have "pagetable (procs t p) = pagetable (procs s p)" by (simp add: ident_def)
  moreover have "cpu_proc (mycpu t) = Some p" by (rule quietD(2) [OF goodD(1) [OF in_txD(1) [OF tx_stepD(1) [OF assms(2)]]]])
  ultimately show ?thesis using assms(1) tx_stepD(10) [OF assms(2)] by (simp add: umem_at_def)
qed

interpretation user: source "User a" bs p "umem_at p M pt a n" "uread M pt a n"
  "\<lambda>k m. copy_from (User (a + of_nat k)) (drop k bs) m" for a bs p M pt n
  by unfold_locales (simp_all add: copyin_user uread_drop umem_at_step)

text \<open>The inode written to its block, with a new size: the file keeps its blocks and bytes.\<close>

lemma inode_written_file:
  assumes f: "file_ok sb c i" "fs_ok sb c" and j: "j = i\<lparr>i_size := z\<rparr>" "i_inum i < sb_ninodes sb" and e: "e = inode_written sb j c"
  shows "n \<le> MAXFILE \<Longrightarrow> file_blk e j n = file_blk c i n" "file_ok sb e j" "fs_ok sb e" "in_use sb e b \<longleftrightarrow> in_use sb c b"
    "k div BSIZE < MAXFILE \<Longrightarrow> file_blk c i (k div BSIZE) \<noteq> 0 \<Longrightarrow> file_byte e j k = file_byte c i k"
    "in_use sb c b \<Longrightarrow> e b = c b" "b < sb_size sb \<Longrightarrow> blk_free sb e b = blk_free sb c b"
proof -
  have out: "e b = c b" if "b \<noteq> IBLOCK (i_inum i) sb" for b using that by (simp add: e inode_written_def j(1))
  have u: "e b = c b" if "in_use sb c b" for b
    by (rule out) (use that j(2) in \<open>auto simp: in_use_def meta_def\<close>)
  then show "in_use sb c b \<Longrightarrow> e b = c b" .
  have "e (i_addrs i NDIRECT) = c (i_addrs i NDIRECT)" if "i_addrs i NDIRECT \<noteq> 0"
    using file_okD(1) [OF f(1), of MAXFILE] that by (intro u) (simp add: file_blk_simps(2) del: MAXFILE_def)
  then have b: "file_blk e j n = file_blk c i n" for n by (simp add: file_blk_def j(1))
  then show "file_blk e j n = file_blk c i n" .
  have fr: "blk_free sb e b = blk_free sb c b" if "b < sb_size sb" for b
    using out [of "BBLOCK b sb"] f(2) that j(2) by (simp add: blk_free_def fs_ok_def)
  then show "b < sb_size sb \<Longrightarrow> blk_free sb e b = blk_free sb c b" .
  show "fs_ok sb e" using f(2) fr by (auto simp: fs_ok_def)
  have iu: "in_use sb e b \<longleftrightarrow> in_use sb c b" for b using fr by (auto simp: in_use_def)
  then show "in_use sb e b \<longleftrightarrow> in_use sb c b" .
  show "file_ok sb e j" using f(1) by (simp only: file_ok_def b iu)
  show "file_byte e j k = file_byte c i k" if "k div BSIZE < MAXFILE" "file_blk c i (k div BSIZE) \<noteq> 0"
    using u [OF file_okD(1) [OF f(1) less_imp_le [OF that(1)] that(2)]] by (simp only: file_byte_def b)
qed

section \<open>Files as arrays of bytes\<close>

text \<open>
  The file of entry \<open>ip\<close> is ready to be read and written: no buffer is locked, the inode is one of this device, and
  every byte below the size of the file has a block.
\<close>

definition open_file :: "nat \<Rightarrow> nat \<Rightarrow> 'a fsst_scheme \<Rightarrow> bool" where
  "open_file p ip s \<longleftrightarrow> in_tx p {} s \<and> i_dev (itable s ip) = log_dev s \<and> i_inum (itable s ip) < sb_ninodes (sblock s)
     \<and> file_ok (sblock s) (contents s) (itable s ip) \<and> fs_ok (sblock s) (contents s)
     \<and> unat (i_size (itable s ip)) \<le> MAXFILE * BSIZE \<and> filled (contents s) (itable s ip) 0 (unat (i_size (itable s ip)))"

definition file_bytes :: "nat \<Rightarrow> 'a fsst_scheme \<Rightarrow> u8 list" where
  "file_bytes ip s = map (file_byte (contents s) (itable s ip)) [0..<unat (i_size (itable s ip))]"

text \<open>
  The \<open>n\<close> bytes that a kernel buffer, a place in kernel memory, or a range of the memory of the running process \<open>p\<close> that
  its page table maps, holds.
\<close>

definition src_holds :: "nat \<Rightarrow> place \<Rightarrow> u8 list \<Rightarrow> 'a procst_scheme \<Rightarrow> nat \<Rightarrow> u8 list \<Rightarrow> bool" where
  "src_holds p src bs s n ds \<longleftrightarrow> (case src of
       Local \<Rightarrow> ds = bs \<and> n \<le> length bs
     | Kernel a \<Rightarrow> ds = get_bytes (mem s) a n
     | User a \<Rightarrow> umem_at p (mem s) (pagetable (procs s p)) a n s \<and> ds = uread (mem s) (pagetable (procs s p)) a n)"

lemma src_holds_length: "src_holds p src bs s n ds \<Longrightarrow> n \<le> length ds"
  by (auto simp: src_holds_def split: place.splits)

definition write_room :: "nat \<Rightarrow> nat \<Rightarrow> nat \<Rightarrow> 'a fsst_scheme \<Rightarrow> bool" where
  "write_room ip a n s \<longleftrightarrow> int (log_need (itable s ip) s + span_cost (contents s) (itable s ip) a n) + 1 < log_size s
     \<and> 1 \<le> outstanding s"

lemma writei_file:
  assumes o: "open_file p ip s" and d: "src_holds p src bs s (unat n) ds" and r: "write_room ip (unat off) (unat n) s"
    and ok: "unat off \<le> unat (i_size (itable s ip))" "unat off + unat n \<le> MAXFILE * BSIZE"
  obtains w t c' i' i'' where "writei ip src bs off n s = Inr (int w, t)" "w \<le> unat n"
    "w < unat n \<longrightarrow> no_free (sblock s) c' (unat (sb_size (sblock s)))"
    "wrote (sblock s) (contents s) (itable s ip) c' i' (unat off) (take w ds)"
    "i'' = i'\<lparr>i_size := of_nat (max (unat (i_size (itable s ip))) (unat off + w))\<rparr>"
    "itable t = (itable s)(ip := i'')" "tx_step p {} s {} t (inode_written (sblock s) i'' c') (logged t)"
    "lh_n t \<le> int (log_need (itable s ip) s + span_cost (contents s) (itable s ip) (unat off) (unat n)) + 1"
proof -
  note o' = o [unfolded open_file_def] and r' = r [unfolded write_room_def]
  show ?thesis
  proof (cases src)
    case Local
    then have "ds = bs" "unat n \<le> length bs" using d by (simp_all add: src_holds_def)
    then show ?thesis
      using buf.writei_ok [of p s ip _ _ _ off n bs, OF _ _ refl refl refl _ _ _ _ TrueI _ ok] o' r' that Local by blast
  next
    case (Kernel a)
    then have "ds = get_bytes (mem s) a (unat n)" using d by (simp add: src_holds_def)
    then show ?thesis
      using kmem.writei_ok [of p s ip _ _ _ off n _ a "unat n" bs, OF _ _ refl refl refl _ _ _ _ refl _ ok] o' r' that Kernel
      by simp blast
  next
    case (User a)
    let ?pt = "pagetable (procs s p)"
    have u: "umem_at p (mem s) ?pt a (unat n) s" "ds = uread (mem s) ?pt a (unat n)" using d User by (simp_all add: src_holds_def)
    then show ?thesis
      using user.writei_ok [OF _ _ refl refl refl _ _ _ _ u(1) _ ok, of bs] o' r' that User by simp blast
  qed
qed

lemma file_bytes_written:
  assumes o: "open_file p ip s" and off: "a \<le> unat (i_size (itable s ip))" "a + w \<le> MAXFILE * BSIZE" and w: "w = length ds"
    and wr: "wrote (sblock s) (contents s) (itable s ip) c' i' a ds"
    and i: "i'' = i'\<lparr>i_size := of_nat (max (unat (i_size (itable s ip))) (a + w))\<rparr>"
    and t: "itable t = (itable s)(ip := i'')" "tx_step p {} s {} t (inode_written (sblock s) i'' c') L"
  shows "open_file p ip t" "file_bytes ip t = take a (file_bytes ip s) @ ds @ drop (a + w) (file_bytes ip s)"
    "no_free (sblock s) c' n \<Longrightarrow> n = unat (sb_size (sblock s)) \<Longrightarrow> no_free (sblock t) (contents t) n"
    "in_use (sblock s) (contents s) b \<Longrightarrow> (\<And>n. n \<le> MAXFILE \<Longrightarrow> file_blk (contents s) (itable s ip) n \<noteq> b) \<Longrightarrow> contents t b = contents s b"
proof -
  let ?sb = "sblock s" and ?c = "contents s" and ?i = "itable s ip"
  let ?z = "unat (i_size ?i)" and ?e = "inode_written (sblock s) i'' c'"
  note O = o [unfolded open_file_def] and W = wroteD [OF wr] and T = tx_stepD [OF t(2)]
  have i': "i_inum i' = i_inum ?i" "i_dev i' = i_dev ?i" by (subst W(3), simp)+
  have "i_inum i' < sb_ninodes ?sb" using O i' by simp
  note F = inode_written_file [OF W(2,1) i this refl]
  have zb: "max ?z (a + w) \<le> MAXFILE * BSIZE" using O off by simp
  then have zz: "max ?z (a + w) < 4294967296" by simp
  have z: "unat (i_size i'') = max ?z (a + w)" using zz by (simp add: i del: of_nat_add of_nat_max)
  have lt: "k div BSIZE < MAXFILE" if "k < max ?z (a + w)" for k
    by (rule less_mult_imp_div_less) (use that zb in linarith)
  have m: "file_blk c' i' (k div BSIZE) \<noteq> 0" if "k < max ?z (a + w)" for k
  proof (cases "a \<le> k \<and> k < a + w")
    case True
    then show ?thesis using W(6) w unfolding filled_def by blast
  next
    case False
    then have "file_blk ?c ?i (k div BSIZE) \<noteq> 0" using O that off(1) unfolding filled_def by auto
    then show ?thesis using W(4) [of "k div BSIZE"] lt [OF that] by simp
  qed
  show "open_file p ip t"
  proof -
    have "filled ?e i'' 0 (unat (i_size i''))"
      unfolding filled_def z using F(1) [OF less_imp_le [OF lt]] m by simp
    moreover have "i_inum i'' = i_inum ?i" "i_dev i'' = i_dev ?i" using i' by (simp_all add: i)
    ultimately show ?thesis unfolding open_file_def using T(1,2,4,6) O t(1) F(2,3) zb z by simp
  qed
  have "file_byte ?e i'' k = (if a \<le> k \<and> k < a + w then ds ! (k - a) else file_byte ?c ?i k)" if "k < max ?z (a + w)" for k
  proof -
    have "file_blk ?c ?i (k div BSIZE) \<noteq> 0" if "\<not> (a \<le> k \<and> k < a + w)"
      using O that off(1) \<open>k < max ?z (a + w)\<close> unfolding filled_def by auto
    then show ?thesis using F(5) [OF lt [OF that] m [OF that]] W(7) [OF lt [OF that] m [OF that]] w by auto
  qed
  then show "file_bytes ip t = take a (file_bytes ip s) @ ds @ drop (a + w) (file_bytes ip s)"
    using off(1) w t(1) T(2) z by (intro nth_equalityI) (auto simp: file_bytes_def nth_append simp del: BSIZE_def)
  show "no_free (sblock t) (contents t) n" if "no_free ?sb c' n" "n = unat (sb_size ?sb)"
    unfolding no_free_def
  proof (intro allI impI)
    fix b assume b: "b < n"
    then have "unat (of_nat b :: u32) = b" using that(2) unat_u32_less [of "sb_size ?sb"] by (intro unat_of_nat_u32) linarith
    then have "(of_nat b :: u32) < sb_size ?sb" using b that(2) by (simp add: word_less_nat_alt)
    then show "\<not> blk_free (sblock t) (contents t) (of_nat b)" using F(7) that(1) b T(2,6) by (simp add: no_free_def)
  qed
  show "contents t b = ?c b" if "in_use ?sb ?c b" "\<And>n. n \<le> MAXFILE \<Longrightarrow> file_blk ?c ?i n \<noteq> b"
    using W(8,9) [OF that(1)] that(2) F(6) T(2) by simp
qed

end
