(* ===== verification/Files.thy ===== *)
theory Files
  imports Filewrite Dir
begin

text \<open>
  What the file system promises about the contents of files: a file is a list of bytes, \<^verbatim>\<open>readi\<close> returns a part of it
  and \<^verbatim>\<open>writei\<close> replaces a part of it; a write of three blocks logs at most the ten blocks that an operation may
  log; and directories are searched through such reads.
\<close>

section \<open>Reading\<close>

text \<open>The memory after the bytes \<open>bs\<close> have been copied to a place of the kernel.\<close>

definition place_put :: "place \<Rightarrow> u8 list \<Rightarrow> memory \<Rightarrow> memory" where
  "place_put dst bs m = (case dst of Kernel a \<Rightarrow> put_bytes m a bs | _ \<Rightarrow> m)"

definition in_kernel :: "place \<Rightarrow> bool" where
  "in_kernel dst \<longleftrightarrow> (case dst of User _ \<Rightarrow> False | _ \<Rightarrow> True)"

definition part :: "u32 \<Rightarrow> u32 \<Rightarrow> u8 list \<Rightarrow> u8 list" where
  "part off n bs = (if 2 ^ 32 \<le> unat off + unat n then [] else take (unat n) (drop (unat off) bs))"

lemma read_part:
  assumes "z = unat u"
  shows "map f [unat off..<unat off + read_len u off n] = part off n (map f [0..<z])"
    "read_len u off n = length (part off n (map f [0..<z]))"
  using assms by (auto simp: read_len_def part_def take_map drop_map min_def)

lemma readi_file:
  assumes o: "open_file p ip s" and r: "room 0 1 {} s" and d: "in_kernel dst"
    and bs: "bs = part off n (file_bytes ip s)"
  obtains t where "readi ip dst off n s = Inr ((int (length bs), bs), t)"
    "tx_step p {} (s\<lparr>mem := place_put dst bs (mem s)\<rparr>) {} t (contents s) {}" "itable t = itable s"
proof -
  note o' = o [unfolded open_file_def] 
    and b = read_part [OF refl, where u = "i_size (itable s ip)" and f = "file_byte (contents s) (itable s ip)" and off = off and n = n]
  have e: "bs = map (file_byte (contents s) (itable s ip)) [unat off..<unat off + read_len (i_size (itable s ip)) off n]"
    "length bs = read_len (i_size (itable s ip)) off n" unfolding bs file_bytes_def b(1) by (simp_all add: b(2))
  show ?thesis
  proof (cases dst)
    case Local
    then show ?thesis
      using loc.readi_ok [of p s ip _ _ _ "length bs" off n bs, OF _ _ refl refl refl _ _ r _ _ e(2)] o' e that
      by (auto simp: place_put_def)
  next
    case (Kernel a)
    then show ?thesis
      using kern.readi_ok [of p s ip _ _ _ "length bs" off n bs a, OF _ _ refl refl refl _ _ r _ _ e(2)] o' e that
      by (auto simp: place_put_def)
  qed (use d in \<open>simp add: in_kernel_def\<close>)
qed

text \<open>
  C10: \<^verbatim>\<open>readi\<close> returns exactly the part of the file that was asked for.  For a file that is ready, an offset, a length
  and a destination in the kernel, it returns the bytes of the file from the offset on, as many as were asked for and as the file has
  (none when offset plus length does not fit 32 bits), puts them at the destination, and changes neither the file system nor
  any inode.
\<close>

theorem readi_spec:
  assumes "open_file p ip s" "room 0 1 {} s" "in_kernel dst" "bs = part off n (file_bytes ip s)"
  shows "\<exists>t. readi ip dst off n s = Inr ((int (length bs), bs), t) \<and> mem t = place_put dst bs (mem s)
    \<and> contents t = contents s \<and> itable t = itable s \<and> open_file p ip t \<and> file_bytes ip t = file_bytes ip s"
proof -
  obtain t where t: "readi ip dst off n s = Inr ((int (length bs), bs), t)"
    "tx_step p {} (s\<lparr>mem := place_put dst bs (mem s)\<rparr>) {} t (contents s) {}" "itable t = itable s"
    by (rule readi_file [OF assms])
  note T = tx_stepD [OF t(2)]
  have "open_file p ip t" using assms(1) T(1,2,4,6) t(3) by (simp add: open_file_def)
  then show ?thesis using t T(2,10) by (simp add: file_bytes_def)
qed

section \<open>Writing\<close>

lemma writei_bytes:
  assumes o: "open_file p ip s" and d: "src_holds p src bs s (unat n) ds" and r: "write_room ip (unat off) (unat n) s"
    and ok: "unat off \<le> unat (i_size (itable s ip))" "unat off + unat n \<le> MAXFILE * BSIZE"
  obtains w t where "writei ip src bs off n s = Inr (int w, t)" "w \<le> unat n" "open_file p ip t"
    "w < unat n \<Longrightarrow> no_free (sblock t) (contents t) (unat (sb_size (sblock t)))"
    "file_bytes ip t = take (unat off) (file_bytes ip s) @ take w ds @ drop (unat off + w) (file_bytes ip s)"
    "\<And>j. j \<noteq> ip \<Longrightarrow> itable t j = itable s j"
    "\<And>b. in_use (sblock s) (contents s) b \<Longrightarrow> (\<And>m. m \<le> MAXFILE \<Longrightarrow> file_blk (contents s) (itable s ip) m \<noteq> b) \<Longrightarrow>
       contents t b = contents s b"
    "lh_n t \<le> int (log_need (itable s ip) s + span_cost (contents s) (itable s ip) (unat off) (unat n)) + 1"
    "log_size t = log_size s" "mem t = mem s"
proof -
  obtain w t c' i' i'' where w: "writei ip src bs off n s = Inr (int w, t)" "w \<le> unat n"
    "w < unat n \<longrightarrow> no_free (sblock s) c' (unat (sb_size (sblock s)))"
    "wrote (sblock s) (contents s) (itable s ip) c' i' (unat off) (take w ds)"
    "i'' = i'\<lparr>i_size := of_nat (max (unat (i_size (itable s ip))) (unat off + w))\<rparr>"
    "itable t = (itable s)(ip := i'')" "tx_step p {} s {} t (inode_written (sblock s) i'' c') (logged t)"
    "lh_n t \<le> int (log_need (itable s ip) s + span_cost (contents s) (itable s ip) (unat off) (unat n)) + 1"
    by (rule writei_file [OF o d r ok])
  have "unat n \<le> length ds" by (rule src_holds_length [OF d])
  then have len: "w = length (take w ds)" using w(2) by simp
  have a: "unat off + w \<le> MAXFILE * BSIZE" using ok(2) w(2) by linarith
  note F = file_bytes_written [OF o ok(1) a len w(4-7)] and T = tx_stepD [OF w(7)]
  show ?thesis
    by (rule that [OF w(1,2) F(1) _ F(2) _ F(4) w(8) T(5,10)]) (use w(3,6) F(3) T(6) in simp_all)
qed

text \<open>
  C5: \<^verbatim>\<open>writei\<close> replaces a part of the file.  For a file that is ready, an offset within the file, a range below the
  maximal size, enough room in the log, and a source that is a kernel buffer, a place in kernel memory or a range of the
  memory of the running process that its page table maps with base pages, it returns the number \<open>w\<close> of bytes written, all of them unless the disk has
  become full; the file is then its old bytes with the bytes from the offset on overwritten by the first \<open>w\<close> bytes of the source, and
  longer if they reach beyond its end.  The file is well formed again, and no other file and no other inode in memory has
  changed.
\<close>

theorem writei_spec:
  assumes "open_file p ip s" "src_holds p src bs s (unat n) ds" "write_room ip (unat off) (unat n) s"
    "unat off \<le> unat (i_size (itable s ip))" "unat off + unat n \<le> MAXFILE * BSIZE"
  shows "\<exists>w t. writei ip src bs off n s = Inr (int w, t)
    \<and> (w = unat n \<or> w < unat n \<and> no_free (sblock t) (contents t) (unat (sb_size (sblock t))))
    \<and> file_bytes ip t = take (unat off) (file_bytes ip s) @ take w ds @ drop (unat off + w) (file_bytes ip s)
    \<and> open_file p ip t \<and> (\<forall>j. j \<noteq> ip \<longrightarrow> itable t j = itable s j)
    \<and> (\<forall>b. in_use (sblock s) (contents s) b \<and> (\<forall>m\<le>MAXFILE. file_blk (contents s) (itable s ip) m \<noteq> b) \<longrightarrow>
         contents t b = contents s b)"
proof (rule writei_bytes [OF assms])
  fix w t
  assume w: "writei ip src bs off n s = Inr (int w, t)" "w \<le> unat n" "open_file p ip t"
    "w < unat n \<Longrightarrow> no_free (sblock t) (contents t) (unat (sb_size (sblock t)))"
    "file_bytes ip t = take (unat off) (file_bytes ip s) @ take w ds @ drop (unat off + w) (file_bytes ip s)"
    "\<And>j. j \<noteq> ip \<Longrightarrow> itable t j = itable s j"
    "\<And>b. in_use (sblock s) (contents s) b \<Longrightarrow> (\<And>m. m \<le> MAXFILE \<Longrightarrow> file_blk (contents s) (itable s ip) m \<noteq> b) \<Longrightarrow>
       contents t b = contents s b"
  have "w = unat n \<or> w < unat n" using w(2) by linarith
  then show ?thesis using w by blast
qed

lemma write_room_after:
  assumes "open_file p ip t" "log_size t = log_size s" "write_room ip0 a n s"
    "lh_n t \<le> int (log_need (itable s ip0) s + span_cost (contents s) (itable s ip0) a n) + 1"
  shows "room 0 1 {} t"
  using assms in_txD(8) [of p "{}" t] by (simp add: room_def write_room_def open_file_def)

text \<open>
  C12: what has been written is read back.  After \<^verbatim>\<open>writei\<close> of some bytes, from a kernel buffer, kernel memory or mapped
  memory of the running process, \<^verbatim>\<open>readi\<close> at the same offset of as many bytes
  as were written returns exactly those bytes.
\<close>

theorem writei_readi:
  assumes o: "open_file p ip s" and d: "src_holds p src bs s (unat n) ds" and r: "write_room ip (unat off) (unat n) s"
    and ok: "unat off \<le> unat (i_size (itable s ip))" "unat off + unat n \<le> MAXFILE * BSIZE"
  shows "\<exists>w t u. writei ip src bs off n s = Inr (int w, t) \<and> readi ip Local off (of_nat w) t = Inr ((int w, take w ds), u)"
proof (rule writei_bytes [OF assms])
  fix w t
  assume w: "writei ip src bs off n s = Inr (int w, t)" "w \<le> unat n" "open_file p ip t"
    "file_bytes ip t = take (unat off) (file_bytes ip s) @ take w ds @ drop (unat off + w) (file_bytes ip s)"
    "lh_n t \<le> int (log_need (itable s ip) s + span_cost (contents s) (itable s ip) (unat off) (unat n)) + 1"
    "log_size t = log_size s"
  have "unat n \<le> length ds" by (rule src_holds_length [OF d])
  then have len: "length (take w ds) = w" using w(2) by simp
  have u: "unat (of_nat w :: u32) = w" using w(2) ok(2) by (intro unat_of_nat_u32) simp
  have "length (take (unat off) (file_bytes ip s)) = unat off" using ok(1) by (simp add: file_bytes_def)
  then have e: "part off (of_nat w) (file_bytes ip t) = take w ds"
    unfolding part_def u w(4) using ok(2) w(2) len by simp
  obtain u where "readi ip Local off (of_nat w) t = Inr ((int (length (take w ds)), take w ds), u)"
    by (rule readi_file [OF w(3) write_room_after [OF w(3,6) r w(5)] _ e [symmetric], of Local]) (simp_all add: in_kernel_def)
  then show ?thesis using w(1) unfolding len by blast
qed

section \<open>Room in the log\<close>

lemma sum_list_cost: "sum_list (map (blk_cost c i) ns) \<le> 2 * length ns"
  by (induction ns) (auto simp: blk_cost_def)

lemma span_cost_three:
  assumes "n \<le> 3 * BSIZE" "a \<le> z" "filled c i 0 z"
  shows "span_cost c i a n \<le> 7"
proof (cases "n = 0")
  case False
  let ?q = "a div 1024" and ?e = "(a + n - 1) div 1024"
  have s: "blk_span a n = [?q..<Suc ?e]" using False by (simp add: blk_span_def)
  have a: "a = ?q * 1024 + a mod 1024" by simp
  have le: "?q \<le> ?e" by (rule div_le_mono) (use False in linarith)
  show ?thesis
  proof (cases "a mod 1024 = 0")
    case True
    have "a + n - 1 < ?q * 1024 + 3072" using a True assms(1) False unfolding BSIZE_def by linarith
    then have "?e < ?q + 3" by (intro less_mult_imp_div_less) (simp add: add_mult_distrib)
    then have "length (blk_span a n) \<le> 3" unfolding s length_upt by linarith
    then show ?thesis using sum_list_cost [of c i "blk_span a n"] unfolding span_cost_def by linarith
  next
    case False
    have "a mod 1024 < 1024" by simp
    then have "a + n - 1 < ?q * 1024 + 4096" using a assms(1) unfolding BSIZE_def by linarith
    then have "?e < ?q + 4" by (intro less_mult_imp_div_less) (simp add: add_mult_distrib)
    then have e: "length [Suc ?q..<Suc ?e] \<le> 3" unfolding length_upt by linarith
    have "a - 1 = ?q * 1024 + (a mod 1024 - 1)" "a mod 1024 - 1 < 1024" using a False by linarith+
    moreover have "(q * 1024 + x) div 1024 = q" if "x < 1024" for q x :: nat using that by simp
    ultimately have "(a - 1) div 1024 = ?q" by metis
    moreover have "a - 1 < z" using assms(2) False by (cases a) auto
    ultimately have "file_blk c i ?q \<noteq> 0" using assms(3) unfolding filled_def by force
    then have "blk_cost c i ?q = 1" by (simp add: blk_cost_def)
    moreover have "sum_list (map (blk_cost c i) [Suc ?q..<Suc ?e]) \<le> 6"
      using sum_list_cost [of c i "[Suc ?q..<Suc ?e]"] e by linarith
    moreover have "[?q..<Suc ?e] = ?q # [Suc ?q..<Suc ?e]" using le by (simp add: upt_conv_Cons del: upt_Suc)
    ultimately show ?thesis unfolding span_cost_def s by (simp del: upt_Suc)
  qed
qed (simp add: span_cost_def blk_span_def)

lemma log_need_le: "in_tx p H s \<Longrightarrow> int (log_need i s) \<le> lh_n s + 2"
  using lh_n_logged [of p H s] card_Un_le [of "logged s" "inds i"] by (auto simp: log_need_def inds_def ind_cost_def)

text \<open>
  C13: one piece of a write fits the reservation of its operation.  \<^verbatim>\<open>filewrite\<close> hands \<^verbatim>\<open>writei\<close> pieces of at most
  \<open>(MAXOPBLOCKS - 1 - 1 - 2) div 2\<close> blocks.  For a file that is ready, and with two blocks of the log
  to spare beyond the reservation, such a call, from mapped memory of the
  running process as \<^verbatim>\<open>filewrite\<close> makes it or from the kernel, returns and adds at most \<^verbatim>\<open>MAXOPBLOCKS\<close> blocks to the log: data,
  bitmap, indirect block and inode together.
\<close>

theorem writei_log_bound:
  assumes o: "open_file p ip s" and d: "src_holds p src bs s (unat n) ds"
    and n: "int (unat n) \<le> (MAXOPBLOCKS - 1 - 1 - 2) div 2 * int BSIZE"
    and r: "lh_n s + MAXOPBLOCKS + 1 < log_size s" "1 \<le> outstanding s"
    and ok: "unat off \<le> unat (i_size (itable s ip))" "unat off + unat n \<le> MAXFILE * BSIZE"
  shows "\<exists>w t. writei ip src bs off n s = Inr (int w, t) \<and> lh_n t \<le> lh_n s + MAXOPBLOCKS"
proof -
  have n3: "unat n \<le> 3 * BSIZE" using n unfolding MAXOPBLOCKS_def BSIZE_def by linarith
  have f: "filled (contents s) (itable s ip) 0 (unat (i_size (itable s ip)))" and tx: "in_tx p {} s"
    using o by (simp_all add: open_file_def)
  have c: "int (log_need (itable s ip) s + span_cost (contents s) (itable s ip) (unat off) (unat n)) \<le> lh_n s + 9"
    using span_cost_three [OF n3 ok(1) f] log_need_le [OF tx, of "itable s ip"] by linarith
  then have "write_room ip (unat off) (unat n) s" using r by (simp add: write_room_def)
  then show ?thesis
  proof (rule writei_bytes [OF o d _ ok])
    fix w t
    assume "writei ip src bs off n s = Inr (int w, t)"
      "lh_n t \<le> int (log_need (itable s ip) s + span_cost (contents s) (itable s ip) (unat off) (unat n)) + 1"
    then show ?thesis using c by force
  qed
qed

section \<open>Directories\<close>

text \<open>The name that a C string of at most \<^verbatim>\<open>DIRSIZ\<close> bytes holds, with or without a final null byte.\<close>

definition cname :: "u8 list \<Rightarrow> u8 list" where
  "cname s = takeWhile (\<lambda>c. c \<noteq> 0) (take DIRSIZ s)"

lemma strncmp_bytes_zero:
  "strncmp_bytes n p q = 0 \<longleftrightarrow> takeWhile (\<lambda>c. c \<noteq> 0) (take n p) = takeWhile (\<lambda>c. c \<noteq> 0) (take n q)"
proof (induction n arbitrary: p q)
  case (Suc n)
  show ?case
    by (cases p; cases q) (auto simp: chr_def Suc uint_0_iff word_uint_eq_iff [symmetric])
qed simp

lemma namecmp_zero: "namecmp s t = 0 \<longleftrightarrow> cname s = cname t"
  by (simp only: namecmp_def cname_def strncmp_bytes_zero)

text \<open>The entries of a directory, and the first one in use with a given name.\<close>

definition dir_entry :: "u8 list \<Rightarrow> nat \<Rightarrow> u8 list" where
  "dir_entry F k = take 16 (drop (16 * k) F)"

definition dir_match :: "u8 list \<Rightarrow> u8 list \<Rightarrow> nat \<Rightarrow> bool" where
  "dir_match nm F k \<longleftrightarrow> de_inum (dir_entry F k) \<noteq> 0 \<and> cname (de_name (dir_entry F k)) = cname nm"

definition dir_find :: "u8 list \<Rightarrow> u8 list \<Rightarrow> nat option" where
  "dir_find nm F = find (dir_match nm F) [0..<length F div 16]"

lemma readi_entry:
  assumes o: "open_file p dp s" and r: "room 0 1 {} s" and k: "16 * k + 16 \<le> length (file_bytes dp s)"
  obtains t where "readi dp Local (of_nat (16 * k)) 16 s = Inr ((16, dir_entry (file_bytes dp s) k), t)"
    "tx_step p {} s {} t (contents s) {}" "itable t = itable s"
proof -
  let ?F = "file_bytes dp s"
  have z: "length ?F \<le> 274432" using o by (simp add: open_file_def file_bytes_def)
  have u: "unat (of_nat (16 * k) :: u32) = 16 * k" by (rule unat_of_nat_u32) (use k z in linarith)
  have e: "dir_entry ?F k = part (of_nat (16 * k)) 16 ?F"
    unfolding part_def u dir_entry_def using k z by simp
  have "length (dir_entry ?F k) = 16" using k by (simp add: dir_entry_def)
  then show ?thesis
    using readi_file [OF o r _ e, of Local] that by (auto simp: in_kernel_def place_put_def)
qed

lemma open_file_step:
  assumes "tx_step p {} s {} t (contents s) {}" "itable t = itable s" "open_file p ip s"
  shows "open_file p ip t" "file_bytes ip t = file_bytes ip s"
  using assms(2,3) tx_stepD(1,2,4,6) [OF assms(1)] by (simp_all add: open_file_def file_bytes_def)

lemma dirlookup_scan:
  assumes "open_file p dp s" "room 0 1 {} s" "\<And>k. k \<in> set ks \<Longrightarrow> 16 * k + 16 \<le> length (file_bytes dp s)"
  shows "\<exists>t. tx_step p {} s {} t (contents s) {} \<and> itable t = itable s \<and>
    dirlookup_loop dp nm (map (\<lambda>k. of_nat (16 * k)) ks) s =
      (case find (dir_match nm (file_bytes dp s)) ks of
         None \<Rightarrow> Inr (None, t)
       | Some k \<Rightarrow> ebind (iget (i_dev (itable s dp)) (ucast (de_inum (dir_entry (file_bytes dp s) k))) t)
           (\<lambda>(ip, s). Inr (Some (ip, of_nat (16 * k)), s)))"
  using assms
proof (induction ks arbitrary: s)
  case Nil
  then show ?case using tx_step_refl [of p "{}" s] by (auto simp: open_file_def)
next
  case (Cons k ks)
  obtain t where t: "readi dp Local (of_nat (16 * k)) 16 s = Inr ((16, dir_entry (file_bytes dp s) k), t)"
    "tx_step p {} s {} t (contents s) {}" "itable t = itable s"
    by (rule readi_entry [OF Cons(2,3), of k]) (use Cons(4) in auto)
  note O = open_file_step [OF t(2,3) Cons(2)] and T = tx_stepD [OF t(2)]
  have m: "dir_match nm (file_bytes dp s) k \<longleftrightarrow> de_inum (dir_entry (file_bytes dp s) k) \<noteq> 0
    \<and> namecmp nm (de_name (dir_entry (file_bytes dp s) k)) = 0" by (auto simp: dir_match_def namecmp_zero)
  show ?case
  proof (cases "dir_match nm (file_bytes dp s) k")
    case True
    then show ?thesis using t m by auto
  next
    case False
    have r: "room 0 1 {} t" using room_after [OF t(2), of 0 0 1] Cons(3) by simp
    have l: "16 * j + 16 \<le> length (file_bytes dp t)" if "j \<in> set ks" for j using Cons(4) that O(2) by simp
    obtain u where "tx_step p {} t {} u (contents t) {}" "itable u = itable t"
      "dirlookup_loop dp nm (map (\<lambda>k. of_nat (16 * k)) ks) t =
        (case find (dir_match nm (file_bytes dp s)) ks of
           None \<Rightarrow> Inr (None, u)
         | Some k \<Rightarrow> ebind (iget (i_dev (itable s dp)) (ucast (de_inum (dir_entry (file_bytes dp s) k))) u)
             (\<lambda>(ip, s). Inr (Some (ip, of_nat (16 * k)), s)))"
      using Cons(1) [OF O(1) r l] unfolding O(2) t(3) by blast
    then show ?thesis using tx_step_trans [OF t(2), of "{}" u "contents t" "{}"] t(1,3) T(2) False m
      by (auto simp del: of_nat_mult)
  qed
qed

text \<open>
  C14: \<^verbatim>\<open>dirlookup\<close> finds the first entry with the name.  In a directory that is ready, whose size is a multiple of the
  size of an entry, and with a free entry left in the table of in-memory inodes for a match, it compares names as strings of at most \<^verbatim>\<open>DIRSIZ\<close> bytes and skips free entries.  If no entry
  matches, it returns null and nothing changes; otherwise it returns the offset of the first match and the in-memory inode with the
  number of that entry, with one reference more.
\<close>

theorem dirlookup_spec:
  assumes o: "open_file p dp s" and r: "room 0 1 {} s" and d: "i_type (itable s dp) = T_DIR" "16 dvd unat (i_size (itable s dp))"
    and T: "itable_ok (itable s)" "\<exists>i<NINODE. i_ref (itable s i) = 0"
  shows "case dir_find nm (file_bytes dp s) of
      None \<Rightarrow> \<exists>t. dirlookup dp nm s = Inr (None, t) \<and> contents t = contents s \<and> itable t = itable s
    | Some k \<Rightarrow> \<exists>ip t. dirlookup dp nm s = Inr (Some (ip, of_nat (16 * k)), t) \<and> contents t = contents s \<and> itable_ok (itable t)
        \<and> entry_of (itable t) (log_dev s) (ucast (de_inum (dir_entry (file_bytes dp s) k))) ip
        \<and> refs (itable t) (log_dev s) (ucast (de_inum (dir_entry (file_bytes dp s) k)))
            = refs (itable s) (log_dev s) (ucast (de_inum (dir_entry (file_bytes dp s) k))) + 1"
proof -
  let ?F = "file_bytes dp s" and ?N = "length (file_bytes dp s) div 16"
  have l: "length ?F = unat (i_size (itable s dp))" by (simp add: file_bytes_def)
  then have n: "(unat (i_size (itable s dp)) + 15) div 16 = ?N" "16 * ?N = length ?F" using d(2) by auto
  have "16 * k + 16 \<le> length ?F" if "k \<in> set [0..<?N]" for k using that n(2) by simp
  then obtain t where t: "tx_step p {} s {} t (contents s) {}" "itable t = itable s"
    "dirlookup_loop dp nm (map (\<lambda>k. of_nat (16 * k)) [0..<?N]) s =
      (case find (dir_match nm ?F) [0..<?N] of
         None \<Rightarrow> Inr (None, t)
       | Some k \<Rightarrow> ebind (iget (i_dev (itable s dp)) (ucast (de_inum (dir_entry ?F k))) t) (\<lambda>(ip, s). Inr (Some (ip, of_nat (16 * k)), s)))"
    using dirlookup_scan [OF o r] by blast
  have dv: "i_dev (itable s dp) = log_dev s" using o by (simp add: open_file_def)
  have e: "dirlookup dp nm s = (case dir_find nm ?F of
         None \<Rightarrow> Inr (None, t)
       | Some k \<Rightarrow> ebind (iget (log_dev s) (ucast (de_inum (dir_entry ?F k))) t) (\<lambda>(ip, s). Inr (Some (ip, of_nat (16 * k)), s)))"
    using d(1) n(1) t(3) [unfolded dv] unfolding dirlookup_def dir_offsets_def dir_find_def by simp
  note S = tx_stepD [OF t(1)]
  show ?thesis
  proof (cases "dir_find nm ?F")
    case None
    then show ?thesis using e t(2) S(2) by simp
  next
    case (Some k)
    let ?n = "ucast (de_inum (dir_entry ?F k)) :: u32"
    have lk: "lock_free Lk_itable t" using quietD(4) [OF goodD(1) [OF in_txD(1) [OF S(1)]]] .
    have Tt: "itable_ok (itable t)" "\<exists>i<NINODE. i_ref (itable t i) = 0" using T t(2) by simp_all
    obtain ip u f where u: "iget (log_dev s) ?n t = Inr (ip, u)" "u = upd_inode ip f (settled t)" "itable_ok (itable u)" "entry_of (itable u) (log_dev s) ?n ip"
      "refs (itable u) (log_dev s) ?n = refs (itable t) (log_dev s) ?n + 1"
      using iget_ref [OF lk Tt(1), of "log_dev s" ?n] Tt(2) by (auto split: if_splits)
    have "contents u = contents s" using S(2) by (simp add: u(2)) (simp add: contents_def)
    then show ?thesis using e Some u(1,3-5) t(2) by simp
  qed
qed

section \<open>Witnesses\<close>

lemma fs_file_blk: "file_blk c dir_inode n = (if n = 0 then 35 else 0)" if "n \<le> MAXFILE"
  using that by (simp add: file_blk_def dir_inode_def)

lemma fs_meta: "meta fs_sb b \<longleftrightarrow> b = 33 \<or> b = 32"
proof -
  have "(0 :: u32) < 40" "(0 :: u32) < 16" by simp_all
  then show ?thesis using fs_blocks(1) fs_IBLOCK unfolding meta_def fs_sb_simps by metis
qed

lemma fs_state_open: "open_file 1 0 fs_state"
proof -
  have "fs_ok fs_sb (fs_disk fs_dirblk)"
    using fs_blocks fs_IBLOCK by (auto simp: fs_ok_def fs_meta)
  moreover have "in_use fs_sb (fs_disk fs_dirblk) 35" using fs_blocks(2) [of 35] by (simp add: in_use_def fs_meta)
  then have "file_ok fs_sb (fs_disk fs_dirblk) dir_inode"
    by (auto simp: file_ok_def fs_file_blk simp del: MAXFILE_def split: if_splits)
  moreover have "filled (fs_disk fs_dirblk) dir_inode 0 32" by (simp add: filled_def fs_file_blk)
  ultimately show ?thesis
    using fsst_of_tx unfolding open_file_def by (simp add: dir_inode_def)
qed

lemma fs_state_bytes: "file_bytes 0 fs_state = map fs_dirblk [0..<32]"
proof -
  have "file_byte (fs_disk fs_dirblk) dir_inode k = fs_dirblk k" if "k < 32" for k
    using that by (simp add: file_byte_def fs_file_blk fs_disk_def)
  then show ?thesis by (simp add: file_bytes_def) (simp add: dir_inode_def)
qed

theorem readi_spec_witness:
  "\<exists>t. readi 0 Local 16 3 fs_state = Inr ((3, [7, 0, 97]), t)"
proof -
  have "part 16 3 (file_bytes 0 fs_state) = [7, 0, 97]" unfolding fs_state_bytes part_def by (simp add: upt_rec fs_dirblk_def)
  then show ?thesis using readi_spec [OF fs_state_open fsst_of_room, of Local "[7, 0, 97]" 16 3] by (auto simp: in_kernel_def)
qed

lemma fs_state_write:
  "src_holds 1 Local [1, 2, 3, 4] fs_state 4 [1, 2, 3, 4]" "write_room 0 30 4 fs_state" "logged fs_state = {}"
proof -
  show "src_holds 1 Local [1, 2, 3, 4] fs_state 4 [1, 2, 3, 4]" by (simp add: src_holds_def)
  show l: "logged fs_state = {}" by (simp add: logged_def)
  have "span_cost (fs_disk fs_dirblk) dir_inode 30 4 = 1" by (simp add: span_cost_def blk_span_def blk_cost_def fs_file_blk)
  then show "write_room 0 30 4 fs_state"
    by (simp add: write_room_def log_need_def l inds_def ind_cost_def)
qed

theorem writei_spec_witness:
  "\<exists>w t. writei 0 Local [1, 2, 3, 4] 30 4 fs_state = Inr (int w, t)
    \<and> file_bytes 0 t = map fs_dirblk [0..<30] @ take w [1, 2, 3, 4] @ drop (30 + w) (map fs_dirblk [0..<32])"
proof -
  have "unat (30 :: u32) \<le> unat (i_size (itable fs_state 0))" by (simp add: dir_inode_def)
  moreover have "take 30 (map fs_dirblk [0..<32]) = map fs_dirblk [0..<30]" by (simp add: take_map)
  ultimately show ?thesis
    using writei_spec [OF fs_state_open, of Local "[1, 2, 3, 4]" 4 "[1, 2, 3, 4]" 30] fs_state_write fs_state_bytes by auto
qed

theorem writei_readi_witness:
  "\<exists>w t u. writei 0 Local [1, 2, 3, 4] 30 4 fs_state = Inr (int w, t)
    \<and> readi 0 Local 30 (of_nat w) t = Inr ((int w, take w [1, 2, 3, 4]), u)"
proof -
  have "unat (30 :: u32) \<le> unat (i_size (itable fs_state 0))" by (simp add: dir_inode_def)
  then show ?thesis
    using writei_readi [OF fs_state_open, of Local "[1, 2, 3, 4]" 4 "[1, 2, 3, 4]" 30] fs_state_write by simp
qed

text \<open>The process that runs has one page, at address 0x1000, and writes two bytes of it to the file.\<close>

definition fs_user :: fsst where
  "fs_user = fs_state\<lparr>mem := mem1, procs := (procs fs_state)(1 := (procs fs_state 1)\<lparr>pagetable := page_addr 0\<rparr>)\<rparr>"

lemma fs_user_view: "view d fs_user = view d fs_state"
  by (simp add: fs_user_def view_def cong: option.case_cong if_cong)

lemma fs_user_same:
  "itable fs_user = itable fs_state" "log_dev fs_user = log_dev fs_state" "sblock fs_user = sblock fs_state"
  "contents fs_user = contents fs_state" "lh_n fs_user = lh_n fs_state" "log_size fs_user = log_size fs_state"
  "outstanding fs_user = outstanding fs_state"
  by (simp_all add: contents_def fs_user_view) (simp_all add: fs_user_def)

lemma fs_user_open: "open_file 1 0 fs_user"
proof -
  have tx: "in_tx 1 {} fs_state" using fs_state_open by (simp add: open_file_def)
  have h: "locks fs_user = locks fs_state" "cpus fs_user = cpus fs_state" "hartid fs_user = hartid fs_state"
    "bufs fs_user = bufs fs_state" "lru fs_user = lru fs_state" "disk fs_user = disk fs_state"
    "sleeplocks fs_user = sleeplocks fs_state" "pid (procs fs_user 1) = pid (procs fs_state 1)" "lh_block fs_user = lh_block fs_state"
    by (simp_all add: fs_user_def)
  have "good 1 (log_dev fs_user) fs_user"
    using in_txD(1) [OF tx] by (simp add: good_def quiet_def lock_free_def mycpu_def h fs_user_same del: One_nat_def)
  then have "in_tx 1 {} fs_user"
    using tx by (simp add: in_tx_def fs_user_same fs_user_view logged_def h del: One_nat_def)
  then show ?thesis using fs_state_open by (simp add: open_file_def fs_user_same)
qed

lemma fs_user_source: "src_holds 1 (User 0x1ff0) [] fs_user 2 (uread mem1 (page_addr 0) 0x1ff0 2)"
proof -
  have "cpu_proc (mycpu fs_user) = Some 1" using fs_user_open quietD(2) goodD(1) in_txD(1) unfolding open_file_def by blast
  then show ?thesis
    using mem1_props(1,4) vm1_mapped by (simp add: src_holds_def umem_at_def fs_user_def)
qed

theorem writei_log_bound_witness:
  "\<exists>w t. writei 0 (User 0x1ff0) [] 30 2 fs_user = Inr (int w, t) \<and> lh_n t \<le> 10"
proof -
  have "unat (30 :: u32) \<le> unat (i_size (itable fs_user 0))" by (simp add: dir_inode_def fs_user_same)
  then show ?thesis
    using writei_log_bound [OF fs_user_open, of "User 0x1ff0" "[]" 2 _ 30] fs_user_source by (simp add: fs_user_same)
qed

theorem dirlookup_spec_witness:
  "\<exists>ip t. dirlookup 0 [97] fs_state = Inr (Some (ip, 16), t) \<and> entry_of (itable t) 1 7 ip"
proof -
  have e: "dir_entry (map fs_dirblk [0..<32]) 0 = [1, 0, 46, 0, 0, 0, 0, 0, 0, 0, 0, 0, 0, 0, 0, 0]"
    "dir_entry (map fs_dirblk [0..<32]) 1 = [7, 0, 97, 0, 0, 0, 0, 0, 0, 0, 0, 0, 0, 0, 0, 0]"
    by (simp_all add: dir_entry_def upt_rec fs_dirblk_def)
  have "dir_match [97] (map fs_dirblk [0..<32]) 1" "\<not> dir_match [97] (map fs_dirblk [0..<32]) 0"
    unfolding dir_match_def e by (simp_all add: de_inum_def de_name_def cname_def)
  then have f: "dir_find [97] (file_bytes 0 fs_state) = Some 1"
    unfolding fs_state_bytes by (simp add: dir_find_def upt_rec)
  have "\<exists>i<NINODE. i_ref (itable fs_state i) = 0" by (rule exI [of _ 1]) (simp add: fs_table_def no_inode_def)
  moreover have "i_type (itable fs_state 0) = T_DIR" "16 dvd unat (i_size (itable fs_state 0))"
    by (simp_all add: dir_inode_def T_DIR_def)
  ultimately show ?thesis
    using dirlookup_spec [OF fs_state_open fsst_of_room, of "[97]"] fs_table_ok f
    unfolding fs_state_bytes by (auto simp: e(2) [simplified] de_inum_def)
qed

end
