(* ===== verification/Sh.thy ===== *)
theory Sh
  imports Riscv "HOL-Library.Sublist"
begin

text \<open>
  The shell, \<^verbatim>\<open>user/sh.c\<close>: the tokenizer and the recursive-descent parser of command lines.

  The line is the list of its characters before the null byte; a \<^verbatim>\<open>char *\<close> into it is a position, the end
  of the line is its length, and the character there is the null byte.  The nodes that the code allocates are
  values of the datatype \<open>cmd\<close>, whose words are pairs of positions (\<^verbatim>\<open>argv[i]\<close>, \<^verbatim>\<open>eargv[i]\<close>);
  \<^verbatim>\<open>malloc\<close> is taken to succeed.  \<^verbatim>\<open>panic\<close> ends the process that parses the line.

  The four functions of the parser that call each other have an argument that bounds the depth of the
  recursion; \<open>parsecmd\<close> passes four times the length of the line and four, which is enough for every line.
\<close>

section \<open>Tokens\<close>

definition whitespace :: string where
  "whitespace = [CHR '' '', CHR 0x09, CHR 0x0D, CHR 0x0A, CHR 0x0B]"

definition symbols :: string where
  "symbols = ''<|>&;()''"

definition char_at :: "string \<Rightarrow> nat \<Rightarrow> char" where
  "char_at b s = (if s < length b then b ! s else CHR 0x00)"

function advance :: "(char \<Rightarrow> bool) \<Rightarrow> string \<Rightarrow> nat \<Rightarrow> nat" where
  "advance p b s = (if s < length b \<and> p (b ! s) then advance p b (s + 1) else s)"
  by pat_completeness auto
termination
  by (relation "measure (\<lambda>(p, b, s). length b - s)") auto

declare advance.simps [simp del]

abbreviation is_white :: "char \<Rightarrow> bool" where
  "is_white c \<equiv> c \<in> set whitespace"

abbreviation is_word :: "char \<Rightarrow> bool" where
  "is_word c \<equiv> c \<notin> set whitespace \<and> c \<notin> set symbols"

definition gettoken :: "string \<Rightarrow> nat \<Rightarrow> char \<times> nat \<times> nat \<times> nat" where
  "gettoken b s =
     (let q = advance is_white b s; c = char_at b q;
          (ret, eq) =
            (if c = CHR 0x00 then (c, q)
             else if c \<in> set ''|();&<'' then (c, q + 1)
             else if c = CHR ''>'' then (if char_at b (q + 1) = CHR ''>'' then (CHR ''+'', q + 2) else (c, q + 1))
             else (CHR ''a'', advance is_word b q))
      in (ret, q, eq, advance is_white b eq))"

definition peek :: "string \<Rightarrow> string \<Rightarrow> nat \<Rightarrow> bool \<times> nat" where
  "peek b toks s =
     (let s = advance is_white b s in (char_at b s \<noteq> CHR 0x00 \<and> char_at b s \<in> set toks, s))"

lemma advance_ge: "s \<le> advance p b s"
  by (induction p b s rule: advance.induct) (subst advance.simps, auto)

lemma advance_le: "s \<le> length b \<Longrightarrow> advance p b s \<le> length b"
  by (induction p b s rule: advance.induct) (subst advance.simps, auto)

lemma advance_le_max: "advance p b s \<le> max s (length b)"
  by (induction p b s rule: advance.induct) (subst advance.simps, auto)

lemma drop_advance: "drop (advance p b s) b = dropWhile p (drop s b)"
proof (induction p b s rule: advance.induct)
  case (1 p b s)
  show ?case
  proof (cases "s < length b")
    case True
    then have "drop s b = b ! s # drop (s + 1) b" by (simp add: Cons_nth_drop_Suc)
    then show ?thesis using 1 True by (subst advance.simps) auto
  qed (subst advance.simps, simp)
qed

lemma take_advance: "take (advance p b s - s) (drop s b) = takeWhile p (drop s b)"
proof (induction p b s rule: advance.induct)
  case (1 p b s)
  show ?case
  proof (cases "s < length b \<and> p (b ! s)")
    case True
    then have e: "drop s b = b ! s # drop (s + 1) b" by (simp add: Cons_nth_drop_Suc)
    have "advance p b (s + 1) - s = Suc (advance p b (s + 1) - (s + 1))" using advance_ge [of "s + 1" p b] by simp
    then show ?thesis using 1 True e by (subst advance.simps) simp
  next
    case False
    then have "takeWhile p (drop s b) = []" by (cases "s < length b") (auto simp: Cons_nth_drop_Suc [symmetric])
    moreover have "advance p b s = s" using False by (subst advance.simps) auto
    ultimately show ?thesis by simp
  qed
qed

text \<open>What is left of the line, from the next token on.\<close>

definition rest :: "string \<Rightarrow> nat \<Rightarrow> string" where
  "rest b s = dropWhile is_white (drop s b)"

definition text_at :: "string \<Rightarrow> nat \<times> nat \<Rightarrow> string" where
  "text_at b w = take (snd w - fst w) (drop (fst w) b)"

lemma rest_skip: "drop (advance is_white b s) b = rest b s" "rest b (advance is_white b s) = rest b s"
  by (simp_all add: rest_def drop_advance)

lemma rest_length: "length (rest b s) \<le> length b - s"
  using length_dropWhile_le [of is_white "drop s b"] by (simp add: rest_def)

lemma char_at_rest: "char_at b (advance is_white b s) = (case rest b s of [] \<Rightarrow> CHR 0x00 | c # _ \<Rightarrow> c)"
  unfolding rest_skip(1) [symmetric]
  by (cases "advance is_white b s < length b") (auto simp: char_at_def Cons_nth_drop_Suc [symmetric])

lemma peek_rest:
  "fst (peek b toks s) \<longleftrightarrow> (case rest b s of [] \<Rightarrow> False | c # _ \<Rightarrow> c \<noteq> CHR 0x00 \<and> c \<in> set toks)"
  "rest b (snd (peek b toks s)) = rest b s"
  by (simp_all add: peek_def Let_def char_at_rest rest_skip split: list.split)


lemma gettoken_symbol:
  assumes "rest b s = c # r" "c \<in> set ''|();&<''"
  obtains q eq s' where "gettoken b s = (c, q, eq, s')" "rest b s' = dropWhile is_white r"
proof -
  let ?q = "advance is_white b s"
  have d: "drop ?q b = c # r" using rest_skip(1) assms(1) by simp
  have "char_at b ?q = c" using char_at_rest [of b s] assms(1) by simp
  then have "gettoken b s = (c, ?q, ?q + 1, advance is_white b (?q + 1))"
    using assms(2) by (auto simp: gettoken_def Let_def)
  moreover have "drop (?q + 1) b = r" using d by (metis drop_drop drop_Suc_Cons drop0 plus_1_eq_Suc)
  then have "rest b (advance is_white b (?q + 1)) = dropWhile is_white r" by (simp add: rest_skip rest_def)
  ultimately show ?thesis by (rule that)
qed

lemma gettoken_redir:
  assumes "rest b s = op @ r" and op: "op = ''<'' \<or> op = ''>'' \<and> \<not> prefix ''>'' r \<or> op = ''>>''"
  obtains q eq s' where "gettoken b s = (if op = ''>>'' then CHR ''+'' else hd op, q, eq, s')" "rest b s' = dropWhile is_white r"
proof -
  let ?q = "advance is_white b s" and ?n = "length op"
  have d: "drop ?q b = op @ r" using rest_skip(1) assms(1) by simp
  have c: "char_at b ?q = hd op" using char_at_rest [of b s] assms by auto
  have "drop (?q + 1) b = tl (drop ?q b)" by (simp add: drop_Suc tl_drop)
  then have "drop (?q + 1) b = tl op @ r" unfolding d using op by auto
  then have c': "char_at b (?q + 1) = hd (tl op @ r @ [CHR 0x00])"
    by (cases "?q + 1 < length b") (auto simp: char_at_def hd_drop_conv_nth [symmetric] hd_append)
  have n: "char_at b (?q + 1) = CHR ''>'' \<longleftrightarrow> op = ''>>''" if "op \<noteq> ''<''"
    unfolding c' using op that by (cases r) auto
  have "drop (?q + ?n) b = r" using d by (metis drop_drop add.commute append_eq_conv_conj)
  then have "rest b (advance is_white b (?q + ?n)) = dropWhile is_white r" by (simp add: rest_skip rest_def)
  moreover have "gettoken b s = (if op = ''>>'' then CHR ''+'' else hd op, ?q, ?q + ?n, advance is_white b (?q + ?n))"
    using op n unfolding gettoken_def Let_def c by (elim disjE conjE) simp_all
  ultimately show ?thesis by (intro that)
qed

lemma gettoken_word:
  assumes "rest b s = w @ r" "w \<noteq> []" "list_all is_word w" "CHR 0x00 \<notin> set w" "r = [] \<or> \<not> is_word (hd r)"
  obtains q eq s' where "gettoken b s = (CHR ''a'', q, eq, s')" "text_at b (q, eq) = w" "rest b s' = dropWhile is_white r"
proof -
  let ?q = "advance is_white b s" and ?e = "advance is_word b (advance is_white b s)"
  have d: "drop ?q b = w @ r" using rest_skip(1) assms(1) by simp
  have c: "char_at b ?q = hd w" using char_at_rest [of b s] assms(1,2) by (cases w) auto
  have h: "is_word (hd w)" "hd w \<noteq> CHR 0x00" using assms(2-4) by (cases w; auto)+
  then have "gettoken b s = (CHR ''a'', ?q, ?e, advance is_white b ?e)"
    unfolding gettoken_def Let_def c by (auto simp: symbols_def)
  moreover have tw: "takeWhile is_word (w @ r) = w" "dropWhile is_word (w @ r) = r"
    using assms(3,5) by (cases r; auto simp: list_all_iff takeWhile_append dropWhile_append)+
  have "take (?e - ?q) (drop ?q b) = w" unfolding take_advance unfolding d by (rule tw)
  then have "text_at b (?q, ?e) = w" by (simp add: text_at_def)
  moreover have "drop ?e b = r" unfolding drop_advance [of is_word] unfolding d by (rule tw)
  ultimately show ?thesis by (intro that [of ?q ?e "advance is_white b ?e"]) (simp_all add: rest_skip rest_def)
qed

text \<open>A token that is not the end of the line takes at least one character.\<close>

lemma gettoken_progress:
  assumes "gettoken b s = (t, q, eq, s')"
  shows "length (rest b s') \<le> length (rest b s)" "t \<noteq> CHR 0x00 \<Longrightarrow> length (rest b s') < length (rest b s)"
proof -
  let ?q = "advance is_white b s"
  have q: "q = ?q" "s' = advance is_white b eq" using assms by (auto simp: gettoken_def Let_def split: prod.splits)
  have r: "length (rest b s) = length b - q" using rest_skip(1) [of b s] by (metis q(1) length_drop)
  have r': "length (rest b s') \<le> length b - eq" using rest_length [of b eq] by (simp add: q rest_skip(2))
  have w: "Suc q \<le> advance is_word b q" if "q < length b" "b ! q \<noteq> CHR ''>''" "b ! q \<notin> set ''|();&<''"
  proof -
    have "drop q b = b ! q # drop (Suc q) b" using that by (simp add: Cons_nth_drop_Suc)
    moreover have "drop q b = dropWhile is_white (drop s b)" by (simp add: q drop_advance)
    ultimately have "\<not> is_white (b ! q)" by (metis dropWhile_eq_Cons_conv)
    then have "is_word (b ! q)" using that by (auto simp: symbols_def)
    then show ?thesis using that advance_ge [of "q + 1" is_word b] by (subst advance.simps) simp
  qed
  have e: "q \<le> eq" "t \<noteq> CHR 0x00 \<Longrightarrow> q < eq \<and> q < length b"
    using assms w advance_ge [of q is_word b] unfolding q(1) [symmetric]
    by (auto simp: gettoken_def Let_def q(1) [symmetric] char_at_def split: if_splits)
  show "length (rest b s') \<le> length (rest b s)" using r r' e(1) by linarith
  show "length (rest b s') < length (rest b s)" if "t \<noteq> CHR 0x00" using r r' e(2) [OF that] by linarith
qed

section \<open>The parser\<close>

definition MAXARGS :: nat where MAXARGS_def [simp]: "MAXARGS = 10"

datatype 'w cmd =
    ExecCmd "'w list"
  | RedirCmd "'w cmd" 'w u32 int
  | PipeCmd "'w cmd" "'w cmd"
  | ListCmd "'w cmd" "'w cmd"
  | BackCmd "'w cmd"

type_synonym node = "(nat \<times> nat) cmd"

lemma peek_progress:
  assumes "peek b toks s = (m, s')"
  shows "rest b s' = rest b s" "m \<Longrightarrow> rest b s' \<noteq> [] \<and> hd (rest b s') \<in> set toks \<and> hd (rest b s') \<noteq> CHR 0x00"
  using peek_rest [of b toks s] assms by (auto split: list.splits)

lemma gettoken_nonzero:
  assumes "gettoken b s = (t, q, eq, s')" "rest b s \<noteq> []" "hd (rest b s) \<noteq> CHR 0x00"
  shows "t \<noteq> CHR 0x00"
proof -
  have "char_at b (advance is_white b s) \<noteq> CHR 0x00" using assms(2,3) by (auto simp: char_at_rest split: list.split)
  then show ?thesis using assms(1) by (auto simp: gettoken_def Let_def split: if_splits)
qed

definition redircmd :: "node \<Rightarrow> char \<Rightarrow> nat \<times> nat \<Rightarrow> node" where
  "redircmd c tok w =
     (if tok = CHR ''<'' then RedirCmd c w O_RDONLY 0
      else if tok = CHR ''>'' then RedirCmd c w (O_WRONLY OR O_CREATE OR O_TRUNC) 1
      else if tok = CHR ''+'' then RedirCmd c w (O_WRONLY OR O_CREATE) 1
      else c)"

function parseredirs :: "string \<Rightarrow> node \<Rightarrow> nat \<Rightarrow> (node \<times> nat) res" where
  "parseredirs b c s =
     (let (more, s1) = peek b ''<>'' s
      in if \<not> more then Inr (c, s1)
         else let (tok, _, _, s2) = gettoken b s1; (t, q, eq, s3) = gettoken b s2
              in if t \<noteq> CHR ''a'' then Inl (Panic ''missing file for redirection'')
                 else parseredirs b (redircmd c tok (q, eq)) s3)"
  by pat_completeness auto
termination
proof (relation "measure (\<lambda>(b, c, s). length (rest b s))")
  show "((b, redircmd c tok (q, eq), s3), (b, c, s)) \<in> measure (\<lambda>(b, c, s). length (rest b s))"
    if "x = peek b ''<>'' s" "(more, s1) = x" "\<not> \<not> more" "xa = gettoken b s1" "(tok, y) = xa" "(xb, ya) = y" "(xc, s2) = ya"
      "xd = gettoken b s2" "(t, yb) = xd" "(q, yc) = yb" "(eq, s3) = yc" "\<not> t \<noteq> CHR ''a''"
    for b c s x more s1 xa tok y xb ya xc s2 xd t yb q yc eq s3
  proof -
    have "peek b ''<>'' s = (more, s1)" "gettoken b s1 = (tok, xb, xc, s2)" "gettoken b s2 = (t, q, eq, s3)" "t \<noteq> CHR 0x00"
      using that by auto
    then show ?thesis using peek_progress(1) gettoken_progress(1) [of b s1] gettoken_progress(2) [of b s2] by fastforce
  qed
qed simp

declare parseredirs.simps [simp del]

text \<open>\<^verbatim>\<open>parseexec\<close> fills the argument array of the node it has allocated, while redirections already wrap that node.\<close>

primrec add_arg :: "'w \<Rightarrow> 'w cmd \<Rightarrow> 'w cmd" where
  "add_arg w (ExecCmd ws) = ExecCmd (ws @ [w])"
| "add_arg w (RedirCmd c f m d) = RedirCmd (add_arg w c) f m d"
| "add_arg w (PipeCmd l r) = PipeCmd l r"
| "add_arg w (ListCmd l r) = ListCmd l r"
| "add_arg w (BackCmd c) = BackCmd c"

function parseargs :: "string \<Rightarrow> nat \<Rightarrow> node \<Rightarrow> nat \<Rightarrow> (node \<times> nat) res" where
  "parseargs b argc ret s =
     (let (stop, s) = peek b ''|)&;'' s
      in if stop then Inr (ret, s)
         else let (tok, q, eq, s) = gettoken b s
              in if tok = CHR 0x00 then Inr (ret, s)
                 else if tok \<noteq> CHR ''a'' then Inl (Panic ''syntax'')
                 else if MAXARGS \<le> argc + 1 then Inl (Panic ''too many args'')
                 else ebind (parseredirs b (add_arg (q, eq) ret) s) (\<lambda>(ret, s). parseargs b (argc + 1) ret s))"
  by pat_completeness auto
termination
  by (relation "measure (\<lambda>(b, argc, ret, s). 10 - argc)") auto

declare parseargs.simps [simp del]

text \<open>The idiom \<^verbatim>\<open>if(peek(ps, es, toks)) gettoken(ps, es, 0, 0)\<close>.\<close>

definition accept :: "string \<Rightarrow> string \<Rightarrow> nat \<Rightarrow> bool \<times> nat" where
  "accept b toks s =
     (let (more, s) = peek b toks s
      in if more then let (_, _, _, s) = gettoken b s in (True, s) else (False, s))"

lemma accept_progress:
  assumes "accept b toks s = (m, s')"
  shows "m \<Longrightarrow> length (rest b s') < length (rest b s)" "\<not> m \<Longrightarrow> rest b s' = rest b s"
proof -
  obtain m1 s1 where p: "peek b toks s = (m1, s1)" by fastforce
  obtain t q eq s2 where t: "gettoken b s1 = (t, q, eq, s2)" by (metis prod_cases4)
  have a: "m = m1" "s' = (if m1 then s2 else s1)" using assms p t by (auto simp: accept_def split: if_splits)
  show "rest b s' = rest b s" if "\<not> m" using that a peek_progress(1) [OF p] by simp
  show "length (rest b s') < length (rest b s)" if m
  proof -
    have "t \<noteq> CHR 0x00" using gettoken_nonzero [OF t] peek_progress(2) [OF p] that a(1) by simp
    then show ?thesis using gettoken_progress(2) [OF t] peek_progress(1) [OF p] that a by simp
  qed
qed

function parseback :: "string \<Rightarrow> node \<Rightarrow> nat \<Rightarrow> node \<times> nat" where
  "parseback b c s = (let (more, s') = accept b ''&'' s in if more then parseback b (BackCmd c) s' else (c, s'))"
  by pat_completeness auto
termination
  by (relation "measure (\<lambda>(b, c, s). length (rest b s))") (auto dest: accept_progress(1) [OF sym])

declare parseback.simps [simp del]

function parseline :: "nat \<Rightarrow> string \<Rightarrow> nat \<Rightarrow> (node \<times> nat) res"
  and parsepipe :: "nat \<Rightarrow> string \<Rightarrow> nat \<Rightarrow> (node \<times> nat) res"
  and parseexec :: "nat \<Rightarrow> string \<Rightarrow> nat \<Rightarrow> (node \<times> nat) res"
  and parseblock :: "nat \<Rightarrow> string \<Rightarrow> nat \<Rightarrow> (node \<times> nat) res"
where
  "parseline n b s = (case n of 0 \<Rightarrow> Inl Fuel | Suc n \<Rightarrow>
     ebind (parsepipe n b s) (\<lambda>(c, s).
     let (c, s) = parseback b c s; (more, s) = accept b '';'' s
     in if more then ebind (parseline n b s) (\<lambda>(r, s). Inr (ListCmd c r, s)) else Inr (c, s)))"
| "parsepipe n b s = (case n of 0 \<Rightarrow> Inl Fuel | Suc n \<Rightarrow>
     ebind (parseexec n b s) (\<lambda>(c, s).
     let (more, s) = accept b ''|'' s
     in if more then ebind (parsepipe n b s) (\<lambda>(r, s). Inr (PipeCmd c r, s)) else Inr (c, s)))"
| "parseexec n b s = (case n of 0 \<Rightarrow> Inl Fuel | Suc n \<Rightarrow>
     (let (block, s) = peek b ''('' s
      in if block then parseblock n b s
         else ebind (parseredirs b (ExecCmd []) s) (\<lambda>(ret, s). parseargs b 0 ret s)))"
| "parseblock n b s = (case n of 0 \<Rightarrow> Inl Fuel | Suc n \<Rightarrow>
     (let (opn, s) = accept b ''('' s
      in if \<not> opn then Inl (Panic ''parseblock'')
         else ebind (parseline n b s) (\<lambda>(c, s).
              let (cls, s) = accept b '')'' s
              in if \<not> cls then Inl (Panic ''syntax - missing )'') else parseredirs b c s)))"
  by pat_completeness auto
termination
  by (relation "measure (case_sum (case_sum fst fst) (case_sum fst fst))") auto

declare parseline.simps [simp del] parsepipe.simps [simp del] parseexec.simps [simp del] parseblock.simps [simp del]

primrec nulterminate :: "node \<Rightarrow> string \<Rightarrow> string" where
  "nulterminate (ExecCmd ws) m = fold (\<lambda>w m. m[snd w := CHR 0x00]) ws m"
| "nulterminate (RedirCmd c f _ _) m = (nulterminate c m)[snd f := CHR 0x00]"
| "nulterminate (PipeCmd l r) m = nulterminate r (nulterminate l m)"
| "nulterminate (ListCmd l r) m = nulterminate r (nulterminate l m)"
| "nulterminate (BackCmd c) m = nulterminate c m"

definition parsecmd :: "string \<Rightarrow> (node \<times> string) res" where
  "parsecmd b =
     ebind (parseline (4 * length b + 4) b 0) (\<lambda>(c, s).
     let (_, s) = peek b '''' s
     in if s \<noteq> length b then Inl (Panic ''syntax'') else Inr (c, nulterminate c (b @ [CHR 0x00])))"

section \<open>Every line is parsed or refused\<close>

text \<open>A word of the line: characters that are neither white space nor operators, as many as there are.\<close>

definition word_ok :: "string \<Rightarrow> nat \<times> nat \<Rightarrow> bool" where
  "word_ok b w \<longleftrightarrow> fst w < snd w \<and> snd w \<le> length b \<and> (\<forall>i. fst w \<le> i \<and> i < snd w \<longrightarrow> is_word (b ! i))
     \<and> (snd w < length b \<longrightarrow> \<not> is_word (b ! snd w))"

lemma advance_all: "s \<le> i \<Longrightarrow> i < advance p b s \<Longrightarrow> p (b ! i)"
proof (induction p b s rule: advance.induct)
  case (1 p b s)
  then show ?case by (cases "i = s"; subst (asm) advance.simps) (auto split: if_splits)
qed

lemma advance_stop: "advance p b s < length b \<Longrightarrow> \<not> p (b ! advance p b s)"
  by (induction p b s rule: advance.induct) (metis advance.simps)

lemma gettoken_ok: "gettoken b s = (CHR ''a'', q, eq, s') \<Longrightarrow> word_ok b (q, eq)"
proof -
  assume t: "gettoken b s = (CHR ''a'', q, eq, s')"
  let ?q = "advance is_white b s"
  have q: "q = ?q" "?q < length b" "eq = advance is_word b ?q" "b ! ?q \<notin> set ''|();&<''" "b ! ?q \<noteq> CHR ''>''"
    using t by (auto simp: gettoken_def Let_def char_at_def split: if_splits)
  have "\<not> is_white (b ! ?q)" using advance_stop [OF q(2)] .
  then have "is_word (b ! ?q)" using q(4,5) by (auto simp: symbols_def)
  then have "?q < eq" using q(2,3) advance_ge [of "?q + 1" is_word b] by (subst (asm) advance.simps) simp
  then show ?thesis
    using q(1,2,3) advance_le [of ?q b is_word] advance_all [of ?q _ is_word b] advance_stop [of is_word b ?q]
    unfolding word_ok_def by auto
qed

lemma parseredirs_cases:
  assumes "parseredirs b c s = r"
  obtains s1 where "r = Inr (c, s1)" "rest b s1 = rest b s"
  | "r = Inl (Panic ''missing file for redirection'')"
  | c1 w m d s1 where "c1 = c \<or> c1 = RedirCmd c w m d" "word_ok b w" "length (rest b s1) < length (rest b s)" "r = parseredirs b c1 s1"
proof -
  obtain more s1 where p: "peek b ''<>'' s = (more, s1)" by fastforce
  obtain tok q0 e0 s2 where t: "gettoken b s1 = (tok, q0, e0, s2)" by (metis prod_cases4)
  obtain u q eq s3 where u: "gettoken b s2 = (u, q, eq, s3)" by (metis prod_cases4)
  have r: "r = (if \<not> more then Inr (c, s1) else if u \<noteq> CHR ''a'' then Inl (Panic ''missing file for redirection'')
      else parseredirs b (redircmd c tok (q, eq)) s3)"
    using assms by (subst (asm) parseredirs.simps) (auto simp: p t u)
  consider "\<not> more" | "more" "u \<noteq> CHR ''a''" | "more" "u = CHR ''a''" by blast
  then show ?thesis
  proof cases
    case 1
    then show ?thesis using r peek_progress(1) [OF p] that(1) by simp
  next
    case 2
    then show ?thesis using r that(2) by simp
  next
    case 3
    have "length (rest b s3) < length (rest b s)"
      using peek_progress(1) [OF p] gettoken_progress(1) [OF t] gettoken_progress(2) [OF u] 3 by simp
    moreover obtain m d where "redircmd c tok (q, eq) = c \<or> redircmd c tok (q, eq) = RedirCmd c (q, eq) m d"
      by (metis redircmd_def)
    moreover have "word_ok b (q, eq)" using u 3 gettoken_ok by simp
    moreover have "r = parseredirs b (redircmd c tok (q, eq)) s3" using r 3 by simp
    ultimately show ?thesis using that(3) by blast
  qed
qed

definition sound :: "string \<Rightarrow> nat \<Rightarrow> (node \<times> nat) res \<Rightarrow> bool" where
  "sound b s r \<longleftrightarrow>
     (case r of Inl f \<Rightarrow> (\<exists>m. f = Panic m)
      | Inr (c, s') \<Rightarrow> set_cmd c \<subseteq> Collect (word_ok b) \<and> length (rest b s') \<le> length (rest b s))"

lemma sound_simps [simp]:
  "sound b s (Inl (Panic m))"
  "sound b s (Inr (c, s')) \<longleftrightarrow> set_cmd c \<subseteq> Collect (word_ok b) \<and> length (rest b s') \<le> length (rest b s)"
  by (simp_all add: sound_def)

lemma sound_mono: "sound b s1 r \<Longrightarrow> length (rest b s1) \<le> length (rest b s) \<Longrightarrow> sound b s r"
  by (auto simp: sound_def split: sum.splits)

lemma sound_bind:
  assumes "sound b s r"
    and "\<And>c s1. set_cmd c \<subseteq> Collect (word_ok b) \<Longrightarrow> length (rest b s1) \<le> length (rest b s) \<Longrightarrow> sound b s1 (k (c, s1))"
  shows "sound b s (ebind r k)"
  using assms sound_mono by (cases r) (fastforce simp: sound_def)+

lemma parseredirs_sound: "set_cmd c \<subseteq> Collect (word_ok b) \<Longrightarrow> sound b s (parseredirs b c s)"
proof (induction "length (rest b s)" arbitrary: c s rule: less_induct)
  case less
  from refl show ?case
  proof (cases rule: parseredirs_cases [of b c s])
    case (3 c1 w m d s1)
    have "set_cmd c1 \<subseteq> Collect (word_ok b)" using 3(1,2) less(2) by auto
    then have "sound b s1 (parseredirs b c1 s1)" by (rule less(1) [OF 3(3)])
    then show ?thesis using 3(3,4) sound_mono by simp
  qed (use less(2) in simp_all)
qed

lemma set_add_arg: "set_cmd (add_arg w c) \<subseteq> insert w (set_cmd c)"
  by (induction c) auto

lemma parseargs_sound: "set_cmd c \<subseteq> Collect (word_ok b) \<Longrightarrow> sound b s (parseargs b n c s)"
proof (induction "10 - n" arbitrary: n c s rule: less_induct)
  case less
  obtain stop s1 where p: "peek b ''|)&;'' s = (stop, s1)" by fastforce
  obtain t q eq s2 where t: "gettoken b s1 = (t, q, eq, s2)" by (metis prod_cases4)
  note r = peek_progress(1) [OF p] gettoken_progress(1) [OF t]
  show ?case
  proof (cases "\<not> stop \<and> t = CHR ''a'' \<and> \<not> MAXARGS \<le> n + 1")
    case True
    have "word_ok b (q, eq)" using t True gettoken_ok by simp
    then have "sound b s2 (parseredirs b (add_arg (q, eq) c) s2)"
      using less(2) set_add_arg [of "(q, eq)" c] by (intro parseredirs_sound) auto
    moreover have "10 - (n + 1) < 10 - n" using True by auto
    note IH = less(1) [OF this]
    ultimately have "sound b s2 (ebind (parseredirs b (add_arg (q, eq) c) s2) (\<lambda>(ret, s). parseargs b (n + 1) ret s))"
      by (intro sound_bind) (use IH in simp_all)
    then show ?thesis using True r sound_mono by (subst parseargs.simps) (simp add: p t)
  next
    case False
    then show ?thesis using less(2) r by (subst parseargs.simps) (auto simp: p t)
  qed
qed

lemma parseback_sound:
  "set_cmd c \<subseteq> Collect (word_ok b) \<Longrightarrow> parseback b c s = (c', s') \<Longrightarrow>
    set_cmd c' \<subseteq> Collect (word_ok b) \<and> length (rest b s') \<le> length (rest b s)"
proof (induction b c s rule: parseback.induct)
  case (1 b c s)
  obtain m s1 where a: "accept b ''&'' s = (m, s1)" by fastforce
  then show ?case
    using 1 accept_progress [OF a] by (subst (asm) (2) parseback.simps) (cases m; fastforce)
qed

lemma accept_sound:
  assumes "set_cmd c \<subseteq> Collect (word_ok b)"
    and "\<And>s1. length (rest b s1) < length (rest b s) \<Longrightarrow> sound b s1 (P s1)"
    and "\<And>r. set_cmd (K r) = set_cmd c \<union> set_cmd r"
  shows "sound b s (let (more, s) = accept b toks s in if more then ebind (P s) (\<lambda>(r, s). Inr (K r, s)) else Inr (c, s))"
proof -
  obtain m s1 where a: "accept b toks s = (m, s1)" by fastforce
  show ?thesis
  proof (cases m)
    case True
    have l: "length (rest b s1) < length (rest b s)" using accept_progress(1) [OF a] True by simp
    have "sound b s1 (ebind (P s1) (\<lambda>(r, s). Inr (K r, s)))"
      by (rule sound_bind [OF assms(2) [OF l]]) (use assms(1,3) in auto)
    then show ?thesis using True a l sound_mono by auto
  next
    case False
    then show ?thesis using a assms(1) accept_progress(2) [OF a] by simp
  qed
qed

text \<open>A bound on the recursion that is enough for what is left of the line.\<close>

definition fuel_ok :: "string \<Rightarrow> nat \<Rightarrow> bool" where
  "fuel_ok b n \<longleftrightarrow> (\<forall>s. (4 * length (rest b s) + 4 \<le> n \<longrightarrow> sound b s (parseline n b s))
     \<and> (4 * length (rest b s) + 3 \<le> n \<longrightarrow> sound b s (parsepipe n b s))
     \<and> (4 * length (rest b s) + 2 \<le> n \<longrightarrow> sound b s (parseexec n b s))
     \<and> (4 * length (rest b s) + 1 \<le> n \<longrightarrow> sound b s (parseblock n b s)))"

lemma parseline_sound:
  assumes n: "fuel_ok b n" "4 * length (rest b s) + 4 \<le> Suc n"
  shows "sound b s (parseline (Suc n) b s)"
proof -
  have "sound b s1 (let (c, s) = parseback b c s1; (more, s) = accept b '';'' s
      in if more then ebind (parseline n b s) (\<lambda>(r, s). Inr (ListCmd c r, s)) else Inr (c, s))"
    if c: "set_cmd c \<subseteq> Collect (word_ok b)" "length (rest b s1) \<le> length (rest b s)" for c s1
  proof -
    obtain c2 s2 where p: "parseback b c s1 = (c2, s2)" by fastforce
    note c2 = parseback_sound [OF c(1) p]
    have "sound b s2 (let (more, s) = accept b '';'' s2
        in if more then ebind (parseline n b s) (\<lambda>(r, s). Inr (ListCmd c2 r, s)) else Inr (c2, s))"
      by (rule accept_sound) (use c2 c(2) n in \<open>auto simp: fuel_ok_def\<close>)
    then show ?thesis using p c2 sound_mono by simp
  qed
  then show ?thesis using n by (subst parseline.simps) (auto intro!: sound_bind simp: fuel_ok_def)
qed

lemma parsepipe_sound:
  assumes n: "fuel_ok b n" "4 * length (rest b s) + 3 \<le> Suc n"
  shows "sound b s (parsepipe (Suc n) b s)"
proof -
  have "sound b s1 (let (more, s) = accept b ''|'' s1
      in if more then ebind (parsepipe n b s) (\<lambda>(r, s). Inr (PipeCmd c r, s)) else Inr (c, s))"
    if "set_cmd c \<subseteq> Collect (word_ok b)" "length (rest b s1) \<le> length (rest b s)" for c s1
    by (rule accept_sound) (use that n in \<open>auto simp: fuel_ok_def\<close>)
  then show ?thesis using n by (subst parsepipe.simps) (auto intro!: sound_bind simp: fuel_ok_def)
qed

lemma parseexec_sound:
  assumes n: "fuel_ok b n" "4 * length (rest b s) + 2 \<le> Suc n"
  shows "sound b s (parseexec (Suc n) b s)"
proof -
  obtain m s1 where p: "peek b ''('' s = (m, s1)" by fastforce
  have "sound b s1 (parseblock n b s1)" using n peek_progress(1) [OF p] by (simp add: fuel_ok_def)
  moreover have "sound b s1 (ebind (parseredirs b (ExecCmd []) s1) (\<lambda>(ret, s). parseargs b 0 ret s))"
    by (rule sound_bind) (auto intro: parseredirs_sound parseargs_sound)
  ultimately show ?thesis using peek_progress(1) [OF p] sound_mono by (subst parseexec.simps) (simp add: p)
qed

lemma parseblock_sound:
  assumes n: "fuel_ok b n" "4 * length (rest b s) + 1 \<le> Suc n"
  shows "sound b s (parseblock (Suc n) b s)"
proof -
  obtain m s1 where a: "accept b ''('' s = (m, s1)" by fastforce
  have close: "sound b s2 (let (cls, s) = accept b '')'' s2 in if \<not> cls then Inl (Panic ''syntax - missing )'') else parseredirs b c s)"
    if c: "set_cmd c \<subseteq> Collect (word_ok b)" for c s2
  proof -
    obtain m' s3 where a': "accept b '')'' s2 = (m', s3)" by fastforce
    have "sound b s2 (parseredirs b c s3)" if m'
      using parseredirs_sound [OF c, of s3] accept_progress(1) [OF a' that] by (auto intro: sound_mono)
    then show ?thesis by (simp add: a')
  qed
  show ?thesis
  proof (cases m)
    case True
    have l: "length (rest b s1) < length (rest b s)" using accept_progress(1) [OF a] True by simp
    then have "sound b s1 (parseline n b s1)" using n by (simp add: fuel_ok_def)
    then have "sound b s1 (ebind (parseline n b s1) (\<lambda>(c, s). let (cls, s) = accept b '')'' s
        in if \<not> cls then Inl (Panic ''syntax - missing )'') else parseredirs b c s))"
      by (rule sound_bind) (use close in simp)
    then show ?thesis using True l sound_mono by (subst parseblock.simps) (simp add: a)
  next
    case False
    then show ?thesis by (subst parseblock.simps) (simp add: a)
  qed
qed

lemma parser_sound: "fuel_ok b n"
proof (induction n)
  case 0
  then show ?case by (simp add: fuel_ok_def)
next
  case (Suc n)
  note step = parseline_sound [OF Suc] parsepipe_sound [OF Suc] parseexec_sound [OF Suc] parseblock_sound [OF Suc]
  show ?case unfolding fuel_ok_def [of b "Suc n"] using step by blast
qed

section \<open>The words of a command\<close>

definition cstring :: "string \<Rightarrow> nat \<times> nat \<Rightarrow> string" where
  "cstring m w = takeWhile (\<lambda>c. c \<noteq> CHR 0x00) (drop (fst w) m)"

lemma fold_null_length [simp]: "length (fold (\<lambda>w m. m[snd w := CHR 0x00]) ws m) = length m"
  by (induction ws arbitrary: m) auto

lemma nulterminate_length [simp]: "length (nulterminate c m) = length m"
  by (induction c arbitrary: m) auto

lemma fold_null_nth:
  "i < length m \<Longrightarrow> fold (\<lambda>w m. m[snd w := CHR 0x00]) ws m ! i = (if i \<in> snd ` set ws then CHR 0x00 else m ! i)"
  by (induction ws arbitrary: m) (auto simp: nth_list_update)

lemma nulterminate_nth:
  "i < length m \<Longrightarrow> nulterminate c m ! i = (if i \<in> snd ` set_cmd c then CHR 0x00 else m ! i)"
proof (induction c arbitrary: m)
  case (RedirCmd c f mode fd)
  then show ?case by (cases "snd f < length m") (auto simp: nth_list_update image_Un)
qed (simp_all add: fold_null_nth image_Un)

lemma text_at_nth: "word_ok b w \<Longrightarrow> length (text_at b w) = snd w - fst w \<and> (\<forall>i. i < snd w - fst w \<longrightarrow> text_at b w ! i = b ! (fst w + i))"
  by (auto simp: word_ok_def text_at_def)

lemma nulterminate_word:
  assumes c: "set_cmd c \<subseteq> Collect (word_ok b)" and w: "w \<in> set_cmd c" and b: "CHR 0x00 \<notin> set b"
  shows "cstring (nulterminate c (b @ [CHR 0x00])) w = text_at b w"
proof -
  let ?m = "nulterminate c (b @ [CHR 0x00])" and ?k = "snd w - fst w"
  have ok: "word_ok b w" using c w by auto
  then have k: "fst w < snd w" "snd w \<le> length b" by (auto simp: word_ok_def)
  have keep: "?m ! i = b ! i" if "fst w \<le> i" "i < snd w" for i
  proof -
    have "i \<notin> snd ` set_cmd c"
    proof
      assume "i \<in> snd ` set_cmd c"
      then obtain v where "v \<in> set_cmd c" "i = snd v" by auto
      then have "word_ok b v" "i = snd v" using c by auto
      then show False using that ok by (auto simp: word_ok_def)
    qed
    then show ?thesis using that k by (simp add: nulterminate_nth nth_append)
  qed
  have z: "?m ! snd w = CHR 0x00" using w k by (simp add: nulterminate_nth)
  have l: "length ?m = Suc (length b)" by (simp add: nulterminate_nth)
  have "drop (fst w) ?m = text_at b w @ drop (snd w) ?m"
    by (rule nth_equalityI) (use k l keep text_at_nth [OF ok] in \<open>auto simp: nth_append add.commute\<close>)
  moreover have "drop (snd w) ?m = CHR 0x00 # drop (Suc (snd w)) ?m" using z k l by (metis Cons_nth_drop_Suc le_imp_less_Suc)
  moreover have "CHR 0x00 \<notin> set (text_at b w)" using b by (auto simp: text_at_def dest: in_set_takeD in_set_dropD)
  ultimately show ?thesis by (auto simp: cstring_def takeWhile_append)
qed

lemma parsecmd_sound:
  shows "parsecmd b = Inl f \<Longrightarrow> \<exists>m. f = Panic m"
    and "parsecmd b = Inr (c, m) \<Longrightarrow> set_cmd c \<subseteq> Collect (word_ok b) \<and> m = nulterminate c (b @ [CHR 0x00])"
proof -
  have "sound b 0 (parseline (4 * length b + 4) b 0)"
    using parser_sound [of b "4 * length b + 4"] rest_length [of b 0] by (simp add: fuel_ok_def)
  then show "parsecmd b = Inl f \<Longrightarrow> \<exists>m. f = Panic m"
    and "parsecmd b = Inr (c, m) \<Longrightarrow> set_cmd c \<subseteq> Collect (word_ok b) \<and> m = nulterminate c (b @ [CHR 0x00])"
    by (cases "parseline (4 * length b + 4) b 0"; auto simp: parsecmd_def sound_def peek_def Let_def split: if_splits)+
qed

text \<open>
  C34: \<^verbatim>\<open>parsecmd\<close> ends for every line: it refuses the line with one of its messages, or returns a command whose
  argument and file strings, read from the buffer after \<^verbatim>\<open>nulterminate\<close>, are the words between the positions that
  the parser recorded: not empty, without white space and operators; the null bytes written for one word
  cut no other word short.
\<close>

theorem parsecmd_words:
  assumes "CHR 0x00 \<notin> set b"
  shows "case parsecmd b of
      Inl f \<Rightarrow> \<exists>m. f = Panic m
    | Inr (c, m) \<Rightarrow> length m = length b + 1
        \<and> map_cmd (cstring m) c = map_cmd (text_at b) c
        \<and> (\<forall>v \<in> set_cmd (map_cmd (cstring m) c). v \<noteq> [] \<and> list_all is_word v)"
proof (cases "parsecmd b")
  case (Inl f)
  then show ?thesis using parsecmd_sound(1) by simp
next
  case (Inr r)
  obtain c m where r: "r = (c, m)" by fastforce
  have c: "set_cmd c \<subseteq> Collect (word_ok b)" and m: "m = nulterminate c (b @ [CHR 0x00])"
    using parsecmd_sound(2) Inr r by auto
  have e: "cstring m w = text_at b w" if "w \<in> set_cmd c" for w using nulterminate_word [OF c that assms] m by simp
  then have "map_cmd (cstring m) c = map_cmd (text_at b) c" by (rule cmd.map_cong0)
  moreover have "text_at b w \<noteq> [] \<and> list_all is_word (text_at b w)" if "w \<in> set_cmd c" for w
  proof -
    have "word_ok b w" using c that by auto
    then show ?thesis using text_at_nth [of b w] unfolding word_ok_def list_all_length by force
  qed
  ultimately show ?thesis using Inr r m e by (simp add: cmd.set_map nulterminate_nth)
qed

section \<open>Printing and parsing\<close>

text \<open>
  A line for a command: operators as the parser knows them, and parentheses where the grammar needs
  them.  The number is the level of the grammar: 0 for a line, 1 for what may be put in the background, 2 for a pipeline,
  3 for an operand of a pipeline.
\<close>

definition redir_op :: "u32 \<Rightarrow> int \<Rightarrow> string" where
  "redir_op m d =
     (if m = O_RDONLY then ''<'' else if m = O_WRONLY OR O_CREATE OR O_TRUNC then ''>'' else ''>>'')"

definition print_redir :: "string \<times> u32 \<times> int \<Rightarrow> string" where
  "print_redir r = (case r of (f, m, d) \<Rightarrow> '' '' @ redir_op m d @ '' '' @ f)"

definition parens :: "bool \<Rightarrow> string \<Rightarrow> string" where
  "parens p v = (if p then '' ('' @ v @ '' )'' else v)"

primrec print :: "string cmd \<Rightarrow> nat \<Rightarrow> string" where
  "print (ExecCmd ws) p = concat (map (\<lambda>w. '' '' @ w) ws)"
| "print (RedirCmd c f m d) p = print c 3 @ print_redir (f, m, d)"
| "print (PipeCmd l r) p = parens (2 < p) (print l 3 @ '' |'' @ print r 2)"
| "print (BackCmd c) p = parens (1 < p) (print c 1 @ '' &'')"
| "print (ListCmd l r) p = parens (0 < p) (print l 1 @ '' ;'' @ print r 0)"

definition plain :: "string \<Rightarrow> bool" where
  "plain v \<longleftrightarrow> v \<noteq> [] \<and> list_all is_word v \<and> CHR 0x00 \<notin> set v"

definition redir_ok :: "string \<times> u32 \<times> int \<Rightarrow> bool" where
  "redir_ok r = (case r of (f, m, d) \<Rightarrow> plain f \<and>
     (m, d) \<in> {(O_RDONLY, 0), (O_WRONLY OR O_CREATE OR O_TRUNC, 1), (O_WRONLY OR O_CREATE, 1)})"

primrec cmd_ok :: "string cmd \<Rightarrow> bool" where
  "cmd_ok (ExecCmd ws) \<longleftrightarrow> length ws < MAXARGS \<and> list_all plain ws"
| "cmd_ok (RedirCmd c f m d) \<longleftrightarrow> cmd_ok c \<and> redir_ok (f, m, d)"
| "cmd_ok (PipeCmd l r) \<longleftrightarrow> cmd_ok l \<and> cmd_ok r"
| "cmd_ok (BackCmd c) \<longleftrightarrow> cmd_ok c"
| "cmd_ok (ListCmd l r) \<longleftrightarrow> cmd_ok l \<and> cmd_ok r"

text \<open>The text from a position on, up to white space; and what may follow a command.\<close>

definition reads :: "string \<Rightarrow> nat \<Rightarrow> string \<Rightarrow> bool" where
  "reads b s k \<longleftrightarrow> s \<le> length b \<and> rest b s = dropWhile is_white k"

definition follow :: "string \<Rightarrow> string \<Rightarrow> bool" where
  "follow toks k \<longleftrightarrow> (k = [] \<or> \<not> is_word (hd k)) \<and> (dropWhile is_white k = [] \<or> hd (dropWhile is_white k) \<in> set toks)"

lemma white_space [simp]: "is_white (CHR '' '')" by (simp add: whitespace_def)

lemma white_symbol [simp]: "c \<in> set ''|();&<>'' \<Longrightarrow> \<not> is_white c" by (auto simp: whitespace_def)

lemma reads_peek:
  assumes "reads b s k"
  obtains s' where "peek b toks s = (case dropWhile is_white k of [] \<Rightarrow> False | c # _ \<Rightarrow> c \<noteq> CHR 0x00 \<and> c \<in> set toks, s')" "reads b s' k"
proof -
  have "peek b toks s = (fst (peek b toks s), advance is_white b s)" by (simp add: peek_def Let_def)
  moreover have "advance is_white b s \<le> length b" using advance_le assms by (simp add: reads_def)
  ultimately show ?thesis using that peek_rest [of b toks s] assms by (auto simp: reads_def rest_skip)
qed

lemma gettoken_bound:
  assumes "gettoken b s = (t, q, eq, s')" "s \<le> length b"
  shows "s' \<le> length b"
proof -
  let ?q = "advance is_white b s"
  have "?q \<le> length b" "advance is_word b ?q \<le> length b" using advance_le assms(2) by auto
  then have "eq \<le> length b" "s' = advance is_white b eq"
    using assms(1) by (auto simp: gettoken_def Let_def char_at_def split: if_splits)
  then show ?thesis using advance_le by simp
qed

lemma reads_accept:
  assumes "reads b s (c # r)" "c \<in> set ''|();&<''" "c \<in> set toks"
  obtains s' where "accept b toks s = (True, s')" "reads b s' r"
proof -
  have w: "\<not> is_white c" using assms(2) by (intro white_symbol) auto
  obtain s1 where p: "peek b toks s = (True, s1)" and r: "reads b s1 (c # r)"
    by (rule reads_peek [OF assms(1), of toks]) (use w assms(2,3) in auto)
  have "rest b s1 = c # r" using w r by (simp add: reads_def)
  then obtain q eq s' where g: "gettoken b s1 = (c, q, eq, s')" "rest b s' = dropWhile is_white r"
    by (rule gettoken_symbol [OF _ assms(2)])
  have "reads b s' r" using g gettoken_bound [OF g(1)] r by (simp add: reads_def)
  moreover have "accept b toks s = (True, s')" by (simp add: accept_def p g)
  ultimately show ?thesis using that by blast
qed

lemma reads_reject:
  assumes "reads b s k" "follow ops k" "set ops \<inter> set toks = {}"
  obtains s' where "peek b toks s = (False, s')" "accept b toks s = (False, s')" "reads b s' k"
proof -
  obtain s' where p: "peek b toks s = (False, s')" and r: "reads b s' k"
    by (rule reads_peek [OF assms(1), of toks]) (use assms(2,3) in \<open>auto simp: follow_def simp del: dropWhile_eq_Nil_conv split: list.splits\<close>)
  then show ?thesis using that by (simp add: accept_def)
qed

lemma reads_word:
  assumes "reads b s (v @ k)" "plain v" "k = [] \<or> \<not> is_word (hd k)"
  obtains q eq s' where "gettoken b s = (CHR ''a'', q, eq, s')" "text_at b (q, eq) = v" "reads b s' k"
proof -
  have "dropWhile is_white (v @ k) = v @ k" using assms(2) by (cases v) (auto simp: plain_def)
  then have "rest b s = v @ k" using assms(1) by (simp add: reads_def)
  then obtain q eq s' where g: "gettoken b s = (CHR ''a'', q, eq, s')" "text_at b (q, eq) = v" "rest b s' = dropWhile is_white k"
    by (rule gettoken_word) (use assms(2,3) in \<open>auto simp: plain_def\<close>)
  then show ?thesis using that gettoken_bound [OF g(1)] assms(1) by (simp add: reads_def)
qed

lemma reads_space: "reads b s (CHR '' '' # k) \<longleftrightarrow> reads b s k"
  by (simp add: reads_def)

lemma reads_redir:
  assumes "reads b s (print_redir (f, m, d) @ k)" "redir_ok (f, m, d)" "k = [] \<or> \<not> is_word (hd k)"
  obtains s1 tok q0 e0 s2 q eq s3 where "peek b ''<>'' s = (True, s1)" "gettoken b s1 = (tok, q0, e0, s2)"
    "gettoken b s2 = (CHR ''a'', q, eq, s3)" "map_cmd (text_at b) (redircmd c tok (q, eq)) = RedirCmd (map_cmd (text_at b) c) f m d"
    "reads b s3 k"
proof -
  let ?op = "redir_op m d" and ?k = "'' '' @ f @ k"
  have op: "?op = ''<'' \<or> ?op = ''>'' \<or> ?op = ''>>''" by (auto simp: redir_op_def)
  have r: "reads b s (?op @ ?k)" using assms(1) by (simp add: print_redir_def reads_space)
  have w: "dropWhile is_white (?op @ ?k) = ?op @ ?k" using op white_symbol [of "CHR ''<''"] white_symbol [of "CHR ''>''"] by auto
  obtain s1 where p: "peek b ''<>'' s = (True, s1)" and r1: "reads b s1 (?op @ ?k)"
    by (rule reads_peek [OF r, of "''<>''"]) (use w op in \<open>auto split: list.splits\<close>)
  have "rest b s1 = ?op @ ?k" using r1 w by (simp add: reads_def)
  then obtain q0 e0 s2 where g: "gettoken b s1 = (if ?op = ''>>'' then CHR ''+'' else hd ?op, q0, e0, s2)" "rest b s2 = dropWhile is_white ?k"
    by (rule gettoken_redir) (use op in auto)
  have "reads b s2 (f @ k)" using g gettoken_bound [OF g(1)] r1 by (simp add: reads_def)
  then obtain q eq s3 where h: "gettoken b s2 = (CHR ''a'', q, eq, s3)" "text_at b (q, eq) = f" "reads b s3 k"
    by (rule reads_word) (use assms(2,3) in \<open>auto simp: redir_ok_def\<close>)
  have "map_cmd (text_at b) (redircmd c (if ?op = ''>>'' then CHR ''+'' else hd ?op) (q, eq)) = RedirCmd (map_cmd (text_at b) c) f m d"
    using assms(2) h(2) by (auto simp: redircmd_def redir_op_def redir_ok_def O_RDONLY_def O_WRONLY_def O_CREATE_def O_TRUNC_def)
  then show ?thesis using that p g(1) h by blast
qed

definition wrap :: "'w \<times> u32 \<times> int \<Rightarrow> 'w cmd \<Rightarrow> 'w cmd" where
  "wrap r c = (case r of (f, m, d) \<Rightarrow> RedirCmd c f m d)"

lemma wrap_simp: "wrap (f, m, d) c = RedirCmd c f m d" by (simp add: wrap_def)

definition print_redirs :: "(string \<times> u32 \<times> int) list \<Rightarrow> string" where
  "print_redirs rs = concat (map print_redir rs)"

lemma print_redir_hd: "\<not> is_word (hd (print_redir r @ k))" "print_redir r \<noteq> []"
  by (cases r; simp add: print_redir_def)+

lemma sep_redirs: "k = [] \<or> \<not> is_word (hd k) \<Longrightarrow> print_redirs rs @ k = [] \<or> \<not> is_word (hd (print_redirs rs @ k))"
  using print_redir_hd by (cases rs) (auto simp: print_redirs_def)

lemma parse_redirs:
  assumes "reads b s (print_redirs rs @ k)" "list_all redir_ok rs" "k = [] \<or> \<not> is_word (hd k)"
    and "dropWhile is_white k = [] \<or> hd (dropWhile is_white k) \<notin> set ''<>''"
  obtains c' s' where "parseredirs b c s = Inr (c', s')" "reads b s' k" "map_cmd (text_at b) c' = fold wrap rs (map_cmd (text_at b) c)"
  using assms
proof (induction rs arbitrary: c s thesis)
  case Nil
  obtain s1 where "peek b ''<>'' s = (False, s1)" "reads b s1 k"
    by (rule reads_peek [of b s k "''<>''"])
      (use Nil(2,5) in \<open>auto simp: print_redirs_def simp del: dropWhile_eq_Nil_conv split: list.splits\<close>)
  then show ?case by (intro Nil(1) [of c s1]) (simp_all add: parseredirs.simps [of b c s])
next
  case (Cons r rs)
  obtain f m d where f: "r = (f, m, d)" by (metis prod_cases3)
  have "reads b s (print_redir (f, m, d) @ print_redirs rs @ k)" using Cons(3) by (simp add: print_redirs_def f)
  then obtain s1 tok q0 e0 s2 q eq s3 where t: "peek b ''<>'' s = (True, s1)" "gettoken b s1 = (tok, q0, e0, s2)"
      "gettoken b s2 = (CHR ''a'', q, eq, s3)" "map_cmd (text_at b) (redircmd c tok (q, eq)) = RedirCmd (map_cmd (text_at b) c) f m d"
      "reads b s3 (print_redirs rs @ k)"
    by (rule reads_redir [where c = c]) (use Cons(4,5) f sep_redirs in simp_all)
  obtain c' s' where c': "parseredirs b (redircmd c tok (q, eq)) s3 = Inr (c', s')" "reads b s' k"
      "map_cmd (text_at b) c' = fold wrap rs (map_cmd (text_at b) (redircmd c tok (q, eq)))"
    by (rule Cons(1) [OF _ t(5)]) (use Cons(4-6) in simp_all)
  have "parseredirs b c s = Inr (c', s')" using c'(1) t(1-3) by (subst parseredirs.simps) simp
  then show ?case using c'(2,3) t(4) f by (intro Cons(2) [of c' s']) (simp_all add: wrap_simp)
qed

definition print_args :: "string list \<Rightarrow> string" where
  "print_args ws = concat (map (\<lambda>w. '' '' @ w) ws)"

lemma map_add_arg: "map_cmd f (add_arg w c) = add_arg (f w) (map_cmd f c)"
  by (induction c) auto

lemma fold_add_arg: "fold add_arg ws (ExecCmd vs) = ExecCmd (vs @ ws)"
  by (induction ws arbitrary: vs) auto

lemma follow_stop: "follow toks k \<Longrightarrow> set toks \<inter> set ops = {} \<Longrightarrow> dropWhile is_white k = [] \<or> hd (dropWhile is_white k) \<notin> set ops"
  by (auto simp: follow_def simp del: dropWhile_eq_Nil_conv)

lemma parse_stop:
  assumes r: "reads b s k" and f: "follow ''|)&;'' k"
  obtains s' where "parseargs b n c s = Inr (c, s')" "reads b s' k"
proof (cases "dropWhile is_white k")
  case Nil
  obtain s1 where p: "peek b ''|)&;'' s = (False, s1)" "reads b s1 k"
    by (rule reads_peek [OF r, of "''|)&;''"]) (use Nil in \<open>simp del: dropWhile_eq_Nil_conv\<close>)
  obtain t q eq s2 where t: "gettoken b s1 = (t, q, eq, s2)" by (metis prod_cases4)
  have "rest b s1 = []" using p(2) Nil by (simp add: reads_def)
  then have "char_at b (advance is_white b s1) = CHR 0x00" "rest b s2 = []"
    using char_at_rest [of b s1] gettoken_progress(1) [OF t] by simp_all
  then have "t = CHR 0x00" "reads b s2 k"
    using t gettoken_bound [OF t] p(2) Nil by (auto simp: gettoken_def Let_def reads_def simp del: dropWhile_eq_Nil_conv)
  then show ?thesis using that p t by (subst (asm) parseargs.simps) simp
next
  case (Cons a as)
  obtain s1 where "peek b ''|)&;'' s = (True, s1)" "reads b s1 k"
    by (rule reads_peek [OF r, of "''|)&;''"]) (use Cons f in \<open>auto simp: follow_def\<close>)
  then show ?thesis using that by (subst (asm) parseargs.simps) simp
qed

lemma parse_arg:
  assumes "reads b s ('' '' @ w @ k)" "plain w" "k = [] \<or> \<not> is_word (hd k)" "n + 1 < MAXARGS"
  obtains q eq s2 where "text_at b (q, eq) = w" "reads b s2 k"
    "parseargs b n c s = ebind (parseredirs b (add_arg (q, eq) c) s2) (\<lambda>(ret, s). parseargs b (n + 1) ret s)"
proof -
  have r: "reads b s (w @ k)" using assms(1) by (simp add: reads_space)
  obtain a v where w: "w = a # v" "is_word a" using assms(2) by (cases w) (auto simp: plain_def)
  then have a: "a \<notin> set ''|)&;''" "dropWhile is_white (w @ k) = a # v @ k" by (auto simp: symbols_def)
  obtain s1 where p: "peek b ''|)&;'' s = (False, s1)" "reads b s1 (w @ k)"
    by (rule reads_peek [OF r, of "''|)&;''"]) (use a in simp)
  obtain q eq s2 where t: "gettoken b s1 = (CHR ''a'', q, eq, s2)" "text_at b (q, eq) = w" "reads b s2 k"
    by (rule reads_word [OF p(2) assms(2,3)])
  have "parseargs b n c s = ebind (parseredirs b (add_arg (q, eq) c) s2) (\<lambda>(ret, s). parseargs b (n + 1) ret s)"
    using assms(4) by (subst parseargs.simps) (simp add: p t)
  then show ?thesis using that t by blast
qed

lemma print_args_Cons: "print_args (w # ws) = '' '' @ w @ print_args ws" by (simp add: print_args_def)

lemma parse_args:
  assumes "reads b s (print_args (w # ws) @ print_redirs rs @ k)" "list_all plain (w # ws)" "list_all redir_ok rs"
    and f: "follow ''|)&;'' k" and n: "n + length (w # ws) < MAXARGS"
  obtains c' s' where "parseargs b n c s = Inr (c', s')" "reads b s' k"
    "map_cmd (text_at b) c' = fold wrap rs (fold add_arg (w # ws) (map_cmd (text_at b) c))"
  using assms
proof (induction ws arbitrary: w n c s thesis)
  case Nil
  have k: "k = [] \<or> \<not> is_word (hd k)" using Nil(5) by (simp add: follow_def)
  obtain q eq s2 where a: "text_at b (q, eq) = w" "reads b s2 (print_redirs rs @ k)"
      "parseargs b n c s = ebind (parseredirs b (add_arg (q, eq) c) s2) (\<lambda>(ret, s). parseargs b (n + 1) ret s)"
    by (rule parse_arg [of b s w "print_redirs rs @ k" n c]) (use Nil(2,3,6) sep_redirs [OF k] in \<open>simp_all add: print_args_def\<close>)
  obtain c1 s3 where c1: "parseredirs b (add_arg (q, eq) c) s2 = Inr (c1, s3)" "reads b s3 k"
      "map_cmd (text_at b) c1 = fold wrap rs (map_cmd (text_at b) (add_arg (q, eq) c))"
    by (rule parse_redirs [OF a(2) Nil(4) k, of "add_arg (q, eq) c"]) (use follow_stop [OF Nil(5), of "''<>''"] in simp_all)
  obtain s4 where s4: "parseargs b (n + 1) c1 s3 = Inr (c1, s4)" "reads b s4 k"
    by (rule parse_stop [OF c1(2) Nil(5)])
  show ?case by (rule Nil(1) [of c1 s4]) (use a c1 s4 in \<open>simp_all add: map_add_arg\<close>)
next
  case (Cons v ws)
  let ?k = "print_args (v # ws) @ print_redirs rs @ k"
  have k: "?k = [] \<or> \<not> is_word (hd ?k)" by (simp add: print_args_Cons)
  have v: "plain v" using Cons(4) by simp
  then have stop: "hd (dropWhile is_white ?k) \<notin> set ''<>''"
    by (cases v) (auto simp: print_args_Cons plain_def symbols_def)
  obtain q eq s2 where a: "text_at b (q, eq) = w" "reads b s2 ?k"
      "parseargs b n c s = ebind (parseredirs b (add_arg (q, eq) c) s2) (\<lambda>(ret, s). parseargs b (n + 1) ret s)"
    by (rule parse_arg [of b s w ?k n c]) (use Cons(3,4,7) k in \<open>simp_all add: print_args_Cons [of w]\<close>)
  obtain c1 s3 where c1: "parseredirs b (add_arg (q, eq) c) s2 = Inr (c1, s3)" "reads b s3 ?k"
      "map_cmd (text_at b) c1 = map_cmd (text_at b) (add_arg (q, eq) c)"
    by (rule parse_redirs [of b s2 "[]" ?k "add_arg (q, eq) c"]) (use a(2) k stop in \<open>simp_all add: print_redirs_def\<close>)
  obtain c' s' where c': "parseargs b (n + 1) c1 s3 = Inr (c', s')" "reads b s' k"
      "map_cmd (text_at b) c' = fold wrap rs (fold add_arg (v # ws) (map_cmd (text_at b) c1))"
    by (rule Cons(1) [OF _ c1(2) _ Cons(5,6), of "n + 1" c1]) (use Cons(4,7) in auto)
  show ?case by (rule Cons(2) [of c' s']) (use a c1 c' in \<open>simp_all add: map_add_arg\<close>)
qed

text \<open>What each function of the parser makes of the print of a command at its level.\<close>

definition parses_exec :: "string cmd \<Rightarrow> bool" where
  "parses_exec t \<longleftrightarrow> (\<forall>b s rs k n. reads b s (print t 3 @ print_redirs rs @ k) \<longrightarrow> list_all redir_ok rs \<longrightarrow>
     follow ''|)&;'' k \<longrightarrow> 4 * length (rest b s) + 2 \<le> n \<longrightarrow>
     (\<exists>c s'. parseexec n b s = Inr (c, s') \<and> reads b s' k \<and> map_cmd (text_at b) c = fold wrap rs t))"

definition parses_pipe :: "string cmd \<Rightarrow> bool" where
  "parses_pipe t \<longleftrightarrow> (\<forall>b s k n. reads b s (print t 2 @ k) \<longrightarrow> follow '')&;'' k \<longrightarrow> 4 * length (rest b s) + 3 \<le> n \<longrightarrow>
     (\<exists>c s'. parsepipe n b s = Inr (c, s') \<and> reads b s' k \<and> map_cmd (text_at b) c = t))"

definition print_backs :: "nat \<Rightarrow> string" where
  "print_backs j = concat (replicate j '' &'')"

definition parses_back :: "string cmd \<Rightarrow> bool" where
  "parses_back t \<longleftrightarrow> (\<forall>b s k n j. reads b s (print t 1 @ print_backs j @ k) \<longrightarrow> follow '');'' k \<longrightarrow>
     4 * length (rest b s) + 3 \<le> n \<longrightarrow>
     (\<exists>c s1 c' s'. parsepipe n b s = Inr (c, s1) \<and> parseback b c s1 = (c', s') \<and> reads b s' k
       \<and> map_cmd (text_at b) c' = (BackCmd ^^ j) t))"

definition parses_line :: "string cmd \<Rightarrow> bool" where
  "parses_line t \<longleftrightarrow> (\<forall>b s k n. reads b s (print t 0 @ k) \<longrightarrow> follow '')'' k \<longrightarrow> 4 * length (rest b s) + 4 \<le> n \<longrightarrow>
     (\<exists>c s'. parseline n b s = Inr (c, s') \<and> reads b s' k \<and> map_cmd (text_at b) c = t))"

lemma follow_mono: "follow toks k \<Longrightarrow> set toks \<subseteq> set ops \<Longrightarrow> follow ops k"
  by (auto simp: follow_def)

lemma follow_op: "c \<in> set ''|();&<>'' \<Longrightarrow> c \<in> set toks \<Longrightarrow> follow toks ('' '' @ c # k)"
  by (simp add: follow_def)

lemma parses_pipe_exec:
  assumes e: "parses_exec t" and p: "print t 2 = print t 3"
  shows "parses_pipe t"
  unfolding parses_pipe_def
proof (intro allI impI)
  fix b s k n
  assume r: "reads b s (print t 2 @ k)" and f: "follow '')&;'' k" and n: "4 * length (rest b s) + 3 \<le> n"
  obtain m where m: "n = Suc m" using n by (cases n) auto
  have "follow ''|)&;'' k" using f by (rule follow_mono) auto
  then obtain c s1 where c: "parseexec m b s = Inr (c, s1)" "reads b s1 k" "map_cmd (text_at b) c = t"
    using e [unfolded parses_exec_def, rule_format, of b s "[]" k m] r n m p by (auto simp: print_redirs_def)
  obtain s2 where "accept b ''|'' s1 = (False, s2)" "reads b s2 k" by (rule reads_reject [OF c(2) f, of "''|''"]) simp_all
  then show "\<exists>c s'. parsepipe n b s = Inr (c, s') \<and> reads b s' k \<and> map_cmd (text_at b) c = t"
    using c m by (simp add: parsepipe.simps [of "Suc m"])
qed

lemma print_backs_Suc: "print_backs (Suc j) = '' &'' @ print_backs j" by (simp add: print_backs_def)

lemma follow_backs: "follow '');'' k \<Longrightarrow> follow '')&;'' (print_backs j @ k)"
  by (cases j) (auto simp: print_backs_def intro: follow_mono, simp add: follow_def)

lemma parse_backs:
  assumes "reads b s (print_backs j @ k)" "follow '');'' k"
  obtains c' s' where "parseback b c s = (c', s')" "reads b s' k" "map_cmd (text_at b) c' = (BackCmd ^^ j) (map_cmd (text_at b) c)"
  using assms
proof (induction j arbitrary: c s thesis)
  case 0
  obtain s' where "accept b ''&'' s = (False, s')" "reads b s' k"
    by (rule reads_reject [of b s k "'');''" "''&''"]) (use 0(2,3) in \<open>simp_all add: print_backs_def\<close>)
  then show ?case by (intro 0(1) [of c s']) (simp_all add: parseback.simps [of b c s])
next
  case (Suc j)
  have "reads b s (CHR ''&'' # print_backs j @ k)" using Suc(3) by (simp add: print_backs_Suc reads_space)
  then obtain s1 where a: "accept b ''&'' s = (True, s1)" "reads b s1 (print_backs j @ k)"
    by (rule reads_accept [where toks = "''&''"]) simp_all
  obtain c' s' where c': "parseback b (BackCmd c) s1 = (c', s')" "reads b s' k"
      "map_cmd (text_at b) c' = (BackCmd ^^ j) (map_cmd (text_at b) (BackCmd c))"
    by (rule Suc(1) [OF _ a(2) Suc(4), of "BackCmd c"])
  show ?case by (rule Suc(2) [of c' s']) (use a c' in \<open>simp_all add: parseback.simps [of b c s] funpow_swap1\<close>)
qed

lemma parses_back_pipe:
  assumes e: "parses_pipe t" and p: "print t 1 = print t 2"
  shows "parses_back t"
  unfolding parses_back_def
proof (intro allI impI)
  fix b s k n j
  assume r: "reads b s (print t 1 @ print_backs j @ k)" and f: "follow '');'' k" and n: "4 * length (rest b s) + 3 \<le> n"
  obtain c s1 where c: "parsepipe n b s = Inr (c, s1)" "reads b s1 (print_backs j @ k)" "map_cmd (text_at b) c = t"
    using e [unfolded parses_pipe_def, rule_format, of b s "print_backs j @ k" n] r n p follow_backs [OF f] by auto
  obtain c' s' where "parseback b c s1 = (c', s')" "reads b s' k" "map_cmd (text_at b) c' = (BackCmd ^^ j) (map_cmd (text_at b) c)"
    by (rule parse_backs [OF c(2) f])
  then show "\<exists>c s1 c' s'. parsepipe n b s = Inr (c, s1) \<and> parseback b c s1 = (c', s') \<and> reads b s' k
      \<and> map_cmd (text_at b) c' = (BackCmd ^^ j) t"
    using c by blast
qed

lemma parses_line_back:
  assumes e: "parses_back t" and p: "print t 0 = print t 1"
  shows "parses_line t"
  unfolding parses_line_def
proof (intro allI impI)
  fix b s k n
  assume r: "reads b s (print t 0 @ k)" and f: "follow '')'' k" and n: "4 * length (rest b s) + 4 \<le> n"
  obtain m where m: "n = Suc m" using n by (cases n) auto
  have "follow '');'' k" using f by (rule follow_mono) auto
  then obtain c s1 c' s2 where c: "parsepipe m b s = Inr (c, s1)" "parseback b c s1 = (c', s2)" "reads b s2 k" "map_cmd (text_at b) c' = t"
    using e [unfolded parses_back_def, rule_format, of b s 0 k m] r n m p by (auto simp: print_backs_def)
  obtain s3 where "accept b '';'' s2 = (False, s3)" "reads b s3 k" by (rule reads_reject [OF c(3) f, of "'';''"]) simp_all
  then show "\<exists>c s'. parseline n b s = Inr (c, s') \<and> reads b s' k \<and> map_cmd (text_at b) c = t"
    using c m by (simp add: parseline.simps [of "Suc m"])
qed

lemma parses_exec_block:
  assumes e: "parses_line t" and p: "print t 3 = '' ('' @ print t 0 @ '' )''"
  shows "parses_exec t"
  unfolding parses_exec_def
proof (intro allI impI)
  fix b s rs k n
  assume r: "reads b s (print t 3 @ print_redirs rs @ k)" and rs: "list_all redir_ok rs" and f: "follow ''|)&;'' k"
    and n: "4 * length (rest b s) + 2 \<le> n"
  obtain m where m: "n = Suc (Suc m)" using n by (cases n; cases "n - 1") auto
  let ?k = "print_redirs rs @ k"
  have r': "reads b s (CHR ''('' # print t 0 @ '' )'' @ ?k)" using r p by (simp add: reads_space)
  obtain s1 where s1: "peek b ''('' s = (True, s1)" "reads b s1 (CHR ''('' # print t 0 @ '' )'' @ ?k)"
    by (rule reads_peek [OF r', of "''(''"]) simp
  obtain s2 where s2: "accept b ''('' s1 = (True, s2)" "reads b s2 (print t 0 @ '' )'' @ ?k)"
    by (rule reads_accept [OF s1(2), of "''(''"]) simp_all
  have "length (rest b s2) < length (rest b s)" using accept_progress(1) [OF s2(1)] peek_progress(1) [OF s1(1)] by simp
  then obtain c s3 where c: "parseline m b s2 = Inr (c, s3)" "reads b s3 ('' )'' @ ?k)" "map_cmd (text_at b) c = t"
    using e [unfolded parses_line_def, rule_format, of b s2 "'' )'' @ ?k" m] s2(2) n m follow_op [of "CHR '')''" "'')''" ?k] by auto
  have "reads b s3 (CHR '')'' # ?k)" using c(2) by (simp add: reads_space)
  then obtain s4 where s4: "accept b '')'' s3 = (True, s4)" "reads b s4 ?k"
    by (rule reads_accept [where toks = "'')''"]) simp_all
  obtain c' s' where "parseredirs b c s4 = Inr (c', s')" "reads b s' k" "map_cmd (text_at b) c' = fold wrap rs (map_cmd (text_at b) c)"
    by (rule parse_redirs [OF s4(2) rs, of c]) (use f follow_stop [OF f, of "''<>''"] in \<open>simp_all add: follow_def\<close>)
  then show "\<exists>c s'. parseexec n b s = Inr (c, s') \<and> reads b s' k \<and> map_cmd (text_at b) c = fold wrap rs t"
    using c m s1(1) s2(1) s4(1) by (simp add: parseexec.simps [of "Suc (Suc m)"] parseblock.simps [of "Suc m"])
qed

lemma not_block:
  assumes "list_all plain ws" "follow ''|)&;'' k"
  shows "dropWhile is_white (print_args ws @ print_redirs rs @ k) = [] \<or>
    hd (dropWhile is_white (print_args ws @ print_redirs rs @ k)) \<noteq> CHR ''(''"
proof (cases ws)
  case Nil
  show ?thesis
  proof (cases rs)
    case Nil
    then show ?thesis using \<open>ws = []\<close> follow_stop [OF assms(2), of "''(''"] by (simp add: print_args_def print_redirs_def del: dropWhile_eq_Nil_conv)
  next
    case (Cons r rs')
    obtain f m d where "r = (f, m, d)" by (metis prod_cases3)
    then show ?thesis
      using \<open>ws = []\<close> Cons white_symbol [of "CHR ''<''"] white_symbol [of "CHR ''>''"]
      by (auto simp: print_args_def print_redirs_def print_redir_def redir_op_def)
  qed
next
  case (Cons v vs)
  then obtain a u where "v = a # u" "is_word a" using assms(1) by (cases v) (auto simp: plain_def)
  then show ?thesis using Cons by (auto simp: print_args_Cons symbols_def)
qed

lemma parses_exec_exec:
  assumes ok: "cmd_ok (ExecCmd ws)"
  shows "parses_exec (ExecCmd ws)"
  unfolding parses_exec_def
proof (intro allI impI)
  fix b s rs k n
  assume r: "reads b s (print (ExecCmd ws) 3 @ print_redirs rs @ k)" and rs: "list_all redir_ok rs" and f: "follow ''|)&;'' k"
    and n: "4 * length (rest b s) + 2 \<le> n"
  obtain m where m: "n = Suc m" using n by (cases n) auto
  let ?k = "print_redirs rs @ k"
  have k: "k = [] \<or> \<not> is_word (hd k)" "dropWhile is_white k = [] \<or> hd (dropWhile is_white k) \<notin> set ''<>''"
    using f follow_stop [OF f, of "''<>''"] by (simp_all add: follow_def)
  have "print (ExecCmd ws) 3 = print_args ws" by (simp add: print_args_def)
  then have r0: "reads b s (print_args ws @ ?k)" using r by simp
  obtain s1 where p: "peek b ''('' s = (False, s1)" and r1: "reads b s1 (print_args ws @ ?k)"
    by (rule reads_peek [OF r0, of "''(''"]) (use not_block [of ws k rs] ok f in \<open>auto simp del: dropWhile_eq_Nil_conv split: list.splits\<close>)
  have "\<exists>c s2. ebind (parseredirs b (ExecCmd []) s1) (\<lambda>(ret, s). parseargs b 0 ret s) = Inr (c, s2) \<and> reads b s2 k
      \<and> map_cmd (text_at b) c = fold wrap rs (ExecCmd ws)"
  proof (cases ws)
    case Nil
    then have "reads b s1 ?k" using r1 by (simp add: print_args_def)
    then obtain c s2 where c: "parseredirs b (ExecCmd []) s1 = Inr (c, s2)" "reads b s2 k"
        "map_cmd (text_at b) c = fold wrap rs (ExecCmd [])"
      by (rule parse_redirs [OF _ rs k, of b s1 "ExecCmd []"]) simp_all
    obtain s3 where "parseargs b 0 c s2 = Inr (c, s3)" "reads b s3 k" by (rule parse_stop [OF c(2) f])
    then show ?thesis using c Nil by auto
  next
    case (Cons v vs)
    have v: "plain v" using ok Cons by simp
    obtain a u where "v = a # u" "is_word a" using v by (cases v) (auto simp: plain_def)
    then have stop: "hd (dropWhile is_white (print_args ws @ ?k)) \<notin> set ''<>''"
      using Cons by (auto simp: print_args_Cons symbols_def)
    obtain c s2 where c: "parseredirs b (ExecCmd []) s1 = Inr (c, s2)" "reads b s2 (print_args ws @ ?k)" "map_cmd (text_at b) c = ExecCmd []"
      by (rule parse_redirs [of b s1 "[]" "print_args ws @ ?k" "ExecCmd []"])
        (use r1 stop Cons in \<open>simp_all add: print_redirs_def print_args_Cons\<close>)
    obtain c' s3 where "parseargs b 0 c s2 = Inr (c', s3)" "reads b s3 k"
        "map_cmd (text_at b) c' = fold wrap rs (fold add_arg (v # vs) (map_cmd (text_at b) c))"
      by (rule parse_args [of b s2 v vs rs k 0 c]) (use c(2) ok rs f Cons in simp_all)
    then show ?thesis using c Cons fold_add_arg [of ws "[]"] by auto
  qed
  then show "\<exists>c s'. parseexec n b s = Inr (c, s') \<and> reads b s' k \<and> map_cmd (text_at b) c = fold wrap rs (ExecCmd ws)"
    using p m by (simp add: parseexec.simps [of "Suc m"])
qed

lemma parses_exec_redir:
  assumes "parses_exec c" "redir_ok (f, m, d)"
  shows "parses_exec (RedirCmd c f m d)"
  unfolding parses_exec_def
proof (intro allI impI)
  fix b s rs k n
  assume "reads b s (print (RedirCmd c f m d) 3 @ print_redirs rs @ k)" "list_all redir_ok rs" "follow ''|)&;'' k"
    "4 * length (rest b s) + 2 \<le> n"
  then show "\<exists>c' s'. parseexec n b s = Inr (c', s') \<and> reads b s' k \<and> map_cmd (text_at b) c' = fold wrap rs (RedirCmd c f m d)"
    using assms(1) [unfolded parses_exec_def, rule_format, of b s "(f, m, d) # rs" k n] assms(2)
    by (simp add: print_redirs_def wrap_simp)
qed

lemma parses_pipe_pipe:
  assumes l: "parses_exec l" and r: "parses_pipe r"
  shows "parses_pipe (PipeCmd l r)"
  unfolding parses_pipe_def
proof (intro allI impI)
  fix b s k n
  assume rd: "reads b s (print (PipeCmd l r) 2 @ k)" and f: "follow '')&;'' k" and n: "4 * length (rest b s) + 3 \<le> n"
  obtain m where m: "n = Suc m" using n by (cases n) auto
  let ?k = "'' |'' @ print r 2 @ k"
  have "reads b s (print l 3 @ print_redirs [] @ ?k)" using rd by (simp add: parens_def print_redirs_def)
  then obtain c s1 where c: "parseexec m b s = Inr (c, s1)" "reads b s1 ?k" "map_cmd (text_at b) c = l"
    using l [unfolded parses_exec_def, rule_format, of b s "[]" ?k m] n m follow_op [of "CHR ''|''" "''|)&;''" "print r 2 @ k"] by auto
  have "reads b s1 (CHR ''|'' # print r 2 @ k)" using c(2) by (simp add: reads_space)
  then obtain s2 where s2: "accept b ''|'' s1 = (True, s2)" "reads b s2 (print r 2 @ k)"
    by (rule reads_accept [where toks = "''|''"]) simp_all
  have "sound b s (parseexec m b s)" using parser_sound [of b m] n m by (simp add: fuel_ok_def)
  then have "length (rest b s2) < length (rest b s)" using accept_progress(1) [OF s2(1)] c(1) by simp
  then obtain d s3 where "parsepipe m b s2 = Inr (d, s3)" "reads b s3 k" "map_cmd (text_at b) d = r"
    using r [unfolded parses_pipe_def, rule_format, of b s2 k m] s2(2) f n m by auto
  then show "\<exists>c s'. parsepipe n b s = Inr (c, s') \<and> reads b s' k \<and> map_cmd (text_at b) c = PipeCmd l r"
    using c s2(1) m by (simp add: parsepipe.simps [of "Suc m"])
qed

lemma parses_back_back:
  assumes "parses_back c"
  shows "parses_back (BackCmd c)"
  unfolding parses_back_def
proof (intro allI impI)
  fix b s k n j
  assume "reads b s (print (BackCmd c) 1 @ print_backs j @ k)" "follow '');'' k" "4 * length (rest b s) + 3 \<le> n"
  then show "\<exists>c1 s1 c' s'. parsepipe n b s = Inr (c1, s1) \<and> parseback b c1 s1 = (c', s') \<and> reads b s' k
      \<and> map_cmd (text_at b) c' = (BackCmd ^^ j) (BackCmd c)"
    using assms [unfolded parses_back_def, rule_format, of b s "Suc j" k n]
    by (simp add: parens_def print_backs_Suc funpow_swap1)
qed

lemma parses_line_list:
  assumes l: "parses_back l" and r: "parses_line r"
  shows "parses_line (ListCmd l r)"
  unfolding parses_line_def
proof (intro allI impI)
  fix b s k n
  assume rd: "reads b s (print (ListCmd l r) 0 @ k)" and f: "follow '')'' k" and n: "4 * length (rest b s) + 4 \<le> n"
  obtain m where m: "n = Suc m" using n by (cases n) auto
  let ?k = "'' ;'' @ print r 0 @ k"
  have "reads b s (print l 1 @ print_backs 0 @ ?k)" using rd by (simp add: parens_def print_backs_def)
  then obtain c s1 c' s2 where c: "parsepipe m b s = Inr (c, s1)" "parseback b c s1 = (c', s2)" "reads b s2 ?k" "map_cmd (text_at b) c' = l"
    using l [unfolded parses_back_def, rule_format, of b s 0 ?k m] n m follow_op [of "CHR '';''" "'');''" "print r 0 @ k"] by auto
  have "reads b s2 (CHR '';'' # print r 0 @ k)" using c(3) by (simp add: reads_space)
  then obtain s3 where s3: "accept b '';'' s2 = (True, s3)" "reads b s3 (print r 0 @ k)"
    by (rule reads_accept [where toks = "'';''"]) simp_all
  have "sound b s (parsepipe m b s)" using parser_sound [of b m] n m by (simp add: fuel_ok_def)
  then have "set_cmd c \<subseteq> Collect (word_ok b)" "length (rest b s1) \<le> length (rest b s)" using c(1) by simp_all
  then have "length (rest b s3) < length (rest b s)" using parseback_sound [OF _ c(2)] accept_progress(1) [OF s3(1)] by simp
  then obtain d s4 where "parseline m b s3 = Inr (d, s4)" "reads b s4 k" "map_cmd (text_at b) d = r"
    using r [unfolded parses_line_def, rule_format, of b s3 k m] s3(2) f n m by auto
  then show "\<exists>c s'. parseline n b s = Inr (c, s') \<and> reads b s' k \<and> map_cmd (text_at b) c = ListCmd l r"
    using c s3(1) m by (simp add: parseline.simps [of "Suc m"])
qed

lemma parses_all:
  "cmd_ok t \<Longrightarrow> parses_exec t \<and> parses_pipe t \<and> parses_back t \<and> parses_line t"
proof (induction t)
  case (ExecCmd ws)
  have e: "parses_exec (ExecCmd ws)" by (rule parses_exec_exec [OF ExecCmd])
  then have "parses_pipe (ExecCmd ws)" by (rule parses_pipe_exec) simp
  moreover from this have "parses_back (ExecCmd ws)" by (rule parses_back_pipe) simp
  moreover from this have "parses_line (ExecCmd ws)" by (rule parses_line_back) simp
  ultimately show ?case using e by blast
next
  case (RedirCmd c f m d)
  then have e: "parses_exec (RedirCmd c f m d)" by (intro parses_exec_redir) simp_all
  then have "parses_pipe (RedirCmd c f m d)" by (rule parses_pipe_exec) simp
  moreover from this have "parses_back (RedirCmd c f m d)" by (rule parses_back_pipe) simp
  moreover from this have "parses_line (RedirCmd c f m d)" by (rule parses_line_back) simp
  ultimately show ?case using e by blast
next
  case (PipeCmd l r)
  then have p: "parses_pipe (PipeCmd l r)" by (intro parses_pipe_pipe) simp_all
  then have "parses_back (PipeCmd l r)" by (rule parses_back_pipe) (simp add: parens_def)
  moreover from this have "parses_line (PipeCmd l r)" by (rule parses_line_back) (simp add: parens_def)
  moreover from this have "parses_exec (PipeCmd l r)" by (rule parses_exec_block) (simp add: parens_def)
  ultimately show ?case using p by blast
next
  case (ListCmd l r)
  then have p: "parses_line (ListCmd l r)" by (intro parses_line_list) simp_all
  then have "parses_exec (ListCmd l r)" by (rule parses_exec_block) (simp add: parens_def)
  moreover from this have "parses_pipe (ListCmd l r)" by (rule parses_pipe_exec) (simp add: parens_def)
  moreover from this have "parses_back (ListCmd l r)" by (rule parses_back_pipe) (simp add: parens_def)
  ultimately show ?case using p by blast
next
  case (BackCmd c)
  then have p: "parses_back (BackCmd c)" by (intro parses_back_back) simp_all
  then have "parses_line (BackCmd c)" by (rule parses_line_back) (simp add: parens_def)
  moreover from this have "parses_exec (BackCmd c)" by (rule parses_exec_block) (simp add: parens_def)
  moreover from this have "parses_pipe (BackCmd c)" by (rule parses_pipe_exec) (simp add: parens_def)
  ultimately show ?case using p by blast
qed

lemma print_no_null: "cmd_ok t \<Longrightarrow> CHR 0x00 \<notin> set (print t p)"
  by (induction t arbitrary: p)
    (auto simp: parens_def print_redir_def redir_op_def redir_ok_def plain_def list_all_iff)

text \<open>
  C33: Every command the shell can express is what it makes of its print: \<^verbatim>\<open>parsecmd\<close> accepts the line, and
  the tree it returns, with its argument and file strings read from the buffer, is the command that was
  printed, with its redirections, pipelines, sequences, background marks and groups.
\<close>

theorem parsecmd_print:
  assumes "cmd_ok t"
  shows "\<exists>c m. parsecmd (print t 0) = Inr (c, m) \<and> map_cmd (cstring m) c = t"
proof -
  let ?b = "print t 0"
  have "reads ?b 0 (?b @ [])" by (simp add: reads_def rest_def)
  then obtain c s where c: "parseline (4 * length ?b + 4) ?b 0 = Inr (c, s)" "reads ?b s []" "map_cmd (text_at ?b) c = t"
    using parses_all [OF assms, unfolded parses_line_def, THEN conjunct2, THEN conjunct2, THEN conjunct2, rule_format, of ?b 0 "[]" "4 * length ?b + 4"]
      rest_length [of ?b 0] by (auto simp: follow_def)
  have "advance is_white ?b s = length ?b"
    using c(2) advance_le [of s ?b is_white] rest_skip(1) [of ?b s] by (auto simp: reads_def)
  then have p: "parsecmd ?b = Inr (c, nulterminate c (?b @ [CHR 0x00]))" by (simp add: parsecmd_def c(1) peek_def Let_def)
  have "cstring (nulterminate c (?b @ [CHR 0x00])) w = text_at ?b w" if "w \<in> set_cmd c" for w
    using nulterminate_word [OF _ that print_no_null [OF assms]] parsecmd_sound(2) [OF p] by simp
  then have "map_cmd (cstring (nulterminate c (?b @ [CHR 0x00]))) c = t" using c(3) cmd.map_cong0 by metis
  then show ?thesis using p by blast
qed

theorem parsecmd_words_witness:
  "case parsecmd ''cat<in|wc'' of
      Inl f \<Rightarrow> \<exists>m. f = Panic m
    | Inr (c, m) \<Rightarrow> length m = length ''cat<in|wc'' + 1
        \<and> map_cmd (cstring m) c = map_cmd (text_at ''cat<in|wc'') c
        \<and> (\<forall>v \<in> set_cmd (map_cmd (cstring m) c). v \<noteq> [] \<and> list_all is_word v)"
  by (rule parsecmd_words) simp

theorem parsecmd_print_witness:
  "\<exists>c m. parsecmd '' cat < in | wc &'' = Inr (c, m)
    \<and> map_cmd (cstring m) c = BackCmd (PipeCmd (RedirCmd (ExecCmd [''cat'']) ''in'' O_RDONLY 0) (ExecCmd [''wc'']))"
proof -
  let ?t = "BackCmd (PipeCmd (RedirCmd (ExecCmd [''cat'']) ''in'' O_RDONLY 0) (ExecCmd [''wc'']))"
  have "cmd_ok ?t" by (simp add: redir_ok_def plain_def whitespace_def symbols_def)
  moreover have "print ?t 0 = '' cat < in | wc &''" by (simp add: parens_def print_redir_def redir_op_def)
  ultimately show ?thesis using parsecmd_print [of ?t] by simp
qed

end
