(* ===== verification/Console.thy ===== *)
theory Console
  imports Sysfile Tx Ulib
begin

text \<open>
  The console: the UART driver \<^verbatim>\<open>kernel/uart.c\<close>, the kernel's \<^verbatim>\<open>printf\<close>, and the line discipline
  \<^verbatim>\<open>kernel/console.c\<close>.

  The UART is its registers.  What successive reads of the line status register and of the receive register
  return is not up to the kernel: the lists \<open>lsr\<close> and \<open>rhr\<close> hold those values, and a read takes the next
  one; when \<open>lsr\<close> is used up the device is neither ready nor idle.  \<open>uart_log\<close> is the list of the writes to registers, in order.
  A wait for the device that no value of \<open>lsr\<close> ends, and a wait for another process, is \<open>Spin\<close>.
\<close>

record consst = fsst +
  cons_buf :: "nat \<Rightarrow> u8"
  cons_r :: u32
  cons_w :: u32
  cons_e :: u32
  tx_buf :: "nat \<Rightarrow> u8"
  tx_w :: u64
  tx_r :: u64
  lsr :: "u8 list"
  rhr :: "u8 list"
  uart_log :: "(nat \<times> u8) list"
  panicked :: bool
  pr_locking :: bool

section \<open>The UART\<close>

definition THR :: nat where THR_def [simp]: "THR = 0"
definition IER :: nat where IER_def [simp]: "IER = 1"
definition FCR :: nat where FCR_def [simp]: "FCR = 2"
definition LCR :: nat where LCR_def [simp]: "LCR = 3"
definition LSR_RX_READY :: u8 where "LSR_RX_READY = 1"
definition LSR_TX_IDLE :: u8 where "LSR_TX_IDLE = 0x20"
definition UART_TX_BUF_SIZE :: nat where UART_TX_BUF_SIZE_def [simp]: "UART_TX_BUF_SIZE = 32"

definition WriteReg :: "nat \<Rightarrow> u8 \<Rightarrow> 'a consst_scheme \<Rightarrow> 'a consst_scheme" where
  "WriteReg r v s = s\<lparr>uart_log := uart_log s @ [(r, v)]\<rparr>"

definition uartinit :: "'a consst_scheme \<Rightarrow> 'a consst_scheme" where
  "uartinit s =
     initlock Lk_uart ''uart''
       (WriteReg IER 3 (WriteReg FCR 7 (WriteReg LCR 3 (WriteReg 1 0 (WriteReg 0 3 (WriteReg LCR 0x80 (WriteReg IER 0 s)))))))"

definition uart_get :: "'a consst_scheme \<Rightarrow> u8 \<times> 'a consst_scheme" where
  "uart_get s = (tx_buf s (unat (tx_r s mod of_nat UART_TX_BUF_SIZE)), s\<lparr>tx_r := tx_r s + 1\<rparr>)"

definition uart_empty :: "'a consst_scheme \<Rightarrow> bool" where
  "uart_empty s \<longleftrightarrow> tx_w s = tx_r s"

primrec uartstart_loop :: "u8 list \<Rightarrow> 'a consst_scheme \<Rightarrow> 'a consst_scheme res" where
  "uartstart_loop [] s = Inr s"
| "uartstart_loop (v # vs) s =
     (if uart_empty s then Inr s
      else let s = s\<lparr>lsr := vs\<rparr>
           in if v AND LSR_TX_IDLE = 0 then Inr s
              else let (c, s) = uart_get s
                   in ebind (wakeup Ch_uart s) (\<lambda>s. uartstart_loop vs (WriteReg THR c s)))"

definition uartstart :: "'a consst_scheme \<Rightarrow> 'a consst_scheme res" where
  "uartstart s = uartstart_loop (lsr s) s"

definition uart_full :: "'a consst_scheme \<Rightarrow> bool" where
  "uart_full s \<longleftrightarrow> tx_w s = tx_r s + of_nat UART_TX_BUF_SIZE"

definition uart_put :: "u8 \<Rightarrow> 'a consst_scheme \<Rightarrow> 'a consst_scheme" where
  "uart_put c s = s\<lparr>tx_buf := (tx_buf s)(unat (tx_w s mod of_nat UART_TX_BUF_SIZE) := c), tx_w := tx_w s + 1\<rparr>"

definition uartputc :: "u8 \<Rightarrow> 'a consst_scheme \<Rightarrow> 'a consst_scheme res" where
  "uartputc c s =
     ebind (acquire Lk_uart s) (\<lambda>s.
     if panicked s then Inl Spin
     else if uart_full s then ebind (sleep_enter Ch_uart Lk_uart s) (\<lambda>_. Inl Spin)
     else ebind (uartstart (uart_put c s)) (release Lk_uart))"

definition uartputc_sync :: "u8 \<Rightarrow> 'a consst_scheme \<Rightarrow> 'a consst_scheme res" where
  "uartputc_sync c s =
     (let s = push_off s
      in if panicked s then Inl Spin
         else case dropWhile (\<lambda>v. v AND LSR_TX_IDLE = 0) (lsr s) of
                [] \<Rightarrow> Inl Spin
              | _ # vs \<Rightarrow> pop_off (WriteReg THR c (s\<lparr>lsr := vs\<rparr>)))"

definition uartgetc :: "'a consst_scheme \<Rightarrow> int \<times> 'a consst_scheme" where
  "uartgetc s =
     (case lsr s of
        [] \<Rightarrow> (-1, s)
      | v # vs \<Rightarrow>
          (let s = s\<lparr>lsr := vs\<rparr>
           in if v AND LSR_RX_READY \<noteq> 0
              then (case rhr s of [] \<Rightarrow> (0, s) | c # cs \<Rightarrow> (uint c, s\<lparr>rhr := cs\<rparr>))
              else (-1, s)))"

section \<open>Output of the kernel\<close>

definition BACKSPACE :: int where "BACKSPACE = 0x100"

definition consputc :: "int \<Rightarrow> 'a consst_scheme \<Rightarrow> 'a consst_scheme res" where
  "consputc c s =
     (if c = BACKSPACE
      then ebind (uartputc_sync 8 s) (\<lambda>s. ebind (uartputc_sync 32 s) (uartputc_sync 8))
      else uartputc_sync (word_of_int c) s)"

definition convert_kernel :: "char \<Rightarrow> va list \<Rightarrow> (string \<times> va list) option" where
  "convert_kernel c ap =
     (if c = CHR ''d'' then map_option (\<lambda>(i, ap). (printint_kernel i 10 True, ap)) (va_int ap)
      else if c = CHR ''x'' then map_option (\<lambda>(i, ap). (printint_kernel i 16 True, ap)) (va_int ap)
      else if c = CHR ''p'' then map_option (\<lambda>(w, ap). (printptr_kernel w, ap)) (va_reg ap)
      else if c = CHR ''s'' then va_str ap
      else if c = CHR ''%'' then Some (''%'', ap)
      else Some ([CHR ''%'', c], ap))"

text \<open>The loop of \<^verbatim>\<open>printf\<close>: a percent sign at the end of the format prints nothing.\<close>

fun printf_text :: "string \<Rightarrow> va list \<Rightarrow> string option" where
  "printf_text [] ap = Some []"
| "printf_text (c # fmt) ap =
     (if c \<noteq> CHR ''%'' then map_option ((#) c) (printf_text fmt ap)
      else case fmt of
             [] \<Rightarrow> Some []
           | d # fmt \<Rightarrow>
               (case convert_kernel d ap of
                  None \<Rightarrow> None
                | Some (out, ap) \<Rightarrow> map_option ((@) out) (printf_text fmt ap)))"

definition printf :: "string \<Rightarrow> va list \<Rightarrow> 'a consst_scheme \<Rightarrow> 'a consst_scheme res" where
  "printf fmt ap s =
     (let locking = pr_locking s
      in ebind (if locking then acquire Lk_pr s else Inr s) (\<lambda>s.
         case printf_text fmt ap of
           None \<Rightarrow> Inl Wild
         | Some out \<Rightarrow>
             ebind (efold (\<lambda>c. consputc (of_char c)) out s) (\<lambda>s. if locking then release Lk_pr s else Inr s)))"

text \<open>\<^verbatim>\<open>panic\<close> up to its endless loop.\<close>

definition panic :: "string \<Rightarrow> 'a consst_scheme \<Rightarrow> 'a consst_scheme res" where
  "panic m s =
     ebind (printf ''panic: '' [] (s\<lparr>pr_locking := False\<rparr>)) (\<lambda>s.
     ebind (printf m [] s) (\<lambda>s.
     ebind (printf ''\<newline>'' [] s) (\<lambda>s. Inr (s\<lparr>panicked := True\<rparr>))))"

definition printfinit :: "'a consst_scheme \<Rightarrow> 'a consst_scheme" where
  "printfinit s = (initlock Lk_pr ''pr'' s)\<lparr>pr_locking := True\<rparr>"

primrec state_text :: "procstate \<Rightarrow> string" where
  "state_text UNUSED = ''unused''"
| "state_text USED = ''used''"
| "state_text SLEEPING = ''sleep ''"
| "state_text RUNNABLE = ''runble''"
| "state_text RUNNING = ''run   ''"
| "state_text ZOMBIE = ''zombie''"

definition procdump :: "'a consst_scheme \<Rightarrow> 'a consst_scheme res" where
  "procdump s =
     ebind (printf ''\<newline>'' [] s)
       (efold (\<lambda>p s. if state (procs s p) = UNUSED then Inr s
          else ebind (printf ''%d %s %s''
                 [VReg (word_of_int (pid (procs s p))), VStr (Some (state_text (state (procs s p)))),
                  VStr (Some (map (\<lambda>b. char_of (unat b)) (pname (procs s p))))] s)
               (printf ''\<newline>'' [])) [0..<NPROC])"

section \<open>The line discipline\<close>

definition INPUT_BUF_SIZE :: nat where INPUT_BUF_SIZE_def [simp]: "INPUT_BUF_SIZE = 128"

definition cons_at :: "u32 \<Rightarrow> 'a consst_scheme \<Rightarrow> u8" where
  "cons_at i s = cons_buf s (unat (i mod of_nat INPUT_BUF_SIZE))"

text \<open>The loop that kills a line; \<open>n\<close> is the number of characters between the write and the edit index.\<close>

primrec kill_line :: "nat \<Rightarrow> 'a consst_scheme \<Rightarrow> 'a consst_scheme res" where
  "kill_line 0 s = Inr s"
| "kill_line (Suc n) s =
     (if cons_e s \<noteq> cons_w s \<and> cons_at (cons_e s - 1) s \<noteq> 10
      then ebind (consputc BACKSPACE (s\<lparr>cons_e := cons_e s - 1\<rparr>)) (kill_line n)
      else Inr s)"

definition consoleintr_body :: "int \<Rightarrow> 'a consst_scheme \<Rightarrow> 'a consst_scheme res" where
  "consoleintr_body c s =
     (if c = 0x10 then procdump s
      else if c = 0x15 then kill_line (unat (cons_e s - cons_w s)) s
      else if c = 0x08 \<or> c = 0x7F
      then (if cons_e s \<noteq> cons_w s then consputc BACKSPACE (s\<lparr>cons_e := cons_e s - 1\<rparr>) else Inr s)
      else if c = 0x06
      then printf ''%d (freemem), %d (4K), %d (2M), %d (PF)\<newline>''
             [VReg (word_of_int (freemem s)), VReg (word_of_int (used4k s)), VReg (word_of_int (used2m s)),
              VReg (word_of_int (pagefaults s))] s
      else if c \<noteq> 0 \<and> cons_e s - cons_r s < of_nat INPUT_BUF_SIZE
      then let c = (if c = 13 then 10 else c)
           in ebind (consputc c s) (\<lambda>s.
              let s = s\<lparr>cons_buf := (cons_buf s)(unat (cons_e s mod of_nat INPUT_BUF_SIZE) := word_of_int c),
                        cons_e := cons_e s + 1\<rparr>
              in if c = 10 \<or> c = 4 \<or> cons_e s - cons_r s = of_nat INPUT_BUF_SIZE
                 then wakeup Ch_cons (s\<lparr>cons_w := cons_e s\<rparr>)
                 else Inr s)
      else Inr s)"

definition consoleintr :: "int \<Rightarrow> 'a consst_scheme \<Rightarrow> 'a consst_scheme res" where
  "consoleintr c = critical0 Lk_cons (consoleintr_body c)"

text \<open>The interrupt handler of the UART; each pass takes a value of \<open>lsr\<close>, so their number bounds the passes.\<close>

primrec uartintr_loop :: "nat \<Rightarrow> 'a consst_scheme \<Rightarrow> 'a consst_scheme res" where
  "uartintr_loop 0 s = Inr s"
| "uartintr_loop (Suc n) s =
     (let (c, s) = uartgetc s in if c = -1 then Inr s else ebind (consoleintr c s) (uartintr_loop n))"

definition uartintr :: "'a consst_scheme \<Rightarrow> 'a consst_scheme res" where
  "uartintr s = ebind (uartintr_loop (length (lsr s)) s) (critical0 Lk_uart uartstart)"

primrec consolewrite_loop :: "nat \<Rightarrow> int \<Rightarrow> bool \<Rightarrow> u64 \<Rightarrow> 'a consst_scheme \<Rightarrow> (int \<times> 'a consst_scheme) res" where
  "consolewrite_loop 0 i user_src src s = Inr (i, s)"
| "consolewrite_loop (Suc n) i user_src src s =
     ebind (either_copyin user_src src 1 s) (\<lambda>((r, bs), s).
     if r = -1 then Inr (i, s)
     else ebind (uartputc (hd bs) s) (consolewrite_loop n (i + 1) user_src (src + 1)))"

definition consolewrite :: "bool \<Rightarrow> u64 \<Rightarrow> int \<Rightarrow> 'a consst_scheme \<Rightarrow> (int \<times> 'a consst_scheme) res" where
  "consolewrite user_src src n s = consolewrite_loop (nat n) 0 user_src src s"

text \<open>The loop of \<^verbatim>\<open>consoleread\<close> with \<open>n\<close> bytes still wanted: what is returned is \<open>n\<close> at the end, or nothing when
  the process has been killed.\<close>

primrec consoleread_loop ::
  "nat \<Rightarrow> nat \<Rightarrow> bool \<Rightarrow> u64 \<Rightarrow> 'a consst_scheme \<Rightarrow> (nat option \<times> 'a consst_scheme) res"
where
  "consoleread_loop target 0 user_dst dst s = Inr (Some 0, s)"
| "consoleread_loop target (Suc n) user_dst dst s =
     (if cons_r s = cons_w s
      then ebind (this_proc s) (\<lambda>(p, s).
           ebind (killed p s) (\<lambda>(k, s).
           if k then Inr (None, s) else ebind (sleep_enter Ch_cons Lk_cons s) (\<lambda>_. Inl Spin)))
      else let c = cons_at (cons_r s) s; s = s\<lparr>cons_r := cons_r s + 1\<rparr>
           in if c = 4 then Inr (Some (Suc n), if Suc n < target then s\<lparr>cons_r := cons_r s - 1\<rparr> else s)
              else ebind (either_copyout user_dst dst [c] s) (\<lambda>(r, s).
                   if r = -1 then Inr (Some (Suc n), s)
                   else if c = 10 then Inr (Some n, s)
                   else consoleread_loop target n user_dst (dst + 1) s))"

definition consoleread :: "bool \<Rightarrow> u64 \<Rightarrow> int \<Rightarrow> 'a consst_scheme \<Rightarrow> (int \<times> 'a consst_scheme) res" where
  "consoleread user_dst dst n s =
     ebind (acquire Lk_cons s) (\<lambda>s.
     ebind (consoleread_loop (nat n) (nat n) user_dst dst s) (\<lambda>(r, s).
     ebind (release Lk_cons s) (\<lambda>s.
     Inr (case r of None \<Rightarrow> -1 | Some m \<Rightarrow> int (nat n) - int m, s))))"

text \<open>\<^verbatim>\<open>consoleinit\<close>: the lock, the UART, and the entries of the device table, for reading and for writing.\<close>

definition CONSOLE :: int where "CONSOLE = 1"

definition consoleinit :: "'a consst_scheme \<Rightarrow> 'a consst_scheme" where
  "consoleinit s = uartinit (initlock Lk_cons ''cons'' s)"

definition console_read_table :: "'a consst_ext devsw \<Rightarrow> 'a consst_ext devsw" where
  "console_read_table t = t(CONSOLE := Some (consoleread True))"

definition console_write_table :: "'a consst_ext devsw \<Rightarrow> 'a consst_ext devsw" where
  "console_write_table t = t(CONSOLE := Some (consolewrite True))"

section \<open>The line discipline refines a line editor\<close>

text \<open>
  The characters between the read and the edit index, oldest first.  Those up to the write index are for the readers,
  the others are the line being typed.
\<close>

definition ring_from :: "(nat \<Rightarrow> u8) \<Rightarrow> u32 \<Rightarrow> nat \<Rightarrow> u8 list" where
  "ring_from b a n = map (\<lambda>i. b (unat ((a + of_nat i) mod of_nat INPUT_BUF_SIZE))) [0..<n]"

definition cons_all :: "'a consst_scheme \<Rightarrow> u8 list" where
  "cons_all s = ring_from (cons_buf s) (cons_r s) (unat (cons_e s - cons_r s))"

definition cons_text :: "'a consst_scheme \<Rightarrow> u8 list" where
  "cons_text s = take (unat (cons_w s - cons_r s)) (cons_all s)"

definition cons_line :: "'a consst_scheme \<Rightarrow> u8 list" where
  "cons_line s = drop (unat (cons_w s - cons_r s)) (cons_all s)"

definition cons_inv :: "'a consst_scheme \<Rightarrow> bool" where
  "cons_inv s \<longleftrightarrow> unat (cons_w s - cons_r s) \<le> unat (cons_e s - cons_r s) \<and> unat (cons_e s - cons_r s) \<le> INPUT_BUF_SIZE
     \<and> 10 \<notin> set (cons_line s)"

text \<open>The editor: what a character makes of the text for the readers and of the line, and what it echoes.\<close>

definition typed :: "int \<Rightarrow> u8" where
  "typed c = (if c = 13 then 10 else word_of_int c)"

definition edit :: "int \<Rightarrow> u8 list \<times> u8 list \<Rightarrow> u8 list \<times> u8 list" where
  "edit c d = (case d of (t, l) \<Rightarrow>
     if c = 0x15 then (t, [])
     else if c = 0x08 \<or> c = 0x7F then (t, butlast l)
     else if c \<noteq> 0 \<and> length t + length l < 128
     then (if typed c = 10 \<or> typed c = 4 \<or> length t + length l = 127 then (t @ l @ [typed c], []) else (t, l @ [typed c]))
     else (t, l))"

definition echoed :: "int \<Rightarrow> u8 list \<times> u8 list \<Rightarrow> u8 list" where
  "echoed c d = (case d of (t, l) \<Rightarrow>
     if c = 0x15 then concat (replicate (length l) [8, 32, 8])
     else if c = 0x08 \<or> c = 0x7F then (if l = [] then [] else [8, 32, 8])
     else if c \<noteq> 0 \<and> length t + length l < 128 then [typed c]
     else [])"

lemma ring_index: "unat ((a + of_nat i :: u32) mod of_nat INPUT_BUF_SIZE) = (unat a + i) mod 128"
  using unat_ring_index [of 128 a i] by simp

lemma ring_length [simp]: "length (ring_from b a n) = n" by (simp add: ring_from_def)

lemma ring_take: "m \<le> n \<Longrightarrow> take m (ring_from b a n) = ring_from b a m" by (simp add: ring_from_def take_map)

lemma ring_put:
  assumes "n < 128"
  shows "ring_from (b(unat ((a + of_nat n) mod of_nat INPUT_BUF_SIZE) := c)) a (Suc n) = ring_from b a n @ [c]"
proof -
  have "(b(unat ((a + of_nat n) mod of_nat INPUT_BUF_SIZE) := c)) (unat ((a + of_nat i) mod of_nat INPUT_BUF_SIZE))
      = b (unat ((a + of_nat i) mod of_nat INPUT_BUF_SIZE))" if "i < n" for i
    using ring_index_inj [of i 128 n "unat a"] that assms unfolding ring_index by auto
  then show ?thesis unfolding ring_from_def by simp
qed

lemma edit_index:
  assumes "cons_inv s"
  shows "cons_e s \<noteq> cons_w s \<longleftrightarrow> cons_line s \<noteq> []" "length (cons_text s) + length (cons_line s) = unat (cons_e s - cons_r s)"
    "unat (cons_e s - cons_w s) = length (cons_line s)"
proof -
  let ?e = "unat (cons_e s - cons_r s)" and ?w = "unat (cons_w s - cons_r s)"
  have l: "length (cons_line s) = ?e - ?w" by (simp add: cons_line_def cons_all_def)
  have w: "?w \<le> ?e" using assms by (simp add: cons_inv_def)
  have "cons_w s - cons_r s \<le> cons_e s - cons_r s" using w by (simp add: word_le_nat_alt)
  then have "unat ((cons_e s - cons_r s) - (cons_w s - cons_r s)) = ?e - ?w" by (rule unat_sub)
  then show d: "unat (cons_e s - cons_w s) = length (cons_line s)" using l by simp
  have "cons_e s \<noteq> cons_w s \<longleftrightarrow> unat (cons_e s - cons_w s) \<noteq> 0" by (simp add: unat_eq_0)
  then show "cons_e s \<noteq> cons_w s \<longleftrightarrow> cons_line s \<noteq> []" using d by simp
  show "length (cons_text s) + length (cons_line s) = ?e" using w by (simp add: cons_text_def cons_line_def cons_all_def)
qed

text \<open>Inside a critical section, output only takes values of \<open>lsr\<close> and adds writes to \<open>uart_log\<close>.\<close>

definition idles :: "'a consst_scheme \<Rightarrow> nat" where
  "idles s = length (filter (\<lambda>v. v AND LSR_TX_IDLE \<noteq> 0) (lsr s))"

definition nested :: "'a consst_scheme \<Rightarrow> bool" where
  "nested s \<longleftrightarrow> \<not> sie (mycpu s) \<and> 0 < noff (mycpu s) \<and> \<not> panicked s"

definition sent :: "u8 list \<Rightarrow> u8 list \<Rightarrow> 'a consst_scheme \<Rightarrow> 'a consst_scheme" where
  "sent vs out s = s\<lparr>lsr := vs, uart_log := uart_log s @ map (Pair THR) out\<rparr>"

lemma sent_sent [simp]: "sent vs out (sent us out' s) = sent vs (out' @ out) s"
  by (simp add: sent_def)

lemma nested_cong: "mycpu t = mycpu s \<Longrightarrow> panicked t = panicked s \<Longrightarrow> nested t = nested s"
  by (simp add: nested_def)

lemma mycpu_cons [simp]:
  "mycpu (sent vs out s) = mycpu s" "mycpu (cons_e_update f s) = mycpu s" "mycpu (cons_w_update f s) = mycpu s"
  "mycpu (cons_buf_update g s) = mycpu s" "mycpu (lsr_update h s) = mycpu s" "mycpu (uart_log_update k s) = mycpu s"
  by (simp_all add: mycpu_def sent_def)

lemma sent_simps [simp]:
  "cons_buf (sent vs out s) = cons_buf s" "cons_r (sent vs out s) = cons_r s" "cons_w (sent vs out s) = cons_w s"
  "cons_e (sent vs out s) = cons_e s" "panicked (sent vs out s) = panicked s" "procs (sent vs out s) = procs s"
  "locks (sent vs out s) = locks s" "cpus (sent vs out s) = cpus s" "hartid (sent vs out s) = hartid s"
  "lsr (sent vs out s) = vs" "uart_log (sent vs out s) = uart_log s @ map (Pair THR) out"
  by (simp_all add: sent_def)

lemma uartputc_sync_ok:
  assumes n: "nested s" and i: "0 < idles s"
  obtains vs where "uartputc_sync c s = Inr (sent vs [c] s)" "Suc (length (filter (\<lambda>v. v AND LSR_TX_IDLE \<noteq> 0) vs)) = idles s"
proof -
  let ?P = "\<lambda>v :: u8. v AND LSR_TX_IDLE = 0"
  have f: "filter (\<lambda>v. \<not> ?P v) (dropWhile ?P xs) = filter (\<lambda>v. \<not> ?P v) xs" for xs by (induction xs) auto
  obtain v vs where d: "dropWhile ?P (lsr s) = v # vs"
    using i f [of "lsr s"] by (cases "dropWhile ?P (lsr s)") (auto simp: idles_def)
  have v: "\<not> ?P v" using hd_dropWhile [of ?P "lsr s"] unfolding d by simp
  have c: "mycpu (push_off s) = push_cpu (mycpu s)" by (simp add: push_off_eq)
  let ?u = "WriteReg THR c ((push_off s)\<lparr>lsr := vs\<rparr>)"
  have m: "mycpu ?u = push_cpu (mycpu s)" using c by (simp add: WriteReg_def)
  have "pop_off ?u = Inr (set_mycpu (pop_cpu (mycpu ?u)) ?u)"
    by (rule pop_off_eq) (simp_all only: m, simp_all add: push_cpu_def)
  moreover have "set_mycpu (pop_cpu (mycpu ?u)) ?u = sent vs [c] (settled s)"
    unfolding m by (simp add: settled_def settle_def set_mycpu_def push_off_eq WriteReg_def sent_def)
  moreover have "settled s = s" using n by (intro settled_nested) (simp_all add: nested_def)
  moreover have "lsr (push_off s) = lsr s" "panicked (push_off s) = panicked s" by (simp_all add: push_off_eq set_mycpu_def)
  ultimately have "uartputc_sync c s = Inr (sent vs [c] s)"
    using n d by (simp add: uartputc_sync_def Let_def nested_def)
  moreover have "Suc (length (filter (\<lambda>v. \<not> ?P v) vs)) = idles s"
    using arg_cong [OF f [of "lsr s"], of length] d v by (simp add: idles_def)
  ultimately show ?thesis by (rule that)
qed

lemma idles_sent [simp]: "idles (sent vs out s) = length (filter (\<lambda>v. v AND LSR_TX_IDLE \<noteq> 0) vs)"
  by (simp add: idles_def)

lemma nested_sent [simp]: "nested (sent vs out s) = nested s"
  by (rule nested_cong) simp_all

lemma consputc_ok:
  assumes n: "nested s" and out: "out = (if c = BACKSPACE then [8, 32, 8] else [word_of_int c])" and i: "length out \<le> idles s"
  obtains vs where "consputc c s = Inr (sent vs out s)" "length out + idles (sent vs out s) = idles s"
proof (cases "c = BACKSPACE")
  case True
  have i3: "3 \<le> idles s" using i out True by simp
  obtain v1 where v1: "uartputc_sync 8 s = Inr (sent v1 [8] s)" "Suc (length (filter (\<lambda>v. v AND LSR_TX_IDLE \<noteq> 0) v1)) = idles s"
    by (rule uartputc_sync_ok [OF n, of 8]) (use i3 in auto)
  obtain v2 where v2: "uartputc_sync 32 (sent v1 [8] s) = Inr (sent v2 [32] (sent v1 [8] s))"
      "Suc (length (filter (\<lambda>v. v AND LSR_TX_IDLE \<noteq> 0) v2)) = idles (sent v1 [8] s)"
    by (rule uartputc_sync_ok [of "sent v1 [8] s" 32]) (use n i3 v1(2) in auto)
  obtain v3 where v3: "uartputc_sync 8 (sent v2 [8, 32] s) = Inr (sent v3 [8] (sent v2 [8, 32] s))"
      "Suc (length (filter (\<lambda>v. v AND LSR_TX_IDLE \<noteq> 0) v3)) = idles (sent v2 [8, 32] s)"
    by (rule uartputc_sync_ok [of "sent v2 [8, 32] s" 8]) (use n i3 v1(2) v2(2) in auto)
  have "consputc c s = Inr (sent v3 out s)" using True out v1(1) v2(1) v3(1) by (simp add: consputc_def)
  moreover have "length out + idles (sent v3 out s) = idles s" using True out v1(2) v2(2) v3(2) by simp
  ultimately show ?thesis by (rule that)
next
  case False
  obtain v where v: "uartputc_sync (word_of_int c) s = Inr (sent v [word_of_int c] s)"
      "Suc (length (filter (\<lambda>v. v AND LSR_TX_IDLE \<noteq> 0) v)) = idles s"
    by (rule uartputc_sync_ok [OF n, of "word_of_int c"]) (use i out False in auto)
  show ?thesis by (rule that [of v]) (use False out v in \<open>simp_all add: consputc_def\<close>)
qed

lemma consputc_back:
  assumes "nested s" "3 \<le> idles s"
  obtains vs where "consputc BACKSPACE s = Inr (sent vs [8, 32, 8] s)" "3 + idles (sent vs [8, 32, 8] s) = idles s"
proof -
  obtain vs where "consputc BACKSPACE s = Inr (sent vs [8, 32, 8] s)" "length [8, 32, 8 :: u8] + idles (sent vs [8, 32, 8] s) = idles s"
    by (rule consputc_ok [OF assms(1), of "[8, 32, 8]" BACKSPACE]) (use assms(2) in simp_all)
  then show ?thesis using that by simp
qed

text \<open>Taking back the last character of the line.\<close>

lemma cons_back:
  assumes "cons_inv s" "cons_line s \<noteq> []"
  shows "cons_inv (s\<lparr>cons_e := cons_e s - 1\<rparr>)" "cons_text (s\<lparr>cons_e := cons_e s - 1\<rparr>) = cons_text s"
    "cons_line (s\<lparr>cons_e := cons_e s - 1\<rparr>) = butlast (cons_line s)"
proof -
  let ?t = "s\<lparr>cons_e := cons_e s - 1\<rparr>" and ?e = "unat (cons_e s - cons_r s)" and ?w = "unat (cons_w s - cons_r s)"
  have lt: "?w < ?e" using assms(2) by (simp add: cons_line_def cons_all_def)
  then have "unat ((cons_e s - cons_r s) - 1) = ?e - 1" by (intro unat_minus_one) auto
  then have e: "unat (cons_e ?t - cons_r ?t) = ?e - 1" by (simp add: algebra_simps)
  have "cons_all ?t = ring_from (cons_buf s) (cons_r s) (?e - 1)" using e by (simp add: cons_all_def)
  then have a: "cons_all ?t = butlast (cons_all s)"
    using ring_take [of "?e - 1" ?e "cons_buf s" "cons_r s"] by (simp add: cons_all_def butlast_conv_take)
  have w: "unat (cons_w ?t - cons_r ?t) = ?w" by simp
  have "?w < length (cons_all s)" using lt by (simp add: cons_all_def)
  then show t: "cons_text ?t = cons_text s" unfolding cons_text_def w a by (rule take_butlast)
  show l: "cons_line ?t = butlast (cons_line s)" unfolding cons_line_def w a by (rule drop_butlast)
  show "cons_inv ?t" using assms(1) e lt l by (auto simp: cons_inv_def dest: in_set_butlastD)
qed

lemma cons_sent [simp]:
  "cons_text (sent vs out s) = cons_text s" "cons_line (sent vs out s) = cons_line s" "cons_inv (sent vs out s) = cons_inv s"
  by (simp_all add: cons_text_def cons_line_def cons_all_def cons_inv_def)

lemma sent_cons_e: "(sent vs out s)\<lparr>cons_e := e\<rparr> = sent vs out (s\<lparr>cons_e := e\<rparr>)"
  by (simp add: sent_def)

lemma last_line:
  assumes "cons_inv s" "cons_line s \<noteq> []"
  shows "cons_at (cons_e s - 1) s = last (cons_line s)"
proof -
  let ?e = "unat (cons_e s - cons_r s)"
  have lt: "unat (cons_w s - cons_r s) < ?e" using assms(2) by (simp add: cons_line_def cons_all_def)
  then obtain k where k: "?e = Suc k" by (cases ?e) auto
  have "cons_e s - cons_r s = of_nat (Suc k)" unfolding k [symmetric] by simp
  then have "cons_e s = of_nat (Suc k) + cons_r s" by (simp only: diff_eq_eq)
  then have i: "cons_e s - 1 = cons_r s + of_nat k" by simp
  have "last (cons_line s) = last (cons_all s)" using lt by (simp add: cons_line_def last_drop cons_all_def)
  also have "\<dots> = cons_buf s (unat ((cons_r s + of_nat k) mod of_nat INPUT_BUF_SIZE))"
    unfolding cons_all_def k ring_from_def by simp
  finally show ?thesis unfolding cons_at_def i by simp
qed

lemma kill_line_ok:
  assumes "cons_inv s" "nested s" "n = length (cons_line s)" "3 * n \<le> idles s"
  obtains vs e where "kill_line n s = Inr (sent vs (concat (replicate n [8, 32, 8])) (s\<lparr>cons_e := e\<rparr>))"
    "cons_inv (s\<lparr>cons_e := e\<rparr>)" "cons_text (s\<lparr>cons_e := e\<rparr>) = cons_text s" "cons_line (s\<lparr>cons_e := e\<rparr>) = []"
  using assms
proof (induction n arbitrary: s thesis)
  case 0
  show ?case
    by (rule 0(1) [of "lsr s" "cons_e s"]) (use 0(2,4) in \<open>simp_all add: sent_def\<close>)
next
  case (Suc n)
  let ?s1 = "s\<lparr>cons_e := cons_e s - 1\<rparr>"
  have l: "cons_line s \<noteq> []" using Suc(5) by auto
  note b = cons_back [OF Suc(3) l]
  have "last (cons_line s) \<noteq> 10" using Suc(3) last_in_set [OF l] by (auto simp: cons_inv_def)
  then have c: "cons_e s \<noteq> cons_w s" "cons_at (cons_e s - 1) s \<noteq> 10"
    using edit_index(1) [OF Suc(3)] last_line [OF Suc(3) l] l by simp_all
  have n1: "nested ?s1" "idles ?s1 = idles s" using Suc(4) by (simp_all add: nested_def idles_def)
  obtain v where v: "consputc BACKSPACE ?s1 = Inr (sent v [8, 32, 8] ?s1)" "3 + idles (sent v [8, 32, 8] ?s1) = idles ?s1"
    by (rule consputc_back [OF n1(1)]) (use Suc(6) n1(2) in simp)
  obtain vs e where e: "kill_line n (sent v [8, 32, 8] ?s1)
        = Inr (sent vs (concat (replicate n [8, 32, 8])) ((sent v [8, 32, 8] ?s1)\<lparr>cons_e := e\<rparr>))"
      "cons_inv ((sent v [8, 32, 8] ?s1)\<lparr>cons_e := e\<rparr>)"
      "cons_text ((sent v [8, 32, 8] ?s1)\<lparr>cons_e := e\<rparr>) = cons_text (sent v [8, 32, 8] ?s1)"
      "cons_line ((sent v [8, 32, 8] ?s1)\<lparr>cons_e := e\<rparr>) = []"
    by (rule Suc(1) [of "sent v [8, 32, 8] ?s1"]) (use b n1 v(2) Suc(5,6) in auto)
  show ?case
    by (rule Suc(2) [of vs e]) (use c v(1) e b(2) in \<open>simp_all add: sent_cons_e\<close>)
qed

text \<open>Adding a character, and giving the line to the readers.\<close>

definition cons_add :: "u8 \<Rightarrow> 'a consst_scheme \<Rightarrow> 'a consst_scheme" where
  "cons_add c s = s\<lparr>cons_buf := (cons_buf s)(unat (cons_e s mod of_nat INPUT_BUF_SIZE) := c), cons_e := cons_e s + 1\<rparr>"

lemma cons_add:
  assumes "cons_inv s" "unat (cons_e s - cons_r s) < 128"
  shows "unat (cons_e (cons_add c s) - cons_r (cons_add c s)) = Suc (unat (cons_e s - cons_r s))"
    "cons_text (cons_add c s) = cons_text s" "cons_line (cons_add c s) = cons_line s @ [c]"
    "c \<noteq> 10 \<Longrightarrow> cons_inv (cons_add c s)"
    "cons_inv ((cons_add c s)\<lparr>cons_w := cons_e s + 1\<rparr>)" "cons_text ((cons_add c s)\<lparr>cons_w := cons_e s + 1\<rparr>) = cons_text s @ cons_line s @ [c]"
    "cons_line ((cons_add c s)\<lparr>cons_w := cons_e s + 1\<rparr>) = []"
proof -
  let ?t = "cons_add c s" and ?e = "unat (cons_e s - cons_r s)" and ?w = "unat (cons_w s - cons_r s)"
  let ?u = "?t\<lparr>cons_w := cons_e s + 1\<rparr>"
  have "unat ((cons_e s - cons_r s) + 1) = Suc ?e" using assms(2) by (simp only: unat_word_ariths) simp
  then have e: "unat (cons_e s + 1 - cons_r s) = Suc ?e" by (simp add: algebra_simps)
  then show e': "unat (cons_e ?t - cons_r ?t) = Suc ?e" by (simp add: cons_add_def)
  have "cons_e s = cons_r s + of_nat ?e" by simp
  then have "cons_all ?t = cons_all s @ [c]"
    using ring_put [OF assms(2), of "cons_buf s" "cons_r s" c] e' by (simp add: cons_all_def cons_add_def)
  then have a: "cons_all ?t = cons_all s @ [c]" "cons_all ?u = cons_all s @ [c]" by (simp_all add: cons_all_def cons_add_def)
  have w: "?w \<le> length (cons_all s)" "cons_w ?t = cons_w s" "cons_r ?t = cons_r s" "?w \<le> ?e"
    using assms(1) by (simp_all add: cons_inv_def cons_all_def cons_add_def)
  show t: "cons_text ?t = cons_text s" "cons_line ?t = cons_line s @ [c]"
    using a(1) w by (simp_all add: cons_text_def cons_line_def)
  have "unat (cons_w ?u - cons_r ?u) = length (cons_all ?u)" using a(2) e by (simp add: cons_all_def cons_add_def)
  then show u: "cons_text ?u = cons_text s @ cons_line s @ [c]" "cons_line ?u = []"
    using a(2) by (simp_all add: cons_text_def cons_line_def)
  show "c \<noteq> 10 \<Longrightarrow> cons_inv ?t" using assms e' t(2) w by (simp add: cons_inv_def)
  show "cons_inv ?u" using assms(2) e u(2) by (simp add: cons_inv_def cons_add_def)
qed

lemma typed_echo:
  assumes "0 \<le> c" "c < 256" and d: "d = (if c = 13 then 10 else c)"
  shows "d \<noteq> BACKSPACE" "word_of_int d = typed c" "d = 10 \<longleftrightarrow> typed c = 10" "d = 4 \<longleftrightarrow> typed c = 4"
proof -
  have u: "uint (word_of_int d :: u8) = d" using assms by (auto simp: uint_word_of_int)
  show w: "word_of_int d = typed c" by (simp add: typed_def d)
  show "d \<noteq> BACKSPACE" using assms by (auto simp: BACKSPACE_def)
  show "d = 10 \<longleftrightarrow> typed c = 10" "d = 4 \<longleftrightarrow> typed c = 4" unfolding w [symmetric] by (auto simp: word_uint_eq_iff u)
qed

definition edited :: "int \<Rightarrow> 'a consst_scheme \<Rightarrow> 'a consst_scheme \<Rightarrow> bool" where
  "edited c s t \<longleftrightarrow> cons_inv t \<and> (cons_text t, cons_line t) = edit c (cons_text s, cons_line s)
     \<and> uart_log t = uart_log s @ map (Pair THR) (echoed c (cons_text s, cons_line s))"

lemma cons_procs [simp]:
  "cons_inv (s\<lparr>procs := P\<rparr>) = cons_inv s" "cons_text (s\<lparr>procs := P\<rparr>) = cons_text s" "cons_line (s\<lparr>procs := P\<rparr>) = cons_line s"
  by (simp_all add: cons_inv_def cons_text_def cons_line_def cons_all_def)

lemma consoleintr_add:
  assumes s: "cons_inv s" "nested s" "procs_free s" and c: "0 < c" "c < 256" "c \<notin> {0x10, 0x15, 0x08, 0x7F, 0x06}"
    and r: "unat (cons_e s - cons_r s) < 128" "0 < idles s"
  shows "\<exists>t. consoleintr_body c s = Inr t \<and> edited c s t \<and> locks t = locks s \<and> cpus t = cpus s \<and> hartid t = hartid s"
proof -
  define d where "d = (if c = 13 then 10 else c)"
  have ty: "d \<noteq> BACKSPACE" "word_of_int d = typed c" "d = 10 \<longleftrightarrow> typed c = 10" "d = 4 \<longleftrightarrow> typed c = 4"
    using typed_echo [OF _ c(2) d_def] c(1) by auto
  obtain vs where v: "consputc d s = Inr (sent vs [typed c] s)"
    by (rule consputc_ok [OF s(2) refl, of d]) (use ty r(2) in auto)
  define u where "u = sent vs [typed c] s"
  define t where "t = cons_add (typed c) u"
  have u: "cons_inv u" "unat (cons_e u - cons_r u) < 128" using s(1) r(1) by (simp_all add: u_def)
  note a = cons_add [OF u, of "typed c", folded t_def]
  have n: "unat (cons_e t - cons_r t) = Suc (length (cons_text s) + length (cons_line s))"
    using a(1) edit_index(2) [OF s(1)] by (simp add: u_def)
  have full: "cons_e t - cons_r t = of_nat INPUT_BUF_SIZE \<longleftrightarrow> length (cons_text s) + length (cons_line s) = 127"
    using n by (simp add: word_unat_eq_iff)
  have room: "cons_e s - cons_r s < of_nat INPUT_BUF_SIZE" using r(1) by (simp add: word_less_nat_alt)
  have v': "consputc d s = Inr u" using v by (simp add: u_def)
  have body: "consoleintr_body c s = (if d = 10 \<or> d = 4 \<or> cons_e t - cons_r t = of_nat INPUT_BUF_SIZE
      then wakeup Ch_cons (t\<lparr>cons_w := cons_e t\<rparr>) else Inr t)"
    using c room v' by (simp add: consoleintr_body_def d_def [symmetric] Let_def t_def cons_add_def ty(2) [symmetric])
  have keep: "locks t = locks s" "cpus t = cpus s" "hartid t = hartid s" "uart_log t = uart_log s @ [(THR, typed c)]"
    "cons_e t = cons_e u + 1" by (simp_all add: t_def cons_add_def u_def)
  have e: "echoed c (cons_text s, cons_line s) = [typed c]"
    using c edit_index(2) [OF s(1)] r(1) by (auto simp: echoed_def)
  have uv: "cons_text u = cons_text s" "cons_line u = cons_line s" by (simp_all add: u_def)
  show ?thesis
  proof (cases "d = 10 \<or> d = 4 \<or> cons_e t - cons_r t = of_nat INPUT_BUF_SIZE")
    case True
    let ?w = "t\<lparr>cons_w := cons_e t\<rparr>"
    have "nested ?w" using s(2) by (simp add: nested_def t_def cons_add_def u_def)
    then have "settled ?w = ?w" unfolding nested_def by (intro settled_nested) blast+
    moreover have "procs_free ?w" using s(3) keep(1) by (simp add: procs_free_def lock_free_def)
    ultimately obtain P where P: "wakeup Ch_cons ?w = Inr (?w\<lparr>procs := P\<rparr>)" using wakeup_eq by metis
    have "edit c (cons_text s, cons_line s) = (cons_text s @ cons_line s @ [typed c], [])"
      using c edit_index(2) [OF s(1)] r(1) True ty(3,4) full by (auto simp: edit_def)
    then have "edited c s (?w\<lparr>procs := P\<rparr>)" using a(5-7) keep e uv by (simp add: edited_def)
    then show ?thesis using body True P keep by simp
  next
    case False
    have "edit c (cons_text s, cons_line s) = (cons_text s, cons_line s @ [typed c])"
      using c edit_index(2) [OF s(1)] r(1) False ty(3,4) full by (auto simp: edit_def)
    moreover have "cons_inv t" using a(4) False ty(3) by simp
    ultimately have "edited c s t" using a(2,3) keep e uv by (simp add: edited_def)
    then show ?thesis using body False keep by simp
  qed
qed

lemma consoleintr_body_ok:
  assumes s: "cons_inv s" "nested s" "procs_free s" and c: "0 \<le> c" "c < 256" "c \<noteq> 0x10" "c \<noteq> 0x06"
    and i: "length (echoed c (cons_text s, cons_line s)) \<le> idles s"
  shows "\<exists>t. consoleintr_body c s = Inr t \<and> edited c s t \<and> locks t = locks s \<and> cpus t = cpus s \<and> hartid t = hartid s"
proof -
  have len: "length (cons_text s) + length (cons_line s) = unat (cons_e s - cons_r s)" by (rule edit_index(2) [OF s(1)])
  consider (erase) "c = 0x15" | (rub) "c = 0x08 \<or> c = 0x7F" | (ignore) "c \<notin> {0x15, 0x08, 0x7F}" "c = 0 \<or> \<not> unat (cons_e s - cons_r s) < 128"
    | (add) "c \<notin> {0x15, 0x08, 0x7F}" "c \<noteq> 0" "unat (cons_e s - cons_r s) < 128" by blast
  then show ?thesis
  proof cases
    case erase
    have l: "length (concat (replicate n [8, 32, 8 :: u8])) = 3 * n" for n by (induction n) auto
    obtain vs e where "kill_line (length (cons_line s)) s = Inr (sent vs (concat (replicate (length (cons_line s)) [8, 32, 8])) (s\<lparr>cons_e := e\<rparr>))"
        "cons_inv (s\<lparr>cons_e := e\<rparr>)" "cons_text (s\<lparr>cons_e := e\<rparr>) = cons_text s" "cons_line (s\<lparr>cons_e := e\<rparr>) = []"
      by (rule kill_line_ok [OF s(1,2) refl]) (use i erase l in \<open>simp add: echoed_def\<close>)
    then show ?thesis using erase edit_index(3) [OF s(1)] by (simp add: consoleintr_body_def edited_def edit_def echoed_def)
  next
    case rub
    show ?thesis
    proof (cases "cons_line s = []")
      case True
      then show ?thesis using rub s(1) edit_index(1) [OF s(1)] by (auto simp: consoleintr_body_def edited_def edit_def echoed_def)
    next
      case False
      let ?t = "s\<lparr>cons_e := cons_e s - 1\<rparr>"
      have n: "nested ?t" "3 \<le> idles ?t" using s(2) i rub False by (auto simp: nested_def idles_def echoed_def)
      obtain v where "consputc BACKSPACE ?t = Inr (sent v [8, 32, 8] ?t)" by (rule consputc_back [OF n])
      then show ?thesis
        using rub False cons_back [OF s(1) False] edit_index(1) [OF s(1)]
        by (auto simp: consoleintr_body_def edited_def edit_def echoed_def)
    qed
  next
    case ignore
    then have "\<not> (c \<noteq> 0 \<and> cons_e s - cons_r s < of_nat INPUT_BUF_SIZE)" by (auto simp: word_less_nat_alt)
    then show ?thesis using ignore c s(1) len by (auto simp: consoleintr_body_def edited_def edit_def echoed_def)
  next
    case add
    have "0 < idles s" using i add len by (auto simp: echoed_def)
    then show ?thesis by (intro consoleintr_add) (use s c add in auto)
  qed
qed

text \<open>
  C35: The console interrupt handler is the line editor: with the locks free and the UART ready for the echo, a
  character (other than the two that print a report) changes the text for the readers and the line being typed as
  \<open>edit\<close> says, and the echo goes to the UART. A line becomes readable when it is ended or fills the buffer of
  128; control-U and backspace take back only what has not been given to the readers.
\<close>

theorem consoleintr_spec:
  assumes "cons_inv s" "lock_free Lk_cons s" "procs_free s" "\<not> panicked s" "0 \<le> c" "c < 256" "c \<noteq> 0x10" "c \<noteq> 0x06"
    and "length (echoed c (cons_text s, cons_line s)) \<le> idles s"
  shows "\<exists>t. consoleintr c s = Inr t \<and> cons_inv t \<and> (cons_text t, cons_line t) = edit c (cons_text s, cons_line s)
    \<and> uart_log t = uart_log s @ map (Pair THR) (echoed c (cons_text s, cons_line s))"
proof -
  let ?s = "entered Lk_cons s"
  have v: "cons_inv ?s = cons_inv s" "cons_text ?s = cons_text s" "cons_line ?s = cons_line s" "idles ?s = idles s"
      "uart_log ?s = uart_log s" "panicked ?s = panicked s"
    by (simp_all add: cons_inv_def cons_text_def cons_line_def cons_all_def idles_def entered_def)
  have n: "nested ?s" using assms(4) v(6) by (simp add: nested_def push_cpu_def)
  have p: "procs_free ?s" using assms(3) by (simp add: procs_free_def)
  obtain t where t: "consoleintr_body c ?s = Inr t" "edited c ?s t" "locks t = locks ?s" "cpus t = cpus ?s" "hartid t = hartid ?s"
    using consoleintr_body_ok [OF _ n p assms(5-8)] assms(1,9) v by auto
  have "consoleintr c s = Inr (t\<lparr>locks := locks s, cpus := cpus (settled s)\<rparr>)"
    unfolding consoleintr_def by (rule critical0_leaf) (use assms(2) t in simp_all)
  moreover have "cons_inv (t\<lparr>locks := L, cpus := C\<rparr>) = cons_inv t" "cons_text (t\<lparr>locks := L, cpus := C\<rparr>) = cons_text t"
    "cons_line (t\<lparr>locks := L, cpus := C\<rparr>) = cons_line t" for L C
    by (simp_all add: cons_inv_def cons_text_def cons_line_def cons_all_def)
  ultimately show ?thesis using t(2) v unfolding edited_def by simp
qed

text \<open>Two characters have been typed, and the indices are about to wrap around.\<close>

definition cons_state :: consst where
  "cons_state = fsst.extend (fsst_of (\<lambda>_ _. 0) (itable (logst_of (\<lambda>_ _ _. 0))))
     \<lparr>cons_buf = (\<lambda>_. 0)(126 := 104, 127 := 105), cons_r = 0xFFFFFFFE, cons_w = 0xFFFFFFFE, cons_e = 0,
      tx_buf = (\<lambda>_. 0), tx_w = 0, tx_r = 0, lsr = [0, 0x20], rhr = [], uart_log = [], panicked = False, pr_locking = True\<rparr>"

lemma cons_state_simps [simp]:
  "cons_buf cons_state = (\<lambda>_. 0)(126 := 104, 127 := 105)" "cons_r cons_state = 0xFFFFFFFE" "cons_w cons_state = 0xFFFFFFFE"
  "cons_e cons_state = 0" "lsr cons_state = [0, 0x20]" "uart_log cons_state = []" "\<not> panicked cons_state"
  "tx_buf cons_state = (\<lambda>_. 0)" "tx_w cons_state = 0" "tx_r cons_state = 0"
  "locks cons_state = locks (fsst_of (\<lambda>_ _. 0) (itable (logst_of (\<lambda>_ _ _. 0))))"
  by (simp_all add: cons_state_def fsst.defs)

lemma cons_state_view: "cons_text cons_state = []" "cons_line cons_state = [104, 105]"
  by (simp_all add: cons_text_def cons_line_def cons_all_def ring_from_def upt_rec)

lemma cons_state_free: "lock_free l cons_state"
proof -
  have "quiet 1 (fsst_of (\<lambda>_ _. 0) (itable (logst_of (\<lambda>_ _ _. 0))))" using fsst_of_tx in_tx_def goodD(1) by metis
  then show ?thesis using quietD(4) by (fastforce simp: lock_free_def)
qed

theorem consoleintr_spec_witness:
  "\<exists>t. consoleintr 13 cons_state = Inr t \<and> cons_text t = [104, 105, 10] \<and> cons_line t = [] \<and> uart_log t = [(THR, 10)]"
proof -
  have l: "lock_free Lk_cons cons_state" "procs_free cons_state" by (simp_all add: procs_free_def cons_state_free)
  have i: "cons_inv cons_state" by (simp add: cons_inv_def cons_state_view)
  have e: "echoed 13 ([], [104, 105]) = [10]" "edit 13 ([], [104, 105]) = ([104, 105, 10], [])"
    by (simp_all add: echoed_def edit_def typed_def)
  show ?thesis using consoleintr_spec [OF i l, of 13] by (auto simp: cons_state_view e idles_def LSR_TX_IDLE_def)
qed

section \<open>The output buffer is a bounded queue\<close>

definition uart_inv :: "'a consst_scheme \<Rightarrow> bool" where
  "uart_inv s \<longleftrightarrow> unat (tx_w s - tx_r s) \<le> UART_TX_BUF_SIZE"

definition uart_queue :: "'a consst_scheme \<Rightarrow> u8 list" where
  "uart_queue s = map (\<lambda>i. tx_buf s (unat ((tx_r s + of_nat i) mod of_nat UART_TX_BUF_SIZE))) [0..<unat (tx_w s - tx_r s)]"

lemma uart_index: "unat ((a + of_nat i :: u64) mod of_nat UART_TX_BUF_SIZE) = (unat a + i) mod 32"
  using unat_ring_index [of 32 a i] by simp

lemma uart_length [simp]: "length (uart_queue s) = unat (tx_w s - tx_r s)"
  by (simp add: uart_queue_def)

lemma uart_put_queue:
  assumes "unat (tx_w s - tx_r s) < 32"
  shows "unat (tx_w (uart_put c s) - tx_r s) = Suc (unat (tx_w s - tx_r s))" "uart_queue (uart_put c s) = uart_queue s @ [c]"
proof -
  let ?n = "unat (tx_w s - tx_r s)"
  have "unat ((tx_w s - tx_r s) + 1) = Suc ?n" using assms by (simp only: unat_word_ariths) simp
  then show n: "unat (tx_w (uart_put c s) - tx_r s) = Suc ?n" by (simp add: uart_put_def algebra_simps)
  have w: "unat (tx_w s mod of_nat UART_TX_BUF_SIZE) = (unat (tx_r s) + ?n) mod 32" using uart_index [of "tx_r s" ?n] by simp
  have "tx_buf (uart_put c s) (unat ((tx_r s + of_nat i) mod of_nat UART_TX_BUF_SIZE))
      = (if i = ?n then c else tx_buf s (unat ((tx_r s + of_nat i) mod of_nat UART_TX_BUF_SIZE)))" if "i \<le> ?n" for i
  proof -
    have "unat ((tx_r s + of_nat i) mod of_nat UART_TX_BUF_SIZE) = unat (tx_w s mod of_nat UART_TX_BUF_SIZE) \<longleftrightarrow> i = ?n"
      unfolding uart_index w using ring_index_inj [of i 32 ?n "unat (tx_r s)"] that assms by auto
    then show ?thesis by (simp add: uart_put_def)
  qed
  moreover have "tx_r (uart_put c s) = tx_r s" "tx_buf (uart_put c s) (unat (tx_w s mod of_nat UART_TX_BUF_SIZE)) = c"
    by (simp_all add: uart_put_def)
  ultimately show "uart_queue (uart_put c s) = uart_queue s @ [c]" unfolding uart_queue_def by (simp add: n)
qed

lemma uart_get_queue:
  assumes "tx_w s \<noteq> tx_r s"
  shows "unat (tx_w s - tx_r s) = Suc (unat (tx_w s - (tx_r s + 1)))"
    "uart_queue s = fst (uart_get s) # uart_queue (snd (uart_get s))"
proof -
  have "tx_w s - tx_r s \<noteq> 0" using assms by simp
  then have "unat (tx_w s - tx_r s - 1) = unat (tx_w s - tx_r s) - 1" "0 < unat (tx_w s - tx_r s)"
    by (simp_all add: unat_minus_one unat_gt_0)
  then show n: "unat (tx_w s - tx_r s) = Suc (unat (tx_w s - (tx_r s + 1)))" by (simp add: diff_diff_eq)
  have "[0..<Suc k] = 0 # map Suc [0..<k]" for k by (simp add: upt_conv_Cons map_Suc_upt)
  then show "uart_queue s = fst (uart_get s) # uart_queue (snd (uart_get s))"
    unfolding uart_queue_def n by (simp add: uart_get_def n add.assoc comp_def)
qed

interpretation uart: bounded_queue uart_inv uart_queue UART_TX_BUF_SIZE uart_full uart_empty uart_put uart_get
proof unfold_locales
  fix s :: "'a consst_scheme" assume "uart_inv s"
  then show "length (uart_queue s) \<le> UART_TX_BUF_SIZE" by (simp add: uart_inv_def)
next
  fix s :: "'a consst_scheme"
  have "tx_w s = tx_r s + 32 \<longleftrightarrow> tx_w s - tx_r s = 32" by (auto simp: algebra_simps)
  also have "\<dots> \<longleftrightarrow> unat (tx_w s - tx_r s) = 32" by (simp add: word_unat_eq_iff)
  finally show "uart_full s \<longleftrightarrow> length (uart_queue s) = UART_TX_BUF_SIZE" by (simp add: uart_full_def)
next
  fix s :: "'a consst_scheme"
  have "uart_queue s = [] \<longleftrightarrow> unat (tx_w s - tx_r s) = 0" using uart_length [of s] by (metis length_0_conv)
  then show "uart_empty s \<longleftrightarrow> uart_queue s = []" by (auto simp: uart_empty_def unat_eq_0)
next
  fix s :: "'a consst_scheme" and c assume "uart_inv s" "length (uart_queue s) < UART_TX_BUF_SIZE"
  then have "unat (tx_w s - tx_r s) < 32" by simp
  then show "uart_inv (uart_put c s) \<and> uart_queue (uart_put c s) = uart_queue s @ [c]"
    using uart_put_queue [of s c] by (simp add: uart_inv_def) (simp add: uart_put_def)
next
  fix s :: "'a consst_scheme" assume q: "uart_inv s" "uart_queue s \<noteq> []"
  then have n: "tx_w s \<noteq> tx_r s" by (auto simp: uart_queue_def)
  have "uart_inv (snd (uart_get s))" using q(1) uart_get_queue(1) [OF n] by (simp add: uart_inv_def uart_get_def)
  then show "uart_inv (snd (uart_get s)) \<and> fst (uart_get s) = hd (uart_queue s) \<and> uart_queue (snd (uart_get s)) = tl (uart_queue s)"
    using uart_get_queue(2) [OF n] by (metis list.sel(1,3))
qed

text \<open>The number of bytes that \<^verbatim>\<open>uartstart\<close> sends when the line status register reads \<open>vs\<close>.\<close>

definition ready :: "u8 list \<Rightarrow> nat" where
  "ready vs = length (takeWhile (\<lambda>v. v AND LSR_TX_IDLE \<noteq> 0) vs)"

lemma uart_fields [simp]:
  "uart_queue (s\<lparr>procs := P\<rparr>) = uart_queue s" "uart_queue (WriteReg r c s) = uart_queue s" "uart_queue (s\<lparr>lsr := vs\<rparr>) = uart_queue s"
  "uart_inv (s\<lparr>procs := P\<rparr>) = uart_inv s" "uart_inv (WriteReg r c s) = uart_inv s" "uart_inv (s\<lparr>lsr := vs\<rparr>) = uart_inv s"
  by (simp_all add: uart_queue_def uart_inv_def WriteReg_def)

lemma uart_hw [simp]:
  "mycpu (WriteReg r c s) = mycpu s" "locks (WriteReg r c s) = locks s" "mycpu (snd (uart_get s)) = mycpu s" "locks (snd (uart_get s)) = locks s"
  "panicked (WriteReg r c s) = panicked s" "panicked (snd (uart_get s)) = panicked s" "uart_log (snd (uart_get s)) = uart_log s"
  "uart_log (WriteReg r c s) = uart_log s @ [(r, c)]"
  by (simp_all add: WriteReg_def uart_get_def mycpu_def)

lemma uartstart_loop_ok:
  assumes "uart_inv s" "nested s" "procs_free s"
  shows "\<exists>t. uartstart_loop vs s = Inr t \<and> uart_inv t \<and> uart_queue t = drop (ready vs) (uart_queue s)
    \<and> uart_log t = uart_log s @ map (Pair THR) (take (ready vs) (uart_queue s))"
  using assms
proof (induction vs arbitrary: s)
  case Nil
  then show ?case by (simp add: ready_def)
next
  case (Cons v vs)
  let ?s = "s\<lparr>lsr := vs\<rparr>"
  show ?case
  proof (cases "uart_queue s = [] \<or> v AND LSR_TX_IDLE = 0")
    case True
    then show ?thesis using Cons.prems uart.empty_iff [OF Cons.prems(1)] by (auto simp: ready_def)
  next
    case False
    obtain c u where g: "uart_get ?s = (c, u)" by fastforce
    have q: "uart_queue s = c # uart_queue u" "uart_inv u"
      using uart.get_law [of ?s] Cons.prems(1) False g by (auto simp: neq_Nil_conv)
    have u: "mycpu u = mycpu s" "locks u = locks s" "panicked u = panicked s" "uart_log u = uart_log s"
      using g uart_hw(3,4,6,7) [of ?s] by (simp_all add: mycpu_def)
    have "settled u = u" using Cons.prems(2) u by (intro settled_nested) (simp_all add: nested_def)
    moreover have "procs_free u" using Cons.prems(3) u by (simp add: procs_free_def lock_free_def)
    ultimately obtain P where P: "wakeup Ch_uart u = Inr (u\<lparr>procs := P\<rparr>)" using wakeup_eq by metis
    let ?t = "WriteReg THR c (u\<lparr>procs := P\<rparr>)"
    have "mycpu (u\<lparr>procs := P\<rparr>) = mycpu u" by (simp add: mycpu_def)
    then have "nested ?t" "procs_free ?t" "uart_inv ?t" "uart_queue ?t = uart_queue u" "uart_log ?t = uart_log s @ [(THR, c)]"
      using Cons.prems(2,3) u q(2) by (simp_all add: nested_def procs_free_def lock_free_def)
    then obtain t where "uartstart_loop vs ?t = Inr t" "uart_inv t" "uart_queue t = drop (ready vs) (uart_queue u)"
        "uart_log t = uart_log s @ [(THR, c)] @ map (Pair THR) (take (ready vs) (uart_queue u))"
      using Cons.IH [of ?t] by auto
    moreover have "\<not> uart_empty s" using False uart.empty_iff [OF Cons.prems(1)] by simp
    ultimately show ?thesis using False g P q(1) by (simp add: ready_def)
  qed
qed

text \<open>
  C36: \<^verbatim>\<open>uartstart\<close> sends the oldest bytes of the transmit buffer in order, one for each time it finds the
  transmitter idle, and leaves the others queued: no byte is lost, repeated or overtaken, also when the 64-bit
  counters of the buffer of 32 bytes wrap around.
\<close>

theorem uartstart_spec:
  assumes "uart_inv s" "nested s" "procs_free s"
  shows "\<exists>t. uartstart s = Inr t \<and> uart_inv t \<and> uart_queue t = drop (ready (lsr s)) (uart_queue s)
    \<and> uart_log t = uart_log s @ map (Pair THR) (take (ready (lsr s)) (uart_queue s))"
  using uartstart_loop_ok [OF assms] by (simp add: uartstart_def)

theorem uartstart_spec_witness:
  "\<exists>t. uartstart (uart_put 66 (uart_put 65 ((entered Lk_uart cons_state)\<lparr>lsr := [0x20, 0]\<rparr>))) = Inr t
    \<and> uart_log t = [(THR, 65)] \<and> uart_queue t = [66]"
proof -
  let ?s = "uart_put 66 (uart_put 65 ((entered Lk_uart cons_state)\<lparr>lsr := [0x20, 0]\<rparr>))"
  have f: "uart_inv ?s" "uart_queue ?s = [65, 66]" "lsr ?s = [0x20, 0]" "uart_log ?s = []" "\<not> panicked ?s"
    by (simp_all add: uart_inv_def uart_queue_def uart_put_def entered_def upt_rec)
  have m: "mycpu ?s = mycpu (entered Lk_uart cons_state)" "locks ?s = locks (entered Lk_uart cons_state)"
    by (simp_all add: uart_put_def mycpu_def)
  have "procs_free (entered Lk_uart cons_state)" using cons_state_free by (simp add: procs_free_def)
  then have "procs_free ?s" "nested ?s" using m f(5) by (simp_all add: procs_free_def lock_free_def nested_def push_cpu_def)
  then show ?thesis using uartstart_spec [of ?s] f by (auto simp: ready_def LSR_TX_IDLE_def)
qed

end
