(* ===== verification/Spec2Isabelle.thy ===== *)
theory Spec2Isabelle
  imports Mappings Paging Sleepwake Pipe Grep Ulib Exec Files Sh Console
begin

text \<open>
  A verification development of xv6-snu-mmap: the xv6 teaching kernel for RISC-V with memory mappings
  (\<^verbatim>\<open>mmap\<close>, \<^verbatim>\<open>munmap\<close>), 2 MiB huge pages, copy-on-write \<^verbatim>\<open>fork\<close> and reference-counted
  frames, and some of its user programs.  File names are relative to \<^verbatim>\<open>src/\<close>.

  \<^bold>\<open>How the code is modelled.\<close>  A C function is a HOL function on an explicit state.  The state is a record
  that grows with the components: \<open>hw\<close> (spin locks and harts, \<open>Spinlock\<close>), \<open>kst\<close> (physical memory and the frame
  allocator, \<open>Kalloc\<close>), \<open>vmst\<close> (\<open>Vm\<close>), \<open>filest\<close> (open files and in-memory inodes, \<open>File\<close>), \<open>procst\<close> (\<open>Proc\<close>),
  \<open>pipest\<close> (\<open>Pipe\<close>), \<open>slst\<close> (\<open>Sleeplock\<close>), \<open>biost\<close> (\<open>Bio\<close>), \<open>logst\<close> (\<open>Log\<close>), \<open>fsst\<close> (\<open>Fs\<close>), \<open>consst\<close> (\<open>Console\<close>).
  Each operation takes the smallest of these records it needs, with the rest of the state as a type parameter, so
  it applies unchanged in the larger ones.  The result is a value and a new state, or a \<open>fault\<close>: a panic with
  its message, a null or out-of-bounds access (\<open>Wild\<close>), a wait that only another thread or a device can end
  (\<open>Spin\<close>), or an exhausted recursion bound of the model (\<open>Fuel\<close>).  Machine integers are words of their width.
  Memory is a function from 64-bit addresses to bytes.  Pointers to elements of a table are indices into it.

  A function that calls \<^verbatim>\<open>swtch\<close> is split there; a loop that sleeps is split into rounds where a
  property depends on the waiting (sleep and wakeup, \<^verbatim>\<open>begin_op\<close>, pipes, sleep locks).  Within one operation a
  hart runs undisturbed; interleaving is explicit where it is the point: the atomic steps of \<^verbatim>\<open>acquire\<close>
  and \<^verbatim>\<open>release\<close> of all harts (\<open>Spinlock.lstep\<close>), and the actions of \<^verbatim>\<open>sleep\<close> on one hart against those of \<^verbatim>\<open>wakeup\<close>
  on another (\<open>Sleepwake.wstep\<close>).

  \<^bold>\<open>Machine and memory.\<close>
  \<^item> \<open>Prelude\<close>: word types, outcomes and their sequencing, lemmas on words, regions, ring indices.
  \<^item> \<open>Riscv\<close>: constants and macros of \<^verbatim>\<open>kernel/riscv.h\<close>, \<^verbatim>\<open>memlayout.h\<close>, \<^verbatim>\<open>param.h\<close>,
    \<^verbatim>\<open>fcntl.h\<close>, \<^verbatim>\<open>types.h\<close>; rounding and page-table indices as arithmetic.
  \<^item> \<open>Spinlock\<close>: \<^verbatim>\<open>kernel/spinlock.c\<close>.  Nesting of \<^verbatim>\<open>push_off\<close> and \<^verbatim>\<open>pop_off\<close>; mutual exclusion of the
    harts by rule induction over the step relation \<open>lstep\<close>, whose steps run by one hart alone are \<^verbatim>\<open>acquire\<close> and \<^verbatim>\<open>release\<close>.
  \<^item> \<open>Cstring\<close>: \<^verbatim>\<open>kernel/string.c\<close>, with closed forms for each loop.
  \<^item> \<open>Kalloc\<close>, \<open>Frames\<close>: \<^verbatim>\<open>kernel/kalloc.c\<close>.  The locale \<open>frame_allocator\<close> is the contract of a
    reference-counted allocator; it is interpreted for base frames (\<open>base\<close>) and huge frames (\<open>huge\<close>).  A history of
    allocations, releases and sharings agrees with a multiset of references, as long as its client gives back and shares only
    references it has and takes at most the 255 references to a frame that the 8-bit counts hold; \<open>incr_pa_ref_wraps\<close> shows what
    the 256th does.  \<^verbatim>\<open>kinit\<close> establishes the invariant, \<^verbatim>\<open>kfree\<close> is specified on every address, and the
    counters of free and used frames stay exact over any mix of the calls.
  \<^item> \<open>Vm\<close>, \<open>Pagetable\<close>, \<open>Uvm\<close>: \<^verbatim>\<open>kernel/vm.c\<close>.  A page table in memory is abstracted to the entries that virtual
    addresses have; \<^verbatim>\<open>walk\<close>, \<^verbatim>\<open>mappages\<close>, \<^verbatim>\<open>uvmunmap\<close> and the copies between kernel and user memory act on it.

  \<^bold>\<open>Processes and mappings.\<close>
  \<^item> \<open>Proc\<close>, \<open>Procs\<close>, \<open>Syscall\<close>: \<^verbatim>\<open>kernel/proc.c\<close>, \<^verbatim>\<open>kernel/syscall.c\<close>, the short handlers of
    \<^verbatim>\<open>kernel/sysproc.c\<close> and the clock interrupt of \<^verbatim>\<open>kernel/trap.c\<close>.  Wakeup and kill.
  \<^item> \<open>Sleepwake\<close>: \<^verbatim>\<open>sleep\<close> and \<^verbatim>\<open>wakeup\<close> as the sequences of actions that \<open>Proc\<close> defines them by, interleaved by two
    harts.  No interleaving panics, blocks for good or loses the wakeup.
  \<^item> \<open>Mmap\<close>, \<open>Mappings\<close>, \<open>Paging\<close>: \<^verbatim>\<open>sys_mmap\<close>, \<^verbatim>\<open>sys_munmap\<close>, the page-fault handler and \<^verbatim>\<open>fork\<close>.  What
    \<^verbatim>\<open>sys_mmap\<close> enters and refuses; demand paging; the copy on a write fault; the sharing of a private page by \<^verbatim>\<open>fork\<close>.
    These theorems are about base pages; the huge paths are modelled, and their frames are covered by \<open>huge\<close>.
  \<^item> \<open>Pipe\<close>, \<open>Sleeplock\<close>: \<^verbatim>\<open>kernel/pipe.c\<close>, \<^verbatim>\<open>kernel/sleeplock.c\<close>.  The locale \<open>bounded_queue\<close> is the contract of
    a ring buffer; the pipe (\<open>ring\<close>) and the transmit buffer of the UART (\<open>uart\<close>, in \<open>Console\<close>) meet it.
  \<^item> \<open>Exec\<close>: \<^verbatim>\<open>kernel/exec.c\<close>, \<^verbatim>\<open>sys_exec\<close>, and \<^verbatim>\<open>exit\<close>; definitions only.

  \<^bold>\<open>Files.\<close>
  \<^item> \<open>Bio\<close>: \<^verbatim>\<open>kernel/bio.c\<close>.  The cache refines a view indexed by block number.  The disk driver is its
    effect: a whole block is transferred, and the order of the writes is recorded.
  \<^item> \<open>Log\<close>: \<^verbatim>\<open>kernel/log.c\<close>.  A crash after any number of the writes of a commit, followed by recovery, leaves the
    old or the new state; recovery may itself crash; the last \<^verbatim>\<open>end_op\<close> makes the transaction durable; what \<^verbatim>\<open>begin_op\<close>
    admits is one block more than the log holds.
  \<^item> \<open>Fs\<close>, \<open>Dir\<close>, \<open>Sysfile\<close>: \<^verbatim>\<open>kernel/fs.c\<close>, the rest of \<^verbatim>\<open>kernel/file.c\<close>, \<^verbatim>\<open>kernel/sysfile.c\<close>.
  \<^item> \<open>Tx\<close>, \<open>Blocks\<close>, \<open>Inodes\<close>, \<open>Filedata\<close>, \<open>Filewrite\<close>, \<open>Files\<close>: correctness inside a transaction.  \<open>tx_step\<close> relates
    the states before and after an operation by the blocks it reads, changes and logs.  The block allocator returns a free
    zeroed block; an inode survives the way to the disk and back; \<^verbatim>\<open>readi\<close> and \<^verbatim>\<open>writei\<close> read and replace a part of a
    list of bytes; a write of three blocks stays within the ten blocks an operation may log; \<^verbatim>\<open>dirlookup\<close> finds the
    first entry with the name.  The locales \<open>sink\<close> and \<open>source\<close> say where the bytes of a transfer go to and come from.
    The theorems on writes are for sources in the kernel and in memory that the running process has mapped with base pages; those on
    reads are for destinations in the kernel.

  \<^bold>\<open>Console and user programs.\<close>
  \<^item> \<open>Console\<close>: \<^verbatim>\<open>kernel/uart.c\<close>, \<^verbatim>\<open>kernel/console.c\<close>, \<^verbatim>\<open>kernel/printf.c\<close>, \<^verbatim>\<open>procdump\<close>.  The interrupt handler is
    a line editor; \<^verbatim>\<open>uartstart\<close> sends in order.
  \<^item> \<open>Sh\<close>: the parser of \<^verbatim>\<open>user/sh.c\<close>.  Every line is parsed or refused, and a printed command parses to itself.
  \<^item> \<open>Grep\<close>: \<^verbatim>\<open>user/grep.c\<close>.  The matcher against a declarative definition, and \<^verbatim>\<open>grep\<close> for every division of the
    input into reads.
  \<^item> \<open>Ulib\<close>: \<^verbatim>\<open>user/ulib.c\<close>, \<^verbatim>\<open>user/printf.c\<close> and the number formats of \<^verbatim>\<open>kernel/printf.c\<close>.

  \<^bold>\<open>Bounds.\<close>  Loops with a counter recurse on it, and so do the three levels of \<^verbatim>\<open>walk\<close>.  Recursion bounds that are not
  in the code: the shell's parser gets four times the length of the line and four, which \<open>Sh.parser_sound\<close> shows to be enough;
  \<^verbatim>\<open>freewalk\<close>, which follows the tables in memory, gets three, the levels of a table that \<^verbatim>\<open>walk\<close> makes;
  the loop of the UART's interrupt handler gets the number of values that its status register has still to return, each pass
  taking one.  A loop over a string without a null byte does not end, which is the result \<open>None\<close> in \<open>Ulib\<close>.

  \<^bold>\<open>Not modelled.\<close>  The assembly files, \<^verbatim>\<open>start.c\<close> and \<^verbatim>\<open>main.c\<close>; \<^verbatim>\<open>usertrap\<close>, \<^verbatim>\<open>usertrapret\<close>, \<^verbatim>\<open>kerneltrap\<close>
  and \<^verbatim>\<open>devintr\<close>, which move values between control registers and the trampoline; \<^verbatim>\<open>plic.c\<close> and
  \<^verbatim>\<open>virtio_disk.c\<close>, which program devices that access memory on their own; \<^verbatim>\<open>userinit\<close> and \<^verbatim>\<open>forkret\<close>;
  \<^verbatim>\<open>runcmd\<close> of the shell, \<^verbatim>\<open>main\<close> of \<^verbatim>\<open>grep\<close> and the other user programs, which are sequences of system calls;
  \<^verbatim>\<open>user/umalloc.c\<close>; \<^verbatim>\<open>mkfs\<close>, a tool of the host; and the test programs.  Timing, caches and the translation look-aside buffer are not
  part of the model.
\<close>

end
